(* ===== verification/Kernel_Prelude.thy ===== *)
theory Kernel_Prelude
  imports Main "HOL-Library.Word"
begin

text \<open>
  Shared vocabulary of the development: the machine-word types the C sources use, the way a
  kernel function can fail to return, sequencing of fallible steps, and the generic lemmas on
  machine words that every component needs.

  A kernel function that does not return to its caller is modelled by a value of type
  \<open>kerror\<close>.  \<open>Assert_failed file line\<close> is the endless loop of \<open>error_check\<close> (src/src/debug.c),
  entered by a failed \<open>ASSERT\<close> at that file and line; \<open>Diverge\<close> is a loop of the source that
  never ends; \<open>Out_of_bounds\<close> and \<open>Null_deref\<close> are accesses that C leaves undefined, and
  \<open>Fault\<close> is an access the MMU refuses; \<open>Bad_vararg\<close> is a \<open>va_arg\<close> with no argument of the
  requested kind left, and \<open>Div_by_zero\<close> a division C leaves undefined.
\<close>

unbundle bit_operations_syntax

type_synonym u8 = "8 word"
type_synonym u16 = "16 word"
type_synonym u32 = "32 word"
type_synonym u64 = "64 word"
type_synonym i32 = "32 word"  \<comment> \<open>C \<open>int\<close>, read with \<open>sint\<close> where the sign matters\<close>
type_synonym i64 = "64 word"  \<comment> \<open>C \<open>int64_t\<close>, likewise\<close>

datatype kerror =
    Assert_failed string nat
  | Diverge
  | Out_of_bounds
  | Null_deref
  | Fault u64
  | Bad_vararg
  | Div_by_zero

type_synonym 'a res = "kerror + 'a"

named_theorems rbind_elims
named_theorems mem_simps
named_theorems layout_simps

section \<open>Sequencing of fallible steps\<close>

definition rbind :: "'a res \<Rightarrow> ('a \<Rightarrow> 'b res) \<Rightarrow> 'b res" where
  "rbind r f = (case r of Inl e \<Rightarrow> Inl e | Inr x \<Rightarrow> f x)"

definition kassert :: "bool \<Rightarrow> string \<Rightarrow> nat \<Rightarrow> 'a res \<Rightarrow> 'a res" where
  "kassert e file line k = (if e then k else Inl (Assert_failed file line))"

lemma rbind_Inl [simp]: "rbind (Inl e) f = Inl e"
  by (simp add: rbind_def)

lemma rbind_Inr [simp]: "rbind (Inr x) f = f x"
  by (simp add: rbind_def)

lemma rbind_eq_Inr [rbind_elims]: "rbind r f = Inr y \<longleftrightarrow> (\<exists>x. r = Inr x \<and> f x = Inr y)"
  by (cases r) simp_all

lemma rbind_cong [fundef_cong]:
  "r = r' \<Longrightarrow> (\<And>x. r' = Inr x \<Longrightarrow> f x = f' x) \<Longrightarrow> rbind r f = rbind r' f'"
  by (cases r') simp_all

lemma kassert_True [simp]: "kassert True file line k = k"
  by (simp add: kassert_def)

lemma kassert_False [simp]: "kassert False file line k = Inl (Assert_failed file line)"
  by (simp add: kassert_def)

lemma kassert_eq_Inr [rbind_elims]: "kassert e file line k = Inr y \<longleftrightarrow> e \<and> k = Inr y"
  by (simp add: kassert_def)

section \<open>Machine words\<close>

lemma unat_small: "n < 2 ^ 64 \<Longrightarrow> unat (of_nat n :: u64) = n"
  by (simp add: unat_of_nat take_bit_nat_eq_self)

lemma unat_plus_of_nat:
  fixes a :: "'a::len word"
  assumes "unat a + n < 2 ^ LENGTH('a)"
  shows "unat (a + of_nat n) = unat a + n"
  using assms by (simp add: unat_word_ariths take_bit_nat_eq_self unat_of_nat)

lemma unat_diff_le:
  fixes a b :: "'a::len word"
  assumes "b \<le> a"
  shows "unat (a - b) = unat a - unat b"
  using assms by (simp add: unat_sub_if' word_le_nat_alt)

text \<open>A power of two, as the C shift \<open>1UL << n\<close> produces it.\<close>

lemma unat_power_two:
  assumes "n < LENGTH('a)"
  shows "unat (2 ^ n :: 'a::len word) = 2 ^ n"
  using assms unat_of_nat [of "2 ^ n", where ?'a = 'a] by (simp add: take_bit_nat_eq_self)

text \<open>Exclusive-or with one bit adds or subtracts that bit.\<close>

lemma xor_power_two:
  fixes x :: "'a::len word"
  assumes "n < LENGTH('a)"
  shows "x XOR 2 ^ n = (if bit x n then x - 2 ^ n else x + 2 ^ n)"
proof -
  have "x XOR 2 ^ n = flip_bit n x"
    by (simp add: flip_bit_eq_xor)
  also have "\<dots> = (if bit x n then unset_bit n x else set_bit n x)"
    by (simp add: flip_bit_eq_if)
  also have "\<dots> = (if bit x n then x - 2 ^ n else x + 2 ^ n)"
    using assms by (simp add: unset_bit_eq set_bit_eq)
  finally show ?thesis .
qed

lemma bit_unat_iff_odd_div:
  fixes x :: "'a::len word"
  assumes "n < LENGTH('a)"
  shows "bit x n \<longleftrightarrow> odd (unat x div 2 ^ n)"
  using bit_unsigned_iff [of x n, where ?'a = nat] assms by (simp add: bit_iff_odd)

end
