(* ===== verification/Kernel_Memory.thy ===== *)
theory Kernel_Memory
  imports Kernel_Prelude
begin

text \<open>
  The memory the kernel addresses, one byte per 64-bit kernel virtual address, with the
  little-endian loads and stores the compiler emits for \<open>uint16_t\<close>, \<open>uint32_t\<close> and
  \<open>uint64_t\<close> lvalues, and the memory routines of src/src/liba.s (\<open>memset\<close>, \<open>memcpy\<close> with its
  alias \<open>memmove\<close>, \<open>memcmp\<close>) written as the byte loops of the assembly.

  The lemmas give the routines' contracts: a load reads back what the last overlapping store
  wrote and ignores stores that do not overlap; \<open>memset\<close> fills exactly its range; \<open>memcpy\<close>
  copies as if through a temporary buffer, whatever the overlap, because it picks the
  direction; \<open>memcmp\<close> decides equality of the ranges.
\<close>

type_synonym memory = "u64 \<Rightarrow> u8"

section \<open>Loads and stores\<close>

fun le_word :: "u8 list \<Rightarrow> 'a::len word" where
  "le_word [] = 0"
| "le_word (b # bs) = ucast b OR push_bit 8 (le_word bs)"

fun le_bytes :: "nat \<Rightarrow> 'a::len word \<Rightarrow> u8 list" where
  "le_bytes 0 w = []"
| "le_bytes (Suc n) w = ucast w # le_bytes n (drop_bit 8 w)"

fun load_bytes :: "memory \<Rightarrow> u64 \<Rightarrow> nat \<Rightarrow> u8 list" where
  "load_bytes m a 0 = []"
| "load_bytes m a (Suc n) = m a # load_bytes m (a + 1) n"

fun store_bytes :: "memory \<Rightarrow> u64 \<Rightarrow> u8 list \<Rightarrow> memory" where
  "store_bytes m a [] = m"
| "store_bytes m a (b # bs) = store_bytes (m(a := b)) (a + 1) bs"

definition load16 :: "memory \<Rightarrow> u64 \<Rightarrow> u16" where
  "load16 m a = le_word (load_bytes m a 2)"

definition load32 :: "memory \<Rightarrow> u64 \<Rightarrow> u32" where
  "load32 m a = le_word (load_bytes m a 4)"

definition load64 :: "memory \<Rightarrow> u64 \<Rightarrow> u64" where
  "load64 m a = le_word (load_bytes m a 8)"

definition store64 :: "memory \<Rightarrow> u64 \<Rightarrow> u64 \<Rightarrow> memory" where
  "store64 m a v = store_bytes m a (le_bytes 8 v)"

lemma load_bytes_numeral: "load_bytes m a (numeral k) = m a # load_bytes m (a + 1) (pred_numeral k)"
  by (simp add: numeral_eq_Suc)

section \<open>The memory routines of liba.s\<close>

primrec memset :: "memory \<Rightarrow> u64 \<Rightarrow> u8 \<Rightarrow> nat \<Rightarrow> memory" where
  "memset m dst value 0 = m"
| "memset m dst value (Suc n) = memset (m(dst := value)) (dst + 1) value n"

primrec copy_loop :: "memory \<Rightarrow> u64 \<Rightarrow> u64 \<Rightarrow> u64 \<Rightarrow> nat \<Rightarrow> memory" where
  "copy_loop m dst src step 0 = m"
| "copy_loop m dst src step (Suc n) =
     copy_loop (m(dst := m src)) (dst + step) (src + step) step n"

definition memcpy :: "memory \<Rightarrow> u64 \<Rightarrow> u64 \<Rightarrow> nat \<Rightarrow> memory" where
  "memcpy m dst src n =
     (if n = 0 then m
      else if dst \<le> src then copy_loop m dst src 1 n
      else if src + of_nat n \<le> dst then copy_loop m dst src 1 n
      else copy_loop m (dst + of_nat (n - 1)) (src + of_nat (n - 1)) (- 1) n)"

primrec memcmp :: "memory \<Rightarrow> u64 \<Rightarrow> u64 \<Rightarrow> nat \<Rightarrow> nat" where
  "memcmp m src1 src2 0 = 0"
| "memcmp m src1 src2 (Suc n) =
     (if m src1 = m src2 then memcmp m (src1 + 1) (src2 + 1) n else 1)"

section \<open>Byte ranges\<close>

definition in_range :: "u64 \<Rightarrow> nat \<Rightarrow> u64 \<Rightarrow> bool" where
  "in_range a n x \<longleftrightarrow> unat (x - a) < n"

definition apart :: "u64 \<Rightarrow> nat \<Rightarrow> u64 \<Rightarrow> nat \<Rightarrow> bool" where
  "apart a n b k \<longleftrightarrow> n \<le> unat (b - a) \<and> k \<le> unat (a - b)"

lemma apart_sym: "apart a n b k \<longleftrightarrow> apart b k a n"
  by (auto simp: apart_def)

lemma apart_disjoint: "apart a n b k \<Longrightarrow> in_range b k x \<Longrightarrow> \<not> in_range a n x"
  unfolding apart_def in_range_def by unat_arith

lemma apart_mono:
  "apart a n b k \<Longrightarrow> n' \<le> n \<Longrightarrow> k' \<le> k \<Longrightarrow> apart a n' b k'"
  by (auto simp: apart_def)

lemma unat_neg_of_nat:
  assumes "0 < x" "x < 2 ^ 64"
  shows "unat (- of_nat x :: u64) = 2 ^ 64 - x"
proof -
  have "(- of_nat x :: u64) = of_nat (2 ^ 64 - x)"
    using assms by (simp add: of_nat_diff)
  then show ?thesis using assms by (simp add: unat_of_nat take_bit_nat_eq_self del: of_nat_diff)
qed

lemma apart_of_nat:
  assumes "b = a + of_nat x" "0 < x" "x < 2 ^ 64"
  shows "apart a n b k \<longleftrightarrow> n \<le> x \<and> k \<le> 2 ^ 64 - x"
proof -
  have "a - b = - of_nat x" and "b - a = of_nat x"
    using assms(1) by simp_all
  then show ?thesis
    using assms(2,3) unat_neg_of_nat [OF assms(2,3)]
    by (simp add: apart_def unat_of_nat take_bit_nat_eq_self)
qed

lemma apart_before:
  assumes "unat a + n \<le> unat b" "unat b + k \<le> 2 ^ 64" "0 < n"
  shows "apart a n b k"
proof -
  have "b = a + of_nat (unat b - unat a)"
    using assms by (simp add: of_nat_diff)
  then show ?thesis
    using apart_of_nat [of b a "unat b - unat a" n k] assms unsigned_less [of b, where ?'a = nat]
    by auto
qed

lemma apart_sub:
  assumes "apart a n b k" "i + n' \<le> n" "j + k' \<le> k" "0 < n'" "0 < k'"
  shows "apart (a + of_nat i) n' (b + of_nat j) k'"
proof -
  define x where "x = unat (b - a)"
  have b: "b = a + of_nat x" by (simp add: x_def)
  have "n \<le> x" and x: "0 < x" "x < 2 ^ 64"
    using assms unsigned_less [of "b - a", where ?'a = nat] by (auto simp: apart_def x_def)
  have k: "k \<le> 2 ^ 64 - x" and "n \<le> x"
    using assms(1) apart_of_nat [OF b x] by auto
  have y: "0 < x + j - i" "x + j - i < 2 ^ 64" "b + of_nat j = a + of_nat i + of_nat (x + j - i)"
    using assms b x k \<open>n \<le> x\<close> by (auto simp: of_nat_diff)
  show ?thesis
    using apart_of_nat [OF y(3,1,2), of n' k'] assms k \<open>n \<le> x\<close> x by auto
qed
lemma not_in_range_0 [simp]: "\<not> in_range a 0 x"
  by (simp add: in_range_def)

lemma in_range_first [simp]: "in_range a (Suc n) a"
  by (simp add: in_range_def)

lemma unat_diff_Suc:
  fixes a x :: u64
  assumes "x \<noteq> a"
  shows "unat (x - a) = Suc (unat (x - (a + 1)))"
proof -
  have "x - a \<noteq> 0" using assms by simp
  then have "unat (x - a) = Suc (unat (x - a - 1))"
    by unat_arith
  then show ?thesis by (simp add: algebra_simps)
qed

lemma in_range_Suc: "in_range a (Suc n) x \<longleftrightarrow> x = a \<or> in_range (a + 1) n x"
proof (cases "x = a")
  case True
  then show ?thesis by simp
next
  case False
  then show ?thesis by (simp add: in_range_def unat_diff_Suc)
qed

lemma first_not_in_rest: "n < 2 ^ 64 \<Longrightarrow> \<not> in_range (a + 1) n a"
  by (simp add: in_range_def unsigned_minus_1_eq_mask mask_eq_exp_minus_1)

section \<open>Contracts of loads and stores\<close>

lemma length_load_bytes [simp]: "length (load_bytes m a n) = n"
  by (induction n arbitrary: a) auto

lemma length_le_bytes [simp]: "length (le_bytes n w) = n"
  by (induction n arbitrary: w) auto

lemma load_bytes_nth [simp]: "i < n \<Longrightarrow> load_bytes m a n ! i = m (a + of_nat i)"
  by (induction n arbitrary: a i) (auto simp: nth_Cons add.assoc split: nat.splits)

lemma load_bytes_cong:
  "(\<And>x. in_range a n x \<Longrightarrow> m x = m' x) \<Longrightarrow> load_bytes m a n = load_bytes m' a n"
  by (induction n arbitrary: a) (auto simp: in_range_Suc)

lemma store_bytes_outside:
  "length bs < 2 ^ 64 \<Longrightarrow> \<not> in_range a (length bs) x \<Longrightarrow> store_bytes m a bs x = m x"
  by (induction bs arbitrary: a m) (auto simp: in_range_Suc)

lemma load_store_bytes_same:
  "length bs < 2 ^ 64 \<Longrightarrow> load_bytes (store_bytes m a bs) a (length bs) = bs"
  by (induction bs arbitrary: a m) (auto simp: store_bytes_outside first_not_in_rest)

lemma load_store_bytes_apart:
  assumes "length bs < 2 ^ 64" and "apart a (length bs) b n"
  shows "load_bytes (store_bytes m a bs) b n = load_bytes m b n"
  by (rule load_bytes_cong) (use assms in \<open>auto simp: store_bytes_outside dest: apart_disjoint\<close>)

lemma le_word_le_bytes:
  fixes v :: "'a::len word"
  shows "le_word (le_bytes n v) = take_bit (8 * n) v"
proof (induction n arbitrary: v)
  case 0
  then show ?case by simp
next
  case (Suc n)
  show ?case
    by (rule bit_word_eqI) (auto simp: Suc.IH bit_simps)
qed

lemma load64_store64_same [simp, mem_simps]: "load64 (store64 m a v) a = v"
  using load_store_bytes_same [of "le_bytes 8 v" m a]
  by (simp add: load64_def store64_def le_word_le_bytes take_bit_word_eq_self)

lemma load64_store64_apart [mem_simps]:
  "apart a 8 b 8 \<Longrightarrow> load64 (store64 m a v) b = load64 m b"
  by (simp add: load64_def store64_def load_store_bytes_apart)

lemma store64_outside [mem_simps]: "\<not> in_range a 8 x \<Longrightarrow> store64 m a v x = m x"
  by (simp add: store64_def store_bytes_outside)

lemma load64_cong: "(\<And>x. in_range a 8 x \<Longrightarrow> m x = m' x) \<Longrightarrow> load64 m a = load64 m' a"
  unfolding load64_def by (rule arg_cong [where f = le_word], rule load_bytes_cong) auto

text \<open>Ranges that do not wrap around.\<close>

lemma in_range_bounds:
  assumes "unat a + n \<le> 2 ^ 64"
  shows "in_range a n x \<longleftrightarrow> unat a \<le> unat x \<and> unat x < unat a + n"
proof -
  have "unat (x - a) = (if unat a \<le> unat x then unat x - unat a else unat x + 2 ^ 64 - unat a)"
    using unat_sub_if' [of x a] by simp
  then show ?thesis using assms unsigned_less [of x, where ?'a = nat] by (auto simp: in_range_def)
qed

section \<open>Contracts of the memory routines\<close>

text \<open>\<open>memset\<close> fills exactly the addressed range.\<close>

lemma memset_apply:
  "n < 2 ^ 64 \<Longrightarrow> memset m dst v n x = (if in_range dst n x then v else m x)"
  by (induction n arbitrary: m dst)
     (auto simp: in_range_Suc first_not_in_rest)

lemma load64_memset_apart [mem_simps]:
  "n < 2 ^ 64 \<Longrightarrow> apart dst n b 8 \<Longrightarrow> load64 (memset m dst v n) b = load64 m b"
  by (rule load64_cong) (auto simp: memset_apply dest: apart_disjoint)

lemma load_bytes_const:
  "(\<And>x. in_range a n x \<Longrightarrow> m x = 0) \<Longrightarrow> le_word (load_bytes m a n) = (0 :: u64)"
  by (induction n arbitrary: a) (auto simp: in_range_Suc)

lemma load64_zero: "load64 (\<lambda>_. 0) a = 0"
  by (simp add: load64_def load_bytes_const)

lemma load64_memset_inside [mem_simps]:
  assumes "n < 2 ^ 64" and "unat (b - dst) + 8 \<le> n"
  shows "load64 (memset m dst 0 n) b = 0"
  unfolding load64_def
proof (rule load_bytes_const)
  fix x
  assume "in_range b 8 x"
  then have "in_range dst n x"
    using assms unfolding in_range_def by unat_arith
  then show "memset m dst 0 n x = 0"
    using assms(1) by (simp add: memset_apply)
qed

text \<open>
  A forward copy is a simultaneous copy unless the destination starts inside the source; a
  backward copy is one unless the source starts inside the destination.
\<close>

lemma copy_forward:
  assumes "n < 2 ^ 64" and "dst = src \<or> n \<le> unat (dst - src)"
  shows "copy_loop m dst src 1 n x = (if in_range dst n x then m (src + (x - dst)) else m x)"
  using assms
proof (induction n arbitrary: m dst src)
  case 0
  then show ?case by simp
next
  case (Suc n)
  let ?m = "m(dst := m src)"
  have IH: "copy_loop ?m (dst + 1) (src + 1) 1 n x =
      (if in_range (dst + 1) n x then ?m (src + (x - dst)) else ?m x)"
  proof -
    have "dst + 1 = src + 1 \<or> n \<le> unat (dst + 1 - (src + 1))" and "n < 2 ^ 64"
      using Suc.prems by auto
    moreover have "src + 1 + (x - (dst + 1)) = src + (x - dst)" by simp
    ultimately show ?thesis using Suc.IH [of "dst + 1" "src + 1" ?m] by (simp only:)
  qed
  show ?case
  proof (cases "in_range (dst + 1) n x")
    case True
    have "src + (x - dst) = dst \<Longrightarrow> x - dst = dst - src"
      by (simp add: algebra_simps)
    moreover have "unat (x - dst) < Suc n"
      using True in_range_Suc [of dst n x] by (simp add: in_range_def)
    ultimately have "?m (src + (x - dst)) = m (src + (x - dst))"
      using Suc.prems by auto
    with True IH show ?thesis by (simp add: in_range_Suc)
  next
    case False
    with IH show ?thesis by (auto simp: in_range_Suc)
  qed
qed

lemma in_range_split:
  assumes "in_range (d + of_nat i) k x" "i + k \<le> n" "n < 2 ^ 64"
  shows "in_range d n x"
proof -
  have "unat (x - (d + of_nat i) + of_nat i) = unat (x - (d + of_nat i)) + i"
    using assms by (intro unat_plus_of_nat) (simp add: in_range_def)
  then show ?thesis using assms(1,2) by (simp add: in_range_def)
qed

lemma in_range_prefix: "in_range d i x \<Longrightarrow> i \<le> n \<Longrightarrow> in_range d n x"
  by (simp add: in_range_def)

lemma in_range_Suc_last:
  assumes "n < 2 ^ 64"
  shows "in_range a (Suc n) x \<longleftrightarrow> x = a + of_nat n \<or> in_range a n x"
proof -
  have "unat (x - a) = n \<longleftrightarrow> x = a + of_nat n"
    using assms by (auto simp: unat_of_nat take_bit_nat_eq_self)
  then show ?thesis by (auto simp: in_range_def)
qed

lemma copy_backward:
  assumes "n < 2 ^ 64" and "dst = src \<or> n \<le> unat (src - dst)"
  shows "copy_loop m (dst + of_nat n - 1) (src + of_nat n - 1) (- 1) n x =
    (if in_range dst n x then m (src + (x - dst)) else m x)"
  using assms
proof (induction n arbitrary: m)
  case 0
  then show ?case by simp
next
  case (Suc n)
  let ?m = "m(dst + of_nat n := m (src + of_nat n))"
  have IH: "copy_loop ?m (dst + of_nat n - 1) (src + of_nat n - 1) (- 1) n x =
      (if in_range dst n x then ?m (src + (x - dst)) else ?m x)"
  proof (rule Suc.IH)
    show "n < 2 ^ 64" and "dst = src \<or> n \<le> unat (src - dst)"
      using Suc.prems by auto
  qed
  have last: "in_range dst (Suc n) x \<longleftrightarrow> x = dst + of_nat n \<or> in_range dst n x"
    using Suc.prems by (intro in_range_Suc_last) simp
  have "?m (src + (x - dst)) = m (src + (x - dst))" if x: "in_range dst n x"
  proof (cases "src + (x - dst) = dst + of_nat n \<and> dst \<noteq> src")
    case True
    then have "src - dst = of_nat n - (x - dst)"
      by (simp add: algebra_simps)
    moreover have "unat (of_nat n - (x - dst) :: u64) \<le> n"
      using x Suc.prems by (simp add: in_range_def unat_sub_if' unat_of_nat take_bit_nat_eq_self)
    ultimately have "unat (src - dst) \<le> n" by (simp only:)
    with True Suc.prems(2) show ?thesis by linarith
  next
    case False
    then show ?thesis by auto
  qed
  with IH last show ?case by (auto simp: algebra_simps)
qed

lemma memcpy_apply:
  assumes "unat src + n \<le> 2 ^ 64" and "unat dst + n \<le> 2 ^ 64" and "n < 2 ^ 64"
  shows "memcpy m dst src n x = (if in_range dst n x then m (src + (x - dst)) else m x)"
proof -
  consider "n = 0" | "n \<noteq> 0" "dst \<le> src" | "n \<noteq> 0" "\<not> dst \<le> src" "src + of_nat n \<le> dst"
    | "n \<noteq> 0" "\<not> dst \<le> src" "\<not> src + of_nat n \<le> dst" by blast
  then show ?thesis
  proof cases
    case 1
    then show ?thesis by (simp add: memcpy_def)
  next
    case 2
    then have "dst = src \<or> n \<le> unat (dst - src)"
      using assms by (auto simp: unat_sub_if' word_le_nat_alt word_unat_eq_iff)
    with 2 show ?thesis using assms(3) by (simp add: memcpy_def copy_forward)
  next
    case 3
    then have "unat (src + of_nat n) = unat src + n"
      using assms by (intro unat_plus_of_nat) (simp add: word_le_nat_alt)
    with 3 have "n \<le> unat (dst - src)"
      by (auto simp: unat_sub_if' word_le_nat_alt)
    with 3 show ?thesis using assms(3) by (simp add: memcpy_def copy_forward)
  next
    case 4
    then have "n \<le> unat (src - dst)"
      using assms by (auto simp: unat_sub_if' word_le_nat_alt)
    with 4 show ?thesis
      using assms(3) copy_backward [of n dst src m x]
      by (simp add: memcpy_def of_nat_diff algebra_simps)
  qed
qed

lemma load_bytes_memcpy:
  assumes "unat src + n \<le> 2 ^ 64" and "unat dst + n \<le> 2 ^ 64" and "n < 2 ^ 64"
  shows "load_bytes (memcpy m dst src n) dst n = load_bytes m src n"
proof -
  have "k \<le> n \<Longrightarrow> load_bytes (memcpy m dst src n) (dst + of_nat (n - k)) k =
      load_bytes m (src + of_nat (n - k)) k" for k
  proof (induction k)
    case 0
    then show ?case by simp
  next
    case (Suc k)
    then have "unat (of_nat (n - Suc k) :: u64) < n"
      using assms(3) by (simp add: unat_of_nat take_bit_nat_eq_self del: of_nat_diff)
    then have "memcpy m dst src n (dst + of_nat (n - Suc k)) = m (src + of_nat (n - Suc k))"
      by (subst memcpy_apply [OF assms]) (simp add: in_range_def)
    moreover have "of_nat (n - Suc k) + 1 = (of_nat (n - k) :: u64)"
      using Suc.prems by (metis Suc_diff_Suc Suc_le_eq add.commute of_nat_Suc)
    ultimately show ?case using Suc by (simp add: add.assoc)
  qed
  from this [of n] show ?thesis by simp
qed

lemma memcmp_eq_0_iff: "memcmp m a b n = 0 \<longleftrightarrow> load_bytes m a n = load_bytes m b n"
  by (induction n arbitrary: a b) auto

lemma memcmp_range: "memcmp m a b n \<le> 1"
  by (induction n arbitrary: a b) auto

section \<open>Properties\<close>

text \<open>
  \<open>memcpy\<close> is correct on overlapping blocks.  For every source and destination that do not run
  past the top of the address space, in either order and overlapping or not, the destination
  holds afterwards the bytes the source held before, and no other byte of memory changes.
\<close>

theorem memcpy_correct:
  assumes "unat src + n \<le> 2 ^ 64" "unat dst + n \<le> 2 ^ 64" "n < 2 ^ 64"
  shows "load_bytes (memcpy m dst src n) dst n = load_bytes m src n \<and>
    (\<forall>x. \<not> in_range dst n x \<longrightarrow> memcpy m dst src n x = m x)"
  using load_bytes_memcpy [OF assms] memcpy_apply [OF assms] by simp

theorem memcpy_correct_witness:
  "load_bytes (memcpy (\<lambda>a. ucast a) 0x1002 0x1000 3) 0x1002 3 = [0, 1, 2]"
proof -
  have "load_bytes (memcpy (\<lambda>a. ucast a) 0x1002 0x1000 3) 0x1002 3 = load_bytes (\<lambda>a. ucast a) 0x1000 3"
    using memcpy_correct [of "0x1000" 3 "0x1002" "\<lambda>a. ucast a"] by simp
  also have "\<dots> = [0, 1, 2]" by code_simp
  finally show ?thesis .
qed

end
