(* ===== verification/Kernel_State.thy ===== *)
theory Kernel_State
  imports Kernel_Memory
begin

text \<open>
  The state every kernel function works on: byte memory, the bytes sent to the UART data
  register so far, the spin locks, and the two linker symbols the C code takes the address of.
  Components with static data of their own extend this record, so that a lower component's
  operations apply to the extended state as they are.

  \<open>spin_lock\<close> and \<open>spin_unlock\<close> (src/src/liba.s) appear here as one core sees them: taking a
  lock that is already held never returns, releasing writes zero unconditionally.  Their
  behaviour under interleaving is the subject of theory \<open>Spinlock\<close>.
\<close>

datatype lock = Print_lock | List_lock | Pid_lock | Process_lock | Allocator_lock

record kernel =
  mem :: memory
  console :: string
  locks :: "lock \<Rightarrow> bool"
  sym_end :: u64
  sym_allocator :: u64

definition spin_lock :: "lock \<Rightarrow> 'a kernel_scheme \<Rightarrow> 'a kernel_scheme res" where
  "spin_lock l s = (if locks s l then Inl Diverge else Inr (s\<lparr>locks := (locks s)(l := True)\<rparr>))"

definition spin_unlock :: "lock \<Rightarrow> 'a kernel_scheme \<Rightarrow> 'a kernel_scheme" where
  "spin_unlock l s = s\<lparr>locks := (locks s)(l := False)\<rparr>"

lemma spin_lock_free [simp]: "\<not> locks s l \<Longrightarrow> spin_lock l s = Inr (s\<lparr>locks := (locks s)(l := True)\<rparr>)"
  by (simp add: spin_lock_def)

lemma spin_lock_eq_Inr [rbind_elims]:
  "spin_lock l s = Inr t \<longleftrightarrow> \<not> locks s l \<and> t = s\<lparr>locks := (locks s)(l := True)\<rparr>"
  by (auto simp: spin_lock_def)

lemma spin_unlock_lock [simp]:
  "\<not> locks s l \<Longrightarrow> spin_unlock l (s\<lparr>locks := (locks s)(l := True)\<rparr>) = s"
  by (simp add: spin_unlock_def fun_upd_idem)

lemma spin_unlock_sel [simp]:
  "mem (spin_unlock l s) = mem s" "console (spin_unlock l s) = console s"
  "sym_end (spin_unlock l s) = sym_end s" "sym_allocator (spin_unlock l s) = sym_allocator s"
  by (simp_all add: spin_unlock_def)

lemma locks_spin_unlock [simp]: "locks (spin_unlock l s) = (locks s)(l := False)"
  by (simp add: spin_unlock_def)

end
