(* ===== verification/List_Node.thy ===== *)
theory List_Node
  imports Kernel_State
begin

text \<open>
  The circular doubly linked lists of src/src/memory.c (\<open>list_init\<close>, \<open>list_add\<close>, \<open>list_del\<close>,
  \<open>list_empty\<close>), operating on \<open>list_node_t\<close> objects in kernel memory: \<open>prev\<close> at offset 0 and
  \<open>next\<close> at offset 8.  A node is named by its address; the head is a node like the others, and
  the nodes of the buddy allocator's lists are the free blocks themselves.

  \<open>dll m h xs\<close> says that memory \<open>m\<close> holds at head \<open>h\<close> a well-formed list with nodes \<open>xs\<close>.  The
  lemmas show that each operation implements the corresponding operation on \<open>xs\<close> and leaves
  every list on other nodes alone, that a walk along \<open>next\<close> returns, and what it returns.
\<close>

section \<open>Nodes and operations\<close>

definition prev_of :: "memory \<Rightarrow> u64 \<Rightarrow> u64" where
  "prev_of m node = load64 m node"

definition next_of :: "memory \<Rightarrow> u64 \<Rightarrow> u64" where
  "next_of m node = load64 m (node + 8)"

definition set_prev :: "memory \<Rightarrow> u64 \<Rightarrow> u64 \<Rightarrow> memory" where
  "set_prev m node p = store64 m node p"

definition set_next :: "memory \<Rightarrow> u64 \<Rightarrow> u64 \<Rightarrow> memory" where
  "set_next m node p = store64 m (node + 8) p"

definition list_init :: "memory \<Rightarrow> u64 \<Rightarrow> memory" where
  "list_init m head = (let m = set_next m head head in set_prev m head head)"

definition list_add :: "memory \<Rightarrow> u64 \<Rightarrow> u64 \<Rightarrow> memory" where
  "list_add m head node =
     (let m = set_next m node (next_of m head);
          m = set_prev m node head;
          m = set_prev m (next_of m head) node
      in set_next m head node)"

definition list_del :: "memory \<Rightarrow> u64 \<Rightarrow> memory" where
  "list_del m node =
     (let m = set_next m (prev_of m node) (next_of m node)
      in set_prev m (next_of m node) (prev_of m node))"

definition list_empty :: "memory \<Rightarrow> u64 \<Rightarrow> bool" where
  "list_empty m head \<longleftrightarrow> next_of m head = head"

text \<open>
  The search loop of \<open>buddy_free\<close>: walk \<open>next\<close> from \<open>cur\<close> until \<open>head\<close> comes round again or
  \<open>target\<close> is met.  On a list that never leads back to the head the walk does not end.
\<close>

partial_function (option) list_search :: "memory \<Rightarrow> u64 \<Rightarrow> u64 \<Rightarrow> u64 \<Rightarrow> bool option" where
  "list_search m head target cur =
     (if cur = head then Some False
      else if cur = target then Some True
      else list_search m head target (next_of m cur))"

section \<open>Separate nodes\<close>

definition sep :: "u64 \<Rightarrow> u64 \<Rightarrow> bool" where
  "sep a b \<longleftrightarrow> apart a 16 b 16"

definition separated :: "u64 set \<Rightarrow> bool" where
  "separated S \<longleftrightarrow> (\<forall>a \<in> S. \<forall>b \<in> S. a \<noteq> b \<longrightarrow> sep a b)"

lemma sep_sym: "sep a b \<longleftrightarrow> sep b a"
  by (simp add: sep_def apart_sym)

lemma separatedD: "separated S \<Longrightarrow> a \<in> S \<Longrightarrow> b \<in> S \<Longrightarrow> a \<noteq> b \<Longrightarrow> sep a b"
  by (simp add: separated_def)

lemma separated_subset: "separated S \<Longrightarrow> T \<subseteq> S \<Longrightarrow> separated T"
  by (auto simp: separated_def)

lemma apart_fields:
  assumes "sep a b"
  shows "apart a 8 b 8" "apart (a + 8) 8 b 8" "apart a 8 (b + 8) 8" "apart (a + 8) 8 (b + 8) 8"
  using assms apart_sub [of a 16 b 16 0 8 0 8] apart_sub [of a 16 b 16 8 8 0 8]
    apart_sub [of a 16 b 16 0 8 8 8] apart_sub [of a 16 b 16 8 8 8 8]
  by (simp_all add: sep_def)

lemma apart_own_fields: "apart a 8 (a + 8) 8" "apart (a + 8) 8 a 8"
  by (simp_all add: apart_def)

lemma node_same [simp]:
  "next_of (set_next m a v) a = v" "prev_of (set_prev m a v) a = v"
  "next_of (set_prev m a v) a = next_of m a" "prev_of (set_next m a v) a = prev_of m a"
  by (simp_all add: next_of_def prev_of_def set_next_def set_prev_def
      load64_store64_apart apart_own_fields)

lemma node_other:
  assumes "sep a b"
  shows "next_of (set_next m a v) b = next_of m b" "prev_of (set_prev m a v) b = prev_of m b"
    "next_of (set_prev m a v) b = next_of m b" "prev_of (set_next m a v) b = prev_of m b"
  by (simp_all add: next_of_def prev_of_def set_next_def set_prev_def
      load64_store64_apart apart_fields [OF assms])

lemma node_upd:
  assumes "separated S" "a \<in> S" "b \<in> S"
  shows "next_of (set_next m a v) b = (if b = a then v else next_of m b)"
    and "prev_of (set_prev m a v) b = (if b = a then v else prev_of m b)"
    and "next_of (set_prev m a v) b = next_of m b"
    and "prev_of (set_next m a v) b = prev_of m b"
  by (cases "a = b"; simp add: node_other separatedD [OF assms])+

section \<open>Well-formed lists\<close>

fun linked :: "memory \<Rightarrow> u64 list \<Rightarrow> bool" where
  "linked m (a # b # xs) \<longleftrightarrow> next_of m a = b \<and> prev_of m b = a \<and> linked m (b # xs)"
| "linked m _ \<longleftrightarrow> True"

definition dll :: "memory \<Rightarrow> u64 \<Rightarrow> u64 list \<Rightarrow> bool" where
  "dll m h xs \<longleftrightarrow> linked m (h # xs @ [h]) \<and> distinct (h # xs)"

lemma linked_append:
  "linked m (xs @ a # b # ys) \<longleftrightarrow>
     linked m (xs @ [a]) \<and> next_of m a = b \<and> prev_of m b = a \<and> linked m (b # ys)"
proof (induction xs)
  case Nil
  then show ?case by simp
next
  case (Cons x xs)
  then show ?case by (cases xs) auto
qed

lemma linked_cong:
  assumes "\<And>a. a \<in> set (butlast xs) \<Longrightarrow> next_of m' a = next_of m a"
    and "\<And>a. a \<in> set (tl xs) \<Longrightarrow> prev_of m' a = prev_of m a"
  shows "linked m' xs = linked m xs"
  using assms by (induction m xs rule: linked.induct) (auto split: if_splits)

lemma dll_cong:
  assumes "\<And>a. a \<in> set (h # xs) \<Longrightarrow> next_of m' a = next_of m a"
    and "\<And>a. a \<in> set (h # xs) \<Longrightarrow> prev_of m' a = prev_of m a"
  shows "dll m' h xs = dll m h xs"
proof -
  have "linked m' (h # xs @ [h]) = linked m (h # xs @ [h])"
    by (rule linked_cong) (use assms in \<open>auto simp: butlast_append split: if_splits\<close>)
  then show ?thesis by (simp add: dll_def)
qed

lemma dll_distinct: "dll m h xs \<Longrightarrow> distinct xs \<and> h \<notin> set xs"
  by (simp add: dll_def)

lemma dll_first: "dll m h xs \<Longrightarrow> next_of m h = (if xs = [] then h else hd xs)"
  by (cases xs) (auto simp: dll_def)

lemma list_empty_dll [simp]: "dll m h xs \<Longrightarrow> list_empty m h \<longleftrightarrow> xs = []"
  by (cases xs) (auto simp: list_empty_def dll_first dll_def)

lemma list_init_dll: "dll (list_init m h) h []"
  by (simp add: dll_def list_init_def)

section \<open>The operations on well-formed lists\<close>

lemma list_add_dll:
  assumes "dll m h xs" "separated S" "set (h # n # xs) \<subseteq> S" "n \<notin> set (h # xs)"
  shows "dll (list_add m h n) h (n # xs)"
proof (cases xs)
  case Nil
  have "next_of m h = h" "n \<noteq> h" "n \<in> S" "h \<in> S"
    using assms Nil by (auto simp: dll_first)
  then show ?thesis
    using Nil by (simp add: dll_def list_add_def Let_def node_upd [OF assms(2)])
next
  case (Cons y ys)
  have y: "next_of m h = y" and nodes: "n \<in> S" "h \<in> S" "y \<in> S"
    using assms Cons by (auto simp: dll_def)
  have ne: "n \<noteq> h" "n \<noteq> y" "y \<noteq> h"
    using assms Cons by (auto simp: dll_def)
  have "linked (list_add m h n) (y # ys @ [h]) = linked m (y # ys @ [h])"
    by (rule linked_cong)
       (use assms Cons y nodes ne in \<open>auto simp: list_add_def Let_def dll_def butlast_append
          node_upd [OF assms(2)] subset_iff\<close>)
  then show ?thesis
    using assms Cons y nodes ne
    by (auto simp: dll_def list_add_def Let_def node_upd [OF assms(2)])
qed

lemma list_add_other:
  assumes "dll m h xs" "separated S" "set (h # n # xs) \<subseteq> S" "a \<in> S" "a \<notin> set (h # n # xs)"
  shows "next_of (list_add m h n) a = next_of m a" "prev_of (list_add m h n) a = prev_of m a"
proof -
  have "next_of m h \<in> set (h # xs)"
    using assms(1) by (auto simp: dll_first)
  then show "next_of (list_add m h n) a = next_of m a" "prev_of (list_add m h n) a = prev_of m a"
    using assms by (auto simp: list_add_def Let_def node_upd [OF assms(2)] subset_iff)
qed

text \<open>A node on the list and its two neighbours, as positions on the closed chain.\<close>

lemma dll_split:
  assumes "dll m h xs" "n \<in> set xs"
  obtains ps p q qs where "h # xs @ [h] = ps @ p # n # q # qs"
    "h # remove1 n xs @ [h] = ps @ p # q # qs" "prev_of m n = p" "next_of m n = q"
    "distinct (ps @ [p, n] @ butlast (q # qs))" "distinct (tl (ps @ [p]) @ [n, q] @ qs)"
proof -
  obtain as bs where xs: "xs = as @ n # bs" and na: "n \<notin> set as"
    using assms(2) by (meson split_list_first)
  define ps where "ps = butlast (h # as)"
  define p where "p = last (h # as)"
  have p: "h # as = ps @ [p]" unfolding ps_def p_def by simp
  define q where "q = hd (bs @ [h])"
  define qs where "qs = tl (bs @ [h])"
  have q: "bs @ [h] = q # qs" unfolding q_def qs_def by simp
  have chain: "h # xs @ [h] = (h # as) @ n # bs @ [h]" by (simp add: xs)
  then have eq: "h # xs @ [h] = ps @ p # n # q # qs" by (simp only: p q) simp
  have "h # remove1 n xs @ [h] = (h # as) @ bs @ [h]"
    using na by (simp add: xs remove1_append)
  then have rem: "h # remove1 n xs @ [h] = ps @ p # q # qs" by (simp only: p q) simp
  have nb: "prev_of m n = p" "next_of m n = q"
    using assms(1) by (auto simp: dll_def eq linked_append)
  have d: "distinct (h # as @ n # bs)"
    using assms(1) by (simp add: dll_def xs)
  have "ps @ [p, n] @ butlast (q # qs) = (ps @ [p]) @ n # butlast (q # qs)" by simp
  also have "\<dots> = h # as @ n # bs" unfolding p [symmetric] q [symmetric] by simp
  finally have d1: "distinct (ps @ [p, n] @ butlast (q # qs))" using d by (simp only:)
  have "tl (ps @ [p]) @ [n, q] @ qs = tl (ps @ [p]) @ n # q # qs" by simp
  also have "\<dots> = as @ n # bs @ [h]" unfolding p [symmetric] q [symmetric] by simp
  finally have "distinct (tl (ps @ [p]) @ [n, q] @ qs)" using d by auto
  then show thesis using that eq rem nb d1 by blast
qed

lemma linked_relink:
  assumes "linked m (ps @ [p])" "linked m (q # qs)" "separated S" "set (ps @ p # q # qs) \<subseteq> S"
    and "p \<notin> set ps" "p \<notin> set (butlast (q # qs))" "q \<notin> set (tl (ps @ [p]))" "q \<notin> set qs"
  shows "linked (set_prev (set_next m p q) q p) (ps @ p # q # qs)"
proof -
  let ?m = "set_prev (set_next m p q) q p"
  have S: "p \<in> S" "q \<in> S" "set ps \<subseteq> S" "set qs \<subseteq> S" using assms(4) by auto
  have nxt: "next_of ?m a = (if a = p then q else next_of m a)" if "a \<in> S" for a
    using that S by (simp add: node_upd [OF assms(3)])
  have prv: "prev_of ?m a = (if a = q then p else prev_of m a)" if "a \<in> S" for a
    using that S by (simp add: node_upd [OF assms(3)])
  have tl: "set (tl (ps @ [p])) \<subseteq> S" using S by (cases ps) auto
  have bl: "set (butlast (q # qs)) \<subseteq> S" using S by (auto dest: in_set_butlastD)
  have "linked ?m (ps @ [p]) = linked m (ps @ [p])"
    by (rule linked_cong) (use nxt prv tl S assms(5,7) in auto)
  moreover have "linked ?m (q # qs) = linked m (q # qs)"
    by (rule linked_cong) (use nxt prv bl S assms(6,8) in auto)
  ultimately show ?thesis
    using assms(1,2) S nxt prv by (simp add: linked_append)
qed

lemma list_del_dll:
  assumes "dll m h xs" "separated S" "set (h # xs) \<subseteq> S" "n \<in> set xs"
  shows "dll (list_del m n) h (remove1 n xs)"
proof -
  obtain ps p q qs where sp: "h # xs @ [h] = ps @ p # n # q # qs"
      "h # remove1 n xs @ [h] = ps @ p # q # qs" "prev_of m n = p" "next_of m n = q"
      "distinct (ps @ [p, n] @ butlast (q # qs))" "distinct (tl (ps @ [p]) @ [n, q] @ qs)"
    using dll_split [OF assms(1,4)] .
  have sub: "set (ps @ p # n # q # qs) \<subseteq> S"
    unfolding sp(1) [symmetric] using assms(3) by auto
  have "n \<noteq> p" using sp(5) by auto
  then have "list_del m n = set_prev (set_next m p q) q p"
    using sub sp(3,4) by (simp add: list_del_def Let_def node_upd [OF assms(2)])
  moreover have "linked m (ps @ [p])" "linked m (q # qs)"
    using assms(1) by (simp_all add: dll_def sp(1) linked_append)
  moreover have "set (ps @ p # q # qs) \<subseteq> S" using sub by auto
  ultimately have "linked (list_del m n) (ps @ p # q # qs)"
    using linked_relink [of m ps p q qs S] assms(2) sp(5,6) by auto
  moreover have "distinct (h # remove1 n xs)"
    using assms(1) by (auto simp: dll_def dest: notin_set_remove1)
  ultimately show ?thesis by (simp add: dll_def sp(2))
qed

lemma dll_neighbours:
  assumes "dll m h xs" "n \<in> set xs"
  shows "next_of m n \<in> set (h # xs)" "prev_of m n \<in> set (h # xs)"
proof -
  obtain ps p q qs where "h # xs @ [h] = ps @ p # n # q # qs" "prev_of m n = p" "next_of m n = q"
    using dll_split [OF assms] by metis
  then have "next_of m n \<in> set (h # xs @ [h])" "prev_of m n \<in> set (h # xs @ [h])" by simp_all
  then show "next_of m n \<in> set (h # xs)" "prev_of m n \<in> set (h # xs)" by auto
qed

lemma list_del_other:
  assumes "dll m h xs" "separated S" "set (h # xs) \<subseteq> S" "n \<in> set xs" "a \<in> S" "a \<notin> set (h # xs)"
  shows "next_of (list_del m n) a = next_of m a" "prev_of (list_del m n) a = prev_of m a"
proof -
  note nb = dll_neighbours [OF assms(1,4)]
  then have "next_of m n \<in> S" "prev_of m n \<in> S" "n \<in> S"
    using assms(3,4) by auto
  then show "next_of (list_del m n) a = next_of m a" "prev_of (list_del m n) a = prev_of m a"
    using assms nb by (auto simp: list_del_def Let_def node_upd [OF assms(2)] subset_iff)
qed

lemma set_node_outside:
  assumes "\<not> in_range a 16 x"
  shows "set_next m a v x = m x" "set_prev m a v x = m x"
proof -
  have "\<not> in_range a 8 x" using assms by (simp add: in_range_def)
  moreover have "\<not> in_range (a + 8) 8 x"
  proof
    assume "in_range (a + 8) 8 x"
    moreover have "x - a = (x - (a + 8)) + of_nat 8" by simp
    ultimately have "unat (x - a) = unat (x - (a + 8)) + 8"
      using unat_plus_of_nat [of "x - (a + 8)" 8] by (simp only: in_range_def) simp
    with \<open>in_range (a + 8) 8 x\<close> assms show False by (simp add: in_range_def)
  qed
  ultimately show "set_next m a v x = m x" "set_prev m a v x = m x"
    by (simp_all add: set_next_def set_prev_def store64_outside)
qed

lemma list_add_frame:
  assumes "dll m h xs" "separated S" "set (h # n # xs) \<subseteq> S" "n \<noteq> h" "\<forall>a \<in> S. \<not> in_range a 16 x"
  shows "list_add m h n x = m x"
proof -
  have "next_of m h \<in> S" "h \<in> S" "n \<in> S"
    using assms(1,3) by (auto simp: dll_first)
  then show ?thesis
    using assms(4,5) by (simp add: list_add_def Let_def set_node_outside node_upd [OF assms(2)])
qed

lemma list_del_frame:
  assumes "dll m h xs" "separated S" "set (h # xs) \<subseteq> S" "n \<in> set xs" "\<forall>a \<in> S. \<not> in_range a 16 x"
  shows "list_del m n x = m x"
proof -
  have S: "n \<in> S" "next_of m n \<in> S" "prev_of m n \<in> S"
    using dll_neighbours [OF assms(1,4)] assms(3,4) by auto
  have "next_of (set_next m (prev_of m n) (next_of m n)) n \<in> S"
    using S by (simp add: node_upd [OF assms(2)])
  then show ?thesis
    using assms(5) S by (simp add: list_del_def Let_def set_node_outside)
qed

lemma linked_unique:
  "linked m (ys @ [h]) \<Longrightarrow> linked m (zs @ [h]) \<Longrightarrow> h \<notin> set ys \<Longrightarrow> h \<notin> set zs \<Longrightarrow>
   hd (ys @ [h]) = hd (zs @ [h]) \<Longrightarrow> ys = zs"
proof (induction ys arbitrary: zs)
  case Nil
  then show ?case by (cases zs) auto
next
  case (Cons y ys)
  then obtain zs' where zs: "zs = y # zs'" by (cases zs) auto
  have "linked m (ys @ [h])" "next_of m y = hd (ys @ [h])"
    using Cons.prems(1) by (cases ys; simp)+
  moreover have "linked m (zs' @ [h])" "next_of m y = hd (zs' @ [h])"
    using Cons.prems(2) zs by (cases zs'; simp)+
  ultimately show ?case using Cons.IH [of zs'] Cons.prems zs by simp
qed

lemma dll_unique: "dll m h xs \<Longrightarrow> dll m h ys \<Longrightarrow> xs = ys"
proof -
  assume a: "dll m h xs" "dll m h ys"
  have "linked m (xs @ [h])" "linked m (ys @ [h])" "next_of m h = hd (xs @ [h])" "next_of m h = hd (ys @ [h])"
    using a by (cases xs; cases ys; simp add: dll_def)+
  then show "xs = ys"
    using a linked_unique [of m xs h ys] by (simp add: dll_def)
qed

lemma list_search_linked:
  assumes "linked m (ys @ [h])" "h \<notin> set ys" "ys \<noteq> []"
  shows "list_search m h t (hd ys) = Some (t \<in> set ys)"
  using assms
proof (induction ys)
  case Nil
  then show ?case by simp
next
  case (Cons y ys)
  show ?case
  proof (cases ys)
    case Nil
    then show ?thesis
      using Cons.prems list_search.simps [of m h t h]
      by (auto simp: list_search.simps [of m h t y])
  next
    case (Cons z zs)
    then have "list_search m h t z = Some (t \<in> set ys)" and "next_of m y = z" and "y \<noteq> h"
      using Cons.IH Cons.prems by auto
    then show ?thesis by (subst list_search.simps) auto
  qed
qed

lemma list_search_dll:
  assumes "dll m h xs"
  shows "list_search m h t (next_of m h) = Some (t \<in> set xs)"
proof (cases xs)
  case Nil
  then show ?thesis
    using assms by (subst list_search.simps) (simp add: dll_first)
next
  case (Cons y ys)
  then have "linked m (xs @ [h])" using assms by (simp add: dll_def)
  then show ?thesis
    using list_search_linked [of m xs h t] assms Cons by (simp add: dll_first dll_def)
qed

section \<open>Properties\<close>

text \<open>
  The circular list of \<open>list_add\<close> and \<open>list_del\<close> refines a sequence.  For nodes that do not
  overlap, inserting puts the node at the front, deleting a member removes it, the traversal of
  \<open>buddy_free\<close> finds exactly the members, and bytes outside the nodes are untouched.
\<close>

theorem list_node_refines_list:
  assumes "dll m h xs" "separated S" "set (h # xs) \<subseteq> S"
  shows "(n \<in> S \<and> n \<notin> set (h # xs) \<longrightarrow> dll (list_add m h n) h (n # xs)) \<and>
    (n \<in> set xs \<longrightarrow> dll (list_del m n) h (remove1 n xs)) \<and>
    list_search m h n (next_of m h) = Some (n \<in> set xs) \<and>
    (\<forall>x. (\<forall>a \<in> S. \<not> in_range a 16 x) \<longrightarrow>
      (n \<in> S \<and> n \<noteq> h \<longrightarrow> list_add m h n x = m x) \<and> (n \<in> set xs \<longrightarrow> list_del m n x = m x))"
  using assms list_add_dll [OF assms(1,2)] list_del_dll [OF assms] list_search_dll [OF assms(1)]
    list_add_frame [OF assms(1,2)] list_del_frame [OF assms]
  by simp

theorem list_node_refines_list_witness:
  "dll (list_add (list_init (\<lambda>_. 0) 0x1000) 0x1000 0x2000) 0x1000 [0x2000]"
proof -
  have "separated {0x1000, 0x2000}" by (auto simp: separated_def sep_def apart_def)
  then show ?thesis
    using list_node_refines_list [OF list_init_dll, of "{0x1000, 0x2000}" "0x1000" "0x2000" "\<lambda>_. 0"] by simp
qed

end
