(* ===== verification/Console.thy ===== *)
theory Console
  imports Kernel_State
begin

text \<open>
  Formatted console output: src/src/print.c and the message of src/src/debug.c.  The model
  keeps the 1024-byte stack buffer of \<open>printk\<close> and the positions the helpers write at, so that
  running past the buffer is a value (\<open>Out_of_bounds\<close>), and the word arithmetic of the digit
  loops.  Variable arguments are a list of integers and strings.

  The lemmas show that \<open>printk\<close> writes exactly the formatted text (\<open>format_spec\<close>) and returns
  its length whenever that text fits the buffer, fails exactly when it does not, and that the
  digit loops print numerals that read back as the number, within the 25-byte digit buffer.
\<close>

section \<open>Buffer writes and number conversion\<close>

definition buffer_put :: "string \<Rightarrow> nat \<Rightarrow> char \<Rightarrow> string res" where
  "buffer_put buffer position c =
     (if position < length buffer then Inr (buffer[position := c]) else Inl Out_of_bounds)"

fun buffer_copy :: "string \<Rightarrow> nat \<Rightarrow> string \<Rightarrow> string res" where
  "buffer_copy buffer position [] = Inr buffer"
| "buffer_copy buffer position (c # cs) =
     rbind (buffer_put buffer position c) (\<lambda>buffer. buffer_copy buffer (Suc position) cs)"

definition read_string :: "string \<Rightarrow> nat \<Rightarrow> string \<Rightarrow> (string \<times> nat) res" where
  "read_string buffer position str =
     rbind (buffer_copy buffer position str) (\<lambda>buffer. Inr (buffer, length str))"

text \<open>
  The do-while loop of both conversions, which leaves the digits in \<open>digits_buffer\<close> least
  significant first.  The base is 16 or 10; for a base below two the C loop would not end, and
  the model's second guard only serves to make the recursion total.
\<close>

function digits_loop :: "string \<Rightarrow> u64 \<Rightarrow> u64 \<Rightarrow> string" where
  "digits_loop digits_map base digits =
     digits_map ! unat (digits mod base) #
       (if digits div base \<noteq> 0 \<and> 1 < base then digits_loop digits_map base (digits div base)
        else [])"
  by pat_completeness auto
termination
proof (relation "measure (\<lambda>(digits_map, base, digits). unat digits)")
  show "wf (measure (\<lambda>(digits_map :: string, base :: u64, digits :: u64). unat digits))"
    by simp
next
  fix digits_map :: string and base digits :: u64
  assume "digits div base \<noteq> 0 \<and> 1 < base"
  then have "unat digits \<noteq> 0" and "1 < unat base"
    by (auto simp: word_less_nat_alt word_unat_eq_iff unat_div intro!: gr0I)
  then show "((digits_map, base, digits div base), digits_map, base, digits)
    \<in> measure (\<lambda>(digits_map, base, digits). unat digits)"
    by (simp add: unat_div)
qed

declare digits_loop.simps [simp del]

definition hex_to_string :: "string \<Rightarrow> nat \<Rightarrow> u64 \<Rightarrow> (string \<times> nat) res" where
  "hex_to_string buffer position digits =
     (let digits_buffer = digits_loop ''0123456789ABCDEF'' 16 digits;
          n = length digits_buffer
      in rbind (buffer_copy buffer position (rev digits_buffer)) (\<lambda>buffer.
         rbind (buffer_put buffer (position + n) (CHR ''H'')) (\<lambda>buffer.
         Inr (buffer, n + 1))))"

definition udecimal_to_string :: "string \<Rightarrow> nat \<Rightarrow> u64 \<Rightarrow> (string \<times> nat) res" where
  "udecimal_to_string buffer position digits =
     (let digits_buffer = digits_loop ''0123456789'' 10 digits
      in rbind (buffer_copy buffer position (rev digits_buffer)) (\<lambda>buffer.
         Inr (buffer, length digits_buffer)))"

definition decimal_to_string :: "string \<Rightarrow> nat \<Rightarrow> i64 \<Rightarrow> (string \<times> nat) res" where
  "decimal_to_string buffer position digits =
     (if digits <s 0
      then rbind (buffer_put buffer position (CHR ''-'')) (\<lambda>buffer.
           rbind (udecimal_to_string buffer (position + 1) (- digits)) (\<lambda>(buffer, n).
           Inr (buffer, 1 + n)))
      else udecimal_to_string buffer position digits)"

section \<open>printk\<close>

datatype vararg = Int_arg i64 | Str_arg string

fun printk_loop :: "string \<Rightarrow> vararg list \<Rightarrow> string \<Rightarrow> nat \<Rightarrow> (string \<times> nat) res" where
  "printk_loop [] args buffer n = Inr (buffer, n)"
| "printk_loop (c # cs) args buffer n =
     (if c \<noteq> CHR ''%'' then
        rbind (buffer_put buffer n c) (\<lambda>buffer. printk_loop cs args buffer (n + 1))
      else case cs of
        f # rest \<Rightarrow>
          if f = CHR ''x'' then
            (case args of Int_arg v # args' \<Rightarrow>
               rbind (hex_to_string buffer n v) (\<lambda>(buffer, k). printk_loop rest args' buffer (n + k))
             | _ \<Rightarrow> Inl Bad_vararg)
          else if f = CHR ''u'' then
            (case args of Int_arg v # args' \<Rightarrow>
               rbind (udecimal_to_string buffer n v) (\<lambda>(buffer, k). printk_loop rest args' buffer (n + k))
             | _ \<Rightarrow> Inl Bad_vararg)
          else if f = CHR ''d'' then
            (case args of Int_arg v # args' \<Rightarrow>
               rbind (decimal_to_string buffer n v) (\<lambda>(buffer, k). printk_loop rest args' buffer (n + k))
             | _ \<Rightarrow> Inl Bad_vararg)
          else if f = CHR ''s'' then
            (case args of Str_arg v # args' \<Rightarrow>
               rbind (read_string buffer n v) (\<lambda>(buffer, k). printk_loop rest args' buffer (n + k))
             | _ \<Rightarrow> Inl Bad_vararg)
          else rbind (buffer_put buffer n (CHR ''%'')) (\<lambda>buffer. printk_loop cs args buffer (n + 1))
      | [] \<Rightarrow> rbind (buffer_put buffer n (CHR ''%'')) (\<lambda>buffer. printk_loop cs args buffer (n + 1)))"

definition write_console :: "string \<Rightarrow> nat \<Rightarrow> 'a kernel_scheme \<Rightarrow> 'a kernel_scheme" where
  "write_console buffer n s = s\<lparr>console := console s @ take n buffer\<rparr>"

definition printk :: "string \<Rightarrow> vararg list \<Rightarrow> 'a kernel_scheme \<Rightarrow> (nat \<times> 'a kernel_scheme) res" where
  "printk format args s =
     rbind (spin_lock Print_lock s) (\<lambda>s.
     rbind (printk_loop format args (replicate 1024 (CHR 0x00)) 0) (\<lambda>(buffer, n).
     Inr (n, spin_unlock Print_lock (write_console buffer n s))))"

section \<open>debug.c\<close>

definition crlf :: string where
  "crlf = [CHR 0x0D, CHR 0x0A]"

definition rule_line :: string where
  "rule_line = crlf @ ''-----------------------------------'' @ crlf"

text \<open>\<open>error_check\<close> prints its report and then loops; the result is the state the loop is in.\<close>

definition error_check :: "string \<Rightarrow> u64 \<Rightarrow> 'a kernel_scheme \<Rightarrow> 'a kernel_scheme res" where
  "error_check file line s =
     rbind (printk rule_line [] s) (\<lambda>(_, s).
     rbind (printk ''                    ERROR CHECK'' [] s) (\<lambda>(_, s).
     rbind (printk rule_line [] s) (\<lambda>(_, s).
     rbind (printk (''Assertion Failed [%s: %u]'' @ crlf) [Str_arg file, Int_arg line] s) (\<lambda>(_, s).
     Inr s))))"

definition debug_spinlock :: "string \<Rightarrow> u64 \<Rightarrow> 'a kernel_scheme \<Rightarrow> 'a kernel_scheme res" where
  "debug_spinlock file line s =
     rbind (printk (''debug_spinlock[%s:  %u]'' @ crlf) [Str_arg file, Int_arg line] s) (\<lambda>(_, s). Inr s)"

definition debug_spinunlock :: "string \<Rightarrow> u64 \<Rightarrow> 'a kernel_scheme \<Rightarrow> 'a kernel_scheme res" where
  "debug_spinunlock file line s =
     rbind (printk (''debug_spinunlock[%s: %u]'' @ crlf) [Str_arg file, Int_arg line] s) (\<lambda>(_, s). Inr s)"

section \<open>What the conversions write\<close>

definition overlay :: "string \<Rightarrow> nat \<Rightarrow> string \<Rightarrow> string" where
  "overlay buffer n out = take n buffer @ out @ drop (n + length out) buffer"

definition hex_text :: "u64 \<Rightarrow> string" where
  "hex_text v = rev (digits_loop ''0123456789ABCDEF'' 16 v) @ ''H''"

definition udecimal_text :: "u64 \<Rightarrow> string" where
  "udecimal_text v = rev (digits_loop ''0123456789'' 10 v)"

definition decimal_text :: "i64 \<Rightarrow> string" where
  "decimal_text v = (if v <s 0 then CHR ''-'' # udecimal_text (- v) else udecimal_text v)"

text \<open>The text a format and its arguments denote; \<open>None\<close> when an argument is missing.\<close>

definition conv_spec :: "char \<Rightarrow> (vararg \<Rightarrow> string option) option" where
  "conv_spec f =
     (if f = CHR ''x'' then Some (\<lambda>a. case a of Int_arg v \<Rightarrow> Some (hex_text v) | _ \<Rightarrow> None)
      else if f = CHR ''u'' then Some (\<lambda>a. case a of Int_arg v \<Rightarrow> Some (udecimal_text v) | _ \<Rightarrow> None)
      else if f = CHR ''d'' then Some (\<lambda>a. case a of Int_arg v \<Rightarrow> Some (decimal_text v) | _ \<Rightarrow> None)
      else if f = CHR ''s'' then Some (\<lambda>a. case a of Str_arg v \<Rightarrow> Some v | _ \<Rightarrow> None)
      else None)"

fun format_spec :: "string \<Rightarrow> vararg list \<Rightarrow> string option" where
  "format_spec [] args = Some []"
| "format_spec (c # cs) args =
     (if c \<noteq> CHR ''%'' then map_option ((#) c) (format_spec cs args)
      else case cs of
        [] \<Rightarrow> Some [c]
      | f # rest \<Rightarrow>
          (case conv_spec f of
            None \<Rightarrow> map_option ((#) c) (format_spec cs args)
          | Some text \<Rightarrow>
              (case args of
                [] \<Rightarrow> None
              | a # args' \<Rightarrow>
                  (case text a of
                    None \<Rightarrow> None
                  | Some out \<Rightarrow> map_option ((@) out) (format_spec rest args')))))"

lemma length_overlay [simp]: "n + length out \<le> length b \<Longrightarrow> length (overlay b n out) = length b"
  by (simp add: overlay_def)

lemma overlay_overlay:
  "n + length xs \<le> length b \<Longrightarrow> overlay (overlay b n xs) (n + length xs) ys = overlay b n (xs @ ys)"
  by (simp add: overlay_def drop_drop add_ac)

lemma splice_Nil [simp]: "overlay b n [] = b"
  by (simp add: overlay_def)

lemma buffer_put_overlay:
  "buffer_put b n c = (if n + 1 \<le> length b then Inr (overlay b n [c]) else Inl Out_of_bounds)"
  by (simp add: buffer_put_def overlay_def upd_conv_take_nth_drop)

lemma buffer_copy_overlay:
  "n \<le> length b \<Longrightarrow> buffer_copy b n cs =
     (if n + length cs \<le> length b then Inr (overlay b n cs) else Inl Out_of_bounds)"
proof (induction cs arbitrary: b n)
  case Nil
  then show ?case by simp
next
  case (Cons c cs)
  show ?case
  proof (cases "n + 1 \<le> length b")
    case True
    then show ?thesis
      using Cons.IH [of "Suc n" "overlay b n [c]"] overlay_overlay [of n "[c]" b cs]
      by (simp add: buffer_put_overlay)
  qed (simp add: buffer_put_overlay)
qed

lemma read_string_overlay:
  "n \<le> length b \<Longrightarrow> read_string b n v =
     (if n + length v \<le> length b then Inr (overlay b n v, length v) else Inl Out_of_bounds)"
  by (simp add: read_string_def buffer_copy_overlay)

lemma udecimal_to_string_overlay:
  "n \<le> length b \<Longrightarrow> udecimal_to_string b n v =
     (if n + length (udecimal_text v) \<le> length b
      then Inr (overlay b n (udecimal_text v), length (udecimal_text v)) else Inl Out_of_bounds)"
  by (simp add: udecimal_to_string_def udecimal_text_def buffer_copy_overlay Let_def)

lemma hex_to_string_overlay:
  "n \<le> length b \<Longrightarrow> hex_to_string b n v =
     (if n + length (hex_text v) \<le> length b
      then Inr (overlay b n (hex_text v), length (hex_text v)) else Inl Out_of_bounds)"
  by (simp add: hex_to_string_def hex_text_def buffer_copy_overlay buffer_put_overlay Let_def
      overlay_overlay [where xs = "rev xs" for xs, simplified])

lemma decimal_to_string_overlay:
  "n \<le> length b \<Longrightarrow> decimal_to_string b n v =
     (if n + length (decimal_text v) \<le> length b
      then Inr (overlay b n (decimal_text v), length (decimal_text v)) else Inl Out_of_bounds)"
  using overlay_overlay [of n "''-''" b "udecimal_text (- v)"]
  by (simp add: decimal_to_string_def decimal_text_def buffer_put_overlay udecimal_to_string_overlay)

lemmas conversion_overlays =
  read_string_overlay udecimal_to_string_overlay hex_to_string_overlay decimal_to_string_overlay
  buffer_put_overlay

lemma printk_loop_overlay:
  assumes "format_spec f args = Some out" and "n \<le> length b"
  shows "printk_loop f args b n =
    (if n + length out \<le> length b then Inr (overlay b n out, n + length out)
     else Inl Out_of_bounds)"
  using assms
proof (induction f args arbitrary: b n out rule: format_spec.induct)
  case (1 args)
  then show ?case by simp
next
  case (2 c cs args)
  show ?case
  proof (cases "c = CHR ''%''")
    case False
    then obtain out' where "format_spec cs args = Some out'" and "out = c # out'"
      using "2.prems" by auto
    then show ?thesis
      using False "2.IH"(1) [of out' "Suc n" "overlay b n [c]"] overlay_overlay [of n "[c]" b out'] "2.prems"
      by (simp add: buffer_put_overlay)
  next
    case True
    note pct = this
    show ?thesis
    proof (cases cs)
      case Nil
      then show ?thesis using True "2.prems" by (auto simp: buffer_put_overlay)
    next
      case (Cons f rest)
      show ?thesis
      proof (cases "conv_spec f")
        case None
        then obtain out' where "format_spec cs args = Some out'" and "out = c # out'"
          using "2.prems" pct Cons by auto
        then show ?thesis
          using None pct Cons "2.IH"(2) [of f rest out' "Suc n" "overlay b n [c]"]
            overlay_overlay [of n "[c]" b out'] "2.prems"
          by (simp add: buffer_put_overlay conv_spec_def split: if_splits)
      next
        case (Some conv)
        then obtain a args' t out' where d: "args = a # args'" "conv a = Some t"
            "format_spec rest args' = Some out'" "out = t @ out'"
          using "2.prems" pct Cons by (auto split: list.splits option.splits)
        have IH: "n + length t \<le> length b \<Longrightarrow> printk_loop rest args' (overlay b n t) (n + length t) =
            (if n + length t + length out' \<le> length b then Inr (overlay b n out, n + length t + length out')
             else Inl Out_of_bounds)"
          using "2.IH"(3) [of f rest conv a args' t out' "n + length t" "overlay b n t"]
            pct Cons Some d overlay_overlay [of n t b out'] by simp
        show ?thesis
          using Some pct Cons d IH "2.prems"(2)
          by (auto simp: conv_spec_def conversion_overlays split: if_splits vararg.splits)
      qed
    qed
  qed
qed

lemma printk_fits:
  assumes "format_spec f args = Some out" and "length out \<le> 1024" and "\<not> locks s Print_lock"
  shows "printk f args s = Inr (length out, s\<lparr>console := console s @ out\<rparr>)"
  using assms printk_loop_overlay [OF assms(1), of 0 "replicate 1024 (CHR 0x00)"]
  by (simp add: printk_def write_console_def overlay_def spin_unlock_def fun_upd_idem)

lemma printk_overflow:
  assumes "format_spec f args = Some out" and "1024 < length out" and "\<not> locks s Print_lock"
  shows "printk f args s = Inl Out_of_bounds"
  using assms printk_loop_overlay [OF assms(1), of 0 "replicate 1024 (CHR 0x00)"]
  by (simp add: printk_def)

section \<open>Numerals\<close>

definition digit_index :: "string \<Rightarrow> char \<Rightarrow> nat" where
  "digit_index digits_map c = length (takeWhile (\<lambda>d. d \<noteq> c) digits_map)"

lemma digit_index_nth:
  assumes "distinct xs" and "i < length xs"
  shows "digit_index xs (xs ! i) = i"
proof -
  have "takeWhile (\<lambda>d. d \<noteq> xs ! i) xs = take i xs"
    by (rule takeWhile_eq_take_P_nth) (use assms in \<open>auto simp: nth_eq_iff_index_eq\<close>)
  then show ?thesis using assms by (simp add: digit_index_def)
qed

lemma digits_loop_value:
  assumes "distinct digits_map" and "length digits_map = unat base" and "1 < base"
  shows "horner_sum (digit_index digits_map) (unat base) (digits_loop digits_map base v) = unat v"
  using assms
proof (induction digits_map base v rule: digits_loop.induct)
  case (1 digits_map base v)
  have "0 < unat base"
    using "1.prems"(3) by (simp add: word_less_nat_alt)
  then have d: "digit_index digits_map (digits_map ! unat (v mod base)) = unat v mod unat base"
    using "1.prems" by (simp add: digit_index_nth unat_mod)
  show ?case
  proof (cases "v div base = 0")
    case True
    then have "unat v div unat base = 0"
      by (simp add: flip: unat_div)
    then show ?thesis
      using d True mult_div_mod_eq [of "unat base" "unat v"]
      by (subst digits_loop.simps) simp
  next
    case False
    with "1" have "horner_sum (digit_index digits_map) (unat base)
        (digits_loop digits_map base (v div base)) = unat (v div base)"
      by simp
    with d False "1.prems"(3) show ?thesis
      by (subst digits_loop.simps) (simp add: unat_div)
  qed
qed

lemma digits_loop_length:
  assumes "1 < base" and "unat v < unat base ^ k" and "0 < k"
  shows "length (digits_loop digits_map base v) \<le> k"
  using assms
proof (induction digits_map base v arbitrary: k rule: digits_loop.induct)
  case (1 digits_map base v)
  show ?case
  proof (cases "v div base = 0")
    case True
    then show ?thesis using "1.prems" by (subst digits_loop.simps) simp
  next
    case False
    have b: "1 < unat base" using "1.prems" by (simp add: word_less_nat_alt)
    have "unat base \<le> unat v"
      using False b by (metis div_less not_le unat_0 unat_div unat_eq_zero)
    then have k: "1 < k"
      using "1.prems" by (metis One_nat_def Suc_lessI leD power_one_right)
    have "unat base ^ k = unat base ^ (k - 1) * unat base"
      using "1.prems"(3) by (metis power_minus_mult)
    then have "unat (v div base) < unat base ^ (k - 1)"
      using "1.prems"(2) by (simp add: unat_div less_mult_imp_div_less)
    then have "length (digits_loop digits_map base (v div base)) \<le> k - 1"
      using "1.IH" [of "k - 1"] False "1.prems"(1) k by simp
    then show ?thesis
      using k False "1.prems"(1) by (subst digits_loop.simps) simp
  qed
qed

lemma digits_loop_digits:
  assumes "length digits_map = unat base" and "1 < base"
  shows "set (digits_loop digits_map base v) \<subseteq> set digits_map"
  using assms
proof (induction digits_map base v rule: digits_loop.induct)
  case (1 digits_map base v)
  have "unat (v mod base) < length digits_map"
    using "1.prems" by (simp add: unat_mod word_less_nat_alt)
  then show ?case using 1 by (subst digits_loop.simps) auto
qed

text \<open>Reading a printed numeral back.\<close>

definition numeral_value :: "string \<Rightarrow> nat \<Rightarrow> string \<Rightarrow> nat" where
  "numeral_value digits_map base t = horner_sum (digit_index digits_map) base (rev t)"

definition signed_value :: "string \<Rightarrow> int" where
  "signed_value t =
     (case t of
       [] \<Rightarrow> 0
     | c # cs \<Rightarrow> if c = CHR ''-'' then - int (numeral_value ''0123456789'' 10 cs)
                else int (numeral_value ''0123456789'' 10 t))"

lemma udecimal_value: "numeral_value ''0123456789'' 10 (udecimal_text v) = unat v"
  using digits_loop_value [of "''0123456789''" 10 v] by (simp add: numeral_value_def udecimal_text_def)

lemma hex_value: "numeral_value ''0123456789ABCDEF'' 16 (butlast (hex_text v)) = unat v"
  using digits_loop_value [of "''0123456789ABCDEF''" 16 v] by (simp add: numeral_value_def hex_text_def)

lemma udecimal_head: "udecimal_text v = c # cs \<Longrightarrow> c \<noteq> CHR ''-''"
  using digits_loop_digits [of "''0123456789''" 10 v]
  by (auto simp: udecimal_text_def rev_eq_Cons_iff)

lemma sint_bounds: "- (2 ^ 63) \<le> sint v" "sint v < 2 ^ 63" for v :: u64
  using sint_greater_eq [of v] sint_less [of v] by simp_all

lemma unat_nonnegative: "\<not> v <s 0 \<Longrightarrow> int (unat v) = sint v" for v :: u64
proof -
  assume "\<not> v <s 0"
  then have "0 \<le> sint v" by (simp add: word_sless_alt)
  moreover have "uint v = sint v mod 2 ^ 64"
    using uint_word_of_int [of "sint v", where ?'a = 64] by simp
  ultimately show ?thesis using sint_bounds(2) [of v] by simp
qed

lemma unat_minus_negative: "v <s 0 \<Longrightarrow> int (unat (- v)) = - sint v" for v :: u64
proof -
  assume "v <s 0"
  then have "sint v < 0" by (simp add: word_sless_alt)
  moreover have "uint (- v) = (- sint v) mod 2 ^ 64"
    using uint_word_of_int [of "- sint v", where ?'a = 64] by simp
  ultimately show ?thesis using sint_bounds(1) [of v] by simp
qed

lemma signed_value_decimal: "signed_value (decimal_text v) = sint v"
proof (cases "v <s 0")
  case True
  then have "int (unat (- v)) = - sint v"
    by (rule unat_minus_negative)
  then show ?thesis using True by (simp add: signed_value_def decimal_text_def udecimal_value)
next
  case False
  have ne: "udecimal_text v \<noteq> []" by (simp add: udecimal_text_def) (subst digits_loop.simps, simp)
  have "int (unat v) = sint v" using False by (rule unat_nonnegative)
  moreover obtain c cs where "udecimal_text v = c # cs" using ne by (cases "udecimal_text v") auto
  ultimately show ?thesis
    using False udecimal_value [of v] udecimal_head [of v c cs]
    by (simp add: signed_value_def decimal_text_def)
qed

lemma udecimal_length: "length (udecimal_text v) \<le> 20"
  using digits_loop_length [of 10 v 20 "''0123456789''"] unsigned_less [of v, where ?'a = nat]
  by (simp add: udecimal_text_def)

lemma decimal_length: "length (decimal_text v) \<le> 21"
  using udecimal_length [of v] udecimal_length [of "- v"] by (simp add: decimal_text_def)

lemma hex_length: "length (hex_text v) \<le> 17"
  using digits_loop_length [of 16 v 16 "''0123456789ABCDEF''"] unsigned_less [of v, where ?'a = nat]
  by (simp add: hex_text_def)

section \<open>Properties\<close>

text \<open>
  C36: \<open>printk\<close> against its format specification.  On a well-formed format and argument list, if the
  expansion fits the 1024-byte buffer then exactly the expansion is sent to the console, its length
  is returned and nothing else changes; if it does not fit, the buffer is overrun.
\<close>

theorem printk_expands:
  assumes "format_spec f args = Some out" and "\<not> locks s Print_lock"
  shows "printk f args s =
    (if length out \<le> 1024 then Inr (length out, s\<lparr>console := console s @ out\<rparr>) else Inl Out_of_bounds)"
  using printk_fits [OF assms(1) _ assms(2)] printk_overflow [OF assms(1) _ assms(2)] by simp

theorem printk_expands_witness:
  "printk ''%d:%x'' [Int_arg (- 42), Int_arg 255]
     \<lparr>mem = \<lambda>_. 0, console = ''ok '', locks = \<lambda>_. False, sym_end = 0, sym_allocator = 0\<rparr> =
   Inr (7, \<lparr>mem = \<lambda>_. 0, console = ''ok -42:FFH'', locks = \<lambda>_. False, sym_end = 0, sym_allocator = 0\<rparr>)"
proof -
  have "format_spec ''%d:%x'' [Int_arg (- 42), Int_arg 255] = Some ''-42:FFH''" by code_simp
  from printk_expands [OF this, of "\<lparr>mem = \<lambda>_. 0, console = ''ok '', locks = \<lambda>_. False,
      sym_end = 0, sym_allocator = 0\<rparr>"]
  show ?thesis by simp
qed


end
