(* ===== verification/Buddy.thy ===== *)
theory Buddy
  imports List_Node Console "HOL-Library.Multiset"
begin

text \<open>
  The page allocator of src/src/memory.c in its \<open>BuddyMode\<close> build: \<open>buddy_init\<close>,
  \<open>buddy_alloc\<close>, \<open>buddy_free\<close>, and the locked entry points \<open>kalloc\<close>, \<open>kfree\<close> and
  \<open>init_memory\<close>, with the address-layout macros of src/include/memory.h.

  The static object \<open>allocator\<close> lives in kernel memory at the address \<open>sym_allocator\<close>: its
  \<open>free_lists\<close> array of list heads at offset 8 (after the 8-byte lock) and \<open>start_addr\<close> at
  offset 152.  Free blocks are linked through their own first 16 bytes.
\<close>

section \<open>Layout of memory.h\<close>

definition MAX_ORDER :: nat where
  "MAX_ORDER = 9"

definition PAGE_SHIFT :: nat where
  "PAGE_SHIFT = 21"

definition PAGE_SIZE :: u64 where
  "PAGE_SIZE = 2 * 1024 * 1024"

definition KERNEL_BASE :: u64 where
  "KERNEL_BASE = 0xffff000000000000"

definition P2V :: "u64 \<Rightarrow> u64" where
  "P2V p = p + KERNEL_BASE"

definition V2P :: "u64 \<Rightarrow> u64" where
  "V2P v = v - KERNEL_BASE"

definition MEMORY_END :: u64 where
  "MEMORY_END = P2V 0x30000000"

definition PA_UP :: "u64 \<Rightarrow> u64" where
  "PA_UP v = push_bit PAGE_SHIFT (drop_bit PAGE_SHIFT (v + PAGE_SIZE - 1))"

definition PA_DOWN :: "u64 \<Rightarrow> u64" where
  "PA_DOWN v = push_bit PAGE_SHIFT (drop_bit PAGE_SHIFT v)"

section \<open>The buddy allocator\<close>

text \<open>\<open>&allocator.free_lists[i]\<close>, \<open>allocator.start_addr\<close>, and the size of a block of order \<open>i\<close>.\<close>

definition free_list :: "u64 \<Rightarrow> nat \<Rightarrow> u64" where
  "free_list A i = A + 8 + 16 * of_nat i"

definition start_addr :: "u64 \<Rightarrow> memory \<Rightarrow> u64" where
  "start_addr A m = load64 m (A + 152)"

definition block_size :: "nat \<Rightarrow> u64" where
  "block_size i = push_bit (i + PAGE_SHIFT) 1"

primrec init_heads :: "u64 \<Rightarrow> nat \<Rightarrow> memory \<Rightarrow> memory" where
  "init_heads A 0 m = m"
| "init_heads A (Suc n) m = list_init (init_heads A n m) (free_list A n)"

text \<open>The inner loop of \<open>buddy_init\<close>: the largest order below \<open>i\<close> that fits.\<close>

primrec init_order :: "u64 \<Rightarrow> u64 \<Rightarrow> nat \<Rightarrow> nat option" where
  "init_order cur remaining 0 = None"
| "init_order cur remaining (Suc i) =
     (if block_size i \<le> remaining \<and> cur mod block_size i = 0 then Some i
      else init_order cur remaining i)"

definition init_message :: string where
  "init_message =
     [CHR 0xE5, CHR 0x88, CHR 0x9D, CHR 0xE5, CHR 0xA7, CHR 0x8B, CHR 0xE5, CHR 0x8C, CHR 0x96] @ '': '' @
     [CHR 0xE5, CHR 0x88, CHR 0x86, CHR 0xE9, CHR 0x85, CHR 0x8D] @ '' 0x%x '' @
     [CHR 0xE5, CHR 0x88, CHR 0xB0] @ '' Order %x'' @ [CHR 0x0A]"

lemma init_order_fits:
  "init_order cur remaining n = Some i \<Longrightarrow> i < n \<and> block_size i \<le> remaining \<and> cur mod block_size i = 0"
  by (induction n) (auto split: if_splits)

lemma unat_block_size: "i < MAX_ORDER \<Longrightarrow> unat (block_size i) = 2 ^ (i + 21)"
  by (simp add: block_size_def PAGE_SHIFT_def MAX_ORDER_def unat_power_two)

text \<open>
  The outer loop: when no order fits the current address although at least a page is left, the
  C loop makes no progress and never ends.
\<close>

function buddy_fill :: "u64 \<Rightarrow> u64 \<Rightarrow> 'a kernel_scheme \<Rightarrow> 'a kernel_scheme res" where
  "buddy_fill cur remaining s =
     (if remaining < block_size 0 then Inr s
      else case init_order cur remaining MAX_ORDER of
        None \<Rightarrow> Inl Diverge
      | Some i \<Rightarrow>
          rbind (printk init_message [Int_arg cur, Int_arg (of_nat i)]
                  (s\<lparr>mem := list_add (mem s) (free_list (sym_allocator s) i) cur\<rparr>)) (\<lambda>(_, s).
          buddy_fill (cur + block_size i) (remaining - block_size i) s))"
  by pat_completeness auto
termination
proof (relation "measure (\<lambda>(cur, remaining, s). unat remaining)")
  show "wf (measure (\<lambda>(cur :: u64, remaining :: u64, s :: 'a kernel_scheme). unat remaining))"
    by simp
next
  fix cur remaining :: u64 and s :: "'a kernel_scheme" and i x k s'
  assume "init_order cur remaining MAX_ORDER = Some i"
  then have "i < MAX_ORDER" "block_size i \<le> remaining"
    using init_order_fits by auto
  then show "((cur + block_size i, remaining - block_size i, s'), cur, remaining, s)
      \<in> measure (\<lambda>(cur, remaining, s). unat remaining)"
    using unat_block_size [of i] diff_less [of "2 ^ (i + 21)" "unat remaining"]
      zero_less_power [of "2 :: nat" "i + 21"] less_le_trans [of 0 "2 ^ (i + 21)" "unat remaining"]
    by (simp add: unat_diff_le word_le_nat_alt)
qed

declare buddy_fill.simps [simp del]

definition buddy_init :: "u64 \<Rightarrow> u64 \<Rightarrow> 'a kernel_scheme \<Rightarrow> 'a kernel_scheme res" where
  "buddy_init start n s =
     (let A = sym_allocator s;
          m = store64 (mem s) (A + 152) start;
          m = init_heads A MAX_ORDER m
      in buddy_fill start n (s\<lparr>mem := m\<rparr>))"

text \<open>The splitting loop \<open>while (i > order)\<close> and the search for a non-empty list around it.\<close>

primrec buddy_split :: "u64 \<Rightarrow> u64 \<Rightarrow> nat \<Rightarrow> nat \<Rightarrow> memory \<Rightarrow> memory" where
  "buddy_split A block order 0 m = m"
| "buddy_split A block order (Suc i) m =
     (if order < Suc i
      then buddy_split A block order i (list_add m (free_list A i) (block + block_size i))
      else m)"

function buddy_alloc_from :: "u64 \<Rightarrow> nat \<Rightarrow> nat \<Rightarrow> memory \<Rightarrow> u64 \<times> memory" where
  "buddy_alloc_from A order i m =
     (if i < MAX_ORDER then
        if \<not> list_empty m (free_list A i) then
          (let block = next_of m (free_list A i)
           in (block, buddy_split A block order i (list_del m block)))
        else buddy_alloc_from A order (i + 1) m
      else (0, m))"
  by pat_completeness auto
termination
  by (relation "measure (\<lambda>(A, order, i, m). MAX_ORDER - i)") auto

declare buddy_alloc_from.simps [simp del]

definition buddy_alloc :: "u64 \<Rightarrow> nat \<Rightarrow> memory \<Rightarrow> u64 \<times> memory" where
  "buddy_alloc A order m = buddy_alloc_from A order order m"

definition buddy_of :: "u64 \<Rightarrow> nat \<Rightarrow> u64 \<Rightarrow> u64" where
  "buddy_of start i addr = start + ((addr - start) XOR block_size i)"

function buddy_free_from :: "u64 \<Rightarrow> nat \<Rightarrow> u64 \<Rightarrow> memory \<Rightarrow> memory res" where
  "buddy_free_from A i addr m =
     (if i < MAX_ORDER - 1 then
        (let buddy = buddy_of (start_addr A m) i addr
         in case list_search m (free_list A i) buddy (next_of m (free_list A i)) of
              None \<Rightarrow> Inl Diverge
            | Some buddy_found \<Rightarrow>
                if buddy_found then
                  (let m = list_del m buddy;
                       addr = (if addr < buddy then addr else buddy);
                       m = list_add m (free_list A i) addr
                   in buddy_free_from A (i + 1) addr m)
                else Inr m)
      else Inr m)"
  by pat_completeness auto
termination
  by (relation "measure (\<lambda>(A, i, addr, m). MAX_ORDER - i)") auto

declare buddy_free_from.simps [simp del]

definition buddy_free :: "u64 \<Rightarrow> u64 \<Rightarrow> nat \<Rightarrow> memory \<Rightarrow> memory res" where
  "buddy_free A ptr order m = buddy_free_from A order ptr m"

section \<open>The locked entry points\<close>

definition kfree :: "u64 \<Rightarrow> 'a kernel_scheme \<Rightarrow> 'a kernel_scheme res" where
  "kfree v s =
     kassert (v mod PAGE_SIZE = 0) ''src/memory.c'' 234
     (kassert (sym_end s \<le> v) ''src/memory.c'' 235
     (kassert (v + PAGE_SIZE \<le> MEMORY_END) ''src/memory.c'' 236
     (rbind (spin_lock Allocator_lock s) (\<lambda>s.
      rbind (buddy_free (sym_allocator s) v 0 (mem s)) (\<lambda>m.
      Inr (spin_unlock Allocator_lock (s\<lparr>mem := m\<rparr>)))))))"

definition kalloc :: "'a kernel_scheme \<Rightarrow> (u64 \<times> 'a kernel_scheme) res" where
  "kalloc s =
     rbind (spin_lock Allocator_lock s) (\<lambda>s.
     let (res, m) = buddy_alloc (sym_allocator s) 0 (mem s);
         s = spin_unlock Allocator_lock (s\<lparr>mem := m\<rparr>)
     in Inr (res, if res \<noteq> 0 then s\<lparr>mem := memset (mem s) res 0 (unat PAGE_SIZE)\<rparr> else s))"

definition init_memory :: "'a kernel_scheme \<Rightarrow> 'a kernel_scheme res" where
  "init_memory s =
     rbind (printk (''Buddy Allocator initialized from 0x%x to 0x%x'' @ [CHR 0x0A])
              [Int_arg (PA_UP (sym_end s)), Int_arg MEMORY_END] s) (\<lambda>(_, s).
     buddy_init (PA_UP (sym_end s)) (MEMORY_END - PA_UP (sym_end s)) s)"

end
