(* ===== verification/Buddy_Correct.thy ===== *)
theory Buddy_Correct
  imports Buddy
begin

text \<open>
  Correctness of the page allocator.  The abstraction of the allocator's memory is one list of
  block addresses per order; \<open>free_inv\<close> says that memory holds these lists, that every block is
  aligned and lies between \<open>start_addr\<close> and \<open>MEMORY_END\<close>, and that no page belongs to two blocks.
\<close>

section \<open>Pages and blocks\<close>

definition pn :: "u64 \<Rightarrow> nat" where
  "pn a = unat a div 2 ^ 21"

definition page_aligned :: "u64 \<Rightarrow> bool" where
  "page_aligned a \<longleftrightarrow> unat a mod 2 ^ 21 = 0"

definition block_pages :: "nat \<Rightarrow> u64 \<Rightarrow> nat multiset" where
  "block_pages i a = mset [pn a ..< pn a + 2 ^ i]"

definition list_pages :: "nat \<Rightarrow> u64 list \<Rightarrow> nat multiset" where
  "list_pages i xs = (\<Sum>a \<in># mset xs. block_pages i a)"

definition free_pages :: "(nat \<Rightarrow> u64 list) \<Rightarrow> nat multiset" where
  "free_pages L = (\<Sum>i < MAX_ORDER. list_pages i (L i))"

definition block_ok :: "u64 \<Rightarrow> nat \<Rightarrow> u64 \<Rightarrow> bool" where
  "block_ok start i a \<longleftrightarrow> page_aligned a \<and> 2 ^ i dvd pn a \<and> start \<le> a \<and>
     unat a + 2 ^ (i + 21) \<le> unat MEMORY_END"

lemma unat_aligned: "page_aligned a \<Longrightarrow> unat a = pn a * 2 ^ 21"
  unfolding pn_def page_aligned_def by (metis add.right_neutral div_mult_mod_eq)

lemma pn_inj: "page_aligned a \<Longrightarrow> page_aligned b \<Longrightarrow> pn a = pn b \<Longrightarrow> a = b"
  by (simp add: word_unat_eq_iff unat_aligned)

lemma pn_less: "page_aligned a \<Longrightarrow> page_aligned b \<Longrightarrow> a < b \<longleftrightarrow> pn a < pn b"
  by (simp add: word_less_nat_alt unat_aligned)

lemma unat_MEMORY_END [simp]: "unat MEMORY_END = 0xffff000030000000"
  by (simp add: MEMORY_END_def P2V_def KERNEL_BASE_def)

lemma block_ok_add:
  assumes "block_ok start (Suc i) a" "i + 1 < MAX_ORDER"
  shows "unat (a + block_size i) = unat a + 2 ^ (i + 21)"
proof -
  have "(2 :: nat) ^ (i + 21) \<le> 2 ^ (Suc i + 21)"
    by (rule power_increasing) simp_all
  moreover have "unat a + 2 ^ (Suc i + 21) \<le> 0xffff000030000000"
    using assms(1) unfolding block_ok_def unat_MEMORY_END by blast
  ultimately have "unat a + 2 ^ (i + 21) \<le> 0xffff000030000000"
    by linarith
  then have "unat a + 2 ^ (i + 21) < 2 ^ 64" by simp
  then have "unat (a + of_nat (2 ^ (i + 21))) = unat a + 2 ^ (i + 21)"
    by (intro unat_plus_of_nat) simp
  then show ?thesis by (simp add: block_size_def PAGE_SHIFT_def)
qed

lemma block_ok_halves:
  assumes "block_ok start (Suc i) a" "i + 1 < MAX_ORDER"
  shows "block_ok start i a" "block_ok start i (a + block_size i)" "pn (a + block_size i) = pn a + 2 ^ i"
    and "block_pages (Suc i) a = block_pages i a + block_pages i (a + block_size i)"
proof -
  note u = block_ok_add [OF assms]
  have al: "page_aligned a" "2 ^ Suc i dvd pn a" "start \<le> a" "unat a + 2 ^ (Suc i + 21) \<le> unat MEMORY_END"
    using assms(1) by (simp_all add: block_ok_def)
  show pn: "pn (a + block_size i) = pn a + 2 ^ i"
    by (simp add: pn_def u power_add)
  have "2 ^ i dvd pn a" using al(2) by (metis dvd_mult_right power_Suc)
  then show "block_ok start i a" "block_ok start i (a + block_size i)"
    using al u by (auto simp: block_ok_def pn page_aligned_def power_add word_le_nat_alt)
  have "[pn a ..< pn a + 2 ^ Suc i] = [pn a ..< pn a + 2 ^ i] @ [pn a + 2 ^ i ..< pn a + 2 ^ i + 2 ^ i]"
    using upt_add_eq_append [of "pn a" "pn a + 2 ^ i" "2 ^ i"] by (simp add: mult_2 add.assoc)
  then show "block_pages (Suc i) a = block_pages i a + block_pages i (a + block_size i)"
    by (simp add: block_pages_def pn)
qed

lemma block_pages_0 [simp]: "block_pages 0 a = {#pn a#}"
  by (simp add: block_pages_def)

lemma list_pages_Cons [simp]: "list_pages i (a # xs) = block_pages i a + list_pages i xs"
  by (simp add: list_pages_def)

lemma list_pages_Nil [simp]: "list_pages i [] = {#}"
  by (simp add: list_pages_def)

lemma list_pages_remove1:
  "a \<in> set xs \<Longrightarrow> list_pages i xs = block_pages i a + list_pages i (remove1 a xs)"
  by (induction xs) auto

lemma free_pages_upd:
  assumes "i < MAX_ORDER"
  shows "free_pages (L(i := xs)) + list_pages i (L i) = free_pages L + list_pages i xs"
proof -
  have "free_pages M = list_pages i (M i) + (\<Sum>j \<in> {..<MAX_ORDER} - {i}. list_pages j (M j))" for M
    unfolding free_pages_def using assms by (intro sum.remove) auto
  from this [of L] this [of "L(i := xs)"] show ?thesis by simp
qed

lemma free_pages_add:
  assumes "i < MAX_ORDER"
  shows "free_pages (L(i := a # L i)) = block_pages i a + free_pages L"
  using free_pages_upd [OF assms, of L "a # L i"] by simp

lemma free_pages_del:
  assumes "i < MAX_ORDER" "a \<in> set (L i)"
  shows "free_pages L = block_pages i a + free_pages (L(i := remove1 a (L i)))"
  using free_pages_upd [OF assms(1), of L "remove1 a (L i)"] list_pages_remove1 [OF assms(2), of i]
  by (simp add: add.commute)

lemma pn_in_free_pages:
  assumes "i < MAX_ORDER" "a \<in> set (L i)"
  shows "pn a \<in># free_pages L"
  using free_pages_del [of i a L] assms by (simp add: block_pages_def)

section \<open>The free lists in memory\<close>

definition heads :: "u64 \<Rightarrow> u64 set" where
  "heads A = free_list A ` {..<MAX_ORDER}"

definition region :: "u64 \<Rightarrow> u64 set" where
  "region start = {a. page_aligned a \<and> start \<le> a \<and> a < MEMORY_END}"

text \<open>The linker places \<open>allocator\<close> (160 bytes) below the first page handed to it.\<close>

definition layout_ok :: "u64 \<Rightarrow> u64 \<Rightarrow> bool" where
  "layout_ok A start \<longleftrightarrow> unat A + 160 \<le> unat start \<and> page_aligned start"

lemma unat_free_list:
  assumes "layout_ok A start" "i < MAX_ORDER"
  shows "unat (free_list A i) = unat A + 8 + 16 * i"
proof -
  have "unat A + (8 + 16 * i) < 2 ^ 64"
    using assms unsigned_less [of start, where ?'a = nat] by (simp add: layout_ok_def MAX_ORDER_def)
  then have "unat (A + of_nat (8 + 16 * i)) = unat A + (8 + 16 * i)"
    by (intro unat_plus_of_nat) simp
  then show ?thesis by (simp add: free_list_def add.assoc)
qed

lemma aligned_gap:
  assumes "page_aligned a" "page_aligned b" "a < b"
  shows "unat a + 2 ^ 21 \<le> unat b"
  using assms pn_less [OF assms(1,2)] by (simp add: unat_aligned)

lemma region_bound:
  assumes "a \<in> region start"
  shows "unat a + 2 ^ 21 \<le> unat MEMORY_END" and "start \<le> a" and "page_aligned a"
proof -
  have "page_aligned MEMORY_END" by (simp add: page_aligned_def)
  then show "unat a + 2 ^ 21 \<le> unat MEMORY_END"
    using assms aligned_gap [of a MEMORY_END] by (simp add: region_def)
qed (use assms in \<open>simp_all add: region_def\<close>)

lemma head_before_region:
  assumes "layout_ok A start" "i < MAX_ORDER" "a \<in> region start"
  shows "unat (free_list A i) + 16 \<le> unat a"
  using unat_free_list [OF assms(1,2)] assms region_bound [OF assms(3)]
  by (simp add: layout_ok_def MAX_ORDER_def word_le_nat_alt)

lemma sep_before: "unat a + 16 \<le> unat b \<Longrightarrow> unat b + 16 \<le> 2 ^ 64 \<Longrightarrow> sep a b \<and> sep b a"
  using apart_before [of a 16 b 16] by (simp add: sep_def apart_sym)

lemma separated_nodes:
  assumes "layout_ok A start"
  shows "separated (heads A \<union> region start)"
proof -
  have hh: "sep (free_list A i) (free_list A j) \<and> sep (free_list A j) (free_list A i)"
    if "i < j" "j < MAX_ORDER" for i j
    using that assms unat_free_list [OF assms, of i] unat_free_list [OF assms, of j]
      unsigned_less [of start, where ?'a = nat]
    by (intro sep_before) (simp_all add: layout_ok_def MAX_ORDER_def)
  have hr: "sep (free_list A i) a \<and> sep a (free_list A i)" if "i < MAX_ORDER" "a \<in> region start" for i a
    using head_before_region [OF assms that] region_bound [OF that(2)] by (intro sep_before) simp_all
  have rr: "sep a b \<and> sep b a" if "a \<in> region start" "b \<in> region start" "a < b" for a b
    using aligned_gap [of a b] region_bound [OF that(1)] region_bound [OF that(2)] that(3)
    by (intro sep_before) simp_all
  show ?thesis
    unfolding separated_def heads_def
    using hh hr rr by (auto, metis linorder_neqE_nat, metis linorder_neqE)
qed

lemma free_list_inj:
  assumes "layout_ok A start" "i < MAX_ORDER" "j < MAX_ORDER"
  shows "free_list A i = free_list A j \<longleftrightarrow> i = j"
proof
  assume "free_list A i = free_list A j"
  then have "unat A + 8 + 16 * i = unat A + 8 + 16 * j"
    using unat_free_list [OF assms(1,2)] unat_free_list [OF assms(1,3)] by (simp only:)
  then show "i = j" by simp
qed simp

lemma heads_region_disjoint: "layout_ok A start \<Longrightarrow> heads A \<inter> region start = {}"
proof -
  assume lay: "layout_ok A start"
  have "free_list A i \<notin> region start" if "i < MAX_ORDER" for i
    using head_before_region [OF lay that, of "free_list A i"] by auto
  then show ?thesis by (auto simp: heads_def)
qed

definition lists_ok :: "u64 \<Rightarrow> u64 \<Rightarrow> memory \<Rightarrow> (nat \<Rightarrow> u64 list) \<Rightarrow> bool" where
  "lists_ok A start m L \<longleftrightarrow> layout_ok A start \<and> start_addr A m = start \<and>
     (\<forall>i < MAX_ORDER. dll m (free_list A i) (L i) \<and> set (L i) \<subseteq> region start) \<and>
     (\<forall>i < MAX_ORDER. \<forall>j < MAX_ORDER. i \<noteq> j \<longrightarrow> set (L i) \<inter> set (L j) = {})"

lemma lists_okD:
  assumes "lists_ok A start m L" "i < MAX_ORDER"
  shows "dll m (free_list A i) (L i)" "set (L i) \<subseteq> region start"
    "set (free_list A i # L i) \<subseteq> heads A \<union> region start"
  using assms by (auto simp: lists_ok_def heads_def)

lemma start_addr_frame:
  assumes "layout_ok A start" "\<And>x. \<forall>a \<in> heads A \<union> region start. \<not> in_range a 16 x \<Longrightarrow> m' x = m x"
  shows "start_addr A m' = start_addr A m"
  unfolding start_addr_def
proof (rule load64_cong)
  fix x
  assume x: "in_range (A + 152) 8 x"
  have u: "unat (A + 152) = unat A + 152"
    using unat_plus_of_nat [of A 152] assms(1) unsigned_less [of start, where ?'a = nat]
    by (simp add: layout_ok_def)
  have "apart a 16 (A + 152) 8" if a: "a \<in> heads A \<union> region start" for a
  proof -
    consider i where "i < MAX_ORDER" "a = free_list A i" | "a \<in> region start"
      using a by (auto simp: heads_def)
    then show ?thesis
    proof cases
      case 1
      then show ?thesis
        using u assms(1) unat_free_list [OF assms(1), of i] unsigned_less [of start, where ?'a = nat]
        by (intro apart_before) (simp_all add: layout_ok_def MAX_ORDER_def)
    next
      case 2
      then have "apart (A + 152) 8 a 16"
        using u assms(1) region_bound [OF 2]
        by (intro apart_before) (simp_all add: layout_ok_def word_le_nat_alt)
      then show ?thesis by (simp add: apart_sym)
    qed
  qed
  then show "m' x = m x"
    using assms(2) x apart_disjoint by blast
qed

lemma lists_disjoint:
  assumes ok: "lists_ok A start m L" and ij: "i < MAX_ORDER" "j < MAX_ORDER" "i \<noteq> j"
  shows "set (free_list A j # L j) \<inter> set (free_list A i # L i) = {}"
proof -
  have lay: "layout_ok A start" using ok by (simp add: lists_ok_def)
  have "free_list A k \<notin> region start" if "k < MAX_ORDER" for k
    using heads_region_disjoint [OF lay] that by (auto simp: heads_def)
  then have "free_list A j \<notin> set (L i)" "free_list A i \<notin> set (L j)"
    using lists_okD(2) [OF ok] ij by blast+
  moreover have "free_list A j \<noteq> free_list A i"
    using free_list_inj [OF lay] ij by simp
  moreover have "set (L j) \<inter> set (L i) = {}"
    using ok ij by (simp add: lists_ok_def)
  ultimately show ?thesis by auto
qed

lemma lists_ok_upd:
  assumes ok: "lists_ok A start m L" and i: "i < MAX_ORDER"
    and "dll m' (free_list A i) xs" "set xs \<subseteq> region start" "start_addr A m' = start"
    and disj: "\<And>j. j < MAX_ORDER \<Longrightarrow> j \<noteq> i \<Longrightarrow> set xs \<inter> set (L j) = {}"
    and same: "\<And>j a. j < MAX_ORDER \<Longrightarrow> j \<noteq> i \<Longrightarrow> a \<in> set (free_list A j # L j) \<Longrightarrow>
      next_of m' a = next_of m a \<and> prev_of m' a = prev_of m a"
  shows "lists_ok A start m' (L(i := xs))"
proof -
  have "dll m' (free_list A j) (L j)" if j: "j < MAX_ORDER" "j \<noteq> i" for j
    using lists_okD(1) [OF ok j(1)] dll_cong [of "free_list A j" "L j" m' m] same [OF j] by blast
  then have "\<forall>j < MAX_ORDER. dll m' (free_list A j) ((L(i := xs)) j) \<and> set ((L(i := xs)) j) \<subseteq> region start"
    using assms(3,4) ok by (simp add: lists_ok_def)
  moreover have "\<forall>j < MAX_ORDER. \<forall>k < MAX_ORDER. j \<noteq> k \<longrightarrow> set ((L(i := xs)) j) \<inter> set ((L(i := xs)) k) = {}"
    using disj ok by (simp add: lists_ok_def Int_commute)
  ultimately show ?thesis using assms(5) ok unfolding lists_ok_def by blast
qed

lemma lists_ok_add:
  assumes ok: "lists_ok A start m L" and i: "i < MAX_ORDER" and n: "n \<in> region start"
    and fresh: "\<And>j. j < MAX_ORDER \<Longrightarrow> n \<notin> set (L j)"
  shows "lists_ok A start (list_add m (free_list A i) n) (L(i := n # L i))"
proof (rule lists_ok_upd [OF ok i])
  let ?h = "free_list A i"
  have lay: "layout_ok A start" and st: "start_addr A m = start" using ok by (simp_all add: lists_ok_def)
  note sepS = separated_nodes [OF lay] and d = lists_okD [OF ok]
  have nh: "n \<notin> heads A" using heads_region_disjoint [OF lay] n by auto
  then have nS: "set (?h # n # L i) \<subseteq> heads A \<union> region start" "n \<notin> set (?h # L i)" "n \<noteq> ?h"
    using d(3) [OF i] n fresh [OF i] i by (auto simp: heads_def)
  show "dll (list_add m ?h n) ?h (n # L i)"
    by (rule list_add_dll [OF d(1) [OF i] sepS nS(1,2)])
  show "start_addr A (list_add m ?h n) = start"
    using start_addr_frame [OF lay list_add_frame [OF d(1) [OF i] sepS nS(1,3)]] st by simp
  fix j a
  assume j: "j < MAX_ORDER" "j \<noteq> i" and a: "a \<in> set (free_list A j # L j)"
  have "a \<in> heads A \<union> region start" using d(3) [OF j(1)] a by blast
  moreover have "free_list A j \<in> heads A" using j(1) by (simp add: heads_def)
  then have "a \<noteq> n" using nh fresh [OF j(1)] a by auto
  then have "a \<notin> set (?h # n # L i)"
    using lists_disjoint [OF ok i j(1)] j a by auto
  ultimately show "next_of (list_add m ?h n) a = next_of m a \<and> prev_of (list_add m ?h n) a = prev_of m a"
    using list_add_other [OF d(1) [OF i] sepS nS(1)] by blast
qed (use lists_okD(2) [OF ok i] n fresh ok i in \<open>auto simp: lists_ok_def\<close>)

lemma lists_ok_del:
  assumes ok: "lists_ok A start m L" and i: "i < MAX_ORDER" and n: "n \<in> set (L i)"
  shows "lists_ok A start (list_del m n) (L(i := remove1 n (L i)))"
proof (rule lists_ok_upd [OF ok i])
  let ?h = "free_list A i"
  have lay: "layout_ok A start" and st: "start_addr A m = start" using ok by (simp_all add: lists_ok_def)
  note sepS = separated_nodes [OF lay] and d = lists_okD [OF ok]
  show "dll (list_del m n) ?h (remove1 n (L i))"
    by (rule list_del_dll [OF d(1) [OF i] sepS d(3) [OF i] n])
  show "start_addr A (list_del m n) = start"
    using start_addr_frame [OF lay list_del_frame [OF d(1) [OF i] sepS d(3) [OF i] n]] st by simp
  show "set (remove1 n (L i)) \<subseteq> region start"
    using d(2) [OF i] set_remove1_subset by (rule subset_trans [rotated])
  fix j a
  assume j: "j < MAX_ORDER" "j \<noteq> i"
  have "set (L i) \<inter> set (L j) = {}" using ok i j by (simp add: lists_ok_def)
  then show "set (remove1 n (L i)) \<inter> set (L j) = {}"
    using set_remove1_subset [of n "L i"] by blast
  assume a: "a \<in> set (free_list A j # L j)"
  have "a \<in> heads A \<union> region start" using d(3) [OF j(1)] a by blast
  moreover have "a \<notin> set (?h # L i)"
    using lists_disjoint [OF ok i j(1)] j a by auto
  ultimately show "next_of (list_del m n) a = next_of m a \<and> prev_of (list_del m n) a = prev_of m a"
    using list_del_other [OF d(1) [OF i] sepS d(3) [OF i] n] by blast
qed

section \<open>The allocator invariant\<close>

definition free_inv :: "u64 \<Rightarrow> u64 \<Rightarrow> memory \<Rightarrow> (nat \<Rightarrow> u64 list) \<Rightarrow> bool" where
  "free_inv A start m L \<longleftrightarrow> lists_ok A start m L \<and>
     (\<forall>i < MAX_ORDER. \<forall>a \<in> set (L i). block_ok start i a) \<and>
     (\<forall>p. count (free_pages L) p \<le> 1)"

lemma block_ok_region: "block_ok start i a \<Longrightarrow> a \<in> region start"
proof -
  assume ok: "block_ok start i a"
  have "0 < (2 :: nat) ^ (i + 21)" by simp
  then have "unat a < unat MEMORY_END"
    using ok unfolding block_ok_def by linarith
  then show ?thesis using ok by (simp add: block_ok_def region_def word_less_nat_alt)
qed

lemma free_inv_lists: "free_inv A start m L \<Longrightarrow> lists_ok A start m L"
  by (simp add: free_inv_def)

lemma free_inv_layout: "free_inv A start m L \<Longrightarrow> layout_ok A start"
  by (simp add: free_inv_def lists_ok_def)

lemma block_ok_nonzero: "layout_ok A start \<Longrightarrow> block_ok start i a \<Longrightarrow> a \<noteq> 0"
  by (auto simp: layout_ok_def block_ok_def)

lemma free_inv_add:
  assumes inv: "free_inv A start m L" and i: "i < MAX_ORDER" and n: "block_ok start i n"
    and cnt: "\<And>p. count (free_pages L + block_pages i n) p \<le> 1"
  shows "free_inv A start (list_add m (free_list A i) n) (L(i := n # L i))"
proof -
  have "n \<notin> set (L j)" if "j < MAX_ORDER" for j
  proof
    assume "n \<in> set (L j)"
    then have "1 \<le> count (free_pages L) (pn n)"
      using pn_in_free_pages [of j n L] that by (simp add: Suc_le_eq)
    moreover have "pn n \<in># block_pages i n" by (simp add: block_pages_def)
    then have "1 \<le> count (block_pages i n) (pn n)" by (simp add: Suc_le_eq)
    ultimately show False using cnt [of "pn n"] unfolding count_union by linarith
  qed
  then have "lists_ok A start (list_add m (free_list A i) n) (L(i := n # L i))"
    using inv i block_ok_region [OF n] by (intro lists_ok_add) (auto simp: free_inv_def)
  moreover have "\<forall>j < MAX_ORDER. \<forall>a \<in> set ((L(i := n # L i)) j). block_ok start j a"
    using inv n by (auto simp: free_inv_def)
  ultimately show ?thesis
    using cnt free_pages_add [OF i, of L n] by (simp add: free_inv_def add.commute)
qed

lemma free_inv_del:
  assumes inv: "free_inv A start m L" and i: "i < MAX_ORDER" and n: "n \<in> set (L i)"
  shows "free_inv A start (list_del m n) (L(i := remove1 n (L i)))"
proof -
  have "count (free_pages (L(i := remove1 n (L i)))) p \<le> 1" for p
    using inv free_pages_del [of i n L] i n
    by (simp add: free_inv_def) (metis count_union le_add2 order_trans)
  moreover have "\<forall>j < MAX_ORDER. \<forall>a \<in> set ((L(i := remove1 n (L i))) j). block_ok start j a"
    using inv set_remove1_subset [of n "L i"] by (auto simp: free_inv_def)
  ultimately show ?thesis
    using inv lists_ok_del [of A start m L i n] i n by (simp add: free_inv_def)
qed

lemma buddy_split_inv:
  assumes "free_inv A start m L" "order \<le> i" "i < MAX_ORDER" "block_ok start i a"
    and "\<And>p. count (free_pages L + block_pages i a) p \<le> 1"
  shows "\<exists>L'. free_inv A start (buddy_split A a order i m) L' \<and> block_ok start order a \<and>
    free_pages L' + block_pages order a = free_pages L + block_pages i a"
  using assms
proof (induction i arbitrary: m L)
  case 0
  then show ?case by auto
next
  case (Suc i)
  show ?case
  proof (cases "order < Suc i")
    case False
    then have "order = Suc i" using Suc.prems(2) by simp
    with Suc.prems show ?thesis by auto
  next
    case True
    let ?n = "a + block_size i" and ?m = "list_add m (free_list A i) (a + block_size i)"
    let ?L = "L(i := ?n # L i)"
    have i: "i < MAX_ORDER" "i + 1 < MAX_ORDER" using Suc.prems(3) by simp_all
    note halves = block_ok_halves [OF Suc.prems(4) i(2)]
    have cnt: "count (free_pages L + (block_pages i ?n + block_pages i a)) p \<le> 1" for p
      using Suc.prems(5) [of p] halves(4) by (simp add: add.commute)
    have inv: "free_inv A start ?m ?L"
    proof (rule free_inv_add [OF Suc.prems(1) i(1) halves(2)])
      show "count (free_pages L + block_pages i ?n) p \<le> 1" for p
        using cnt [of p] by simp
    qed
    have pages: "free_pages ?L + block_pages i a = free_pages L + block_pages (Suc i) a"
      using free_pages_add [OF i(1), of L ?n] halves(4) by (simp add: ac_simps)
    have cnt': "count (free_pages ?L + block_pages i a) p \<le> 1" for p
      unfolding pages by (rule Suc.prems(5))
    have "\<exists>L'. free_inv A start (buddy_split A a order i ?m) L' \<and> block_ok start order a \<and>
        free_pages L' + block_pages order a = free_pages ?L + block_pages i a"
      by (rule Suc.IH [OF inv _ i(1) halves(1) cnt']) (use True in simp)
    with True pages show ?thesis by simp
  qed
qed

lemma buddy_alloc_from_inv:
  assumes "free_inv A start m L" "order \<le> i" "buddy_alloc_from A order i m = (a, m')"
  shows "if \<exists>j \<ge> i. j < MAX_ORDER \<and> L j \<noteq> []
    then \<exists>L'. free_inv A start m' L' \<and> block_ok start order a \<and> free_pages L = block_pages order a + free_pages L'
    else a = 0 \<and> m' = m"
  using assms
proof (induction A order i m rule: buddy_alloc_from.induct)
  case (1 A order i m)
  note unf = buddy_alloc_from.simps [of A order i m]
  show ?case
  proof (cases "i < MAX_ORDER")
    case False
    then show ?thesis using "1.prems"(3) unf by auto
  next
    case i: True
    have d: "dll m (free_list A i) (L i)"
      using lists_okD(1) [OF free_inv_lists [OF "1.prems"(1)] i] .
    show ?thesis
    proof (cases "L i = []")
      case True
      then have "buddy_alloc_from A order (i + 1) m = (a, m')"
        using "1.prems"(3) unf i d by simp
      moreover have "(\<exists>j \<ge> i. j < MAX_ORDER \<and> L j \<noteq> []) = (\<exists>j \<ge> i + 1. j < MAX_ORDER \<and> L j \<noteq> [])"
        using True by (metis Suc_eq_plus1 Suc_leD Suc_leI le_neq_implies_less)
      moreover have "\<not> \<not> list_empty m (free_list A i)" using d True by simp
      ultimately show ?thesis using "1.IH" [OF i] "1.prems"(1,2) by simp
    next
      case False
      let ?b = "hd (L i)" and ?L = "L(i := remove1 (hd (L i)) (L i))"
      have b: "?b \<in> set (L i)" "next_of m (free_list A i) = ?b"
        using False d by (simp_all add: dll_first)
      have am: "a = ?b" "m' = buddy_split A ?b order i (list_del m ?b)"
        using "1.prems"(3) unf i d False b(2) by (auto simp: Let_def)
      have pg: "free_pages ?L + block_pages i ?b = free_pages L"
        using free_pages_del [of i ?b L] i b(1) by (simp add: add.commute)
      have cnt: "count (free_pages ?L + block_pages i ?b) p \<le> 1" for p
        unfolding pg using "1.prems"(1) by (simp add: free_inv_def)
      have ok: "block_ok start i ?b"
        using "1.prems"(1) i b(1) by (simp add: free_inv_def)
      have "\<exists>L'. free_inv A start m' L' \<and> block_ok start order a \<and>
          free_pages L' + block_pages order a = free_pages L"
        using buddy_split_inv [OF free_inv_del [OF "1.prems"(1) i b(1)] "1.prems"(2) i ok cnt]
        by (simp only: am pg)
      moreover have "\<exists>j \<ge> i. j < MAX_ORDER \<and> L j \<noteq> []" using i False by auto
      ultimately show ?thesis by (auto simp: add.commute)
    qed
  qed
qed

section \<open>Freeing a page\<close>

lemma buddy_of_pn:
  assumes "i < MAX_ORDER" "page_aligned start" "page_aligned a" "start \<le> a" "a < MEMORY_END"
  shows "page_aligned (buddy_of start i a) \<and> pn (buddy_of start i a) =
    (if odd ((pn a - pn start) div 2 ^ i) then pn a - 2 ^ i else pn a + 2 ^ i)"
proof -
  let ?r = "pn a - pn start"
  have le: "pn start \<le> pn a"
    using assms(4) by (simp add: pn_def div_le_mono word_le_nat_alt)
  have u: "unat (a - start) = ?r * 2 ^ 21"
    using assms by (simp add: unat_diff_le unat_aligned diff_mult_distrib)
  have bs: "block_size i = 2 ^ (i + 21)" by (simp add: block_size_def PAGE_SHIFT_def)
  have "bit (a - start) (i + 21) \<longleftrightarrow> odd (?r div 2 ^ i)"
    using assms(1) by (subst bit_unat_iff_odd_div) (simp_all add: MAX_ORDER_def u power_add)
  moreover have "buddy_of start i a =
      (if bit (a - start) (i + 21) then a - block_size i else a + block_size i)"
    using assms(1) unfolding buddy_of_def bs by (subst xor_power_two) (simp_all add: MAX_ORDER_def)
  moreover have "unat (a - block_size i) = (pn a - 2 ^ i) * 2 ^ 21" if "odd (?r div 2 ^ i)"
  proof -
    have "2 ^ i \<le> ?r" using that by (metis div_less even_zero not_le)
    then have "2 ^ i * 2 ^ 21 \<le> pn a * 2 ^ 21" by (intro mult_le_mono1) simp
    then show ?thesis
      using assms unat_block_size [OF assms(1)]
      by (subst unat_diff_le) (simp_all add: word_le_nat_alt unat_aligned power_add diff_mult_distrib)
  qed
  moreover have "unat (a + block_size i) = (pn a + 2 ^ i) * 2 ^ 21"
  proof -
    have "2 ^ i \<le> (2 :: nat) ^ 8" using assms(1) by (intro power_increasing) (simp_all add: MAX_ORDER_def)
    then have "unat a + 2 ^ i * 2 ^ 21 < 2 ^ 64" using assms(5) by (simp add: word_less_nat_alt)
    then have "unat (a + of_nat (2 ^ i * 2 ^ 21)) = unat a + 2 ^ i * 2 ^ 21"
      by (intro unat_plus_of_nat) simp
    then show ?thesis using assms(3) by (simp add: bs unat_aligned power_add algebra_simps)
  qed
  ultimately show ?thesis by (simp add: page_aligned_def pn_def)
qed

text \<open>
  With an odd first page number no block of order one starts where the merge at order one would
  look, because blocks are aligned to absolute addresses and buddies are computed relative to
  \<open>start_addr\<close>: the coalescing loop stops after order zero.
\<close>

lemma no_order1_buddy:
  assumes inv: "free_inv A start m L" and odd: "odd (pn start)"
    and w: "w \<in> region start" "even (pn w - pn start)"
  shows "buddy_of start 1 w \<notin> set (L 1)"
proof -
  have lay: "page_aligned start" using free_inv_layout [OF inv] by (simp add: layout_ok_def)
  have O: "1 < MAX_ORDER" by (simp add: MAX_ORDER_def)
  have "pn start \<le> pn w"
    using region_bound(2) [OF w(1)] by (simp add: pn_def div_le_mono word_le_nat_alt)
  then have "odd (pn (buddy_of start 1 w))"
    using buddy_of_pn [OF O lay region_bound(3,2) [OF w(1)]] w odd by (auto simp: region_def)
  then show ?thesis using inv O by (auto simp: free_inv_def block_ok_def)
qed

lemma merged_even:
  assumes "page_aligned start" "v \<in> region start"
  defines "b \<equiv> buddy_of start 0 v"
  shows "even (pn (if v < b then v else b) - pn start)"
proof -
  note rv = region_bound [OF assms(2)]
  have O: "0 < MAX_ORDER" by (simp add: MAX_ORDER_def)
  have b: "page_aligned b" "pn b = (if odd (pn v - pn start) then pn v - 1 else pn v + 1)"
    using buddy_of_pn [OF O assms(1) rv(3,2)] assms(2) by (simp_all add: b_def region_def)
  have "pn start \<le> pn v"
    using rv(2) by (simp add: pn_def div_le_mono word_le_nat_alt)
  then show ?thesis
    using b pn_less [OF rv(3) b(1)] by (auto split: if_splits)
qed

lemma free_inv_swap:
  assumes inv: "free_inv A start m L" and b: "b \<in> set (L 0)"
    and w: "block_ok start 0 w" "w = b \<or> pn w \<notin># free_pages L"
  shows "free_inv A start (list_add (list_del m b) (free_list A 0) w) (L(0 := w # remove1 b (L 0)))"
proof -
  let ?L = "L(0 := remove1 b (L 0))"
  have O: "0 < MAX_ORDER" by (simp add: MAX_ORDER_def)
  have pg: "free_pages L = add_mset (pn b) (free_pages ?L)"
    using free_pages_del [of 0 b L] O b by simp
  have "count (free_pages ?L + block_pages 0 w) p \<le> 1" for p
  proof -
    have c: "count (free_pages L) q = count (free_pages ?L) q + of_bool (q = pn b)" for q
      unfolding pg by simp
    have "count (free_pages L) p \<le> 1" using inv by (simp add: free_inv_def)
    moreover have "w = b \<or> count (free_pages L) (pn w) = 0" using w(2) by (simp only: not_in_iff)
    ultimately have "count (free_pages ?L) p + of_bool (p = pn w) \<le> 1"
      using c [of p] c [of "pn w"] by (cases "p = pn w") auto
    then show ?thesis by (cases "p = pn w") auto
  qed
  then show ?thesis
    using free_inv_add [OF free_inv_del [OF inv O b] O w(1)] by simp
qed

lemma buddy_free_order0:
  assumes inv: "free_inv A start m L" and v: "v \<in> region start" and free: "pn v \<notin># free_pages L"
    and odd: "odd (pn start)"
  defines "b \<equiv> buddy_of start 0 v"
  defines "w \<equiv> (if v < b then v else b)"
  shows "if b \<in> set (L 0)
    then buddy_free A v 0 m = Inr (list_add (list_del m b) (free_list A 0) w) \<and>
      free_inv A start (list_add (list_del m b) (free_list A 0) w) (L(0 := w # remove1 b (L 0)))
    else buddy_free A v 0 m = Inr m"
proof -
  have lay: "page_aligned start" using free_inv_layout [OF inv] by (simp add: layout_ok_def)
  have st: "start_addr A m = start" using inv by (simp add: free_inv_def lists_ok_def)
  have O: "0 < MAX_ORDER" "1 < MAX_ORDER" by (simp_all add: MAX_ORDER_def)
  have srch: "list_search m (free_list A 0) b (next_of m (free_list A 0)) = Some (b \<in> set (L 0))"
    using list_search_dll lists_okD(1) [OF free_inv_lists [OF inv] O(1)] by blast
  show ?thesis
  proof (cases "b \<in> set (L 0)")
    case False
    then show ?thesis
      using srch st buddy_free_from.simps [of A 0 v m]
      by (simp add: buddy_free_def MAX_ORDER_def flip: b_def)
  next
    case True
    let ?m = "list_add (list_del m b) (free_list A 0) w" and ?L' = "L(0 := w # remove1 b (L 0))"
    have "block_ok start 0 b" using inv O True by (simp add: free_inv_def)
    then have wok: "block_ok start 0 w"
      using region_bound [OF v] by (simp add: w_def block_ok_def)
    have inv': "free_inv A start ?m ?L'"
      using free_inv_swap [OF inv True wok] free by (simp add: w_def split: if_splits)
    have "buddy_of start 1 w \<notin> set (L 1)"
    proof (rule no_order1_buddy [OF inv odd block_ok_region [OF wok]])
      show "even (pn w - pn start)" unfolding w_def b_def by (rule merged_even [OF lay v])
    qed
    moreover have "list_search ?m (free_list A 1) t (next_of ?m (free_list A 1)) = Some (t \<in> set (L 1))" for t
      using list_search_dll lists_okD(1) [OF free_inv_lists [OF inv'] O(2)] by simp
    moreover have "start_addr A ?m = start" using inv' by (simp add: free_inv_def lists_ok_def)
    ultimately have "buddy_free_from A 1 w ?m = Inr ?m"
      by (subst buddy_free_from.simps) (simp add: MAX_ORDER_def)
    moreover have "buddy_free_from A 0 v m = buddy_free_from A 1 w ?m"
      by (subst buddy_free_from.simps)
         (simp add: st srch True w_def Let_def MAX_ORDER_def flip: b_def)
    ultimately show ?thesis using True inv' by (simp add: buddy_free_def)
  qed
qed

section \<open>Writes to a page that is not free\<close>

lemma nodes_apart_page:
  assumes inv: "free_inv A start m L" and a: "a \<in> region start" "pn a \<notin># free_pages L"
    and n: "n = free_list A j \<or> n \<in> set (L j)" "j < MAX_ORDER"
  shows "apart n 16 a (2 ^ 21)"
proof -
  note ra = region_bound [OF a(1)]
  consider "n = free_list A j" | "n \<in> set (L j)" using n(1) by blast
  then show ?thesis
  proof cases
    case 1
    then show ?thesis
      using head_before_region [OF free_inv_layout [OF inv] n(2) a(1)] ra
      by (intro apart_before) simp_all
  next
    case 2
    then have r: "n \<in> region start" using lists_okD(2) [OF free_inv_lists [OF inv] n(2)] by blast
    note rn = region_bound [OF r]
    have "n \<noteq> a" using pn_in_free_pages [of j n L] 2 n(2) a(2) by auto
    then consider "n < a" | "a < n" by fastforce
    then show ?thesis
    proof cases
      case 1
      then show ?thesis using aligned_gap [OF rn(3) ra(3)] ra by (intro apart_before) simp_all
    next
      case 2
      then have "apart a (2 ^ 21) n 16"
        using aligned_gap [OF ra(3) rn(3)] rn by (intro apart_before) simp_all
      then show ?thesis by (simp add: apart_sym)
    qed
  qed
qed

text \<open>A write that the list nodes and the start address do not see.\<close>

lemma free_inv_write:
  assumes inv: "free_inv A start m L" and head: "start_addr A m' = start_addr A m"
    and node: "\<And>n j. n \<in> set (free_list A j # L j) \<Longrightarrow> j < MAX_ORDER \<Longrightarrow>
      next_of m' n = next_of m n \<and> prev_of m' n = prev_of m n"
  shows "free_inv A start m' L"
proof -
  have "dll m' (free_list A j) (L j)" if j: "j < MAX_ORDER" for j
    using lists_okD(1) [OF free_inv_lists [OF inv] j] dll_cong [of "free_list A j" "L j" m' m] node j
    by blast
  then show ?thesis using inv head by (simp add: free_inv_def lists_ok_def)
qed

lemma free_inv_page_write:
  assumes inv: "free_inv A start m L" and a: "a \<in> region start" "pn a \<notin># free_pages L"
    and same: "\<And>x. \<not> in_range a (2 ^ 21) x \<Longrightarrow> m' x = m x"
  shows "free_inv A start m' L"
proof -
  have lay: "layout_ok A start" using free_inv_layout [OF inv] .
  have load: "load64 m' c = load64 m c" if "apart c 8 a (2 ^ 21)" for c
    by (rule load64_cong) (use that same apart_disjoint apart_sym in blast)
  have node: "next_of m' n = next_of m n \<and> prev_of m' n = prev_of m n"
    if "n \<in> set (free_list A j # L j)" "j < MAX_ORDER" for n j
  proof -
    have ap: "apart n 16 a (2 ^ 21)" using nodes_apart_page [OF inv a, of n j] that by auto
    show ?thesis
      using load [of n] load [of "n + 8"] apart_sub [OF ap, of 0 8 0 "2 ^ 21"]
        apart_sub [OF ap, of 8 8 0 "2 ^ 21"] by (simp add: next_of_def prev_of_def)
  qed
  have "start_addr A m' = start_addr A m"
  proof -
    have "unat (A + 152) = unat A + 152"
      using unat_plus_of_nat [of A 152] lay unsigned_less [of start, where ?'a = nat]
      by (simp add: layout_ok_def)
    then have "apart (A + 152) 8 a (2 ^ 21)"
      using lay region_bound [OF a(1)]
      by (intro apart_before) (simp_all add: layout_ok_def word_le_nat_alt)
    then show ?thesis unfolding start_addr_def by (rule load)
  qed
  from free_inv_write [OF inv this node] show ?thesis .
qed

section \<open>What the operations leave alone\<close>

text \<open>
  Everything outside the \<open>allocator\<close> object and outside a given set of pages.
\<close>

definition same_outside :: "u64 \<Rightarrow> nat set \<Rightarrow> memory \<Rightarrow> memory \<Rightarrow> bool" where
  "same_outside A P m m' \<longleftrightarrow> (\<forall>x. \<not> in_range A 160 x \<longrightarrow> pn x \<notin> P \<longrightarrow> m' x = m x)"

lemma same_outside_refl [simp]: "same_outside A P m m"
  by (simp add: same_outside_def)

lemma same_outside_trans:
  "same_outside A P m m' \<Longrightarrow> same_outside A Q m' m'' \<Longrightarrow> P \<subseteq> R \<Longrightarrow> Q \<subseteq> R \<Longrightarrow> same_outside A R m m''"
  unfolding same_outside_def by (metis subsetD)

lemma in_range_page:
  assumes "page_aligned a" "in_range a k x" "k \<le> 2 ^ 21"
  shows "pn x = pn a"
proof -
  have "unat (x - a) < 2 ^ 21" using assms by (simp add: in_range_def)
  moreover have "unat a + 2 ^ 21 \<le> 2 ^ 64"
  proof -
    have "pn a < 2 ^ 43"
      using unsigned_less [of a, where ?'a = nat] by (simp add: pn_def less_mult_imp_div_less)
    then have "Suc (pn a) * 2 ^ 21 \<le> 2 ^ 43 * 2 ^ 21" by (intro mult_le_mono1) simp
    then show ?thesis using unat_aligned [OF assms(1)] by simp
  qed
  ultimately have "unat (a + of_nat (unat (x - a))) = unat a + unat (x - a)"
    by (intro unat_plus_of_nat) simp
  then have "unat x = pn a * 2 ^ 21 + unat (x - a)"
    using unat_aligned [OF assms(1)] by simp
  then obtain d where d: "d < 2 ^ 21" "unat x = pn a * 2 ^ 21 + d"
    using \<open>unat (x - a) < 2 ^ 21\<close> by blast
  show ?thesis unfolding pn_def [of x] d(2) using d(1) by simp
qed

lemma head_in_object:
  assumes "layout_ok A start" "i < MAX_ORDER" "in_range (free_list A i) 16 x"
  shows "in_range A 160 x"
proof -
  have "x - A = (x - free_list A i) + of_nat (8 + 16 * i)" by (simp add: free_list_def)
  moreover have "unat ((x - free_list A i) + of_nat (8 + 16 * i)) = unat (x - free_list A i) + (8 + 16 * i)"
    by (rule unat_plus_of_nat) (use assms(2,3) in \<open>simp add: in_range_def MAX_ORDER_def\<close>)
  ultimately have "unat (x - A) = unat (x - free_list A i) + (8 + 16 * i)"
    by (simp only:)
  then show ?thesis using assms(2,3) by (simp add: in_range_def MAX_ORDER_def)
qed

lemma node_outside:
  assumes "free_inv A start m L" "j < MAX_ORDER" "n = free_list A j \<or> n \<in> set (L j)"
    and "\<not> in_range A 160 x" "pn x \<notin># free_pages L"
  shows "\<not> in_range n 16 x"
proof
  assume r: "in_range n 16 x"
  consider "n = free_list A j" | "n \<in> set (L j)" using assms(3) by blast
  then show False
  proof cases
    case 1
    then show ?thesis using head_in_object [OF free_inv_layout [OF assms(1)] assms(2)] r assms(4) by simp
  next
    case 2
    then have "page_aligned n"
      using assms(1,2) by (auto simp: free_inv_def block_ok_def)
    then show ?thesis
      using in_range_page [OF _ r] pn_in_free_pages [of j n L] 2 assms(2,5) by simp
  qed
qed

lemma list_add_same:
  assumes inv: "free_inv A start m L" and i: "i < MAX_ORDER" and n: "n \<in> region start"
    and P: "set_mset (free_pages L) \<subseteq> P" "pn n \<in> P"
  shows "same_outside A P m (list_add m (free_list A i) n)"
  unfolding same_outside_def
proof (intro allI impI)
  fix x
  assume x: "\<not> in_range A 160 x" "pn x \<notin> P"
  let ?h = "free_list A i"
  have lay: "layout_ok A start" using free_inv_layout [OF inv] .
  have d: "dll m ?h (L i)" using lists_okD(1) [OF free_inv_lists [OF inv] i] .
  have nx: "next_of m ?h = ?h \<or> next_of m ?h \<in> set (L i)"
    using dll_first [OF d] by (auto split: if_splits)
  have hS: "?h \<in> heads A \<union> region start" "n \<in> heads A \<union> region start" "n \<noteq> ?h"
    using i n heads_region_disjoint [OF lay] by (auto simp: heads_def)
  have "\<not> in_range n 16 x"
    using in_range_page [OF region_bound(3) [OF n], of 16 x] x P(2) by auto
  moreover have "\<not> in_range ?h 16 x" "\<not> in_range (next_of m ?h) 16 x"
    using node_outside [OF inv i _ x(1)] nx x(2) P(1) by blast+
  ultimately show "list_add m ?h n x = m x"
    using hS by (simp add: list_add_def Let_def set_node_outside node_upd [OF separated_nodes [OF lay]])
qed

lemma list_del_same:
  assumes inv: "free_inv A start m L" and i: "i < MAX_ORDER" and n: "n \<in> set (L i)"
    and P: "set_mset (free_pages L) \<subseteq> P"
  shows "same_outside A P m (list_del m n)"
  unfolding same_outside_def
proof (intro allI impI)
  fix x
  assume x: "\<not> in_range A 160 x" "pn x \<notin> P"
  let ?S = "heads A \<union> region start"
  have lay: "layout_ok A start" using free_inv_layout [OF inv] .
  have d: "dll m (free_list A i) (L i)" using lists_okD(1) [OF free_inv_lists [OF inv] i] .
  note nb = dll_neighbours [OF d n]
  have S: "next_of m n \<in> ?S" "prev_of m n \<in> ?S" "n \<in> ?S"
    using nb n lists_okD(3) [OF free_inv_lists [OF inv] i] by auto
  have out: "\<not> in_range (next_of m n) 16 x" "\<not> in_range (prev_of m n) 16 x" "\<not> in_range n 16 x"
    using node_outside [OF inv i _ x(1)] nb n x(2) P by auto
  have "\<not> in_range (next_of (set_next m (prev_of m n) (next_of m n)) n) 16 x"
    using S out by (simp add: node_upd [OF separated_nodes [OF lay]])
  then show "list_del m n x = m x"
    using out by (simp add: list_del_def Let_def set_node_outside)
qed

lemma buddy_split_same:
  assumes "free_inv A start m L" "order \<le> i" "i < MAX_ORDER" "block_ok start i a"
    and "\<And>p. count (free_pages L + block_pages i a) p \<le> 1"
    and P: "set_mset (free_pages L + block_pages i a) \<subseteq> P"
  shows "same_outside A P m (buddy_split A a order i m)"
  using assms
proof (induction i arbitrary: m L)
  case 0
  then show ?case by simp
next
  case (Suc i)
  let ?n = "a + block_size i" and ?m = "list_add m (free_list A i) (a + block_size i)"
  let ?L = "L(i := ?n # L i)"
  have i: "i < MAX_ORDER" "i + 1 < MAX_ORDER" using Suc.prems(3) by simp_all
  note halves = block_ok_halves [OF Suc.prems(4) i(2)]
  have pages: "free_pages ?L + block_pages i a = free_pages L + block_pages (Suc i) a"
    using free_pages_add [OF i(1), of L ?n] halves(4) by (simp add: ac_simps)
  have cnt: "count (free_pages L + block_pages i ?n) p \<le> 1" for p
    using Suc.prems(5) [of p] halves(4) by simp
  note inv = free_inv_add [OF Suc.prems(1) i(1) halves(2) cnt]
  have "pn ?n \<in># block_pages i ?n" by (simp add: block_pages_def)
  then have nP: "pn ?n \<in> P" using Suc.prems(6) halves(4) by auto
  have "set_mset (free_pages L) \<subseteq> P" using Suc.prems(6) by simp
  then have "same_outside A P m ?m"
    using list_add_same [OF Suc.prems(1) i(1) block_ok_region [OF halves(2)] _ nP] by blast
  moreover have "same_outside A P ?m (buddy_split A a order i ?m)" if "order < Suc i"
    using that Suc.prems(5,6) by (intro Suc.IH [OF inv _ i(1) halves(1)]) (simp_all only: pages less_Suc_eq_le)
  ultimately show ?case
    using same_outside_trans [of A P m ?m P _ P] by auto
qed

end
