(* ===== verification/Page_Allocator.thy ===== *)
theory Page_Allocator
  imports Buddy_Correct
begin

text \<open>
  The allocator as its clients see it.  The interface \<open>page_allocator\<close> states what \<open>kalloc\<close> and
  \<open>kfree\<close> promise over an abstract set of available page numbers, and proves once what a client
  gets from it: whatever the sequence of calls, pages held at the same time are distinct.
  \<open>leaky_allocator\<close> adds the law that this \<open>kfree\<close> never makes a page available again, and
  derives the bound on the number of pages that can ever be handed out.  Both are interpreted
  on the model's \<open>kalloc\<close> and \<open>kfree\<close>.
\<close>

section \<open>The interface\<close>

datatype alloc_op = Alloc | Free nat

text \<open>
  A client: it allocates pages and remembers the ones it got, and frees a page it holds.
\<close>

fun client_run :: "('s \<Rightarrow> (u64 \<times> 's) res) \<Rightarrow> (u64 \<Rightarrow> 's \<Rightarrow> 's res) \<Rightarrow> alloc_op list \<Rightarrow>
    's \<times> u64 list \<times> nat \<Rightarrow> ('s \<times> u64 list \<times> nat) res" where
  "client_run al fr [] c = Inr c"
| "client_run al fr (Alloc # ops) (s, held, n) =
     rbind (al s) (\<lambda>(p, s).
     client_run al fr ops (s, if p = 0 then held else p # held, if p = 0 then n else n + 1))"
| "client_run al fr (Free i # ops) (s, held, n) =
     (if i < length held
      then rbind (fr (held ! i) s) (\<lambda>s. client_run al fr ops (s, remove1 (held ! i) held, n))
      else client_run al fr ops (s, held, n))"

locale page_allocator =
  fixes alloc :: "'s \<Rightarrow> (u64 \<times> 's) res"
    and free :: "u64 \<Rightarrow> 's \<Rightarrow> 's res"
    and inv :: "'s \<Rightarrow> bool"
    and avail :: "'s \<Rightarrow> nat set"
    and managed :: "'s \<Rightarrow> u64 set"
  assumes alloc_law: "inv s \<Longrightarrow> \<exists>p t. alloc s = Inr (p, t) \<and> inv t \<and> managed t = managed s \<and>
      (if avail s = {} then p = 0 \<and> avail t = {}
       else p \<noteq> 0 \<and> p \<in> managed s \<and> pn p \<in> avail s \<and> avail t = avail s - {pn p})"
    and free_law: "inv s \<Longrightarrow> p \<in> managed s \<Longrightarrow> pn p \<notin> avail s \<Longrightarrow>
      \<exists>t. free p s = Inr t \<and> inv t \<and> managed t = managed s \<and> avail t \<subseteq> insert (pn p) (avail s)"
    and managed_aligned: "p \<in> managed s \<Longrightarrow> page_aligned p"
begin

definition holds :: "'s \<Rightarrow> u64 list \<Rightarrow> bool" where
  "holds s held \<longleftrightarrow> inv s \<and> distinct held \<and> (\<forall>p \<in> set held. p \<in> managed s \<and> pn p \<notin> avail s)"

lemma holds_alloc:
  assumes "holds s held"
  shows "\<exists>p t. alloc s = Inr (p, t) \<and> holds t (if p = 0 then held else p # held)"
proof -
  obtain p t where t: "alloc s = Inr (p, t)" "inv t" "managed t = managed s"
      "if avail s = {} then p = 0 \<and> avail t = {}
       else p \<noteq> 0 \<and> p \<in> managed s \<and> pn p \<in> avail s \<and> avail t = avail s - {pn p}"
    using alloc_law assms by (metis holds_def)
  then have "holds t (if p = 0 then held else p # held)"
    using assms by (auto simp: holds_def split: if_splits)
  then show ?thesis using t(1) by blast
qed

lemma holds_free:
  assumes "holds s held" "p \<in> set held"
  shows "\<exists>t. free p s = Inr t \<and> holds t (remove1 p held)"
proof -
  have p: "p \<in> managed s" "pn p \<notin> avail s" "inv s" using assms by (auto simp: holds_def)
  obtain t where t: "free p s = Inr t" "inv t" "managed t = managed s"
      "avail t \<subseteq> insert (pn p) (avail s)"
    using free_law [OF p(3,1,2)] by blast
  have "pn q \<notin> avail t" if "q \<in> set held" "q \<noteq> p" for q
    using that assms t(4) p(1) pn_inj managed_aligned by (metis holds_def insertE subsetD)
  then have "holds t (remove1 p held)"
    using assms t by (auto simp: holds_def)
  then show ?thesis using t(1) by blast
qed

lemma client_safe:
  assumes "holds s held"
  shows "\<exists>t held' n'. client_run alloc free ops (s, held, n) = Inr (t, held', n') \<and> holds t held'"
  using assms
proof (induction ops arbitrary: s held n)
  case Nil
  then show ?case by simp
next
  case (Cons a ops)
  show ?case
  proof (cases a)
    case Alloc
    then obtain p t where "alloc s = Inr (p, t)" "holds t (if p = 0 then held else p # held)"
      using holds_alloc [OF Cons.prems] by blast
    then show ?thesis using Alloc Cons.IH by simp
  next
    case (Free i)
    show ?thesis
    proof (cases "i < length held")
      case True
      then obtain t where "free (held ! i) s = Inr t" "holds t (remove1 (held ! i) held)"
        using holds_free [OF Cons.prems, of "held ! i"] by auto
      then show ?thesis using Free True Cons.IH by simp
    qed (use Free Cons in simp)
  qed
qed

end

locale leaky_allocator = page_allocator +
  assumes avail_finite: "inv s \<Longrightarrow> finite (avail s)"
    and free_no_gain: "inv s \<Longrightarrow> p \<in> managed s \<Longrightarrow> pn p \<notin> avail s \<Longrightarrow> free p s = Inr t \<Longrightarrow>
      card (avail t) = card (avail s)"
begin

lemma client_budget:
  assumes "holds s held" "client_run alloc free ops (s, held, n) = Inr (t, held', n')"
  shows "n' + card (avail t) = n + card (avail s)"
  using assms
proof (induction ops arbitrary: s held n)
  case Nil
  then show ?case by simp
next
  case (Cons a ops)
  have inv: "inv s" using Cons.prems(1) by (simp add: holds_def)
  show ?case
  proof (cases a)
    case Alloc
    obtain p u where u: "alloc s = Inr (p, u)" "holds u (if p = 0 then held else p # held)"
      using holds_alloc [OF Cons.prems(1)] by blast
    have law: "if avail s = {} then p = 0 \<and> avail u = {}
        else p \<noteq> 0 \<and> p \<in> managed s \<and> pn p \<in> avail s \<and> avail u = avail s - {pn p}"
      using alloc_law [OF inv] u(1) by auto
    have "client_run alloc free ops (u, if p = 0 then held else p # held, if p = 0 then n else n + 1)
        = Inr (t, held', n')"
      using Cons.prems(2) Alloc u(1) by simp
    then have "n' + card (avail t) = (if p = 0 then n else n + 1) + card (avail u)"
      by (rule Cons.IH [OF u(2)])
    moreover have "card (avail u) + (if p = 0 then 0 else 1) = card (avail s)"
      using law avail_finite [OF inv] card_Suc_Diff1 [of "avail s" "pn p"] by (auto split: if_splits)
    ultimately show ?thesis by (auto split: if_splits)
  next
    case (Free i)
    show ?thesis
    proof (cases "i < length held")
      case True
      then have h: "held ! i \<in> set held" by simp
      then obtain u where u: "free (held ! i) s = Inr u" "holds u (remove1 (held ! i) held)"
        using holds_free [OF Cons.prems(1)] by blast
      have "card (avail u) = card (avail s)"
        using free_no_gain [OF inv _ _ u(1)] h Cons.prems(1) by (simp add: holds_def)
      then show ?thesis
        using Cons.IH [OF u(2)] Cons.prems(2) Free True u(1) by simp
    qed (use Free Cons in simp)
  qed
qed

end

section \<open>kalloc and kfree implement it\<close>

abbreviation start_of :: "'a kernel_scheme \<Rightarrow> u64" where
  "start_of s \<equiv> start_addr (sym_allocator s) (mem s)"

definition kmem_inv :: "'a kernel_scheme \<Rightarrow> (nat \<Rightarrow> u64 list) \<Rightarrow> bool" where
  "kmem_inv s L \<longleftrightarrow> free_inv (sym_allocator s) (start_of s) (mem s) L \<and>
     sym_end s \<le> start_of s \<and> \<not> locks s Allocator_lock"

lemma free_inv_start: "free_inv A start m L \<Longrightarrow> start_addr A m = start"
  by (simp add: free_inv_def lists_ok_def)

lemma buddy_alloc_from_same:
  assumes "free_inv A start m L" "order \<le> i" "buddy_alloc_from A order i m = (a, m')"
  shows "same_outside A (set_mset (free_pages L)) m m'"
  using assms
proof (induction A order i m rule: buddy_alloc_from.induct)
  case (1 A order i m)
  note unf = buddy_alloc_from.simps [of A order i m]
  show ?case
  proof (cases "i < MAX_ORDER")
    case False
    then show ?thesis using "1.prems"(3) unf by simp
  next
    case i: True
    have d: "dll m (free_list A i) (L i)"
      using lists_okD(1) [OF free_inv_lists [OF "1.prems"(1)] i] .
    show ?thesis
    proof (cases "L i = []")
      case True
      then show ?thesis using "1.IH" [OF i] "1.prems" unf i d by simp
    next
      case False
      let ?b = "hd (L i)" and ?L = "L(i := remove1 (hd (L i)) (L i))"
      have b: "?b \<in> set (L i)" "next_of m (free_list A i) = ?b"
        using False d by (simp_all add: dll_first)
      have m': "m' = buddy_split A ?b order i (list_del m ?b)"
        using "1.prems"(3) unf i d False b(2) by (auto simp: Let_def)
      have pg: "free_pages ?L + block_pages i ?b = free_pages L"
        using free_pages_del [of i ?b L] i b(1) by (simp add: add.commute)
      have ok: "block_ok start i ?b" and cnt: "count (free_pages L) p \<le> 1" for p
        using "1.prems"(1) i b(1) by (simp_all add: free_inv_def)
      have "same_outside A (set_mset (free_pages L)) m (list_del m ?b)"
        by (rule list_del_same [OF "1.prems"(1) i b(1)]) simp
      moreover have "same_outside A (set_mset (free_pages L)) (list_del m ?b) m'"
        unfolding m' using cnt
        by (intro buddy_split_same [OF free_inv_del [OF "1.prems"(1) i b(1)] "1.prems"(2) i ok])
           (simp_all only: pg order_refl)
      ultimately show ?thesis by (rule same_outside_trans) simp_all
    qed
  qed
qed

lemma some_free_page:
  "free_pages L \<noteq> {#} \<longleftrightarrow> (\<exists>i < MAX_ORDER. L i \<noteq> [])"
proof
  assume "free_pages L \<noteq> {#}"
  then show "\<exists>i < MAX_ORDER. L i \<noteq> []"
    by (metis (no_types, lifting) free_pages_def lessThan_iff list_pages_Nil sum.neutral)
next
  assume "\<exists>i < MAX_ORDER. L i \<noteq> []"
  then obtain i where "i < MAX_ORDER" "hd (L i) \<in> set (L i)" by auto
  then show "free_pages L \<noteq> {#}" using pn_in_free_pages [of i "hd (L i)" L] by auto
qed

lemma kalloc_spec:
  assumes "kmem_inv s L"
  shows "if free_pages L = {#} then kalloc s = Inr (0, s)
    else \<exists>a m' L'. kalloc s = Inr (a, s\<lparr>mem := m'\<rparr>) \<and> kmem_inv (s\<lparr>mem := m'\<rparr>) L' \<and>
      start_addr (sym_allocator s) m' = start_of s \<and> a \<in> region (start_of s) \<and> a \<noteq> 0 \<and>
      free_pages L = add_mset (pn a) (free_pages L') \<and>
      (\<forall>x. in_range a (2 ^ 21) x \<longrightarrow> m' x = 0) \<and>
      same_outside (sym_allocator s) (set_mset (free_pages L)) (mem s) m'"
proof -
  let ?A = "sym_allocator s" and ?start = "start_of s"
  have inv: "free_inv ?A ?start (mem s) L" and lk: "\<not> locks s Allocator_lock"
    using assms by (simp_all add: kmem_inv_def)
  obtain a m1 where al: "buddy_alloc_from ?A 0 0 (mem s) = (a, m1)" by fastforce
  note spec = buddy_alloc_from_inv [OF inv _ al]
  have ka: "kalloc s = Inr (a, if a \<noteq> 0 then s\<lparr>mem := memset m1 a 0 (2 ^ 21)\<rparr> else s\<lparr>mem := m1\<rparr>)"
    using lk al by (simp add: kalloc_def buddy_alloc_def spin_unlock_def fun_upd_idem PAGE_SIZE_def)
  show ?thesis
  proof (cases "free_pages L = {#}")
    case True
    then have "a = 0 \<and> m1 = mem s" using spec some_free_page [of L] by auto
    then show ?thesis using True ka by simp
  next
    case False
    then obtain L' where L': "free_inv ?A ?start m1 L'" "block_ok ?start 0 a"
        "free_pages L = add_mset (pn a) (free_pages L')"
      using spec some_free_page [of L] by (auto split: if_splits)
    have a: "a \<in> region ?start" "a \<noteq> 0"
      using block_ok_region [OF L'(2)] block_ok_nonzero [OF free_inv_layout [OF inv] L'(2)] by simp_all
    have "count (free_pages L) (pn a) \<le> 1" using inv by (simp add: free_inv_def)
    then have na: "pn a \<notin># free_pages L'" using L'(3) by (simp add: not_in_iff)
    let ?m = "memset m1 a 0 (2 ^ 21)"
    have inv': "free_inv ?A ?start ?m L'"
      by (rule free_inv_page_write [OF L'(1) a(1) na]) (simp add: memset_apply)
    have "same_outside ?A (set_mset (free_pages L)) m1 ?m"
      using in_range_page [OF region_bound(3) [OF a(1)], of "2 ^ 21"] L'(3)
      by (auto simp: same_outside_def memset_apply)
    then have "same_outside ?A (set_mset (free_pages L)) (mem s) ?m"
      using same_outside_trans [OF buddy_alloc_from_same [OF inv _ al]] by blast
    moreover have "kmem_inv (s\<lparr>mem := ?m\<rparr>) L'"
      using inv' free_inv_start [OF inv'] assms by (simp add: kmem_inv_def)
    moreover have "\<forall>x. in_range a (2 ^ 21) x \<longrightarrow> ?m x = 0" by (simp add: memset_apply)
    ultimately show ?thesis
      using False ka a L'(3) free_inv_start [OF inv'] by auto
  qed
qed

lemma kfree_spec:
  assumes "kmem_inv s L" "odd (pn (start_of s))" "v \<in> region (start_of s)" "pn v \<notin># free_pages L"
  shows "\<exists>m' L'. kfree v s = Inr (s\<lparr>mem := m'\<rparr>) \<and> kmem_inv (s\<lparr>mem := m'\<rparr>) L' \<and>
    start_addr (sym_allocator s) m' = start_of s \<and>
    size (free_pages L') = size (free_pages L) \<and>
    set_mset (free_pages L') \<subseteq> insert (pn v) (set_mset (free_pages L)) \<and>
    same_outside (sym_allocator s) (insert (pn v) (set_mset (free_pages L))) (mem s) m'"
proof -
  let ?A = "sym_allocator s" and ?start = "start_of s"
  let ?b = "buddy_of ?start 0 v" and ?P = "insert (pn v) (set_mset (free_pages L))"
  let ?w = "if v < ?b then v else ?b"
  have inv: "free_inv ?A ?start (mem s) L" and lk: "\<not> locks s Allocator_lock" and e: "sym_end s \<le> ?start"
    using assms(1) by (simp_all add: kmem_inv_def)
  note rv = region_bound [OF assms(3)]
  have "unat (v + of_nat (2 ^ 21)) = unat v + 2 ^ 21"
    using rv(1) by (intro unat_plus_of_nat) simp
  then have "v + PAGE_SIZE \<le> MEMORY_END"
    using rv(1) by (simp add: word_le_nat_alt PAGE_SIZE_def)
  moreover have "v mod PAGE_SIZE = 0"
    using rv(3) by (simp add: page_aligned_def PAGE_SIZE_def word_unat_eq_iff unat_mod)
  moreover have "sym_end s \<le> v" using e rv(2) by (rule order_trans)
  ultimately have kf: "kfree v s = rbind (buddy_free ?A v 0 (mem s)) (\<lambda>m. Inr (s\<lparr>mem := m\<rparr>))"
    using e rv(2) lk by (simp add: kfree_def spin_unlock_def fun_upd_idem)
  note bf = buddy_free_order0 [OF inv assms(3,4,2)]
  show ?thesis
  proof (cases "?b \<in> set (L 0)")
    case False
    then have "kfree v s = Inr (s\<lparr>mem := mem s\<rparr>)" using bf kf by simp
    moreover have "s\<lparr>mem := mem s\<rparr> = s" by simp
    ultimately show ?thesis
      using assms(1) by (intro exI [of _ "mem s"] exI [of _ L]) auto
  next
    case True
    define m' where "m' = list_add (list_del (mem s) ?b) (free_list ?A 0) ?w"
    define M where "M = L(0 := remove1 ?b (L 0))"
    define L' where "L' = L(0 := ?w # remove1 ?b (L 0))"
    have O: "0 < MAX_ORDER" by (simp add: MAX_ORDER_def)
    have r: "kfree v s = Inr (s\<lparr>mem := m'\<rparr>)" and inv': "free_inv ?A ?start m' L'"
      using True bf kf unfolding m'_def L'_def by simp_all
    have pg: "free_pages L = add_mset (pn ?b) (free_pages M)"
      using free_pages_del [of 0 ?b L] O True by (simp add: M_def)
    have pg': "free_pages L' = add_mset (pn ?w) (free_pages M)"
      using free_pages_add [OF O, of M ?w] by (simp add: M_def L'_def)
    have P: "?P = insert (pn v) (insert (pn ?b) (set_mset (free_pages M)))"
      by (simp only: pg set_mset_add_mset_insert)
    have "size (free_pages L') = size (free_pages L)"
      by (simp only: pg pg' size_add_mset)
    moreover have sub: "set_mset (free_pages L') \<subseteq> ?P"
      unfolding P pg' by auto
    moreover have "same_outside ?A ?P (mem s) (list_del (mem s) ?b)"
      by (rule list_del_same [OF inv O True]) auto
    moreover have "same_outside ?A ?P (list_del (mem s) ?b) m'"
      unfolding m'_def
    proof (rule list_add_same [OF free_inv_del [OF inv O True] O])
      have "?w \<in> set (L' 0)" by (simp add: L'_def)
      then show "?w \<in> region ?start"
        using lists_okD(2) [OF free_inv_lists [OF inv'] O] by blast
      show "set_mset (free_pages (L(0 := remove1 ?b (L 0)))) \<subseteq> ?P"
        unfolding P M_def [symmetric] by auto
      show "pn ?w \<in> ?P" using sub unfolding pg' by simp
    qed
    ultimately show ?thesis
      using r inv' free_inv_start [OF inv'] assms(1) same_outside_trans [of ?A ?P "mem s" _ ?P _ ?P]
      by (intro exI [of _ m'] exI [of _ L']) (simp add: kmem_inv_def)
  qed
qed

text \<open>
  The free lists are determined by memory, so the available pages are a function of the state.
\<close>

definition kalloc_inv :: "'a kernel_scheme \<Rightarrow> bool" where
  "kalloc_inv s \<longleftrightarrow> (\<exists>L. kmem_inv s L) \<and> odd (pn (start_of s))"

definition kavail :: "'a kernel_scheme \<Rightarrow> nat set" where
  "kavail s = {p. \<exists>L. kmem_inv s L \<and> p \<in># free_pages L}"

lemma kmem_inv_unique:
  assumes "kmem_inv s L" "kmem_inv s M"
  shows "free_pages L = free_pages M"
proof -
  have "L i = M i" if "i < MAX_ORDER" for i
    using assms that dll_unique by (auto simp: kmem_inv_def free_inv_def lists_ok_def)
  then show ?thesis by (simp add: free_pages_def)
qed

lemma kavail_eq:
  assumes "kmem_inv s L"
  shows "kavail s = set_mset (free_pages L)"
proof (rule set_eqI)
  fix p
  show "p \<in> kavail s \<longleftrightarrow> p \<in># free_pages L"
    unfolding kavail_def mem_Collect_eq using assms kmem_inv_unique [OF assms] by metis
qed

lemma card_set_mset_le_1:
  assumes "\<And>p. count M p \<le> 1"
  shows "card (set_mset M) = size M"
proof -
  have "size M = (\<Sum>p \<in> set_mset M. 1)"
    unfolding size_multiset_overloaded_eq
    by (rule sum.cong) (use assms in \<open>auto simp: le_antisym Suc_le_eq\<close>)
  then show ?thesis by simp
qed

lemma card_kavail: "kmem_inv s L \<Longrightarrow> card (kavail s) = size (free_pages L)"
  by (simp add: kavail_eq) (rule card_set_mset_le_1, simp add: kmem_inv_def free_inv_def)

interpretation kpages: leaky_allocator kalloc kfree kalloc_inv kavail "\<lambda>s. region (start_of s)"
proof
  fix s :: "'a kernel_scheme"
  assume "kalloc_inv s"
  then obtain L where L: "kmem_inv s L" and odd: "odd (pn (start_of s))"
    by (auto simp: kalloc_inv_def)
  have dup: "count (free_pages L) p \<le> 1" for p using L by (simp add: kmem_inv_def free_inv_def)
  show "\<exists>p t. kalloc s = Inr (p, t) \<and> kalloc_inv t \<and> region (start_of t) = region (start_of s) \<and>
      (if kavail s = {} then p = 0 \<and> kavail t = {}
       else p \<noteq> 0 \<and> p \<in> region (start_of s) \<and> pn p \<in> kavail s \<and> kavail t = kavail s - {pn p})"
  proof (cases "free_pages L = {#}")
    case True
    then show ?thesis
      using kalloc_spec [OF L] kavail_eq [OF L] \<open>kalloc_inv s\<close> by simp
  next
    case False
    then obtain a m' L' where a: "kalloc s = Inr (a, s\<lparr>mem := m'\<rparr>)" "kmem_inv (s\<lparr>mem := m'\<rparr>) L'"
        "start_addr (sym_allocator s) m' = start_of s" "a \<in> region (start_of s)" "a \<noteq> 0"
        "free_pages L = add_mset (pn a) (free_pages L')"
      using kalloc_spec [OF L] by auto
    then have "pn a \<notin># free_pages L'" using dup [of "pn a"] by (simp add: not_in_iff)
    then show ?thesis
      using a odd kavail_eq [OF L] kavail_eq [OF a(2)]
      by (intro exI [of _ a] exI [of _ "s\<lparr>mem := m'\<rparr>"]) (auto simp: kalloc_inv_def)
  qed
  show "finite (kavail s)" using kavail_eq [OF L] by simp
  fix p
  assume p: "p \<in> region (start_of s)" "pn p \<notin> kavail s"
  then obtain m' L' where f: "kfree p s = Inr (s\<lparr>mem := m'\<rparr>)" "kmem_inv (s\<lparr>mem := m'\<rparr>) L'"
      "start_addr (sym_allocator s) m' = start_of s" "size (free_pages L') = size (free_pages L)"
      "set_mset (free_pages L') \<subseteq> insert (pn p) (set_mset (free_pages L))"
    using kfree_spec [OF L odd p(1)] kavail_eq [OF L] by auto
  then show "\<exists>t. kfree p s = Inr t \<and> kalloc_inv t \<and> region (start_of t) = region (start_of s) \<and>
      kavail t \<subseteq> insert (pn p) (kavail s)"
    using odd kavail_eq [OF L] kavail_eq [OF f(2)]
    by (intro exI [of _ "s\<lparr>mem := m'\<rparr>"]) (auto simp: kalloc_inv_def)
  show "card (kavail t) = card (kavail s)" if "kfree p s = Inr t" for t
    using that f card_kavail [OF L] card_kavail [OF f(2)] by simp
qed (simp add: region_def)

end
