(* ===== verification/Page_Store.thy ===== *)
theory Page_Store
  imports Page_Allocator
begin

text \<open>
  What the clients of the allocator rely on about memory.  The interface \<open>page_store\<close> extends
  \<open>page_allocator\<close> by the bytes behind the pages: a fresh page is zero, allocating and freeing
  leave alone every byte that is neither private to the allocator nor on a free page, and a client
  may write to the pages it holds.  Its lemmas carry 64-bit loads through these operations; the
  interpretation \<open>kstore\<close> provides them for the kernel's \<open>kalloc\<close> and \<open>kfree\<close>.
\<close>

section \<open>The interface\<close>

definition owned :: "u64 set \<Rightarrow> nat set \<Rightarrow> u64 \<Rightarrow> bool" where
  "owned managed avail p \<longleftrightarrow> p \<in> managed \<and> pn p \<notin> avail"

lemma ownedD: "owned M V p \<Longrightarrow> p \<in> M" "owned M V p \<Longrightarrow> pn p \<notin> V"
  by (simp_all add: owned_def)

lemma page_of_word:
  assumes "page_aligned q" "i < 2 ^ 18" "in_range (q + 8 * of_nat i) 8 x"
  shows "pn x = pn q" "in_range q (2 ^ 21) x"
proof -
  have "x - q = (x - (q + 8 * of_nat i)) + of_nat (8 * i)" by simp
  moreover have "unat ((x - (q + 8 * of_nat i)) + of_nat (8 * i)) = unat (x - (q + 8 * of_nat i)) + 8 * i"
    using assms(2,3) by (intro unat_plus_of_nat) (simp add: in_range_def)
  ultimately show "in_range q (2 ^ 21) x" using assms(2,3) by (simp only: in_range_def) simp
  then show "pn x = pn q" using in_range_page [OF assms(1)] by blast
qed

locale page_store = page_allocator +
  fixes content :: "'a \<Rightarrow> memory"
    and put :: "'a \<Rightarrow> memory \<Rightarrow> 'a"
    and reserved :: "'a \<Rightarrow> u64 set"
  assumes alloc_zero: "inv s \<Longrightarrow> alloc s = Inr (p, t) \<Longrightarrow> p \<noteq> 0 \<Longrightarrow> in_range p (2 ^ 21) x \<Longrightarrow> content t x = 0"
    and alloc_frame: "inv s \<Longrightarrow> alloc s = Inr (p, t) \<Longrightarrow> x \<notin> reserved s \<Longrightarrow> pn x \<notin> avail s \<Longrightarrow>
      content t x = content s x"
    and alloc_put: "inv s \<Longrightarrow> alloc s = Inr (p, t) \<Longrightarrow> t = put s (content t)"
    and alloc_none: "inv s \<Longrightarrow> alloc s = Inr (0, t) \<Longrightarrow> t = s"
    and free_frame: "inv s \<Longrightarrow> p \<in> managed s \<Longrightarrow> pn p \<notin> avail s \<Longrightarrow> free p s = Inr t \<Longrightarrow>
      x \<notin> reserved s \<Longrightarrow> pn x \<notin> avail s \<Longrightarrow> pn x \<noteq> pn p \<Longrightarrow> content t x = content s x"
    and free_put: "inv s \<Longrightarrow> p \<in> managed s \<Longrightarrow> pn p \<notin> avail s \<Longrightarrow> free p s = Inr t \<Longrightarrow> t = put s (content t)"
    and content_put: "content (put s m) = m"
    and put_put: "put (put s m) m' = put s m'"
    and put_content: "put s (content s) = s"
    and write_law: "inv s \<Longrightarrow> p \<in> managed s \<Longrightarrow> pn p \<notin> avail s \<Longrightarrow>
      (\<And>x. \<not> in_range p (2 ^ 21) x \<Longrightarrow> m x = content s x) \<Longrightarrow>
      inv (put s m) \<and> avail (put s m) = avail s \<and> managed (put s m) = managed s"
    and managed_public: "inv s \<Longrightarrow> p \<in> managed s \<Longrightarrow> in_range p (2 ^ 21) x \<Longrightarrow> x \<notin> reserved s"
    and reserved_put: "reserved (put s m) = reserved s"
begin

text \<open>Allocation, as a client that holds pages uses it.\<close>

lemma alloc_cases:
  assumes "inv s"
  obtains (none) "alloc s = Inr (0, s)"
  | (page) p t where "alloc s = Inr (p, t)" "p \<noteq> 0" "inv t" "managed t = managed s" "p \<in> managed s"
      "pn p \<in> avail s" "avail t = avail s - {pn p}" "reserved t = reserved s" "t = put s (content t)"
      "\<And>x. in_range p (2 ^ 21) x \<Longrightarrow> content t x = 0"
      "\<And>x. x \<notin> reserved s \<Longrightarrow> pn x \<notin> avail s \<Longrightarrow> content t x = content s x"
proof -
  obtain p t where t: "alloc s = Inr (p, t)" "inv t" "managed t = managed s"
      "if avail s = {} then p = 0 \<and> avail t = {}
       else p \<noteq> 0 \<and> p \<in> managed s \<and> pn p \<in> avail s \<and> avail t = avail s - {pn p}"
    using alloc_law [OF assms] by blast
  show ?thesis
  proof (cases "p = 0")
    case True
    then show ?thesis using none t(1) alloc_none [OF assms] by simp
  next
    case False
    have "reserved t = reserved s" using alloc_put [OF assms t(1)] reserved_put by metis
    then show ?thesis
      using False t page [of p t] alloc_zero [OF assms t(1) False] alloc_frame [OF assms t(1)]
        alloc_put [OF assms t(1)] by (auto split: if_splits)
  qed
qed

lemma alloc_load64:
  assumes "inv s" "alloc s = Inr (p, t)" "owned (managed s) (avail s) q" "i < 2 ^ 18"
  shows "load64 (content t) (q + 8 * of_nat i) = load64 (content s) (q + 8 * of_nat i)"
proof (rule load64_cong)
  fix x
  assume x: "in_range (q + 8 * of_nat i) 8 x"
  note w = page_of_word [OF managed_aligned [OF ownedD(1) [OF assms(3)]] assms(4) x]
  show "content t x = content s x"
    using alloc_frame [OF assms(1,2)] managed_public [OF assms(1) ownedD(1) [OF assms(3)] w(2)]
      ownedD(2) [OF assms(3)] w(1) by simp
qed

lemma free_load64:
  assumes "inv s" "owned (managed s) (avail s) p" "free p s = Inr t" "owned (managed s) (avail s) q"
    "i < 2 ^ 18" "q \<noteq> p"
  shows "load64 (content t) (q + 8 * of_nat i) = load64 (content s) (q + 8 * of_nat i)"
proof (rule load64_cong)
  fix x
  assume x: "in_range (q + 8 * of_nat i) 8 x"
  note al = managed_aligned [OF ownedD(1) [OF assms(4)]] managed_aligned [OF ownedD(1) [OF assms(2)]]
  note w = page_of_word [OF al(1) assms(5) x]
  have "pn q \<noteq> pn p" using assms(6) pn_inj [OF al] by blast
  then show "content t x = content s x"
    using free_frame [OF assms(1) ownedD [OF assms(2)] assms(3)]
      managed_public [OF assms(1) ownedD(1) [OF assms(4)] w(2)] ownedD(2) [OF assms(4)] w(1) by simp
qed

text \<open>Writing one word of a page held.\<close>

lemma write_word:
  assumes "inv s" "owned (managed s) (avail s) p" "i < 2 ^ 18"
  shows "inv (put s (store64 (content s) (p + 8 * of_nat i) v))"
    "avail (put s (store64 (content s) (p + 8 * of_nat i) v)) = avail s"
    "managed (put s (store64 (content s) (p + 8 * of_nat i) v)) = managed s"
proof -
  have al: "page_aligned p" by (rule managed_aligned [OF ownedD(1) [OF assms(2)]])
  have "store64 (content s) (p + 8 * of_nat i) v x = content s x" if "\<not> in_range p (2 ^ 21) x" for x
    using that page_of_word(2) [OF al assms(3)] by (intro store64_outside) blast
  from write_law [OF assms(1) ownedD [OF assms(2)] this]
  show "inv (put s (store64 (content s) (p + 8 * of_nat i) v))"
    "avail (put s (store64 (content s) (p + 8 * of_nat i) v)) = avail s"
    "managed (put s (store64 (content s) (p + 8 * of_nat i) v)) = managed s" by blast+
qed

end

section \<open>The kernel's allocator provides it\<close>

lemma region_public:
  assumes "kmem_inv s L" "p \<in> region (start_of s)" "in_range p (2 ^ 21) x"
  shows "\<not> in_range (sym_allocator s) 160 x"
proof -
  have "layout_ok (sym_allocator s) (start_of s)"
    using assms(1) free_inv_layout by (auto simp: kmem_inv_def)
  then have "apart (sym_allocator s) 160 p (2 ^ 21)"
    using region_bound [OF assms(2)] by (intro apart_before) (simp_all add: layout_ok_def word_le_nat_alt)
  then show ?thesis using apart_disjoint assms(3) by blast
qed

interpretation kstore: page_store kalloc kfree kalloc_inv kavail "\<lambda>s. region (start_of s)"
    mem "\<lambda>s m. s\<lparr>mem := m\<rparr>" "\<lambda>s. {x. in_range (sym_allocator s) 160 x}"
proof unfold_locales
  fix s :: "'a kernel_scheme"
  assume "kalloc_inv s"
  then obtain L where L: "kmem_inv s L" and odd: "odd (pn (start_of s))"
    by (auto simp: kalloc_inv_def)
  note av = kavail_eq [OF L]
  {
    fix p t
    assume al: "kalloc s = Inr (p, t)"
    show "in_range p (2 ^ 21) x \<Longrightarrow> mem t x = 0" if "p \<noteq> 0" for x
      using kalloc_spec [OF L] al that by (auto split: if_splits)
    show "mem t x = mem s x" if "x \<notin> {x. in_range (sym_allocator s) 160 x}" "pn x \<notin> kavail s" for x
      using kalloc_spec [OF L] al that av by (auto simp: same_outside_def split: if_splits)
    show "t = s\<lparr>mem := mem t\<rparr>" using kalloc_spec [OF L] al by (auto split: if_splits)
  }
  show "t = s" if "kalloc s = Inr (0, t)" for t
    using kalloc_spec [OF L] that by (auto split: if_splits)
  fix p
  assume p: "p \<in> region (start_of s)"
  show "x \<notin> {x. in_range (sym_allocator s) 160 x}" if "in_range p (2 ^ 21) x" for x
    using region_public [OF L p that] by simp
  assume np: "pn p \<notin> kavail s"
  {
    fix t
    assume f: "kfree p s = Inr t"
    then show "mem t x = mem s x"
      if "x \<notin> {x. in_range (sym_allocator s) 160 x}" "pn x \<notin> kavail s" "pn x \<noteq> pn p" for x
      using kfree_spec [OF L odd p] np av that by (auto simp: same_outside_def)
    show "t = s\<lparr>mem := mem t\<rparr>" using kfree_spec [OF L odd p] np av f by auto
  }
  fix m
  assume m: "\<And>x. \<not> in_range p (2 ^ 21) x \<Longrightarrow> m x = mem s x"
  have inv: "free_inv (sym_allocator s) (start_of s) m L"
    using free_inv_page_write [OF _ p _ m] L np av by (auto simp: kmem_inv_def)
  then have L': "kmem_inv (s\<lparr>mem := m\<rparr>) L" using L free_inv_start [OF inv] by (simp add: kmem_inv_def)
  show "kalloc_inv (s\<lparr>mem := m\<rparr>) \<and> kavail (s\<lparr>mem := m\<rparr>) = kavail s \<and>
      region (start_of (s\<lparr>mem := m\<rparr>)) = region (start_of s)"
    using L' odd av kavail_eq [OF L'] free_inv_start [OF inv] by (auto simp: kalloc_inv_def)
qed simp_all

end
