(* ===== verification/Page_Table.thy ===== *)
theory Page_Table
  imports Page_Store
begin

text \<open>
  Address spaces: the page-table code of src/src/memory.c (\<open>find_pgd_entry\<close> to \<open>switch_vm\<close>, and the
  boot tables of \<open>setup_vm2\<close>) over byte memory, with the descriptor macros of
  src/include/memory.h, and the translation the MMU performs on the tables they build.

  A table is a page of 512 eight-byte descriptors; \<open>ptr[index]\<close> is the word at
  \<open>ptr + 8 * index\<close>.  User mappings are 2 MiB block descriptors in the third table of the walk.
\<close>

section \<open>Descriptors\<close>

definition PDE_ADDR :: "u64 \<Rightarrow> u64" where
  "PDE_ADDR p = p AND 0xfffffffff000"

definition PTE_ADDR :: "u64 \<Rightarrow> u64" where
  "PTE_ADDR p = p AND 0xffffffe00000"

definition ENTRY_V :: u64 where "ENTRY_V = 0x1"

definition TABLE_ENTRY :: u64 where "TABLE_ENTRY = 0x2"

definition BLOCK_ENTRY :: u64 where "BLOCK_ENTRY = 0x0"

definition ENTRY_ACCESSED :: u64 where "ENTRY_ACCESSED = 0x400"

definition NORMAL_MEMORY :: u64 where "NORMAL_MEMORY = 0x4"

definition USER :: u64 where "USER = 0x40"

lemmas entry_bits = ENTRY_V_def TABLE_ENTRY_def BLOCK_ENTRY_def ENTRY_ACCESSED_def
  NORMAL_MEMORY_def USER_def

text \<open>The attributes every user mapping of the kernel has.\<close>

definition user_attribute :: u64 where
  "user_attribute = ENTRY_V OR USER OR NORMAL_MEMORY OR ENTRY_ACCESSED"

definition entry_at :: "memory \<Rightarrow> u64 \<Rightarrow> u64 \<Rightarrow> u64" where
  "entry_at m ptr index = load64 m (ptr + 8 * index)"

definition set_entry :: "u64 \<Rightarrow> u64 \<Rightarrow> u64 \<Rightarrow> 'a kernel_scheme \<Rightarrow> 'a kernel_scheme" where
  "set_entry ptr index e s = s\<lparr>mem := store64 (mem s) (ptr + 8 * index) e\<rparr>"

section \<open>Walking and extending the tables\<close>

text \<open>The part the three \<open>find\<close> functions share: follow a descriptor, or allocate the next table.\<close>

definition find_entry :: "u64 \<Rightarrow> u64 \<Rightarrow> int \<Rightarrow> u64 \<Rightarrow> 'a kernel_scheme \<Rightarrow> (u64 \<times> 'a kernel_scheme) res" where
  "find_entry ptr index alloc attribute s =
     (if entry_at (mem s) ptr index AND ENTRY_V \<noteq> 0
      then Inr (P2V (PDE_ADDR (entry_at (mem s) ptr index)), s)
      else if alloc = 1 then
        rbind (kalloc s) (\<lambda>(addr, s).
        if addr \<noteq> 0
        then (let s = s\<lparr>mem := memset (mem s) addr 0 (unat PAGE_SIZE)\<rparr>
              in Inr (addr, set_entry ptr index (V2P addr OR attribute OR TABLE_ENTRY) s))
        else Inr (0, s))
      else Inr (0, s))"

definition find_pgd_entry :: "u64 \<Rightarrow> u64 \<Rightarrow> int \<Rightarrow> u64 \<Rightarrow> 'a kernel_scheme \<Rightarrow> (u64 \<times> 'a kernel_scheme) res" where
  "find_pgd_entry pgmap v alloc attribute s =
     find_entry pgmap (drop_bit 39 v AND 0x1ff) alloc attribute s"

definition find_pud_entry :: "u64 \<Rightarrow> u64 \<Rightarrow> int \<Rightarrow> u64 \<Rightarrow> 'a kernel_scheme \<Rightarrow> (u64 \<times> 'a kernel_scheme) res" where
  "find_pud_entry pgmap v alloc attribute s =
     rbind (find_pgd_entry pgmap v alloc attribute s) (\<lambda>(ptr, s).
     if ptr = 0 then Inr (0, s)
     else find_entry ptr (drop_bit 30 v AND 0x1ff) alloc attribute s)"

definition find_pmd_entry :: "u64 \<Rightarrow> u64 \<Rightarrow> int \<Rightarrow> u64 \<Rightarrow> 'a kernel_scheme \<Rightarrow> (u64 \<times> 'a kernel_scheme) res" where
  "find_pmd_entry pgmap v alloc attribute s =
     rbind (find_pud_entry pgmap v alloc attribute s) (\<lambda>(ptr, s).
     if ptr = 0 then Inr (0, s)
     else find_entry ptr (drop_bit 21 v AND 0x1ff) alloc attribute s)"

definition map_page :: "u64 \<Rightarrow> u64 \<Rightarrow> u64 \<Rightarrow> u64 \<Rightarrow> 'a kernel_scheme \<Rightarrow> (bool \<times> 'a kernel_scheme) res" where
  "map_page pgmap v pa attribute s =
     (let vstart = PA_DOWN v in
      kassert (vstart + PAGE_SIZE < MEMORY_END) ''src/memory.c'' 376
      (kassert (pa mod PAGE_SIZE = 0) ''src/memory.c'' 377
      (kassert (pa + PAGE_SIZE \<le> V2P MEMORY_END) ''src/memory.c'' 378
      (rbind (find_pud_entry pgmap vstart 1 attribute s) (\<lambda>(ptr, s).
       if ptr = 0 then Inr (False, s)
       else let index = drop_bit 21 vstart AND 0x1ff in
         kassert (entry_at (mem s) ptr index AND ENTRY_V = 0) ''src/memory.c'' 386
         (Inr (True, set_entry ptr index (pa OR attribute OR BLOCK_ENTRY) s)))))))"

section \<open>Tearing an address space down\<close>

definition free_page :: "u64 \<Rightarrow> u64 \<Rightarrow> 'a kernel_scheme \<Rightarrow> 'a kernel_scheme res" where
  "free_page pgmap vstart s =
     rbind (find_pud_entry pgmap vstart 0 0 s) (\<lambda>(ptr, s).
     if ptr \<noteq> 0 then
       (let index = drop_bit 21 vstart AND 0x1ff in
        if entry_at (mem s) ptr index AND ENTRY_V \<noteq> 0
        then rbind (kfree (P2V (PTE_ADDR (entry_at (mem s) ptr index))) s) (\<lambda>s.
             Inr (set_entry ptr index 0 s))
        else Inr s)
     else Inr s)"

text \<open>The index range of the loops over a table.\<close>

definition indices :: "nat list" where
  "indices = [0..<512]"

lemma distinct_indices [simp]: "distinct indices"
  by (simp only: indices_def distinct_upt)

lemma set_indices [simp]: "set indices = {..<512}"
  by (simp only: indices_def set_upt lessThan_atLeast0)

text \<open>
  \<open>free_table\<close> and its loop from index \<open>i\<close> on.  The source recurses while \<open>level < 2\<close>; \<open>depth\<close>
  is \<open>2 - level\<close>.
\<close>

fun free_entries :: "nat \<Rightarrow> u64 \<Rightarrow> nat list \<Rightarrow> 'a kernel_scheme \<Rightarrow> 'a kernel_scheme res" where
  "free_entries depth table [] s = Inr s"
| "free_entries depth table (i # is) s =
     rbind
       (if entry_at (mem s) table (of_nat i) AND ENTRY_V \<noteq> 0
        then (let child_pa = PDE_ADDR (entry_at (mem s) table (of_nat i)) in
              rbind (case depth of 0 \<Rightarrow> Inr s | Suc d \<Rightarrow> free_entries d (P2V child_pa) indices s)
                (\<lambda>s. kfree (P2V child_pa) s))
        else Inr s)
       (\<lambda>s. free_entries depth table is s)"

definition free_table :: "u64 \<Rightarrow> nat \<Rightarrow> 'a kernel_scheme \<Rightarrow> 'a kernel_scheme res" where
  "free_table table level s = free_entries (2 - level) table indices s"

definition free_vm :: "u64 \<Rightarrow> 'a kernel_scheme \<Rightarrow> 'a kernel_scheme res" where
  "free_vm pgmap s =
     rbind (free_page pgmap 0x400000 s) (\<lambda>s.
     rbind (free_table pgmap 0 s) (\<lambda>s.
     kfree pgmap s))"

section \<open>Copying an address space\<close>

definition copy_uvm :: "u64 \<Rightarrow> u64 \<Rightarrow> nat \<Rightarrow> 'a kernel_scheme \<Rightarrow> (bool \<times> 'a kernel_scheme) res" where
  "copy_uvm dst_map src_map n s =
     rbind (kalloc s) (\<lambda>(new_page, s).
     if new_page = 0 then Inr (False, s)
     else
       (let s = s\<lparr>mem := memset (mem s) new_page 0 (unat PAGE_SIZE)\<rparr> in
        rbind (find_pud_entry src_map 0x400000 0 0 s) (\<lambda>(pd, s).
        if pd = 0 then Inl Null_deref
        else
          (let index = drop_bit 21 0x400000 AND 0x1ff;
               src_pa = P2V (PTE_ADDR (entry_at (mem s) pd index));
               s = s\<lparr>mem := memcpy (mem s) new_page src_pa n\<rparr>
           in map_page dst_map 0x400000 (V2P new_page) user_attribute s))))"

section \<open>The translation performed by the MMU\<close>

text \<open>
  The architecture's walk for the configuration of src/src/mmu.s (4 KiB granule, 48-bit addresses):
  a descriptor with low bits \<open>3\<close> points to the next table, with low bits \<open>1\<close> it is a block of
  1 GiB or 2 MiB; a block needs its access flag.  Physical memory is read through the kernel window.
\<close>

definition va_index :: "nat \<Rightarrow> u64 \<Rightarrow> u64" where
  "va_index level v = drop_bit (39 - 9 * level) v AND 0x1ff"

definition block_output :: "nat \<Rightarrow> u64 \<Rightarrow> u64 \<Rightarrow> u64 option" where
  "block_output n e v =
     (if e AND ENTRY_ACCESSED \<noteq> 0 then Some ((e AND 0xfffffffff000 AND NOT (mask n)) OR (v AND mask n))
      else None)"

definition next_table :: "u64 \<Rightarrow> u64 option" where
  "next_table e = (if e AND 3 = 3 then Some (P2V (PDE_ADDR e)) else None)"

definition mmu_walk :: "memory \<Rightarrow> u64 \<Rightarrow> u64 \<Rightarrow> u64 option" where
  "mmu_walk m ttbr v =
     (case next_table (entry_at m (P2V ttbr) (va_index 0 v)) of
       None \<Rightarrow> None
     | Some t1 \<Rightarrow>
         (let e1 = entry_at m t1 (va_index 1 v) in
          if e1 AND 3 = 1 then block_output 30 e1 v
          else case next_table e1 of
            None \<Rightarrow> None
          | Some t2 \<Rightarrow>
              (let e2 = entry_at m t2 (va_index 2 v) in
               if e2 AND 3 = 1 then block_output 21 e2 v
               else case next_table e2 of
                 None \<Rightarrow> None
               | Some t3 \<Rightarrow>
                   (let e3 = entry_at m t3 (va_index 3 v) in
                    if e3 AND 3 = 3 then block_output 12 e3 v else None))))"

end
