(* ===== verification/Page_Table_Correct.thy ===== *)
theory Page_Table_Correct
  imports Page_Table
begin

text \<open>
  Correctness of the page-table code.  The tables of an address space form a tree: a page map, up
  to 512 tables below it, and up to 512 below each of those, all on different pages that the kernel
  holds (\<open>vm_ok\<close>).  The lemmas show that \<open>map_page\<close> keeps this invariant and changes exactly one
  descriptor of the abstract view \<open>vm_entry\<close>, that the MMU's walk reads that view, and that the
  operations on one address space leave every other page the kernel holds alone.
\<close>

section \<open>Descriptor arithmetic\<close>

lemma PDE_mask: "(0xfffffffff000 :: u64) = mask 48 AND NOT (mask 12)"
  by (simp add: mask_eq_exp_minus_1)

lemma PTE_mask: "(0xffffffe00000 :: u64) = mask 48 AND NOT (mask 21)"
  by (simp add: mask_eq_exp_minus_1)

lemma aligned_bits:
  fixes w :: u64
  assumes "take_bit 21 w = 0" "take_bit 48 w = w"
  shows "bit w n \<Longrightarrow> 21 \<le> n \<and> n < 48"
  using arg_cong [OF assms(1), of "\<lambda>w. bit w n"] arg_cong [OF assms(2), of "\<lambda>w. bit w n"]
  by (auto simp: bit_simps)

lemma aligned_and_not_mask:
  fixes w :: u64
  assumes "take_bit 21 w = 0"
  shows "w AND NOT (mask 21) = w"
proof (rule bit_word_eqI)
  fix n
  show "bit (w AND NOT (mask 21)) n = bit w n"
    using arg_cong [OF assms, of "\<lambda>w. bit w n"] bit_imp_le_length [of w n] by (auto simp: bit_simps)
qed

lemma low_bits:
  fixes x :: u64
  assumes "x AND NOT (mask 12) = 0"
  shows "bit x n \<Longrightarrow> n < 12"
  using arg_cong [OF assms, of "\<lambda>w. bit w n"] bit_imp_le_length [of x n] by (auto simp: bit_simps)

lemma PDE_or:
  assumes "take_bit 21 w = 0" "take_bit 48 w = w" "x AND NOT (mask 12) = 0"
  shows "PDE_ADDR (w OR x) = w" "PTE_ADDR (w OR x) = w"
  unfolding PDE_ADDR_def PDE_mask PTE_ADDR_def PTE_mask
  using aligned_bits [OF assms(1,2)] low_bits [OF assms(3)]
  by (auto intro!: bit_word_eqI simp: bit_simps) fastforce+

lemma V2P_bits:
  assumes "a \<in> region start" "KERNEL_BASE \<le> start"
  shows "take_bit 21 (V2P a) = 0" "take_bit 48 (V2P a) = V2P a" "P2V (V2P a) = a"
    "V2P a mod PAGE_SIZE = 0" "V2P a + PAGE_SIZE \<le> V2P MEMORY_END"
proof -
  note r = region_bound [OF assms(1)]
  have le: "KERNEL_BASE \<le> a" using assms(2) r(2) by (rule order_trans)
  then have u: "unat (V2P a) = unat a - 0xffff000000000000"
    by (simp add: V2P_def unat_diff_le) (simp add: KERNEL_BASE_def)
  have kb: "0xffff000000000000 \<le> unat a" using le by (simp add: word_le_nat_alt KERNEL_BASE_def)
  have bnd: "unat (V2P a) + 2 ^ 21 \<le> 0x30000000" using u kb r(1) by simp
  have m: "unat (V2P a) mod 2 ^ 21 = 0"
  proof -
    have "(unat a - 0xffff000000000000) mod 2 ^ 21 = 0"
      using r(3) kb by (simp add: page_aligned_def mod_eq_0_iff_dvd dvd_diff_nat)
    then show ?thesis using u by simp
  qed
  show "take_bit 21 (V2P a) = 0"
    using m by (simp add: word_unat_eq_iff unsigned_take_bit_eq take_bit_eq_mod unat_mod)
  show "take_bit 48 (V2P a) = V2P a"
    using bnd by (simp add: word_unat_eq_iff unsigned_take_bit_eq take_bit_nat_eq_self)
  show "P2V (V2P a) = a" by (simp add: P2V_def V2P_def)
  show "V2P a mod PAGE_SIZE = 0"
    using m by (simp add: word_unat_eq_iff unat_mod PAGE_SIZE_def)
  have "unat (V2P a + of_nat (2 ^ 21)) = unat (V2P a) + 2 ^ 21"
    using bnd by (intro unat_plus_of_nat) simp
  moreover have "unat (V2P MEMORY_END) = 0x30000000"
    by (simp add: V2P_def MEMORY_END_def P2V_def)
  ultimately show "V2P a + PAGE_SIZE \<le> V2P MEMORY_END"
    using bnd by (simp add: word_le_nat_alt PAGE_SIZE_def)
qed

definition attr_ok :: "u64 \<Rightarrow> bool" where
  "attr_ok x \<longleftrightarrow> x AND NOT (mask 12) = 0 \<and> x AND 3 = 1 \<and> x AND ENTRY_ACCESSED \<noteq> 0"

lemma user_attribute_ok: "attr_ok user_attribute"
  by (simp add: attr_ok_def user_attribute_def entry_bits mask_eq_exp_minus_1)

section \<open>Words of pages\<close>

lemma page_apart:
  assumes "p \<in> region start" "q \<in> region start" "p \<noteq> q"
  shows "apart p (2 ^ 21) q (2 ^ 21)"
proof -
  note p = region_bound [OF assms(1)] and q = region_bound [OF assms(2)]
  consider "p < q" | "q < p" using assms(3) by fastforce
  then show ?thesis
  proof cases
    case 1
    then show ?thesis using aligned_gap [OF p(3) q(3)] q(1) by (intro apart_before) simp_all
  next
    case 2
    then show ?thesis using aligned_gap [OF q(3) p(3)] p(1)
      by (subst apart_sym, intro apart_before) simp_all
  qed
qed

lemma entry_store:
  assumes "p \<in> region start" "q \<in> region start" "i < 512" "k < 512"
  shows "entry_at (store64 m (p + 8 * of_nat i) e) q (of_nat k) =
    (if q = p \<and> k = i then e else entry_at m q (of_nat k))"
proof (cases "q = p \<and> k = i")
  case True
  then show ?thesis by (simp add: entry_at_def)
next
  case False
  have "apart (p + of_nat (8 * i)) 8 (q + of_nat (8 * k)) 8"
  proof (cases "q = p")
    case True
    then have "i < k \<or> k < i" using False by auto
    moreover have "apart (p + of_nat (8 * x)) 8 (p + of_nat (8 * y)) 8" if "x < y" "y < 512" for x y
      using that apart_of_nat [of "p + of_nat (8 * y)" "p + of_nat (8 * x)" "8 * (y - x)" 8 8]
      by (simp add: of_nat_diff) linarith
    ultimately show ?thesis using True assms(3,4) apart_sym by blast
  next
    case False
    then show ?thesis using page_apart [OF assms(1,2)] assms(3,4) by (intro apart_sub) auto
  qed
  then show ?thesis using False by (auto simp: entry_at_def load64_store64_apart)
qed

lemma memset_zero_id:
  assumes "n < 2 ^ 64" "\<And>x. in_range a n x \<Longrightarrow> m x = 0"
  shows "memset m a 0 n = m"
  using assms by (auto simp: fun_eq_iff memset_apply)

lemma entry_zero:
  assumes "a \<in> region start" "\<And>x. in_range a (2 ^ 21) x \<Longrightarrow> m x = 0" "k < 512"
  shows "entry_at m a (of_nat k) = 0"
  unfolding entry_at_def load64_def
proof (rule load_bytes_const)
  fix x
  assume "in_range (a + 8 * of_nat k) 8 x"
  then show "m x = 0"
    using assms(2,3) page_of_word(2) [OF region_bound(3) [OF assms(1)], of k x] by simp
qed

section \<open>The tree of tables\<close>

abbreviation kowned :: "'a kernel_scheme \<Rightarrow> u64 \<Rightarrow> bool" where
  "kowned s \<equiv> owned (region (start_of s)) (kavail s)"

datatype table_id = Pgd | Pud nat | Pmd nat nat

definition child :: "memory \<Rightarrow> u64 \<Rightarrow> nat \<Rightarrow> u64 option" where
  "child m a i =
     (if i < 512 \<and> entry_at m a (of_nat i) AND ENTRY_V \<noteq> 0
      then Some (P2V (PDE_ADDR (entry_at m a (of_nat i)))) else None)"

fun tab :: "memory \<Rightarrow> u64 \<Rightarrow> table_id \<Rightarrow> u64 option" where
  "tab m r Pgd = Some r"
| "tab m r (Pud i) = child m r i"
| "tab m r (Pmd i j) = (case child m r i of None \<Rightarrow> None | Some a \<Rightarrow> child m a j)"

definition table_typed :: "memory \<Rightarrow> u64 \<Rightarrow> bool" where
  "table_typed m a \<longleftrightarrow> (\<forall>i < 512. entry_at m a (of_nat i) AND ENTRY_V \<noteq> 0 \<longrightarrow> entry_at m a (of_nat i) AND 3 = 3)"

definition vm_ok :: "u64 \<Rightarrow> 'a kernel_scheme \<Rightarrow> bool" where
  "vm_ok r s \<longleftrightarrow> kalloc_inv s \<and> KERNEL_BASE \<le> start_of s \<and>
     (\<forall>t a. tab (mem s) r t = Some a \<longrightarrow> kowned s a) \<and>
     (\<forall>t u a. tab (mem s) r t = Some a \<longrightarrow> tab (mem s) r u = Some a \<longrightarrow> t = u) \<and>
     table_typed (mem s) r \<and> (\<forall>i a. tab (mem s) r (Pud i) = Some a \<longrightarrow> table_typed (mem s) a)"

definition vm_entry :: "memory \<Rightarrow> u64 \<Rightarrow> nat \<times> nat \<times> nat \<Rightarrow> u64" where
  "vm_entry m r = (\<lambda>(i, j, k).
     case tab m r (Pmd i j) of None \<Rightarrow> 0 | Some a \<Rightarrow> if k < 512 then entry_at m a (of_nat k) else 0)"

lemma vm_entry_at: "tab m r (Pmd i j) = Some a \<Longrightarrow> k < 512 \<Longrightarrow> vm_entry m r (i, j, k) = entry_at m a (of_nat k)"
  by (simp add: vm_entry_def del: tab.simps)

lemma vm_okD:
  assumes "vm_ok r s"
  shows "kalloc_inv s" "KERNEL_BASE \<le> start_of s"
    "tab (mem s) r t = Some a \<Longrightarrow> kowned s a"
    "tab (mem s) r t = Some a \<Longrightarrow> tab (mem s) r u = Some a \<Longrightarrow> t = u"
    "table_typed (mem s) r" "tab (mem s) r (Pud i) = Some a \<Longrightarrow> table_typed (mem s) a"
  using assms unfolding vm_ok_def by blast+

lemma kowned_region: "kowned s a \<Longrightarrow> a \<in> region (start_of s)"
  by (rule ownedD(1))

lemma region_nonzero: "KERNEL_BASE \<le> start \<Longrightarrow> a \<in> region start \<Longrightarrow> a \<noteq> 0"
  using region_bound(2) [of a start] by (auto simp: KERNEL_BASE_def)

lemma table_typed_child: "table_typed m a \<Longrightarrow> child m a i = (if i < 512 then next_table (entry_at m a (of_nat i)) else None)"
proof -
  assume ty: "table_typed m a"
  have "e AND ENTRY_V = 0 \<Longrightarrow> e AND 3 \<noteq> 3" for e :: u64
  proof
    assume "e AND ENTRY_V = 0" "e AND 3 = 3"
    then have "(e AND 3) AND 1 = 3 AND 1" "e AND 1 = 0" by (simp_all add: ENTRY_V_def)
    then show False by (simp add: and.assoc)
  qed
  then show ?thesis using ty by (auto simp: child_def next_table_def table_typed_def)
qed

text \<open>
  What an operation on one address space keeps: the allocator's invariant, every byte of every page
  held before that is not one of its own tables, and everything above the managed memory.
\<close>

lemma page_below_end:
  assumes "a \<in> region start" "MEMORY_END \<le> x"
  shows "pn x \<noteq> pn a" "\<not> in_range a (2 ^ 21) x"
proof -
  have "pn a * 2 ^ 21 + 2 ^ 21 \<le> unat x"
    using region_bound(1,3) [OF assms(1)] unat_aligned [of a] assms(2) by (simp add: word_le_nat_alt)
  then show "pn x \<noteq> pn a" by (simp add: pn_def)
  then show "\<not> in_range a (2 ^ 21) x" using in_range_page [OF region_bound(3) [OF assms(1)], of "2 ^ 21" x] by auto
qed

lemma above_public:
  assumes "kalloc_inv s" "MEMORY_END \<le> x" "start_of s \<le> x"
  shows "\<not> in_range (sym_allocator s) 160 x" "pn x \<notin> kavail s"
proof -
  obtain L where L: "kmem_inv s L" using assms(1) by (auto simp: kalloc_inv_def)
  have inv: "free_inv (sym_allocator s) (start_of s) (mem s) L" using L by (simp add: kmem_inv_def)
  have "unat (sym_allocator s) + 160 \<le> unat x"
    using free_inv_layout [OF inv] assms(3) by (simp add: layout_ok_def word_le_nat_alt)
  then show "\<not> in_range (sym_allocator s) 160 x"
    by (simp add: in_range_def unat_diff_le word_le_nat_alt)
  show "pn x \<notin> kavail s"
  proof
    assume "pn x \<in> kavail s"
    then have "pn x \<in># free_pages L" using kavail_eq [OF L] by simp
    then obtain i a where a: "i < MAX_ORDER" "a \<in> set (L i)" "pn a \<le> pn x" "pn x < pn a + 2 ^ i"
      by (auto simp: free_pages_def list_pages_def block_pages_def set_mset_sum)
    then have "block_ok (start_of s) i a" using inv by (simp add: free_inv_def)
    then have "(pn a + 2 ^ i) * 2 ^ 21 \<le> unat x"
      using unat_aligned [of a] assms(2) by (simp add: block_ok_def word_le_nat_alt power_add algebra_simps)
    then show False using a(4) by (simp add: pn_def div_le_mono [of "(pn a + 2 ^ i) * 2 ^ 21" "unat x" "2 ^ 21"] leD)
  qed
qed

definition keeps_pages :: "u64 set \<Rightarrow> 'a kernel_scheme \<Rightarrow> 'a kernel_scheme \<Rightarrow> bool" where
  "keeps_pages P s t \<longleftrightarrow> kalloc_inv t \<and> start_of t = start_of s \<and> kavail t \<subseteq> kavail s \<and> t = s\<lparr>mem := mem t\<rparr> \<and>
     (\<forall>q x. kowned s q \<longrightarrow> q \<notin> P \<longrightarrow> in_range q (2 ^ 21) x \<longrightarrow> mem t x = mem s x) \<and>
     (\<forall>x. MEMORY_END \<le> x \<longrightarrow> start_of s \<le> x \<longrightarrow> mem t x = mem s x)"

lemma keeps_refl: "kalloc_inv s \<Longrightarrow> keeps_pages P s s"
  by (simp add: keeps_pages_def)

lemma keeps_mono: "keeps_pages P s t \<Longrightarrow> P \<subseteq> Q \<Longrightarrow> keeps_pages Q s t"
  unfolding keeps_pages_def by blast

lemma keeps_owned: "keeps_pages P s t \<Longrightarrow> kowned s q \<Longrightarrow> kowned t q"
  by (auto simp: keeps_pages_def owned_def)

lemma keeps_trans:
  assumes "keeps_pages P s t" "keeps_pages Q t u" "P \<subseteq> R" "\<And>q. q \<in> Q \<Longrightarrow> kowned s q \<Longrightarrow> q \<in> R"
  shows "keeps_pages R s u"
proof -
  have "mem u x = mem s x" if "kowned s q" "q \<notin> R" "in_range q (2 ^ 21) x" for q x
  proof -
    have "mem t x = mem s x" using assms(1,3) that unfolding keeps_pages_def by blast
    moreover have "mem u x = mem t x"
      using assms(2,4) that keeps_owned [OF assms(1) that(1)] unfolding keeps_pages_def by blast
    ultimately show ?thesis by simp
  qed
  moreover have "u = s\<lparr>mem := mem u\<rparr>"
  proof -
    have "t = s\<lparr>mem := mem t\<rparr>" "u = t\<lparr>mem := mem u\<rparr>" using assms(1,2) unfolding keeps_pages_def by blast+
    then have "u = (s\<lparr>mem := mem t\<rparr>)\<lparr>mem := mem u\<rparr>" by (rule subst)
    then show ?thesis by simp
  qed
  ultimately show ?thesis using assms(1,2) unfolding keeps_pages_def by auto
qed

lemma keeps_entry:
  assumes "keeps_pages P s t" "kowned s q" "q \<notin> P" "k < 512"
  shows "entry_at (mem t) q (of_nat k) = entry_at (mem s) q (of_nat k)"
  unfolding entry_at_def
proof (rule load64_cong)
  fix x
  assume "in_range (q + 8 * of_nat k) 8 x"
  then have "in_range q (2 ^ 21) x"
    using page_of_word(2) [OF region_bound(3) [OF kowned_region [OF assms(2)]], of k x] assms(4) by simp
  then show "mem t x = mem s x" using assms(1-3) unfolding keeps_pages_def by blast
qed

text \<open>Writing to a page held, and one descriptor of a table held.\<close>

lemma write_keeps:
  assumes "kalloc_inv s" "kowned s p" and m: "\<And>x. \<not> in_range p (2 ^ 21) x \<Longrightarrow> m x = mem s x"
  shows "keeps_pages {p} s (s\<lparr>mem := m\<rparr>)" "kavail (s\<lparr>mem := m\<rparr>) = kavail s"
proof -
  note p = kowned_region [OF assms(2)]
  note w = kstore.write_law [OF assms(1) ownedD [OF assms(2)] m]
  obtain L where L: "kmem_inv s L" using assms(1) by (auto simp: kalloc_inv_def)
  have "free_inv (sym_allocator s) (start_of s) (mem s) L" "pn p \<notin># free_pages L"
    using L kavail_eq [OF L] ownedD(2) [OF assms(2)] by (simp_all add: kmem_inv_def)
  from free_inv_start [OF free_inv_page_write [OF this(1) p this(2) m]]
  have st: "start_of (s\<lparr>mem := m\<rparr>) = start_of s" by simp
  have "m x = mem s x" if "kowned s q" "q \<noteq> p" "in_range q (2 ^ 21) x" for q x
    using apart_disjoint [OF page_apart [OF p kowned_region [OF that(1)]]] that(2,3) m by blast
  moreover have "m x = mem s x" if "MEMORY_END \<le> x" for x
    using page_below_end(2) [OF p that] m by blast
  ultimately show "keeps_pages {p} s (s\<lparr>mem := m\<rparr>)" "kavail (s\<lparr>mem := m\<rparr>) = kavail s"
    using w st by (simp_all add: keeps_pages_def)
qed

lemma set_entry_keeps:
  assumes "kalloc_inv s" "kowned s p" "i < 512"
  shows "keeps_pages {p} s (set_entry p (of_nat i) e s)" "kavail (set_entry p (of_nat i) e s) = kavail s"
proof -
  have i: "i < 2 ^ 18" using assms(3) by simp
  note al = region_bound(3) [OF kowned_region [OF assms(2)]]
  have "store64 (mem s) (p + 8 * of_nat i) e x = mem s x" if "\<not> in_range p (2 ^ 21) x" for x
    using that page_of_word(2) [OF al i] by (intro store64_outside) blast
  from write_keeps [OF assms(1,2) this]
  show "keeps_pages {p} s (set_entry p (of_nat i) e s)" "kavail (set_entry p (of_nat i) e s) = kavail s"
    by (simp_all add: set_entry_def)
qed

text \<open>Allocating a page.\<close>

lemma kalloc_start:
  assumes "kalloc_inv s" "kalloc s = Inr (p, t)"
  shows "start_of t = start_of s"
proof -
  obtain L where L: "kmem_inv s L" using assms(1) by (auto simp: kalloc_inv_def)
  then show ?thesis using kalloc_spec [OF L] assms(2) by (auto split: if_splits)
qed

lemma card_remove_le: "finite A \<Longrightarrow> card A \<le> card (A - {x}) + 1"
  using card.remove [of A x] by (cases "x \<in> A") auto

lemma kalloc_keeps:
  assumes "kalloc_inv s"
  obtains (none) "kalloc s = Inr (0, s)" "kavail s = {}"
  | (page) p t where "kalloc s = Inr (p, t)" "p \<noteq> 0" "keeps_pages {} s t" "\<not> kowned s p" "kowned t p"
      "kavail t = kavail s - {pn p}" "\<And>x. in_range p (2 ^ 21) x \<Longrightarrow> mem t x = 0"
proof (cases rule: kstore.alloc_cases [OF assms])
  case 1
  then have "kavail s = {}" using kpages.alloc_law [OF assms] by (auto split: if_splits)
  then show ?thesis using 1 by (intro none)
next
  case (2 p t)
  have "mem t x = mem s x" if "kowned s q" "in_range q (2 ^ 21) x" for q x
    using 2(11) kstore.managed_public [OF assms kowned_region [OF that(1)] that(2)]
      in_range_page [OF region_bound(3) [OF kowned_region [OF that(1)]] that(2)] ownedD(2) [OF that(1)]
    by simp
  moreover have "mem t x = mem s x" if "MEMORY_END \<le> x" "start_of s \<le> x" for x
    using 2(11) above_public [OF assms that] by simp
  ultimately have "keeps_pages {} s t"
    using 2(3,7,9) kalloc_start [OF assms 2(1)] by (auto simp: keeps_pages_def)
  moreover have "\<not> kowned s p" "kowned t p"
    using 2(4,5,6,7) by (simp_all add: owned_def)
  ultimately show ?thesis using 2 by (intro page [of p t]) auto
qed

section \<open>Finding and creating tables\<close>

text \<open>
  A descriptor written into a table of the tree, pointing to a fresh empty page, adds exactly that
  table to the tree.
\<close>

definition table_child :: "table_id \<Rightarrow> nat \<Rightarrow> table_id option" where
  "table_child t i = (case t of Pgd \<Rightarrow> Some (Pud i) | Pud j \<Rightarrow> Some (Pmd j i) | Pmd j k \<Rightarrow> None)"

lemma tab_child:
  "tab m r t = Some a \<Longrightarrow> table_child t i = Some c \<Longrightarrow> tab m r c = child m a i"
  by (cases t) (auto simp: table_child_def split: option.splits)

lemma child_eq:
  "(i < 512 \<Longrightarrow> entry_at m' a (of_nat i) = entry_at m a (of_nat i)) \<Longrightarrow> child m' a i = child m a i"
  by (auto simp: child_def)

lemma tab_extend:
  assumes inj: "\<And>t u a. tab m r t = Some a \<Longrightarrow> tab m r u = Some a \<Longrightarrow> t = u"
    and t0: "tab m r t0 = Some p" "table_child t0 i = Some c" "tab m r c = None" "i < 512"
    and same: "\<And>t q k. tab m r t = Some q \<Longrightarrow> k < 512 \<Longrightarrow> \<not> (q = p \<and> k = i) \<Longrightarrow>
      entry_at m' q (of_nat k) = entry_at m q (of_nat k)"
    and new: "child m' p i = Some a" "\<And>k. child m' a k = None"
  shows "tab m' r = (tab m r)(c \<mapsto> a)"
proof -
  have ch: "child m' q k = child m q k" if "tab m r t = Some q" "\<not> (q = p \<and> k = i)" for t q k
    by (rule child_eq) (use same that in blast)
  show ?thesis
  proof (cases t0)
    case Pgd
    then have p: "p = r" "c = Pud i" using t0(1,2) by (simp_all add: table_child_def)
    have top: "child m' r k = (if k = i then Some a else child m r k)" for k
      using new(1) ch [of Pgd r k] p by auto
    have old: "child m r i = None" using t0(3) p by simp
    have "tab m' r t = ((tab m r)(c \<mapsto> a)) t" for t
    proof (cases t)
      case Pgd
      then show ?thesis using p by simp
    next
      case (Pud j)
      then show ?thesis using top p by auto
    next
      case (Pmd j k)
      have "child m' b k = child m b k" if "child m r j = Some b" for b
        using ch [of "Pud j" b k] that inj [of "Pud j" b Pgd] p by auto
      then show ?thesis using Pmd top p new(2) old by (auto split: option.splits)
    qed
    then show ?thesis by blast
  next
    case (Pud j)
    then have p: "child m r j = Some p" "c = Pmd j i" using t0(1,2) by (simp_all add: table_child_def)
    have "r \<noteq> p" using inj [of Pgd p "Pud j"] p(1) by auto
    then have top: "child m' r k = child m r k" for k using ch [of Pgd r k] by simp
    have "tab m' r t = ((tab m r)(c \<mapsto> a)) t" for t
    proof (cases t)
      case (Pmd x y)
      have "child m' b y = (if x = j \<and> y = i then Some a else child m b y)" if "child m r x = Some b" for b
        using ch [of "Pud x" b y] that inj [of "Pud x" b "Pud j"] p(1) new(1) by auto
      then show ?thesis using Pmd top p by (auto split: option.splits)
    qed (use top p in simp_all)
    then show ?thesis by blast
  qed (use t0 in \<open>simp add: table_child_def\<close>)
qed

lemma and_3: "w AND 3 = take_bit 2 w" for w :: u64
  by (simp add: take_bit_eq_mask mask_eq_exp_minus_1)

lemma and_ENTRY_V: "w AND ENTRY_V = take_bit 1 w"
  by (simp add: ENTRY_V_def take_bit_eq_mask mask_eq_exp_minus_1)

lemma typed_valid: "w AND 3 = 3 \<or> w AND 3 = 1 \<Longrightarrow> w AND ENTRY_V \<noteq> 0"
proof -
  assume a: "w AND 3 = 3 \<or> w AND 3 = 1"
  have "w AND ENTRY_V = (w AND 3) AND 1" by (simp add: ENTRY_V_def and.assoc)
  then show ?thesis using a by auto
qed

lemma aligned_or:
  fixes w x :: u64
  assumes "take_bit 21 w = 0"
  shows "(w OR x) AND 3 = x AND 3" "(w OR x) AND ENTRY_ACCESSED = x AND ENTRY_ACCESSED"
proof -
  have b: "\<not> bit w n" if "n < 21" for n
    using arg_cong [OF assms, of "\<lambda>w. bit w n"] that by (simp add: bit_take_bit_iff)
  have m: "(w OR x) AND mask n = x AND mask n" if "n \<le> 21" for n
    using b that by (auto intro!: bit_word_eqI simp: bit_simps)
  show "(w OR x) AND 3 = x AND 3" using m [of 2] by (simp add: mask_eq_exp_minus_1)
  have "((w OR x) AND mask 11) AND ENTRY_ACCESSED = (x AND mask 11) AND ENTRY_ACCESSED"
    using m [of 11] by simp
  then show "(w OR x) AND ENTRY_ACCESSED = x AND ENTRY_ACCESSED"
    by (simp add: and.assoc ENTRY_ACCESSED_def mask_eq_exp_minus_1)
qed

lemma table_descriptor:
  assumes "a \<in> region start" "KERNEL_BASE \<le> start" "attr_ok attr"
  defines "e \<equiv> V2P a OR attr OR TABLE_ENTRY"
  shows "P2V (PDE_ADDR e) = a" "e AND 3 = 3" "e AND ENTRY_V \<noteq> 0"
proof -
  note b = V2P_bits [OF assms(1,2)]
  have e: "e = V2P a OR (attr OR TABLE_ENTRY)" by (simp add: e_def or.assoc)
  have "(attr OR TABLE_ENTRY) AND NOT (mask 12) = 0"
    using assms(3) by (simp add: attr_ok_def bit.conj_disj_distrib2 TABLE_ENTRY_def mask_eq_exp_minus_1)
  then show "P2V (PDE_ADDR e) = a" unfolding e using PDE_or(1) [OF b(1,2)] b(3) by simp
  show t: "e AND 3 = 3"
    unfolding e aligned_or(1) [OF b(1)]
    using assms(3) by (simp add: attr_ok_def bit.conj_disj_distrib2 TABLE_ENTRY_def)
  then show "e AND ENTRY_V \<noteq> 0" using typed_valid by blast
qed

lemma find_entry_alloc:
  assumes ok: "vm_ok r s" and t0: "tab (mem s) r t0 = Some p" "table_child t0 i = Some c"
    and i: "i < 512" and attr: "attr_ok attr"
  obtains (found) a where "find_entry p (of_nat i) 1 attr s = Inr (a, s)" "tab (mem s) r c = Some a"
  | (full) "find_entry p (of_nat i) 1 attr s = Inr (0, s)" "tab (mem s) r c = None" "kavail s = {}"
  | (new) a t where "find_entry p (of_nat i) 1 attr s = Inr (a, t)" "a \<noteq> 0" "keeps_pages {p} s t"
      "\<not> kowned s a" "kowned t a" "tab (mem s) r c = None" "tab (mem t) r = (tab (mem s) r)(c \<mapsto> a)"
      "\<And>q k. kowned s q \<Longrightarrow> k < 512 \<Longrightarrow> \<not> (q = p \<and> k = i) \<Longrightarrow>
        entry_at (mem t) q (of_nat k) = entry_at (mem s) q (of_nat k)"
      "entry_at (mem t) p (of_nat i) AND 3 = 3" "\<And>k. k < 512 \<Longrightarrow> entry_at (mem t) a (of_nat k) = 0"
      "kavail t = kavail s - {pn a}"
proof -
  note D = vm_okD [OF ok]
  have c: "tab (mem s) r c = child (mem s) p i" using tab_child [OF t0] .
  have p: "kowned s p" using D(3) [OF t0(1)] .
  show ?thesis
  proof (cases "entry_at (mem s) p (of_nat i) AND ENTRY_V = 0")
    case False
    then show ?thesis using found c i by (simp add: find_entry_def child_def)
  next
    case True
    then have none: "tab (mem s) r c = None" using c by (simp add: child_def)
    show ?thesis
    proof (cases rule: kalloc_keeps [OF D(1)])
      case 1
      then show ?thesis using full none True by (simp add: find_entry_def)
    next
      case (2 a u)
      define e where "e = V2P a OR attr OR TABLE_ENTRY"
      define t where "t = set_entry p (of_nat i) e u"
      have su: "start_of u = start_of s" using 2(3) by (simp add: keeps_pages_def)
      have ra: "a \<in> region (start_of u)" "KERNEL_BASE \<le> start_of u"
        using kowned_region [OF 2(5)] D(2) su by simp_all
      note e = table_descriptor [OF ra attr, folded e_def]
      have pu: "kowned u p" and ku: "kalloc_inv u"
        using keeps_owned [OF 2(3) p] 2(3) by (simp_all add: keeps_pages_def)
      note w = set_entry_keeps [OF ku pu i, of e, folded t_def]
      have "a \<noteq> p" using 2(4) p by blast
      have ent: "entry_at (mem t) q (of_nat k) = (if q = p \<and> k = i then e else entry_at (mem u) q (of_nat k))"
        if "kowned u q" "k < 512" for q k
        using entry_store [OF kowned_region [OF pu] kowned_region [OF that(1)] i that(2)]
        by (simp add: t_def set_entry_def)
      have old: "entry_at (mem t) q (of_nat k) = entry_at (mem s) q (of_nat k)"
        if "kowned s q" "k < 512" "\<not> (q = p \<and> k = i)" for q k
        using ent [OF keeps_owned [OF 2(3) that(1)] that(2)] keeps_entry [OF 2(3) that(1) _ that(2)] that(3)
        by simp
      have zero: "entry_at (mem t) a (of_nat k) = 0" if "k < 512" for k
        using ent [OF 2(5) that] entry_zero [OF ra(1) 2(7) that] \<open>a \<noteq> p\<close> by simp
      have pi: "entry_at (mem t) p (of_nat i) = e" using ent [OF pu i] by simp
      have "memset (mem u) a 0 (unat PAGE_SIZE) = mem u"
        by (rule memset_zero_id) (use 2(7) in \<open>simp_all add: PAGE_SIZE_def\<close>)
      then have r: "find_entry p (of_nat i) 1 attr s = Inr (a, t)"
        using True 2(1,2) by (simp add: find_entry_def t_def e_def)
      have tb: "tab (mem t) r = (tab (mem s) r)(c \<mapsto> a)"
      proof (rule tab_extend [OF D(4) t0 none i])
        show "child (mem t) p i = Some a" using pi e i by (simp add: child_def)
        show "child (mem t) a k = None" for k using zero by (simp add: child_def)
      qed (use old D(3) in auto)
      have "keeps_pages {p} s t" by (rule keeps_trans [OF 2(3) w(1)]) auto
      moreover have "kowned t a" "kavail t = kavail s - {pn a}" using keeps_owned [OF w(1) 2(5)] w(2) 2(6) by simp_all
      ultimately show ?thesis using new [OF r 2(2) _ 2(4)] none tb old pi e(2) zero by simp
    qed
  qed
qed

definition tables :: "memory \<Rightarrow> u64 \<Rightarrow> u64 set" where
  "tables m r = ran (tab m r)"

lemma tab_tables: "tab m r t = Some a \<Longrightarrow> a \<in> tables m r"
  unfolding tables_def by (rule ranI)

lemma tables_root [simp]: "r \<in> tables m r"
  using tab_tables [of m r Pgd] by simp

lemma tables_owned: "vm_ok r s \<Longrightarrow> a \<in> tables (mem s) r \<Longrightarrow> kowned s a"
  unfolding tables_def ran_def using vm_okD(3) by blast

lemma vm_ok_extend:
  assumes ok: "vm_ok r s" and t0: "tab (mem s) r t0 = Some p" "table_child t0 i = Some c" "i < 512"
    and st: "keeps_pages {p} s t" and a: "\<not> kowned s a" "kowned t a"
    and c: "tab (mem s) r c = None" "tab (mem t) r = (tab (mem s) r)(c \<mapsto> a)"
    and same: "\<And>q k. kowned s q \<Longrightarrow> k < 512 \<Longrightarrow> \<not> (q = p \<and> k = i) \<Longrightarrow>
        entry_at (mem t) q (of_nat k) = entry_at (mem s) q (of_nat k)"
    and e: "entry_at (mem t) p (of_nat i) AND 3 = 3"
    and zero: "\<And>k. k < 512 \<Longrightarrow> entry_at (mem t) a (of_nat k) = 0"
  shows "vm_ok r t" "vm_entry (mem t) r = vm_entry (mem s) r"
proof -
  note D = vm_okD [OF ok]
  have tt: "table_typed (mem t) q" if "kowned s q" "table_typed (mem s) q" for q
    unfolding table_typed_def
  proof (intro allI impI)
    fix k
    assume "k < 512" "entry_at (mem t) q (of_nat k) AND ENTRY_V \<noteq> 0"
    then show "entry_at (mem t) q (of_nat k) AND 3 = 3"
      using e same [OF that(1)] that(2) by (cases "q = p \<and> k = i") (auto simp: table_typed_def)
  qed
  have ta: "table_typed (mem t) a" using zero by (simp add: table_typed_def)
  have own: "kowned t q" if "tab (mem t) r u = Some q" for u q
    using that D(3) keeps_owned [OF st] a(2) unfolding c(2) by (auto split: if_splits)
  have na: "tab (mem s) r u \<noteq> Some a" for u using D(3) a(1) by blast
  have inj: "u = v" if "tab (mem t) r u = Some q" "tab (mem t) r v = Some q" for u v q
    using that D(4) na unfolding c(2) by (auto split: if_splits)
  have "table_typed (mem t) q" if "tab (mem t) r (Pud j) = Some q" for j q
    using that tt [of q] ta D(3) [of "Pud j" q] D(6) [of j q] unfolding c(2) by (auto split: if_splits)
  moreover have "table_typed (mem t) r" using tt [of r] D(3) [of Pgd r] D(5) by simp
  moreover have "kalloc_inv t" "start_of t = start_of s" using st by (simp_all add: keeps_pages_def)
  ultimately show "vm_ok r t" using own inj D(2) unfolding vm_ok_def by auto
  have "vm_entry (mem t) r (x, y, k) = vm_entry (mem s) r (x, y, k)" for x y k
  proof (cases "Pmd x y = c")
    case True
    then show ?thesis using c zero by (simp add: vm_entry_def del: tab.simps)
  next
    case False
    have "entry_at (mem t) q (of_nat k) = entry_at (mem s) q (of_nat k)"
      if "tab (mem s) r (Pmd x y) = Some q" "k < 512" for q
    proof (rule same [OF D(3) [OF that(1)] that(2)])
      show "\<not> (q = p \<and> k = i)"
        using D(4) [OF that(1), of t0] t0(1,2) by (auto simp: table_child_def)
    qed
    then show ?thesis using False c(2) by (auto simp: vm_entry_def split: option.splits)
  qed
  then show "vm_entry (mem t) r = vm_entry (mem s) r" by auto
qed

definition vm_index :: "u64 \<Rightarrow> nat \<times> nat \<times> nat" where
  "vm_index v = (unat (va_index 0 v), unat (va_index 1 v), unat (va_index 2 v))"

lemma va_index_bound: "unat (va_index l v) < 512"
proof -
  have "va_index l v = take_bit 9 (drop_bit (39 - 9 * l) v)"
    by (simp add: va_index_def take_bit_eq_mask mask_eq_exp_minus_1)
  then show ?thesis
    using take_bit_nat_less_exp [of 9 "unat (drop_bit (39 - 9 * l) v)"] by (simp add: unsigned_take_bit_eq)
qed

lemma find_step:
  assumes ok: "vm_ok r s" and t0: "tab (mem s) r t0 = Some p" "table_child t0 i = Some c" "i < 512"
    and attr: "attr_ok attr"
  obtains (full) "find_entry p (of_nat i) 1 attr s = Inr (0, s)" "kavail s = {}"
  | (found) a t where "find_entry p (of_nat i) 1 attr s = Inr (a, t)" "a \<noteq> 0" "vm_ok r t"
      "tab (mem t) r c = Some a" "vm_entry (mem t) r = vm_entry (mem s) r" "keeps_pages (tables (mem s) r) s t"
      "\<And>q. q \<in> tables (mem t) r \<Longrightarrow> kowned s q \<Longrightarrow> q \<in> tables (mem s) r"
      "card (kavail s) \<le> card (kavail t) + 1"
proof (cases rule: find_entry_alloc [OF ok t0 attr])
  case (1 a)
  have "a \<noteq> 0" using region_nonzero [OF vm_okD(2) [OF ok] kowned_region [OF vm_okD(3) [OF ok 1(2)]]] .
  then show ?thesis using found [of a s] 1 ok keeps_refl [OF vm_okD(1) [OF ok]] by simp
next
  case 2
  then show ?thesis using full by blast
next
  case (3 a t)
  note x = vm_ok_extend [OF ok t0 3(3-10)]
  have "keeps_pages (tables (mem s) r) s t"
    by (rule keeps_mono [OF 3(3)]) (use tab_tables [OF t0(1)] in simp)
  moreover have "q \<in> tables (mem s) r" if "q \<in> tables (mem t) r" "kowned s q" for q
    using that 3(4,7) unfolding tables_def ran_def by (auto split: if_splits)
  moreover have "card (kavail s) \<le> card (kavail t) + 1"
    using 3(11) card_remove_le [OF kpages.avail_finite [OF vm_okD(1) [OF ok]]] by simp
  ultimately show ?thesis using found [OF 3(1,2) x(1) _ x(2)] 3(7) by simp
qed

lemma find_pud_entry_alloc:
  assumes ok: "vm_ok r s" and attr: "attr_ok attr" and v: "vm_index v = (i, j, k)"
  obtains (full) t where "find_pud_entry r v 1 attr s = Inr (0, t)" "vm_ok r t"
      "vm_entry (mem t) r = vm_entry (mem s) r" "keeps_pages (tables (mem s) r) s t"
      "\<And>q. q \<in> tables (mem t) r \<Longrightarrow> kowned s q \<Longrightarrow> q \<in> tables (mem s) r" "card (kavail s) \<le> 1"
  | (found) a t where "find_pud_entry r v 1 attr s = Inr (a, t)" "a \<noteq> 0" "vm_ok r t"
      "tab (mem t) r (Pmd i j) = Some a" "vm_entry (mem t) r = vm_entry (mem s) r"
      "keeps_pages (tables (mem s) r) s t"
      "\<And>q. q \<in> tables (mem t) r \<Longrightarrow> kowned s q \<Longrightarrow> q \<in> tables (mem s) r"
      "card (kavail s) \<le> card (kavail t) + 2"
proof -
  have w: "drop_bit 39 v AND 0x1ff = of_nat i" "drop_bit 30 v AND 0x1ff = of_nat j" "i < 512" "j < 512"
    using v va_index_bound [of 0 v] va_index_bound [of 1 v]
    by (auto simp: vm_index_def va_index_def)
  have c: "tab (mem s) r Pgd = Some r" "table_child Pgd i = Some (Pud i)" by (simp_all add: table_child_def)
  show ?thesis
  proof (cases rule: find_step [OF ok c w(3) attr])
    case 1
    then show ?thesis
      using full [of s] ok keeps_refl [OF vm_okD(1) [OF ok]]
      by (simp add: find_pud_entry_def find_pgd_entry_def w)
  next
    case (2 p u)
    have d: "table_child (Pud i) j = Some (Pmd i j)" by (simp add: table_child_def)
    have st: "find_pud_entry r v 1 attr s = find_entry p (of_nat j) 1 attr u"
      using 2(1,2) by (simp add: find_pud_entry_def find_pgd_entry_def w)
    show ?thesis
    proof (cases rule: find_step [OF 2(3,4) d w(4) attr])
      case 1
      then show ?thesis using full [OF _ 2(3,5,6,7)] st 2(8) by simp
    next
      case (2 a t)
      have less: "card (kavail s) \<le> card (kavail t) + 2"
        using 2(8) \<open>card (kavail s) \<le> card (kavail u) + 1\<close> by linarith
      note f = \<open>vm_entry (mem u) r = vm_entry (mem s) r\<close> \<open>keeps_pages (tables (mem s) r) s u\<close>
        \<open>\<And>q. q \<in> tables (mem u) r \<Longrightarrow> kowned s q \<Longrightarrow> q \<in> tables (mem s) r\<close>
      have "keeps_pages (tables (mem s) r) s t" by (rule keeps_trans [OF f(2) 2(6)]) (use f(3) in auto)
      then show ?thesis
        using found [of a t] st 2 f keeps_owned [OF f(2)] less by auto
    qed
  qed
qed

section \<open>Mapping a page\<close>

text \<open>Writing a block descriptor changes one entry of the view and no table.\<close>

lemma set_block_vm:
  fixes e :: u64
  assumes ok: "vm_ok r s" and a: "tab (mem s) r (Pmd i j) = Some a" and k: "k < 512"
  defines "t \<equiv> set_entry a (of_nat k) e s"
  shows "vm_ok r t" "vm_entry (mem t) r = (vm_entry (mem s) r)((i, j, k) := e)"
    "keeps_pages {a} s t" "tab (mem t) r = tab (mem s) r" "kavail t = kavail s"
proof -
  note D = vm_okD [OF ok]
  note w = set_entry_keeps [OF D(1) D(3) [OF a] k, of e, folded t_def]
  have ent: "entry_at (mem t) q (of_nat l) = (if q = a \<and> l = k then e else entry_at (mem s) q (of_nat l))"
    if "kowned s q" "l < 512" for q l
    using entry_store [OF kowned_region [OF D(3) [OF a]] kowned_region [OF that(1)] k that(2)]
    by (simp add: t_def set_entry_def)
  have up: "entry_at (mem t) q (of_nat l) = entry_at (mem s) q (of_nat l)"
    if "tab (mem s) r u = Some q" "u \<noteq> Pmd i j" "l < 512" for u q l
    using ent [OF D(3) [OF that(1)] that(3)] D(4) [OF that(1), of "Pmd i j"] a that(2) by auto
  have top: "child (mem t) r x = child (mem s) r x" for x
    using up [of Pgd r] by (intro child_eq) simp
  have mid: "child (mem t) q y = child (mem s) q y" if "child (mem s) r x = Some q" for x q y
    using up [of "Pud x" q] that by (intro child_eq) simp
  show tb: "tab (mem t) r = tab (mem s) r"
  proof
    show "tab (mem t) r u = tab (mem s) r u" for u
      using top mid by (cases u) (auto split: option.splits)
  qed
  have "table_typed (mem t) r" using D(5) up [of Pgd r] by (simp add: table_typed_def)
  moreover have "table_typed (mem t) q" if "tab (mem s) r (Pud x) = Some q" for x q
    using D(6) [OF that] up [OF that] by (simp add: table_typed_def)
  moreover have "kalloc_inv t" "start_of t = start_of s" using w(1) by (simp_all add: keeps_pages_def)
  ultimately show "vm_ok r t" using D(2,3,4) w(2) unfolding vm_ok_def tb by auto
  have "vm_entry (mem t) r (x, y, l) = ((vm_entry (mem s) r)((i, j, k) := e)) (x, y, l)" for x y l
  proof (cases "tab (mem s) r (Pmd x y)")
    case None
    then show ?thesis using a by (auto simp: vm_entry_def tb simp del: tab.simps)
  next
    case (Some q)
    then have "entry_at (mem t) q (of_nat l) = (if (x, y, l) = (i, j, k) then e else entry_at (mem s) q (of_nat l))"
      if "l < 512" using ent [OF D(3) [OF Some] that] D(4) [OF Some, of "Pmd i j"] a by auto
    then show ?thesis using Some k by (auto simp: vm_entry_def tb simp del: tab.simps)
  qed
  then show "vm_entry (mem t) r = (vm_entry (mem s) r)((i, j, k) := e)"
    by (intro ext) (metis prod_cases3)
  show "keeps_pages {a} s t" "kavail t = kavail s" by (rule w)+
qed

lemma va_index_PA_DOWN:
  assumes "l \<le> 2"
  shows "va_index l (PA_DOWN v) = va_index l v"
proof -
  have "bit v (39 - 9 * l + n) \<longrightarrow> 21 \<le> 39 - 9 * l + n \<and> 39 - 9 * l + n < 64" for n
    using assms bit_imp_le_length [of v "39 - 9 * l + n"] by auto
  then show ?thesis
    unfolding va_index_def PA_DOWN_def PAGE_SHIFT_def
    by (intro bit_word_eqI) (auto simp: bit_and_iff bit_drop_bit_eq bit_push_bit_iff)
qed

lemma vm_index_PA_DOWN: "vm_index (PA_DOWN v) = vm_index v"
  by (simp add: vm_index_def va_index_PA_DOWN)

lemma map_page_spec:
  assumes ok: "vm_ok r s" and attr: "attr_ok attr"
    and v: "PA_DOWN v + PAGE_SIZE < MEMORY_END" and pa: "pa mod PAGE_SIZE = 0" "pa + PAGE_SIZE \<le> V2P MEMORY_END"
    and free: "vm_entry (mem s) r (vm_index v) AND ENTRY_V = 0"
  shows "\<exists>b t. map_page r v pa attr s = Inr (b, t) \<and> vm_ok r t \<and> keeps_pages (tables (mem s) r) s t \<and>
    (\<forall>q \<in> tables (mem t) r. kowned s q \<longrightarrow> q \<in> tables (mem s) r) \<and> (b \<or> card (kavail s) \<le> 1) \<and>
    vm_entry (mem t) r =
      (if b then (vm_entry (mem s) r)(vm_index v := pa OR attr) else vm_entry (mem s) r) \<and>
    (b \<longrightarrow> card (kavail s) \<le> card (kavail t) + 2)"
proof -
  obtain i j k where ix: "vm_index v = (i, j, k)" by (cases "vm_index v") auto
  then have k: "k < 512" "drop_bit 21 (PA_DOWN v) AND 0x1ff = of_nat k"
    using va_index_bound [of 2 v] va_index_PA_DOWN [of 2 v] by (auto simp: vm_index_def va_index_def)
  show ?thesis
  proof (cases rule: find_pud_entry_alloc [OF ok attr trans [OF vm_index_PA_DOWN ix]])
    case (1 t)
    then have "map_page r v pa attr s = Inr (False, t)"
      using v pa by (simp add: map_page_def Let_def)
    then show ?thesis using 1 by auto
  next
    case (2 a u)
    have fr: "entry_at (mem u) a (of_nat k) AND ENTRY_V = 0"
      using free unfolding 2(5) [symmetric] ix vm_entry_at [OF 2(4) k(1)] .
    note w = set_block_vm [OF 2(3,4) k(1), of "pa OR attr"]
    have "map_page r v pa attr s = Inr (True, set_entry a (of_nat k) (pa OR attr) u)"
      using v pa 2(1,2) k(2) fr by (simp add: map_page_def Let_def BLOCK_ENTRY_def)
    moreover have "keeps_pages (tables (mem s) r) s (set_entry a (of_nat k) (pa OR attr) u)"
      by (rule keeps_trans [OF 2(6) w(3)]) (use 2(7) tab_tables [OF 2(4)] in auto)
    moreover have "tables (mem (set_entry a (of_nat k) (pa OR attr) u)) r = tables (mem u) r"
      by (simp add: tables_def w(4))
    ultimately show ?thesis using w(1,2) 2(5,7,8) w(5) ix by auto
  qed
qed

section \<open>What the MMU sees\<close>

definition blocks_only :: "memory \<Rightarrow> u64 \<Rightarrow> bool" where
  "blocks_only m r \<longleftrightarrow> (\<forall>x. vm_entry m r x AND ENTRY_V \<noteq> 0 \<longrightarrow>
     vm_entry m r x AND 3 = 1 \<and> vm_entry m r x AND ENTRY_ACCESSED \<noteq> 0)"

lemma not_typed: "e AND ENTRY_V = 0 \<Longrightarrow> e AND 3 \<noteq> 3 \<and> e AND 3 \<noteq> 1"
  using typed_valid by blast

lemma next_table_typed:
  assumes "table_typed m a" "k < 512"
  shows "entry_at m a (of_nat k) AND 3 \<noteq> 1" "next_table (entry_at m a (of_nat k)) = child m a k"
proof -
  let ?e = "entry_at m a (of_nat k)"
  show "?e AND 3 \<noteq> 1"
  proof
    assume one: "?e AND 3 = 1"
    then have "?e AND ENTRY_V \<noteq> 0" using typed_valid by blast
    then show False using assms one by (simp add: table_typed_def)
  qed
  show "next_table ?e = child m a k" using table_typed_child [OF assms(1)] assms(2) by simp
qed

lemma mmu_walk_vm:
  assumes ok: "vm_ok r s" and bl: "blocks_only (mem s) r"
  shows "mmu_walk (mem s) (V2P r) v =
    (let e = vm_entry (mem s) r (vm_index v) in if e AND 3 = 1 then block_output 21 e v else None)"
proof -
  note D = vm_okD [OF ok]
  define i j k where ijk: "i = unat (va_index 0 v)" "j = unat (va_index 1 v)" "k = unat (va_index 2 v)"
  have ix: "va_index 0 v = of_nat i" "va_index 1 v = of_nat j" "va_index 2 v = of_nat k"
      "i < 512" "j < 512" "k < 512" "vm_index v = (i, j, k)"
    unfolding ijk vm_index_def using va_index_bound by simp_all
  have r: "P2V (V2P r) = r" by (simp add: P2V_def V2P_def)
  note n0 = next_table_typed [OF D(5) ix(4)]
  show ?thesis
  proof (cases "child (mem s) r i")
    case None
    then show ?thesis using n0 ix r by (simp add: mmu_walk_def vm_entry_def)
  next
    case (Some a)
    then have a: "tab (mem s) r (Pud i) = Some a" by simp
    note n1 = next_table_typed [OF D(6) [OF a] ix(5)]
    show ?thesis
    proof (cases "child (mem s) a j")
      case None
      then show ?thesis using n0 n1 ix r Some by (simp add: mmu_walk_def vm_entry_def)
    next
      case (Some b)
      let ?e = "entry_at (mem s) b (of_nat k)"
      have e: "vm_entry (mem s) r (i, j, k) = ?e"
        using \<open>child (mem s) r i = Some a\<close> Some ix(6) by (intro vm_entry_at) simp_all
      have "?e AND 3 \<noteq> 1 \<Longrightarrow> ?e AND 3 \<noteq> 3"
        using bl e typed_valid [of ?e] unfolding blocks_only_def by metis
      then show ?thesis
        using n0 n1 ix r Some \<open>child (mem s) r i = Some a\<close> e
        by (simp add: mmu_walk_def Let_def next_table_def [of ?e])
    qed
  qed
qed

text \<open>The translation of a block descriptor as \<open>map_page\<close> builds it.\<close>

lemma block_descriptor:
  assumes "take_bit 21 pa = 0" "take_bit 48 pa = pa" "attr_ok attr"
  shows "(pa OR attr) AND 3 = 1" "block_output 21 (pa OR attr) v = Some (pa OR (v AND mask 21))"
proof -
  show "(pa OR attr) AND 3 = 1"
    using aligned_or(1) [OF assms(1), of attr] assms(3) by (simp add: attr_ok_def)
  have "(pa OR attr) AND 0xfffffffff000 AND NOT (mask 21) = pa"
  proof -
    have "(pa OR attr) AND 0xfffffffff000 = pa"
      using PDE_or(1) [OF assms(1,2)] assms(3) by (simp add: PDE_ADDR_def attr_ok_def)
    moreover have "pa AND NOT (mask 21) = pa"
      using assms(1) by (rule aligned_and_not_mask)
    ultimately have "((pa OR attr) AND 0xfffffffff000) AND NOT (mask 21) = pa" by (simp only:)
    then show ?thesis by (simp only: and.assoc)
  qed
  then show "block_output 21 (pa OR attr) v = Some (pa OR (v AND mask 21))"
    using aligned_or(2) [OF assms(1), of attr] assms(3) by (simp add: block_output_def attr_ok_def)
qed

lemma page_frame_bits:
  assumes "pa mod PAGE_SIZE = 0" "pa + PAGE_SIZE \<le> V2P MEMORY_END" "pa < V2P MEMORY_END"
  shows "take_bit 21 pa = 0" "take_bit 48 pa = pa"
proof -
  show "take_bit 21 pa = 0" using assms(1) by (simp add: take_bit_eq_mod PAGE_SIZE_def)
  have "unat (V2P MEMORY_END) = 0x30000000" by (simp add: V2P_def MEMORY_END_def P2V_def)
  then have "unat pa < 2 ^ 48" using assms(3) by (simp add: word_less_nat_alt)
  then show "take_bit 48 pa = pa"
    by (simp add: word_unat_eq_iff unsigned_take_bit_eq take_bit_nat_eq_self)
qed

section \<open>Other address spaces\<close>

lemma vm_ok_same:
  assumes ok: "vm_ok r s" and t: "kalloc_inv t" "start_of t = start_of s"
    and own: "\<And>q. q \<in> tables (mem s) r \<Longrightarrow> kowned t q"
    and same: "\<And>q k. q \<in> tables (mem s) r \<Longrightarrow> k < 512 \<Longrightarrow> entry_at (mem t) q (of_nat k) = entry_at (mem s) q (of_nat k)"
  shows "vm_ok r t" "tab (mem t) r = tab (mem s) r" "vm_entry (mem t) r = vm_entry (mem s) r"
proof -
  note D = vm_okD [OF ok]
  have ent: "entry_at (mem t) q (of_nat k) = entry_at (mem s) q (of_nat k)"
    if "tab (mem s) r u = Some q" "k < 512" for u q k
    by (rule same [OF tab_tables [OF that(1)] that(2)])
  have ch: "child (mem t) q k = child (mem s) q k" if "tab (mem s) r u = Some q" for u q k
    by (rule child_eq) (rule ent [OF that])
  show tb: "tab (mem t) r = tab (mem s) r"
  proof
    show "tab (mem t) r u = tab (mem s) r u" for u
      using ch [of Pgd r] ch [of "Pud i" for i] by (cases u) (auto split: option.splits)
  qed
  have "table_typed (mem t) q" if "tab (mem s) r u = Some q" "table_typed (mem s) q" for u q
    using that(2) ent [OF that(1)] by (simp add: table_typed_def)
  then have "table_typed (mem t) r" "\<forall>i a. tab (mem s) r (Pud i) = Some a \<longrightarrow> table_typed (mem t) a"
    using D(5,6) tab.simps(1) by blast+
  then show "vm_ok r t"
    using D(2,4) t own tab_tables unfolding vm_ok_def tb by fastforce
  have "vm_entry (mem t) r (i, j, k) = vm_entry (mem s) r (i, j, k)" for i j k
    using ent [of "Pmd i j"] by (auto simp: vm_entry_def tb simp del: tab.simps split: option.split)
  then show "vm_entry (mem t) r = vm_entry (mem s) r" by (intro ext) (metis prod_cases3)
qed

lemma vm_ok_keeps:
  assumes ok: "vm_ok r s" and st: "keeps_pages P s t" and dis: "P \<inter> tables (mem s) r = {}"
  shows "vm_ok r t" "tab (mem t) r = tab (mem s) r" "vm_entry (mem t) r = vm_entry (mem s) r"
proof -
  have t: "kalloc_inv t" "start_of t = start_of s" using st by (simp_all add: keeps_pages_def)
  have own: "kowned t q" if "q \<in> tables (mem s) r" for q
    by (rule keeps_owned [OF st tables_owned [OF ok that]])
  have ent: "entry_at (mem t) q (of_nat k) = entry_at (mem s) q (of_nat k)"
    if "q \<in> tables (mem s) r" "k < 512" for q k
    using keeps_entry [OF st tables_owned [OF ok that(1)] _ that(2)] dis that(1) by blast
  show "vm_ok r t" "tab (mem t) r = tab (mem s) r" "vm_entry (mem t) r = vm_entry (mem s) r"
    by (rule vm_ok_same [OF ok t own ent]; assumption)+
qed

lemma find_entry_lookup:
  assumes "i < 512"
  shows "find_entry p (of_nat i) 0 attr s = Inr (case child (mem s) p i of None \<Rightarrow> 0 | Some a \<Rightarrow> a, s)"
  using assms by (simp add: find_entry_def child_def)

lemma find_pud_entry_lookup:
  assumes ok: "vm_ok r s" and v: "vm_index v = (i, j, k)"
  shows "find_pud_entry r v 0 attr s = Inr (case tab (mem s) r (Pmd i j) of None \<Rightarrow> 0 | Some a \<Rightarrow> a, s)"
proof -
  have w: "drop_bit 39 v AND 0x1ff = of_nat i" "drop_bit 30 v AND 0x1ff = of_nat j" "i < 512" "j < 512"
    using v va_index_bound [of 0 v] va_index_bound [of 1 v]
    by (auto simp: vm_index_def va_index_def)
  have "a \<noteq> 0" if "child (mem s) r i = Some a" for a
    using region_nonzero [OF vm_okD(2) [OF ok] kowned_region [OF vm_okD(3) [OF ok, of "Pud i" a]]] that by simp
  then show ?thesis
    using w by (simp add: find_pud_entry_def find_pgd_entry_def find_entry_lookup split: option.split)
qed

end
