(* ===== verification/Boot_Tables.thy ===== *)
theory Boot_Tables
  imports Page_Table_Correct
begin

text \<open>
  The page tables the kernel boots with: \<open>setup_vm2\<close> of src/src/memory.c, which the boot code calls on
  core 0, and \<open>setup_vm\<close> of src/src/mmu.s, the assembly version it replaced.  Both run with the MMU
  off, so a store goes to a physical address; the memory of the model names the byte at physical
  address \<open>pa\<close> by \<open>P2V pa\<close>.

  The seven tables of src/src/mmu.s lie one after the other; \<open>B\<close> is the physical address of the first,
  which is what \<open>adr\<close> computes.  The lemmas view them as one array of 3584 words.
\<close>

section \<open>Descriptor bits of memory.h\<close>

definition TD_TYPE_BLOCK :: u64 where "TD_TYPE_BLOCK = 0x1"
definition TD_TYPE_TABLE :: u64 where "TD_TYPE_TABLE = 0x3"
definition TD_ATTR_INDEX :: "u64 \<Rightarrow> u64" where "TD_ATTR_INDEX idx = push_bit 2 idx"
definition TD_ATTR_NORMAL :: u64 where "TD_ATTR_NORMAL = TD_ATTR_INDEX 1"
definition TD_ATTR_DEVICE :: u64 where "TD_ATTR_DEVICE = TD_ATTR_INDEX 0"
definition TD_SH_INNER_SHARE :: u64 where "TD_SH_INNER_SHARE = push_bit 8 3"
definition TD_AF :: u64 where "TD_AF = push_bit 10 1"

definition BOOT_NORMAL_ATTR :: u64 where
  "BOOT_NORMAL_ATTR = TD_AF OR TD_SH_INNER_SHARE OR TD_ATTR_NORMAL OR TD_TYPE_BLOCK"

definition BOOT_DEVICE_ATTR :: u64 where
  "BOOT_DEVICE_ATTR = TD_AF OR TD_ATTR_DEVICE OR TD_TYPE_BLOCK"

definition RAM_MAX_ADDR :: u64 where "RAM_MAX_ADDR = 0x34000000"
definition PERIPHERAL_END :: u64 where "PERIPHERAL_END = 0x40000000"
definition LOCAL_PERIPH_BASE :: u64 where "LOCAL_PERIPH_BASE = 0x40000000"
definition LOCAL_PERIPH_END :: u64 where "LOCAL_PERIPH_END = 0x41000000"

section \<open>The tables of mmu.s\<close>

definition pgd_ttbr1 :: "u64 \<Rightarrow> u64" where "pgd_ttbr1 B = B"
definition pud_ttbr1 :: "u64 \<Rightarrow> u64" where "pud_ttbr1 B = B + 4096"
definition pmd_ttbr1 :: "u64 \<Rightarrow> u64" where "pmd_ttbr1 B = B + 2 * 4096"
definition pmd2_ttbr1 :: "u64 \<Rightarrow> u64" where "pmd2_ttbr1 B = B + 3 * 4096"
definition pgd_ttbr0 :: "u64 \<Rightarrow> u64" where "pgd_ttbr0 B = B + 4 * 4096"
definition pud_ttbr0 :: "u64 \<Rightarrow> u64" where "pud_ttbr0 B = B + 5 * 4096"
definition pmd_ttbr0 :: "u64 \<Rightarrow> u64" where "pmd_ttbr0 B = B + 6 * 4096"

definition phys_store :: "memory \<Rightarrow> u64 \<Rightarrow> u64 \<Rightarrow> memory" where
  "phys_store m pa w = store64 m (P2V pa) w"

section \<open>setup\_vm2\<close>

text \<open>
  A loop over the 2 MiB blocks from \<open>pa\<close> up to \<open>limit\<close>; the block at \<open>pa\<close> gets the entry
  \<open>(pa - base) >> 21\<close> of \<open>pmd\<close>.
\<close>

partial_function (option) map_blocks :: "u64 \<Rightarrow> u64 \<Rightarrow> u64 \<Rightarrow> u64 \<Rightarrow> u64 \<Rightarrow> memory \<Rightarrow> memory option" where
  [code]: "map_blocks pmd base pa limit attr m =
     (if pa < limit
      then map_blocks pmd base (pa + PAGE_SIZE) limit attr (phys_store m (pmd + 8 * drop_bit 21 (pa - base)) (pa OR attr))
      else Some m)"

definition setup_vm2 :: "u64 \<Rightarrow> memory \<Rightarrow> memory option" where
  "setup_vm2 B m =
     (let m = phys_store m (pgd_ttbr1 B) (pud_ttbr1 B OR TD_TYPE_TABLE);
          m = phys_store m (pud_ttbr1 B) (pmd_ttbr1 B OR TD_TYPE_TABLE)
      in Option.bind (map_blocks (pmd_ttbr1 B) 0 0 RAM_MAX_ADDR BOOT_NORMAL_ATTR m) (\<lambda>m.
         Option.bind (map_blocks (pmd_ttbr1 B) 0 0x3f000000 PERIPHERAL_END BOOT_DEVICE_ATTR m) (\<lambda>m.
         let m = phys_store m (pud_ttbr1 B + 8) (pmd2_ttbr1 B OR TD_TYPE_TABLE)
         in Option.bind (map_blocks (pmd2_ttbr1 B) LOCAL_PERIPH_BASE LOCAL_PERIPH_BASE LOCAL_PERIPH_END BOOT_DEVICE_ATTR m) (\<lambda>m.
         let m = phys_store m (pgd_ttbr0 B) (pud_ttbr0 B OR TD_TYPE_TABLE);
             m = phys_store m (pud_ttbr0 B) (pmd_ttbr0 B OR TD_TYPE_TABLE);
             m = phys_store m (pmd_ttbr0 B) (0 OR BOOT_NORMAL_ATTR)
         in Some m))))"

section \<open>setup\_vm\<close>

text \<open>The loops of the assembly: store \<open>x0\<close> through \<open>x1\<close>, advance both, repeat while \<open>x0\<close> is below \<open>x2\<close>.\<close>

partial_function (option) block_loop :: "u64 \<Rightarrow> u64 \<Rightarrow> u64 \<Rightarrow> memory \<Rightarrow> memory option" where
  [code]: "block_loop x0 x1 x2 m =
     (let m = phys_store m x1 x0; x1 = x1 + 8; x0 = x0 + PAGE_SIZE
      in if x0 < x2 then block_loop x0 x1 x2 m else Some m)"

definition setup_vm :: "u64 \<Rightarrow> memory \<Rightarrow> memory option" where
  "setup_vm B m =
     (let m = phys_store m (pgd_ttbr1 B) (pud_ttbr1 B OR 3);
          m = phys_store m (pud_ttbr1 B) (pmd_ttbr1 B OR 3)
      in Option.bind (block_loop 0x405 (pmd_ttbr1 B) 0x34000000 m) (\<lambda>m.
         let x0 = 0x3f000000; x1 = drop_bit (21 - 3) x0 + pmd_ttbr1 B; x0 = x0 OR 1 OR 0x400
         in Option.bind (block_loop x0 x1 0x40000000 m) (\<lambda>m.
         let m = phys_store m (pud_ttbr1 B + 1 * 8) (pmd2_ttbr1 B OR 3);
             x0 = 0x40000000 OR 1 OR 0x400
         in Option.bind (block_loop x0 (pmd2_ttbr1 B) 0x41000000 m) (\<lambda>m.
         let m = phys_store m (pgd_ttbr0 B) (pud_ttbr0 B OR 3);
             m = phys_store m (pud_ttbr0 B) (pmd_ttbr0 B OR 3)
         in Some (phys_store m (pmd_ttbr0 B) 0x405)))))"

section \<open>The tables as an array\<close>

definition boot_addr :: "u64 \<Rightarrow> nat \<Rightarrow> u64" where
  "boot_addr B i = P2V B + of_nat (8 * i)"

definition boot_words :: "u64 \<Rightarrow> memory \<Rightarrow> nat \<Rightarrow> u64" where
  "boot_words B m i = load64 m (boot_addr B i)"

definition block :: "nat \<Rightarrow> u64" where
  "block j = of_nat (j * 2 ^ 21)"

lemma boot_addr_apart:
  assumes "i < 3584" "j < 3584" "i \<noteq> j"
  shows "apart (boot_addr B i) 8 (boot_addr B j) 8"
proof -
  have lt: "apart (boot_addr B i) 8 (boot_addr B j) 8" if "i < j" "j < 3584" for i j
  proof -
    have "8 * i + 8 * (j - i) = 8 * j" using that by simp
    then have "boot_addr B j = boot_addr B i + of_nat (8 * (j - i))"
      unfolding boot_addr_def add.assoc of_nat_add [symmetric] by simp
    moreover have "8 * (j - i) < 2 ^ 64" "8 \<le> 8 * (j - i)" "8 * (j - i) \<le> 28672" using that by simp_all
    ultimately show ?thesis using apart_of_nat [of "boot_addr B j" "boot_addr B i" "8 * (j - i)" 8 8] by simp
  qed
  show ?thesis
  proof (cases "i < j")
    case True
    then show ?thesis using lt assms(2) by blast
  next
    case False
    then have "apart (boot_addr B j) 8 (boot_addr B i) 8" using lt assms(1,3) by simp
    then show ?thesis using apart_sym by blast
  qed
qed

lemma boot_words_store:
  assumes "i < 3584" "j < 3584"
  shows "boot_words B (store64 m (boot_addr B i) w) j = (if j = i then w else boot_words B m j)"
  using assms boot_addr_apart [of i j B] by (simp add: boot_words_def load64_store64_apart)

text \<open>Memory \<open>t\<close> holds the array \<open>f\<close> and is \<open>m\<close> elsewhere.\<close>

definition boot_rep :: "u64 \<Rightarrow> memory \<Rightarrow> (nat \<Rightarrow> u64) \<Rightarrow> memory \<Rightarrow> bool" where
  "boot_rep B m f t \<longleftrightarrow> (\<forall>i < 3584. boot_words B t i = f i) \<and>
     (\<forall>x. \<not> in_range (P2V B) (7 * 4096) x \<longrightarrow> t x = m x)"

lemma boot_rep_refl: "boot_rep B m (boot_words B m) m"
  by (simp add: boot_rep_def)

lemma boot_rep_store:
  assumes "boot_rep B m f t" "i < 3584"
  shows "boot_rep B m (f(i := w)) (store64 t (boot_addr B i) w)"
proof -
  have "\<not> in_range (boot_addr B i) 8 x" if "\<not> in_range (P2V B) (7 * 4096) x" for x
  proof
    assume a: "in_range (boot_addr B i) 8 x"
    define d where "d = unat (x - boot_addr B i)"
    then have d: "d < 8" using a by (simp add: in_range_def)
    have "x - P2V B = of_nat (8 * i + d)" by (simp add: d_def boot_addr_def)
    then have "unat (x - P2V B) = 8 * i + d"
      using unat_small [of "8 * i + d"] d assms(2) by simp
    then show False using d assms(2) that by (simp add: in_range_def)
  qed
  then show ?thesis
    using assms by (simp add: boot_rep_def boot_words_store store64_outside)
qed

lemma block_unat:
  assumes "j < 2 ^ 27"
  shows "unat (block j) = j * 2 ^ 21"
  unfolding block_def using assms by (intro unat_small) simp

lemma block_Suc: "block j + PAGE_SIZE = block (Suc j)"
  by (simp add: block_def PAGE_SIZE_def)

lemma block_bits:
  assumes "j < 2 ^ 27"
  shows "take_bit 21 (block j) = 0" "take_bit 48 (block j) = block j" "drop_bit 21 (block j) = of_nat j"
proof -
  show "take_bit 21 (block j) = 0"
    unfolding word_unat_eq_iff unsigned_take_bit_eq block_unat [OF assms] by (simp add: take_bit_eq_mod)
  show "take_bit 48 (block j) = block j"
    unfolding word_unat_eq_iff unsigned_take_bit_eq block_unat [OF assms] using assms by (simp add: take_bit_nat_eq_self)
  show "drop_bit 21 (block j) = of_nat j"
    unfolding word_unat_eq_iff unsigned_drop_bit_eq block_unat [OF assms]
    using assms by (simp add: drop_bit_eq_div unat_of_nat take_bit_nat_eq_self)
qed

lemma block_diff: "k \<le> j \<Longrightarrow> block j - block k = block (j - k)"
  by (simp add: block_def of_nat_diff left_diff_distrib)

lemma block_less: "j < 2 ^ 27 \<Longrightarrow> k < 2 ^ 27 \<Longrightarrow> block j < block k \<longleftrightarrow> j < k"
  by (simp add: word_less_nat_alt block_unat)

text \<open>The loops fill a stretch of the array with consecutive blocks.\<close>

definition filled :: "nat \<Rightarrow> nat \<Rightarrow> nat \<Rightarrow> u64 \<Rightarrow> (nat \<Rightarrow> u64) \<Rightarrow> nat \<Rightarrow> u64" where
  "filled i n j attr f = (\<lambda>k. if i \<le> k \<and> k < i + n then block (j + (k - i)) OR attr else f k)"

lemma filled_0 [simp]: "filled i 0 j attr f = f"
proof
  show "filled i 0 j attr f k = f k" for k unfolding filled_def by auto
qed

lemma filled_Suc: "filled (Suc i) n (Suc j) attr (f(i := block j OR attr)) = filled i (Suc n) j attr f"
proof
  fix k
  show "filled (Suc i) n (Suc j) attr (f(i := block j OR attr)) k = filled i (Suc n) j attr f k"
    by (cases "i < k") (auto simp: filled_def Suc_diff_Suc)
qed

lemma map_blocks_run:
  assumes "boot_rep B m f t" "b \<le> j" "j + n < 2 ^ 27" "T + (j - b) + n \<le> 3584"
  shows "\<exists>u. map_blocks (B + of_nat (8 * T)) (block b) (block j) (block (j + n)) attr t = Some u \<and>
    boot_rep B m (filled (T + (j - b)) n j attr f) u"
  using assms
proof (induction n arbitrary: j t f)
  case 0
  then show ?case by (subst map_blocks.simps) simp
next
  case (Suc n)
  have ix: "drop_bit 21 (block j - block b) = of_nat (j - b)"
    using Suc.prems(2,3) by (simp add: block_diff block_bits)
  have ad: "phys_store t (B + of_nat (8 * T) + 8 * of_nat (j - b)) w = store64 t (boot_addr B (T + (j - b))) w" for w
  proof -
    have "8 * of_nat (j - b) = (of_nat (8 * (j - b)) :: u64)" by simp
    then show ?thesis
      unfolding phys_store_def boot_addr_def P2V_def distrib_left of_nat_add by (simp only: ac_simps)
  qed
  have c: "block j < block (j + Suc n)" using Suc.prems(3) by (simp add: block_less)
  have st: "boot_rep B m (f(T + (j - b) := block j OR attr)) (store64 t (boot_addr B (T + (j - b))) (block j OR attr))"
    using boot_rep_store [OF Suc.prems(1)] Suc.prems(4) by simp
  have n: "Suc j + n = j + Suc n" "T + (Suc j - b) = Suc (T + (j - b))" using Suc.prems(2) by simp_all
  have pre: "b \<le> Suc j" "j + Suc n < 2 ^ 27" "Suc (T + (j - b)) + n \<le> 3584" using Suc.prems(2-4) by simp_all
  obtain u where
    u: "map_blocks (B + of_nat (8 * T)) (block b) (block (Suc j)) (block (j + Suc n)) attr
        (store64 t (boot_addr B (T + (j - b))) (block j OR attr)) = Some u"
    "boot_rep B m (filled (Suc (T + (j - b))) n (Suc j) attr (f(T + (j - b) := block j OR attr))) u"
    using Suc.IH [OF st, of "Suc j", unfolded n, OF pre] by blast
  have "map_blocks (B + of_nat (8 * T)) (block b) (block j) (block (j + Suc n)) attr t =
      map_blocks (B + of_nat (8 * T)) (block b) (block (Suc j)) (block (j + Suc n)) attr
        (store64 t (boot_addr B (T + (j - b))) (block j OR attr))"
    by (subst map_blocks.simps) (simp only: c if_True ix ad block_Suc)
  then show ?case using u unfolding filled_Suc by metis
qed

text \<open>The assembly loop stores the same entries when its register starts at a block with its attributes.\<close>

lemma block_or:
  assumes "j < 2 ^ 27" "attr AND NOT (mask 12) = 0"
  shows "block j + attr = block j OR attr"
proof (rule disjunctive_add_eq_or)
  show "block j AND attr = 0"
    using aligned_bits [OF block_bits(1,2) [OF assms(1)]] low_bits [OF assms(2)]
    by (auto intro!: bit_word_eqI simp: bit_simps) fastforce
qed

lemma block_attr_less:
  assumes "j < 2 ^ 27" "k < 2 ^ 27" "unat attr < 2 ^ 12"
  shows "block j + attr < block k \<longleftrightarrow> j < k"
proof -
  have "unat (block j + attr) = j * 2 ^ 21 + unat attr"
    using unat_plus_of_nat [of "block j" "unat attr"] assms(1,3) block_unat [OF assms(1)] by simp
  then show ?thesis using assms(3) by (simp add: word_less_nat_alt block_unat [OF assms(2)]) arith
qed

lemma block_loop_step:
  assumes "Suc j < 2 ^ 27" "l < 2 ^ 27" and attr: "attr AND NOT (mask 12) = 0" "unat attr < 2 ^ 12"
  shows "block_loop (block j + attr) (B + of_nat (8 * T)) (block l) t =
    (let u = store64 t (boot_addr B T) (block j OR attr)
     in if Suc j < l then block_loop (block (Suc j) + attr) (B + of_nat (8 * Suc T)) (block l) u else Some u)"
proof -
  have e: "block j + attr + PAGE_SIZE = block (Suc j) + attr" by (simp add: block_Suc [symmetric])
  have a: "B + of_nat (8 * T) + 8 = B + of_nat (8 * Suc T)" by simp
  have n: "phys_store t (B + of_nat (8 * T)) w = store64 t (boot_addr B T) w" for w
    by (simp add: phys_store_def boot_addr_def P2V_def ac_simps)
  have j: "j < 2 ^ 27" using assms(1) by simp
  show ?thesis
    unfolding block_loop.simps [of "block j + attr"] Let_def e a
    unfolding block_attr_less [OF assms(1,2) attr(2)] block_or [OF j attr(1)] n
    by (rule refl)
qed

lemma block_loop_run:
  assumes "boot_rep B m f t" "j + Suc n < 2 ^ 27" "T + Suc n \<le> 3584"
    and attr: "attr AND NOT (mask 12) = 0" "unat attr < 2 ^ 12"
  shows "\<exists>u. block_loop (block j + attr) (B + of_nat (8 * T)) (block (j + Suc n)) t = Some u \<and>
    boot_rep B m (filled T (Suc n) j attr f) u"
  using assms(1-3)
proof (induction n arbitrary: j t f T)
  case 0
  have "block_loop (block j + attr) (B + of_nat (8 * T)) (block (j + Suc 0)) t = Some (store64 t (boot_addr B T) (block j OR attr))"
    using block_loop_step [of j "j + Suc 0" attr B T t] 0(2) attr unfolding Let_def by simp
  then show ?case
    using boot_rep_store [OF 0(1), of T "block j OR attr"] filled_Suc [of T 0 j attr f] 0(3) by simp
next
  case (Suc n)
  let ?u = "store64 t (boot_addr B T) (block j OR attr)"
  have st: "boot_rep B m (f(T := block j OR attr)) ?u" using boot_rep_store [OF Suc.prems(1)] Suc.prems(3) by simp
  have n: "Suc j + Suc n = j + Suc (Suc n)" by simp
  have pre: "j + Suc (Suc n) < 2 ^ 27" "Suc T + Suc n \<le> 3584" using Suc.prems(2,3) by simp_all
  have "block_loop (block j + attr) (B + of_nat (8 * T)) (block (j + Suc (Suc n))) t =
      block_loop (block (Suc j) + attr) (B + of_nat (8 * Suc T)) (block (j + Suc (Suc n))) ?u"
    using block_loop_step [of j "j + Suc (Suc n)" attr B T t] Suc.prems(2) attr unfolding Let_def by simp
  then show ?case using Suc.IH [OF st, of "Suc j", unfolded n, OF pre] unfolding filled_Suc by simp
qed

section \<open>The tables both versions build\<close>

definition boot_array :: "u64 \<Rightarrow> u64 \<Rightarrow> (nat \<Rightarrow> u64) \<Rightarrow> nat \<Rightarrow> u64" where
  "boot_array B normal f =
     ((filled 1536 8 512 BOOT_DEVICE_ATTR
        ((filled 1528 8 504 BOOT_DEVICE_ATTR
           (filled 1024 416 0 normal (f(0 := pud_ttbr1 B OR 3, 512 := pmd_ttbr1 B OR 3))))
         (513 := pmd2_ttbr1 B OR 3)))
      (2048 := pud_ttbr0 B OR 3, 2560 := pmd_ttbr0 B OR 3, 3072 := normal))"

lemma boot_attrs:
  "BOOT_NORMAL_ATTR = 0x705" "BOOT_DEVICE_ATTR = 0x401" "TD_TYPE_TABLE = 3"
  "attr_ok BOOT_NORMAL_ATTR" "attr_ok BOOT_DEVICE_ATTR" "attr_ok 0x405"
  by (simp_all add: BOOT_NORMAL_ATTR_def BOOT_DEVICE_ATTR_def TD_AF_def TD_SH_INNER_SHARE_def TD_ATTR_NORMAL_def
      TD_ATTR_DEVICE_def TD_ATTR_INDEX_def TD_TYPE_BLOCK_def TD_TYPE_TABLE_def attr_ok_def ENTRY_ACCESSED_def mask_eq_exp_minus_1)

text \<open>The addresses of the tables and the limits of the loops.\<close>

lemma boot_places:
  "pgd_ttbr1 B = B + of_nat (8 * 0)" "pud_ttbr1 B = B + of_nat (8 * 512)" "pud_ttbr1 B + 8 = B + of_nat (8 * 513)"
  "pmd_ttbr1 B = B + of_nat (8 * 1024)" "pmd2_ttbr1 B = B + of_nat (8 * 1536)" "pgd_ttbr0 B = B + of_nat (8 * 2048)"
  "pud_ttbr0 B = B + of_nat (8 * 2560)" "pmd_ttbr0 B = B + of_nat (8 * 3072)"
  by (simp_all add: pgd_ttbr1_def pud_ttbr1_def pmd_ttbr1_def pmd2_ttbr1_def pgd_ttbr0_def pud_ttbr0_def pmd_ttbr0_def)

lemma boot_limits:
  "0 = block 0" "RAM_MAX_ADDR = block (0 + 416)" "0x3f000000 = block 504" "PERIPHERAL_END = block (504 + 8)"
  "LOCAL_PERIPH_BASE = block 512" "LOCAL_PERIPH_END = block (512 + 8)"
  by (simp_all add: block_def RAM_MAX_ADDR_def PERIPHERAL_END_def LOCAL_PERIPH_BASE_def LOCAL_PERIPH_END_def)

lemma phys_place: "phys_store t (B + of_nat (8 * i)) w = store64 t (boot_addr B i) w"
  by (simp add: phys_store_def boot_addr_def P2V_def ac_simps)

lemma boot_stores:
  "phys_store t (pgd_ttbr1 B) w = store64 t (boot_addr B 0) w"
  "phys_store t (pud_ttbr1 B) w = store64 t (boot_addr B 512) w"
  "phys_store t (pud_ttbr1 B + 8) w = store64 t (boot_addr B 513) w"
  "phys_store t (pgd_ttbr0 B) w = store64 t (boot_addr B 2048) w"
  "phys_store t (pud_ttbr0 B) w = store64 t (boot_addr B 2560) w"
  "phys_store t (pmd_ttbr0 B) w = store64 t (boot_addr B 3072) w"
  unfolding boot_places(3) by (simp_all only: boot_places phys_place)

lemma setup_vm2_run:
  "\<exists>t. setup_vm2 B m = Some t \<and> boot_rep B m (boot_array B BOOT_NORMAL_ATTR (boot_words B m)) t"
proof -
  define f where "f = (boot_words B m)(0 := pud_ttbr1 B OR 3, 512 := pmd_ttbr1 B OR 3)"
  define t0 where "t0 = store64 (store64 m (boot_addr B 0) (pud_ttbr1 B OR 3)) (boot_addr B 512) (pmd_ttbr1 B OR 3)"
  have r0: "boot_rep B m f t0" unfolding f_def t0_def by (intro boot_rep_store boot_rep_refl) simp_all
  obtain t1 where t1: "map_blocks (B + of_nat (8 * 1024)) (block 0) (block 0) (block (0 + 416)) BOOT_NORMAL_ATTR t0 = Some t1"
      "boot_rep B m (filled 1024 416 0 BOOT_NORMAL_ATTR f) t1"
    using map_blocks_run [OF r0, of 0 0 416 1024 BOOT_NORMAL_ATTR] by auto
  obtain t2 where t2: "map_blocks (B + of_nat (8 * 1024)) (block 0) (block 504) (block (504 + 8)) BOOT_DEVICE_ATTR t1 = Some t2"
      "boot_rep B m (filled 1528 8 504 BOOT_DEVICE_ATTR (filled 1024 416 0 BOOT_NORMAL_ATTR f)) t2"
    using map_blocks_run [OF t1(2), of 0 504 8 1024 BOOT_DEVICE_ATTR] by auto
  define t3 where "t3 = store64 t2 (boot_addr B 513) (pmd2_ttbr1 B OR 3)"
  have r3: "boot_rep B m ((filled 1528 8 504 BOOT_DEVICE_ATTR (filled 1024 416 0 BOOT_NORMAL_ATTR f))(513 := pmd2_ttbr1 B OR 3)) t3"
    unfolding t3_def by (intro boot_rep_store t2(2)) simp
  obtain t4 where t4: "map_blocks (B + of_nat (8 * 1536)) (block 512) (block 512) (block (512 + 8)) BOOT_DEVICE_ATTR t3 = Some t4"
      "boot_rep B m (filled 1536 8 512 BOOT_DEVICE_ATTR
        ((filled 1528 8 504 BOOT_DEVICE_ATTR (filled 1024 416 0 BOOT_NORMAL_ATTR f))(513 := pmd2_ttbr1 B OR 3))) t4"
    using map_blocks_run [OF r3, of 512 512 8 1536 BOOT_DEVICE_ATTR] by auto
  let ?t = "store64 (store64 (store64 t4 (boot_addr B 2048) (pud_ttbr0 B OR 3)) (boot_addr B 2560) (pmd_ttbr0 B OR 3))
    (boot_addr B 3072) BOOT_NORMAL_ATTR"
  have m: "map_blocks (pmd_ttbr1 B) 0 0 RAM_MAX_ADDR BOOT_NORMAL_ATTR t0 = Some t1"
      "map_blocks (pmd_ttbr1 B) 0 0x3f000000 PERIPHERAL_END BOOT_DEVICE_ATTR t1 = Some t2"
      "map_blocks (pmd2_ttbr1 B) LOCAL_PERIPH_BASE LOCAL_PERIPH_BASE LOCAL_PERIPH_END BOOT_DEVICE_ATTR t3 = Some t4"
    using t1(1) t2(1) t4(1) by (simp_all only: boot_limits boot_places)
  have "setup_vm2 B m = Some ?t"
    unfolding setup_vm2_def boot_attrs(3) boot_stores Let_def t0_def [symmetric] m bind.bind_lunit t3_def [symmetric]
    by simp
  moreover have "boot_rep B m (boot_array B BOOT_NORMAL_ATTR (boot_words B m)) ?t"
    unfolding boot_array_def f_def [symmetric] by (intro boot_rep_store t4(2)) simp_all
  ultimately show ?thesis by blast
qed

lemma setup_vm_run:
  "\<exists>t. setup_vm B m = Some t \<and> boot_rep B m (boot_array B 0x405 (boot_words B m)) t"
proof -
  have a: "(0x405 :: u64) AND NOT (mask 12) = 0" "unat (0x405 :: u64) < 2 ^ 12"
      "(BOOT_DEVICE_ATTR :: u64) AND NOT (mask 12) = 0" "unat BOOT_DEVICE_ATTR < 2 ^ 12"
    by (simp_all add: boot_attrs mask_eq_exp_minus_1)
  define f where "f = (boot_words B m)(0 := pud_ttbr1 B OR 3, 512 := pmd_ttbr1 B OR 3)"
  define t0 where "t0 = store64 (store64 m (boot_addr B 0) (pud_ttbr1 B OR 3)) (boot_addr B 512) (pmd_ttbr1 B OR 3)"
  have r0: "boot_rep B m f t0" unfolding f_def t0_def by (intro boot_rep_store boot_rep_refl) simp_all
  obtain t1 where t1: "block_loop (block 0 + 0x405) (B + of_nat (8 * 1024)) (block (0 + Suc 415)) t0 = Some t1"
      "boot_rep B m (filled 1024 (Suc 415) 0 0x405 f) t1"
    using block_loop_run [OF r0, of 0 415 1024 "0x405"] a by auto
  obtain t2 where t2: "block_loop (block 504 + BOOT_DEVICE_ATTR) (B + of_nat (8 * 1528)) (block (504 + Suc 7)) t1 = Some t2"
      "boot_rep B m (filled 1528 (Suc 7) 504 BOOT_DEVICE_ATTR (filled 1024 (Suc 415) 0 0x405 f)) t2"
    using block_loop_run [OF t1(2), of 504 7 1528 BOOT_DEVICE_ATTR] a by auto
  define t3 where "t3 = store64 t2 (boot_addr B 513) (pmd2_ttbr1 B OR 3)"
  have r3: "boot_rep B m ((filled 1528 (Suc 7) 504 BOOT_DEVICE_ATTR (filled 1024 (Suc 415) 0 0x405 f))(513 := pmd2_ttbr1 B OR 3)) t3"
    unfolding t3_def by (intro boot_rep_store t2(2)) simp
  obtain t4 where t4: "block_loop (block 512 + BOOT_DEVICE_ATTR) (B + of_nat (8 * 1536)) (block (512 + Suc 7)) t3 = Some t4"
      "boot_rep B m (filled 1536 (Suc 7) 512 BOOT_DEVICE_ATTR
        ((filled 1528 (Suc 7) 504 BOOT_DEVICE_ATTR (filled 1024 (Suc 415) 0 0x405 f))(513 := pmd2_ttbr1 B OR 3))) t4"
    using block_loop_run [OF r3, of 512 7 1536 BOOT_DEVICE_ATTR] a by auto
  let ?t = "store64 (store64 (store64 t4 (boot_addr B 2048) (pud_ttbr0 B OR 3)) (boot_addr B 2560) (pmd_ttbr0 B OR 3))
    (boot_addr B 3072) 0x405"
  have c: "block 0 + 0x405 = 0x405" "block (0 + Suc 415) = 0x34000000" "block 504 + BOOT_DEVICE_ATTR = 0x3f000000 OR 1 OR 0x400"
      "block (504 + Suc 7) = 0x40000000" "block 512 + BOOT_DEVICE_ATTR = 0x40000000 OR 1 OR 0x400" "block (512 + Suc 7) = 0x41000000"
      "B + of_nat (8 * 1528) = drop_bit (21 - 3) 0x3f000000 + pmd_ttbr1 B"
    by (simp_all add: block_def boot_attrs pmd_ttbr1_def)
  have m: "block_loop 0x405 (pmd_ttbr1 B) 0x34000000 t0 = Some t1"
      "block_loop (0x3f000000 OR 1 OR 0x400) (drop_bit (21 - 3) 0x3f000000 + pmd_ttbr1 B) 0x40000000 t1 = Some t2"
      "block_loop (0x40000000 OR 1 OR 0x400) (pmd2_ttbr1 B) 0x41000000 t3 = Some t4"
    using t1(1) t2(1) t4(1) unfolding c boot_places by simp_all
  have "setup_vm B m = Some ?t"
    unfolding setup_vm_def mult_1 boot_stores Let_def t0_def [symmetric] m bind.bind_lunit t3_def [symmetric] ..
  moreover have "boot_rep B m (boot_array B 0x405 (boot_words B m)) ?t"
    using t4(2) unfolding boot_array_def f_def [symmetric] by (intro boot_rep_store) (simp_all add: numeral_eq_Suc)
  ultimately show ?thesis by blast
qed

section \<open>What the MMU sees\<close>

lemma boot_entry:
  assumes "boot_rep B m f t" "T + i < 3584"
  shows "entry_at t (P2V (B + of_nat (8 * T))) (of_nat i) = f (T + i)"
proof -
  have "P2V (B + of_nat (8 * T)) + 8 * of_nat i = boot_addr B (T + i)"
    by (simp add: P2V_def boot_addr_def ac_simps)
  then show ?thesis using assms by (simp add: entry_at_def boot_rep_def boot_words_def)
qed

lemma boot_array_at:
  assumes "i < 512"
  shows "boot_array B n f (0 + i) = (if i = 0 then pud_ttbr1 B OR 3 else f i)"
    "boot_array B n f (512 + i) = (if i = 0 then pmd_ttbr1 B OR 3 else if i = 1 then pmd2_ttbr1 B OR 3 else f (512 + i))"
    "boot_array B n f (1024 + i) =
      (if i < 416 then block i OR n else if 504 \<le> i then block i OR BOOT_DEVICE_ATTR else f (1024 + i))"
    "boot_array B n f (1536 + i) = (if i < 8 then block (512 + i) OR BOOT_DEVICE_ATTR else f (1536 + i))"
    "boot_array B n f (2048 + i) = (if i = 0 then pud_ttbr0 B OR 3 else f (2048 + i))"
    "boot_array B n f (2560 + i) = (if i = 0 then pmd_ttbr0 B OR 3 else f (2560 + i))"
    "boot_array B n f (3072 + i) = (if i = 0 then n else f (3072 + i))"
  using assms by (auto simp: boot_array_def filled_def)

lemma boot_next:
  assumes "take_bit 12 B = 0" "unat B < 2 ^ 40" "k < 7"
  shows "next_table (B + of_nat (8 * (512 * k)) OR 3) = Some (P2V (B + of_nat (8 * (512 * k))))"
    "(B + of_nat (8 * (512 * k)) OR 3) AND 3 = (3 :: u64)"
proof -
  define w where "w = B + of_nat (8 * (512 * k))"
  have u: "unat w = unat B + 4096 * k" using assms(2,3) unat_plus_of_nat [of B "8 * (512 * k)"] by (simp add: w_def)
  have "take_bit 12 (unat B) = 0" using arg_cong [OF assms(1), of unat] unfolding unsigned_take_bit_eq by simp
  then have "unat B mod 4096 = 0" by (simp add: take_bit_eq_mod)
  then have "take_bit 12 w = 0" unfolding word_unat_eq_iff unsigned_take_bit_eq u by (simp add: take_bit_eq_mod)
  then have lo: "\<not> bit w n" if "n < 12" for n using arg_cong [of _ _ "\<lambda>w. bit w n"] that by (metis bit_take_bit_iff bit_0_eq bot_apply bot_bool_def)
  have "take_bit 48 w = w"
    using assms(2,3) by (simp add: word_unat_eq_iff unsigned_take_bit_eq u take_bit_nat_eq_self)
  then have hi: "\<not> bit w n" if "48 \<le> n" for n using that by (metis bit_take_bit_iff leD)
  have "(3 :: u64) = mask 2" "(0xfffffffff000 :: u64) = mask 48 AND NOT (mask 12)" by (simp_all add: mask_eq_exp_minus_1)
  note masks = this
  have "(w OR 3) AND 3 = 3" using masks(1) by (auto intro!: bit_word_eqI simp: bit_simps)
  moreover have "PDE_ADDR (w OR 3) = w"
    unfolding PDE_ADDR_def masks using lo hi by (auto intro!: bit_word_eqI simp: bit_simps) (metis linorder_not_less)+
  ultimately show "next_table (B + of_nat (8 * (512 * k)) OR 3) = Some (P2V (B + of_nat (8 * (512 * k))))"
    "(B + of_nat (8 * (512 * k)) OR 3) AND 3 = (3 :: u64)"
    by (simp_all add: next_table_def w_def)
qed

lemma va_index_unat:
  assumes "l \<le> 2"
  shows "unat (va_index l v) = unat (take_bit 48 v) div 2 ^ (39 - 9 * l) mod 512"
proof -
  have m: "(0x1ff :: u64) = mask 9" by (simp add: mask_eq_exp_minus_1)
  have "va_index l v = take_bit 9 (drop_bit (39 - 9 * l) (take_bit 48 v))"
    unfolding va_index_def m using assms by (auto intro!: bit_word_eqI simp: bit_simps)
  then have "unat (va_index l v) = take_bit 9 (drop_bit (39 - 9 * l) (unat (take_bit 48 v)))"
    by (simp only: unsigned_take_bit_eq unat_drop_bit_eq)
  then show ?thesis by (simp only: take_bit_eq_mod drop_bit_eq_div) simp
qed

text \<open>The page number of an address; its three indices are digits of it.\<close>

definition page_no :: "u64 \<Rightarrow> nat" where
  "page_no v = unat (take_bit 48 v) div 2 ^ 21"

lemma va_digits:
  "unat (va_index 0 v) = page_no v div 2 ^ 18 mod 512" "unat (va_index 1 v) = page_no v div 512 mod 512"
  "unat (va_index 2 v) = page_no v mod 512" "page_no v < 2 ^ 27"
proof -
  have "unat (take_bit 48 v) < 2 ^ 48" unfolding unsigned_take_bit_eq by (rule take_bit_nat_less_exp)
  then show "page_no v < 2 ^ 27" by (simp add: page_no_def)
  show "unat (va_index 0 v) = page_no v div 2 ^ 18 mod 512" "unat (va_index 1 v) = page_no v div 512 mod 512"
    "unat (va_index 2 v) = page_no v mod 512"
    by (simp_all add: va_index_unat page_no_def div_mult2_eq [symmetric])
qed

lemma va_of_nat: "va_index l v = of_nat (unat (va_index l v))" by simp

lemma block_of_page:
  "block (page_no v) OR (v AND mask 21) = take_bit 48 v"
proof -
  have "block (page_no v) = take_bit 48 v AND NOT (mask 21)"
  proof -
    have "push_bit 21 (drop_bit 21 (take_bit 48 v)) = block (page_no v)"
    proof -
      have "drop_bit 21 (take_bit 48 v) = of_nat (page_no v)"
      proof -
        have "page_no v = unat (drop_bit 21 (take_bit 48 v))"
          unfolding page_no_def unat_drop_bit_eq by (simp only: drop_bit_eq_div)
        then show ?thesis by simp
      qed
      then show ?thesis by (simp add: block_def push_bit_eq_mult)
    qed
    moreover have "push_bit 21 (drop_bit 21 (take_bit 48 v)) = take_bit 48 v AND NOT (mask 21)"
      by (auto intro!: bit_word_eqI simp: bit_simps)
    ultimately show ?thesis by simp
  qed
  then show ?thesis by (auto intro!: bit_word_eqI simp: bit_simps)
qed

lemma boot_block:
  assumes "attr_ok attr" "page_no v = j"
  shows "(block j OR attr) AND 3 = 1" "block_output 21 (block j OR attr) v = Some (take_bit 48 v)"
  using block_descriptor [OF block_bits(1,2) assms(1)] va_digits(4) [of v] assms(2) block_of_page [of v] by auto

lemma page_digits:
  fixes q :: nat
  assumes "q < 2 ^ 27" "q div 2 ^ 18 mod 512 = 0"
  shows "q = 512 * (q div 512 mod 512) + q mod 512"
proof -
  have "q div 2 ^ 18 < 512" using assms(1) by (intro less_mult_imp_div_less) simp
  then have "q < 2 ^ 18" using assms(2) by (simp add: div_eq_0_iff)
  then have "q div 512 < 512" by (intro less_mult_imp_div_less) simp
  then show ?thesis by simp
qed

lemma boot_walk:
  assumes rep: "boot_rep B m (boot_array B n f) t" and z: "\<forall>i < 3584. f i = 0"
    and B: "take_bit 12 B = 0" "unat B < 2 ^ 40" and n: "attr_ok n"
  shows "mmu_walk t (pgd_ttbr1 B) v =
      (if page_no v < 416 \<or> 504 \<le> page_no v \<and> page_no v < 520 then Some (take_bit 48 v) else None)"
    and "mmu_walk t (pgd_ttbr0 B) v = (if page_no v = 0 then Some (take_bit 48 v) else None)"
proof -
  let ?i = "\<lambda>l. unat (va_index l v)"
  note lt = va_index_bound [of _ v]
  have e: "entry_at t (P2V (B + of_nat (8 * T))) (va_index l v) = boot_array B n f (T + ?i l)" if "T \<le> 3072" for T l
    using boot_entry [OF rep, of T "?i l"] that lt [of l] by simp
  have nt: "next_table (B + of_nat (8 * T) OR 3) = Some (P2V (B + of_nat (8 * T)))" "(B + of_nat (8 * T) OR 3) AND 3 = 3"
    if "T \<in> {512, 1024, 1536, 2560, 3072}" for T
    using that boot_next [OF B, of 1] boot_next [OF B, of 2] boot_next [OF B, of 3] boot_next [OF B, of 5] boot_next [OF B, of 6]
    by auto
  have nz: "next_table 0 = None" "(0 :: u64) AND 3 \<noteq> 1" by (simp_all add: next_table_def)
  note at = boot_array_at [OF lt] z boot_places nt nz
  note idx = va_digits [of v]
  have e0: "entry_at t (P2V (pgd_ttbr1 B)) (va_index 0 v) = (if ?i 0 = 0 then pud_ttbr1 B OR 3 else 0)"
    "entry_at t (P2V (pud_ttbr1 B)) (va_index 1 v) = (if ?i 1 = 0 then pmd_ttbr1 B OR 3 else if ?i 1 = 1 then pmd2_ttbr1 B OR 3 else 0)"
    "entry_at t (P2V (pmd_ttbr1 B)) (va_index 2 v) =
      (if ?i 2 < 416 then block (?i 2) OR n else if 504 \<le> ?i 2 then block (?i 2) OR BOOT_DEVICE_ATTR else 0)"
    "entry_at t (P2V (pmd2_ttbr1 B)) (va_index 2 v) = (if ?i 2 < 8 then block (512 + ?i 2) OR BOOT_DEVICE_ATTR else 0)"
    "entry_at t (P2V (pgd_ttbr0 B)) (va_index 0 v) = (if ?i 0 = 0 then pud_ttbr0 B OR 3 else 0)"
    "entry_at t (P2V (pud_ttbr0 B)) (va_index 1 v) = (if ?i 1 = 0 then pmd_ttbr0 B OR 3 else 0)"
    "entry_at t (P2V (pmd_ttbr0 B)) (va_index 2 v) = (if ?i 2 = 0 then n else 0)"
    using e [of 0 0] e [of 512 1] e [of 1024 2] e [of 1536 2] e [of 2048 0] e [of 2560 1] e [of 3072 2]
      boot_array_at [OF lt [of 0], of B n f] boot_array_at [OF lt [of 1], of B n f] boot_array_at [OF lt [of 2], of B n f]
      z lt [of 0] lt [of 1] lt [of 2]
    unfolding boot_places by simp_all
  have nx: "next_table (pud_ttbr1 B OR 3) = Some (P2V (pud_ttbr1 B))" "next_table (pmd_ttbr1 B OR 3) = Some (P2V (pmd_ttbr1 B))"
    "next_table (pmd2_ttbr1 B OR 3) = Some (P2V (pmd2_ttbr1 B))" "next_table (pud_ttbr0 B OR 3) = Some (P2V (pud_ttbr0 B))"
    "next_table (pmd_ttbr0 B OR 3) = Some (P2V (pmd_ttbr0 B))" "(pmd_ttbr1 B OR 3) AND 3 = 3" "(pmd2_ttbr1 B OR 3) AND 3 = 3"
    "(pmd_ttbr0 B OR 3) AND 3 = 3"
    unfolding boot_places by (rule nt; simp)+
  show "mmu_walk t (pgd_ttbr1 B) v =
      (if page_no v < 416 \<or> 504 \<le> page_no v \<and> page_no v < 520 then Some (take_bit 48 v) else None)"
  proof (cases "?i 0 = 0 \<and> (?i 1 = 0 \<or> ?i 1 = 1)")
    case False
    then have "\<not> page_no v < 1024" using idx(1,2) by auto
    then show ?thesis using False e0 nx nz by (auto simp: mmu_walk_def)
  next
    case True
    then have q: "page_no v = 512 * ?i 1 + ?i 2" using idx page_digits [of "page_no v"] by simp
    show ?thesis
    proof (cases "?i 1 = 0")
      case one: True
      have b: "(block (?i 2) OR n) AND 3 = 1" "(block (?i 2) OR BOOT_DEVICE_ATTR) AND 3 = 1"
        using boot_block(1) [OF n, of v] boot_block(1) [OF boot_attrs(5), of v] q one by simp_all
      have "mmu_walk t (pgd_ttbr1 B) v =
          (let w = (if ?i 2 < 416 then block (?i 2) OR n else if 504 \<le> ?i 2 then block (?i 2) OR BOOT_DEVICE_ATTR else 0)
           in if w AND 3 = 1 then block_output 21 w v else None)"
        using True one e0(1-3) nx nz b by (simp add: mmu_walk_def Let_def)
      then show ?thesis
        using boot_block [OF n, of v "?i 2"] boot_block [OF boot_attrs(5), of v "?i 2"] q one lt [of 2] nz(2) by auto
    next
      case two: False
      have b: "(block (512 + ?i 2) OR BOOT_DEVICE_ATTR) AND 3 = 1"
        using boot_block(1) [OF boot_attrs(5), of v] q True two by simp
      have "mmu_walk t (pgd_ttbr1 B) v =
          (let w = (if ?i 2 < 8 then block (512 + ?i 2) OR BOOT_DEVICE_ATTR else 0)
           in if w AND 3 = 1 then block_output 21 w v else None)"
        using True two e0(1,2,4) nx nz b by (simp add: mmu_walk_def Let_def)
      then show ?thesis
        using boot_block [OF boot_attrs(5), of v "512 + ?i 2"] q True two nz(2) by auto
    qed
  qed
  show "mmu_walk t (pgd_ttbr0 B) v = (if page_no v = 0 then Some (take_bit 48 v) else None)"
  proof (cases "?i 0 = 0 \<and> ?i 1 = 0")
    case False
    then have "page_no v \<noteq> 0" using idx(1,2) by auto
    then show ?thesis using False e0 nx nz by (auto simp: mmu_walk_def)
  next
    case True
    then have q: "page_no v = ?i 2" using idx page_digits [of "page_no v"] by simp
    have "mmu_walk t (pgd_ttbr0 B) v = (let w = (if ?i 2 = 0 then n else 0) in if w AND 3 = 1 then block_output 21 w v else None)"
      using True e0(5-7) nx nz n by (simp add: mmu_walk_def Let_def attr_ok_def)
    moreover have "block 0 OR n = n" by (simp add: block_def)
    ultimately show ?thesis using boot_block [OF n, of v 0] q nz(2) by auto
  qed
qed

lemma page_no_less: "page_no v < k \<longleftrightarrow> unat (take_bit 48 v) < k * 2 ^ 21"
  unfolding page_no_def by (rule div_less_iff_less_mult) simp

lemma page_no_ge: "k \<le> page_no v \<longleftrightarrow> k * 2 ^ 21 \<le> unat (take_bit 48 v)"
  using page_no_less [of v k] by linarith

lemma low_address: "v < 2 ^ 48 \<Longrightarrow> take_bit 48 v = (v :: u64)"
  unfolding word_unat_eq_iff unsigned_take_bit_eq by (simp add: word_less_nat_alt take_bit_nat_eq_self)

lemma high_address:
  assumes "KERNEL_BASE \<le> v"
  shows "take_bit 48 v = V2P v"
proof -
  have "unat v < 2 ^ 64" using unsigned_less [of v, where ?'a = nat] by simp
  moreover have v: "unat v = 65535 * 2 ^ 48 + unat (V2P v)"
    using assms unat_diff_le [OF assms] by (simp add: V2P_def KERNEL_BASE_def word_le_nat_alt)
  ultimately have "unat (V2P v) < 2 ^ 48" by simp
  then have "unat v mod 2 ^ 48 = unat (V2P v)" unfolding v mod_mult_self3 by (rule mod_less)
  then show ?thesis unfolding word_unat_eq_iff unsigned_take_bit_eq by (simp only: take_bit_eq_mod)
qed

section \<open>Properties\<close>

text \<open>The two halves of the address space, for either version of the attributes.\<close>

lemma boot_maps:
  assumes "boot_rep B m (boot_array B n f) t" "\<forall>i < 3584. f i = 0" "take_bit 12 B = 0" "unat B < 2 ^ 40" "attr_ok n"
  shows "KERNEL_BASE \<le> v \<Longrightarrow> mmu_walk t (pgd_ttbr1 B) v =
      (if V2P v < RAM_MAX_ADDR \<or> 0x3f000000 \<le> V2P v \<and> V2P v < LOCAL_PERIPH_END then Some (V2P v) else None)"
    "v < 2 ^ 48 \<Longrightarrow> mmu_walk t (pgd_ttbr0 B) v = (if v < PAGE_SIZE then Some v else None)"
proof -
  note w = boot_walk [OF assms]
  show "mmu_walk t (pgd_ttbr1 B) v =
      (if V2P v < RAM_MAX_ADDR \<or> 0x3f000000 \<le> V2P v \<and> V2P v < LOCAL_PERIPH_END then Some (V2P v) else None)"
    if "KERNEL_BASE \<le> v"
    unfolding w(1) page_no_less page_no_ge high_address [OF that]
    by (simp add: word_less_nat_alt word_le_nat_alt RAM_MAX_ADDR_def LOCAL_PERIPH_END_def)
  show "mmu_walk t (pgd_ttbr0 B) v = (if v < PAGE_SIZE then Some v else None)" if "v < 2 ^ 48"
  proof -
    have "page_no v = 0 \<longleftrightarrow> unat v < 2 ^ 21" using page_no_less [of v 1] low_address [OF that] by simp
    then show ?thesis unfolding w(2) low_address [OF that] by (simp add: word_less_nat_alt PAGE_SIZE_def)
  qed
qed

text \<open>
  The boot page tables.  \<open>setup_vm2\<close> returns for a page-aligned block of zeroed tables inside
  the RAM it maps; with them the MMU translates a kernel address exactly when it lies in RAM, the peripherals or
  the local peripherals, to the physical address \<open>v - KERNEL_BASE\<close>; a user address exactly when it lies
  in the first 2 MiB, to itself; no byte outside the tables is written.
\<close>

theorem boot_translation:
  assumes "take_bit 12 B = 0" "unat B + 7 * 4096 \<le> 0x34000000" "\<forall>i < 3584. load64 m (P2V B + of_nat (8 * i)) = 0"
  shows "\<exists>t. setup_vm2 B m = Some t \<and>
    (\<forall>v. KERNEL_BASE \<le> v \<longrightarrow> mmu_walk t (pgd_ttbr1 B) v =
      (if V2P v < RAM_MAX_ADDR \<or> 0x3f000000 \<le> V2P v \<and> V2P v < LOCAL_PERIPH_END then Some (V2P v) else None)) \<and>
    (\<forall>v < 2 ^ 48. mmu_walk t (pgd_ttbr0 B) v = (if v < PAGE_SIZE then Some v else None)) \<and>
    (\<forall>x. \<not> in_range (P2V B) (7 * 4096) x \<longrightarrow> t x = m x)"
proof -
  obtain t where t: "setup_vm2 B m = Some t" and rep: "boot_rep B m (boot_array B BOOT_NORMAL_ATTR (boot_words B m)) t"
    using setup_vm2_run by blast
  have z: "\<forall>i < 3584. boot_words B m i = 0" using assms(3) by (simp add: boot_words_def boot_addr_def)
  have B: "unat B < 2 ^ 40" using assms(2) by simp
  then show ?thesis
    using t boot_maps [OF rep z assms(1) B boot_attrs(4)] rep by (intro exI [of _ t]) (simp add: boot_rep_def)
qed

theorem boot_translation_witness:
  "\<exists>t. setup_vm2 0x90000 (\<lambda>_. 0) = Some t \<and> mmu_walk t 0x90000 0xffff00003f201000 = Some 0x3f201000 \<and>
    mmu_walk t 0x90000 0xffff000038000000 = None"
proof -
  obtain t where t: "setup_vm2 0x90000 (\<lambda>_. 0) = Some t"
      "\<forall>v. KERNEL_BASE \<le> v \<longrightarrow> mmu_walk t (pgd_ttbr1 0x90000) v =
        (if V2P v < RAM_MAX_ADDR \<or> 0x3f000000 \<le> V2P v \<and> V2P v < LOCAL_PERIPH_END then Some (V2P v) else None)"
    using boot_translation [of "0x90000" "\<lambda>_. 0"] load64_zero by auto
  then show ?thesis
    by (simp add: pgd_ttbr1_def KERNEL_BASE_def V2P_def RAM_MAX_ADDR_def LOCAL_PERIPH_END_def)
qed

text \<open>
  The two versions agree.  The assembly \<open>setup_vm\<close> and the C \<open>setup_vm2\<close> both return, write only
  the tables, and give the MMU the same translation of every address in both halves of the address
  space; they differ in the shareability bits of the RAM entries only.
\<close>

theorem boot_versions_agree:
  assumes "take_bit 12 B = 0" "unat B + 7 * 4096 \<le> 0x34000000" "\<forall>i < 3584. load64 m (P2V B + of_nat (8 * i)) = 0"
  shows "\<exists>t u. setup_vm B m = Some t \<and> setup_vm2 B m = Some u \<and>
    (\<forall>v. mmu_walk t (pgd_ttbr1 B) v = mmu_walk u (pgd_ttbr1 B) v) \<and>
    (\<forall>v. mmu_walk t (pgd_ttbr0 B) v = mmu_walk u (pgd_ttbr0 B) v) \<and>
    (\<forall>i < 3584. load64 t (P2V B + of_nat (8 * i)) OR TD_SH_INNER_SHARE = load64 u (P2V B + of_nat (8 * i)) OR TD_SH_INNER_SHARE) \<and>
    (\<forall>x. \<not> in_range (P2V B) (7 * 4096) x \<longrightarrow> t x = u x)"
proof -
  obtain t where t: "setup_vm B m = Some t" and rt: "boot_rep B m (boot_array B 0x405 (boot_words B m)) t"
    using setup_vm_run by blast
  obtain u where u: "setup_vm2 B m = Some u" and ru: "boot_rep B m (boot_array B BOOT_NORMAL_ATTR (boot_words B m)) u"
    using setup_vm2_run by blast
  have z: "\<forall>i < 3584. boot_words B m i = 0" using assms(3) by (simp add: boot_words_def boot_addr_def)
  have B: "unat B < 2 ^ 40" using assms(2) by simp
  note wt = boot_walk [OF rt z assms(1) B boot_attrs(6)] and wu = boot_walk [OF ru z assms(1) B boot_attrs(4)]
  have n: "BOOT_NORMAL_ATTR OR TD_SH_INNER_SHARE = 0x405 OR TD_SH_INNER_SHARE"
    by (simp add: boot_attrs TD_SH_INNER_SHARE_def)
  have "boot_array B 0x405 f i OR TD_SH_INNER_SHARE = boot_array B BOOT_NORMAL_ATTR f i OR TD_SH_INNER_SHARE" for f i
    using n by (simp add: boot_array_def filled_def or.assoc)
  then have "load64 t (P2V B + of_nat (8 * i)) OR TD_SH_INNER_SHARE = load64 u (P2V B + of_nat (8 * i)) OR TD_SH_INNER_SHARE"
    if "i < 3584" for i
    using rt ru that unfolding boot_rep_def boot_words_def boot_addr_def by metis
  moreover have "t x = u x" if "\<not> in_range (P2V B) (7 * 4096) x" for x
    using rt ru that by (simp add: boot_rep_def)
  ultimately show ?thesis using t u wt wu by auto
qed

theorem boot_versions_agree_witness:
  "\<exists>t u. setup_vm 0x90000 (\<lambda>_. 0) = Some t \<and> setup_vm2 0x90000 (\<lambda>_. 0) = Some u \<and>
    mmu_walk t 0x90000 0xffff000000080000 = mmu_walk u 0x90000 0xffff000000080000"
proof -
  show ?thesis
    using boot_versions_agree [of "0x90000" "\<lambda>_. 0"] load64_zero by (auto simp: pgd_ttbr1_def)
qed

end
