(* ===== verification/Vm_Release.thy ===== *)
theory Vm_Release
  imports Page_Table_Correct
begin

text \<open>
  Tearing an address space down.  \<open>free_vm\<close> frees the pages of the tree of tables one by one while it
  reads the tables; the lemmas show that on a well-formed address space every page it frees is one
  the kernel still holds at that moment, so no page is freed twice and no assertion of \<open>kfree\<close>
  fails, and that pages outside the address space are untouched.
\<close>

section \<open>Freeing pages\<close>

text \<open>
  \<open>released F W s t\<close>: from \<open>s\<close> to \<open>t\<close> only pages in \<open>F\<close> may have become free, the number of free
  pages is the same, and pages held that are neither in \<open>F\<close> nor in \<open>W\<close> have their contents, as has
  everything above the managed memory.
\<close>

definition released :: "u64 set \<Rightarrow> u64 set \<Rightarrow> 'a kernel_scheme \<Rightarrow> 'a kernel_scheme \<Rightarrow> bool" where
  "released F W s t \<longleftrightarrow> kalloc_inv t \<and> start_of t = start_of s \<and> t = s\<lparr>mem := mem t\<rparr> \<and>
     card (kavail t) = card (kavail s) \<and> kavail t \<subseteq> kavail s \<union> pn ` F \<and>
     (\<forall>q x. kowned s q \<longrightarrow> q \<notin> F \<union> W \<longrightarrow> in_range q (2 ^ 21) x \<longrightarrow> mem t x = mem s x) \<and>
     (\<forall>x. MEMORY_END \<le> x \<longrightarrow> start_of s \<le> x \<longrightarrow> mem t x = mem s x)"

lemma released_refl: "kalloc_inv s \<Longrightarrow> released F W s s"
  by (simp add: released_def)

lemma released_mono: "released F W s t \<Longrightarrow> F \<subseteq> F' \<Longrightarrow> W \<subseteq> W' \<Longrightarrow> released F' W' s t"
  unfolding released_def by blast

lemma released_owned:
  assumes "released F W s t" "kowned s q" "q \<notin> F" "\<And>p. p \<in> F \<Longrightarrow> kowned s p"
  shows "kowned t q"
proof -
  have "pn q \<notin> pn ` F"
    using assms(2-4) pn_inj region_bound(3) kowned_region by (metis imageE)
  then show ?thesis using assms(1,2) by (auto simp: released_def owned_def)
qed

lemma released_trans:
  assumes "released F W s t" "released G V t u" "\<And>p. p \<in> F \<Longrightarrow> kowned s p"
  shows "released (F \<union> G) (W \<union> V) s u"
proof -
  have "mem u x = mem s x" if "kowned s q" "q \<notin> (F \<union> G) \<union> (W \<union> V)" "in_range q (2 ^ 21) x" for q x
  proof -
    have "mem t x = mem s x" using assms(1) that unfolding released_def by blast
    moreover have "mem u x = mem t x"
      using assms(2) that released_owned [OF assms(1) that(1) _ assms(3)] unfolding released_def by blast
    ultimately show ?thesis by simp
  qed
  moreover have "u = s\<lparr>mem := mem u\<rparr>"
  proof -
    have "t = s\<lparr>mem := mem t\<rparr>" "u = t\<lparr>mem := mem u\<rparr>" using assms(1,2) unfolding released_def by blast+
    then have "u = (s\<lparr>mem := mem t\<rparr>)\<lparr>mem := mem u\<rparr>" by (rule subst)
    then show ?thesis by simp
  qed
  moreover have "kavail u \<subseteq> kavail s \<union> pn ` (F \<union> G)"
    using assms(1,2) unfolding released_def by blast
  ultimately show ?thesis using assms(1,2) unfolding released_def by auto
qed

lemma released_entry:
  assumes "released F W s t" "kowned s q" "q \<notin> F \<union> W" "k < 512"
  shows "entry_at (mem t) q (of_nat k) = entry_at (mem s) q (of_nat k)"
  unfolding entry_at_def
proof (rule load64_cong)
  fix x
  assume "in_range (q + 8 * of_nat k) 8 x"
  then have "in_range q (2 ^ 21) x"
    using page_of_word(2) [OF region_bound(3) [OF kowned_region [OF assms(2)]], of k x] assms(4) by simp
  then show "mem t x = mem s x" using assms(1-3) unfolding released_def by blast
qed

lemma kfree_released:
  assumes "kalloc_inv s" "kowned s p"
  shows "\<exists>t. kfree p s = Inr t \<and> released {p} {} s t"
proof -
  obtain L where L: "kmem_inv s L" and odd: "odd (pn (start_of s))"
    using assms(1) by (auto simp: kalloc_inv_def)
  note own = ownedD [OF assms(2)]
  obtain m' L' where f: "kfree p s = Inr (s\<lparr>mem := m'\<rparr>)" "kmem_inv (s\<lparr>mem := m'\<rparr>) L'"
      "start_addr (sym_allocator s) m' = start_of s"
    using kfree_spec [OF L odd own(1)] own(2) kavail_eq [OF L] by auto
  obtain t where t: "kfree p s = Inr t" "kalloc_inv t" "kavail t \<subseteq> insert (pn p) (kavail s)"
    using kpages.free_law [OF assms(1) own] by blast
  have tt: "t = s\<lparr>mem := m'\<rparr>" using f(1) t(1) by simp
  have "mem t x = mem s x" if "kowned s q" "q \<noteq> p" "in_range q (2 ^ 21) x" for q x
  proof (rule kstore.free_frame [OF assms(1) own t(1)])
    note al = region_bound(3) [OF kowned_region [OF that(1)]]
    show "x \<notin> {x. in_range (sym_allocator s) 160 x}"
      using kstore.managed_public [OF assms(1) kowned_region [OF that(1)] that(3)] .
    show "pn x \<notin> kavail s" "pn x \<noteq> pn p"
      using in_range_page [OF al that(3)] ownedD(2) [OF that(1)] that(2)
        pn_inj [OF al region_bound(3) [OF own(1)]] by auto
  qed
  moreover have "mem t x = mem s x" if "MEMORY_END \<le> x" "start_of s \<le> x" for x
    using kstore.free_frame [OF assms(1) own t(1)] above_public [OF assms(1) that] page_below_end(1) [OF own(1) that(1)] by simp
  moreover have "card (kavail t) = card (kavail s)" using kpages.free_no_gain [OF assms(1) own t(1)] .
  ultimately have "released {p} {} s t" using t(2,3) f(3) tt by (auto simp: released_def)
  then show ?thesis using t(1) by blast
qed

section \<open>Paths through the tables\<close>

fun walk :: "memory \<Rightarrow> u64 \<Rightarrow> nat list \<Rightarrow> u64 option" where
  "walk m a [] = Some a"
| "walk m a (i # is) = (case child m a i of None \<Rightarrow> None | Some c \<Rightarrow> walk m c is)"

text \<open>The pages \<open>free_entries\<close> frees, in its order, and the paths that lead to them.\<close>

fun freed_list :: "nat \<Rightarrow> memory \<Rightarrow> u64 \<Rightarrow> nat list \<Rightarrow> u64 list" where
  "freed_list d m a [] = []"
| "freed_list d m a (i # is) =
     (case child m a i of None \<Rightarrow> []
      | Some c \<Rightarrow> (case d of 0 \<Rightarrow> [] | Suc d' \<Rightarrow> freed_list d' m c indices) @ [c])
     @ freed_list d m a is"

lemma child_bound: "child m a i = Some c \<Longrightarrow> i < 512"
  by (simp add: child_def split: if_splits)

lemma freed_list_cong:
  assumes "\<And>q k. q \<in> insert a (set (freed_list d m a is)) \<Longrightarrow> k < 512 \<Longrightarrow>
    entry_at m' q (of_nat k) = entry_at m q (of_nat k)"
  shows "freed_list d m' a is = freed_list d m a is"
  using assms
proof (induction d m a "is" rule: freed_list.induct)
  case (2 d m a i "is")
  have ch: "child m' a i = child m a i" by (rule child_eq) (use "2.prems" in simp)
  have rest: "freed_list d m' a is = freed_list d m a is"
    by (rule "2.IH"(2)) (use "2.prems" in auto)
  have "freed_list d' m' c indices = freed_list d' m c indices" if "child m a i = Some c" "d = Suc d'" for c d'
    by (rule "2.IH"(1) [OF that]) (use "2.prems" that in auto)
  then show ?case using ch rest by (simp split: option.split nat.split)
qed simp

lemma free_entries_released:
  assumes "kalloc_inv s" "kowned s a" "a \<notin> set (freed_list d (mem s) a is)"
    and "distinct (freed_list d (mem s) a is)" "\<And>p. p \<in> set (freed_list d (mem s) a is) \<Longrightarrow> kowned s p"
    and "set is \<subseteq> {..<512}"
  shows "\<exists>t. free_entries d a is s = Inr t \<and> released (set (freed_list d (mem s) a is)) {} s t"
  using assms
proof (induction d a "is" s rule: free_entries.induct)
  case (1 d a s)
  then show ?case by (simp add: released_refl)
next
  case (2 d a i "is" s)
  have i: "i < 512" using "2.prems"(6) by simp
  show ?case
  proof (cases "child (mem s) a i")
    case None
    then have e: "entry_at (mem s) a (of_nat i) AND ENTRY_V = 0" using i by (auto simp: child_def split: if_splits)
    then show ?thesis using "2.IH"(2) [of s] "2.prems" None by simp
  next
    case (Some c)
    then have e: "entry_at (mem s) a (of_nat i) AND ENTRY_V \<noteq> 0"
        "P2V (PDE_ADDR (entry_at (mem s) a (of_nat i))) = c"
      by (auto simp: child_def split: if_splits)
    define sub where "sub = (case d of 0 \<Rightarrow> [] | Suc d' \<Rightarrow> freed_list d' (mem s) c indices)"
    define rest where "rest = freed_list d (mem s) a is"
    have fl: "freed_list d (mem s) a (i # is) = sub @ c # rest" using Some by (simp add: sub_def rest_def)
    note P = "2.prems" [unfolded fl]
    have sub: "\<exists>u. (case d of 0 \<Rightarrow> Inr s | Suc d' \<Rightarrow> free_entries d' c indices s) = Inr u \<and>
        released (set sub) {} s u"
    proof (cases d)
      case 0
      then show ?thesis using released_refl [OF "2.prems"(1)] by (simp add: sub_def)
    next
      case (Suc d')
      have "\<exists>t. free_entries d' c indices s = Inr t \<and>
          released (set (freed_list d' (mem s) c indices)) {} s t"
        using "2.IH"(1) [of _ d'] e Suc P by (auto simp: sub_def)
      then show ?thesis using Suc by (simp add: sub_def)
    qed
    then obtain u where u: "(case d of 0 \<Rightarrow> Inr s | Suc d' \<Rightarrow> free_entries d' c indices s) = Inr u"
        "released (set sub) {} s u" by blast
    have ku: "kalloc_inv u" using u(2) by (simp add: released_def)
    have cu: "kowned u c" using released_owned [OF u(2)] P(4,5) by auto
    obtain w where w: "kfree c u = Inr w" "released {c} {} u w" using kfree_released [OF ku cu] by blast
    have sw: "released (insert c (set sub)) {} s w"
      using released_trans [OF u(2) w(2)] P(5) by auto
    have own: "kowned w q" if "q \<in> insert a (set rest)" for q
      using released_owned [OF sw, of q] that P by auto
    have ent: "entry_at (mem w) q (of_nat k) = entry_at (mem s) q (of_nat k)"
      if "q \<in> insert a (set rest)" "k < 512" for q k
      using released_entry [OF sw, of q k] that P by auto
    have fw: "freed_list d (mem w) a is = rest"
      unfolding rest_def by (rule freed_list_cong) (use ent in \<open>simp add: rest_def\<close>)
    have kw: "kalloc_inv w" using sw by (simp add: released_def)
    have step: "(if entry_at (mem s) a (of_nat i) AND ENTRY_V \<noteq> 0
        then let child_pa = PDE_ADDR (entry_at (mem s) a (of_nat i)) in
             rbind (case d of 0 \<Rightarrow> Inr s | Suc d \<Rightarrow> free_entries d (P2V child_pa) indices s)
               (\<lambda>s. kfree (P2V child_pa) s)
        else Inr s) = Inr w"
      unfolding Let_def e(2) u(1) using e(1) w(1) by simp
    have "\<exists>t. free_entries d a is w = Inr t \<and> released (set rest) {} w t"
      using "2.IH"(2) [OF step kw] own fw P by auto
    then obtain t where t: "free_entries d a is w = Inr t" "released (set rest) {} w t" by blast
    have "released (insert c (set sub) \<union> set rest) {} s t"
      using released_trans [OF sw t(2)] P(5) by auto
    moreover have "free_entries d a (i # is) s = Inr t"
      unfolding free_entries.simps step using t(1) by simp
    moreover have "set (sub @ c # rest) = insert c (set sub) \<union> set rest" by auto
    ultimately show ?thesis unfolding fl by metis
  qed
qed

lemma freed_list_path:
  "x \<in> set (freed_list d m a is) \<Longrightarrow> \<exists>p. p \<noteq> [] \<and> length p \<le> Suc d \<and> hd p \<in> set is \<and> walk m a p = Some x"
proof (induction d m a "is" rule: freed_list.induct)
  case (2 d m a i "is")
  consider "x \<in> set (freed_list d m a is)" | "child m a i = Some x"
    | c d' where "child m a i = Some c" "d = Suc d'" "x \<in> set (freed_list d' m c indices)"
    using "2.prems" by (cases "child m a i"; cases d) auto
  then show ?case
  proof cases
    case 1
    then show ?thesis using "2.IH"(2) by (metis list.set_intros(2))
  next
    case 2
    then show ?thesis by (intro exI [of _ "[i]"]) simp
  next
    case 3
    then obtain p where "length p \<le> Suc d'" "walk m c p = Some x" using "2.IH"(1) [OF 3(1,2)] by blast
    then show ?thesis using 3 by (intro exI [of _ "i # p"]) simp
  qed
qed simp

lemma freed_list_distinct:
  assumes "distinct is"
    and "\<And>p q x. length p \<le> Suc d \<Longrightarrow> length q \<le> Suc d \<Longrightarrow> walk m a p = Some x \<Longrightarrow> walk m a q = Some x \<Longrightarrow> p = q"
  shows "distinct (freed_list d m a is)"
  using assms
proof (induction d m a "is" rule: freed_list.induct)
  case (2 d m a i "is")
  have rest: "distinct (freed_list d m a is)" using "2.IH"(2) "2.prems" by auto
  show ?case
  proof (cases "child m a i")
    case None
    then show ?thesis using rest by simp
  next
    case (Some c)
    define sub where "sub = (case d of 0 \<Rightarrow> [] | Suc d' \<Rightarrow> freed_list d' m c indices)"
    have sub_path: "\<exists>p. p \<noteq> [] \<and> length p \<le> d \<and> walk m a (i # p) = Some x" if "x \<in> set sub" for x
      using that freed_list_path [of x _ m c "indices"] Some
      by (cases d) (auto simp: sub_def)
    have "distinct sub"
    proof (cases d)
      case (Suc d')
      have "p = q" if "length p \<le> Suc d'" "length q \<le> Suc d'" "walk m c p = Some x" "walk m c q = Some x" for p q x
        using "2.prems"(2) [of "i # p" "i # q" x] that Some Suc by simp
      then show ?thesis using "2.IH"(1) [OF Some Suc] Suc by (simp add: sub_def)
    qed (simp add: sub_def)
    moreover have "c \<notin> set sub"
    proof
      assume "c \<in> set sub"
      then obtain p where "p \<noteq> []" "length p \<le> d" "walk m a (i # p) = Some c" using sub_path by blast
      then show False using "2.prems"(2) [of "i # p" "[i]" c] Some by simp
    qed
    moreover have "x \<notin> set (freed_list d m a is)" if x: "x \<in> insert c (set sub)" for x
    proof
      have "\<exists>p. length p \<le> d \<and> walk m a (i # p) = Some x"
        using x sub_path [of x] exI [of "\<lambda>p. length p \<le> d \<and> walk m a (i # p) = Some x" "[]"] Some by auto
      then obtain p where p: "length p \<le> d" "walk m a (i # p) = Some x" by blast
      assume "x \<in> set (freed_list d m a is)"
      then obtain q where q: "q \<noteq> []" "length q \<le> Suc d" "hd q \<in> set is" "walk m a q = Some x"
        using freed_list_path by blast
      have "q = i # p" using p q "2.prems"(2) [of q "i # p" x] by simp
      then show False using q(3) "2.prems"(1) by simp
    qed
    ultimately show ?thesis using rest Some by (auto simp: sub_def [symmetric])
  qed
qed simp

section \<open>Well-formed address spaces\<close>

definition data_page :: "memory \<Rightarrow> u64 \<Rightarrow> nat \<times> nat \<times> nat \<Rightarrow> u64 option" where
  "data_page m r x =
     (if vm_entry m r x AND ENTRY_V \<noteq> 0 then Some (P2V (PDE_ADDR (vm_entry m r x))) else None)"

definition vm_full :: "u64 \<Rightarrow> 'a kernel_scheme \<Rightarrow> bool" where
  "vm_full r s \<longleftrightarrow> vm_ok r s \<and> blocks_only (mem s) r \<and>
     (\<forall>x a. data_page (mem s) r x = Some a \<longrightarrow> kowned s a \<and> a \<notin> tables (mem s) r) \<and>
     (\<forall>x y a. data_page (mem s) r x = Some a \<longrightarrow> data_page (mem s) r y = Some a \<longrightarrow> x = y)"

definition vm_pages :: "memory \<Rightarrow> u64 \<Rightarrow> u64 set" where
  "vm_pages m r = {a. \<exists>p. length p \<le> 3 \<and> walk m r p = Some a}"

lemma vm_fullD:
  assumes "vm_full r s"
  shows "vm_ok r s" "blocks_only (mem s) r" "data_page (mem s) r x = Some a \<Longrightarrow> kowned s a"
    "data_page (mem s) r x = Some a \<Longrightarrow> a \<notin> tables (mem s) r"
    "data_page (mem s) r x = Some a \<Longrightarrow> data_page (mem s) r y = Some a \<Longrightarrow> x = y"
  using assms unfolding vm_full_def by blast+

lemma walk_data: "walk m r [i, j, k] = data_page m r (i, j, k)"
  by (auto simp: data_page_def vm_entry_def child_def split: option.splits)

lemma walk_cases:
  assumes "length p \<le> 3" "walk m r p = Some a"
  obtains (table) t where "tab m r t = Some a" "t = (case p of [] \<Rightarrow> Pgd | [i] \<Rightarrow> Pud i | i # j # _ \<Rightarrow> Pmd i j)" "length p \<le> 2"
  | (data) i j k where "p = [i, j, k]" "data_page m r (i, j, k) = Some a"
proof -
  have "length p = 0 \<or> length p = 1 \<or> length p = 2 \<or> length p = 3" using assms(1) by linarith
  then consider "p = []" | i where "p = [i]" | i j where "p = [i, j]" | i j k where "p = [i, j, k]"
    by (auto simp: length_Suc_conv numeral_eq_Suc)
  then show ?thesis
  proof cases
    case 1
    then have "tab m r Pgd = Some a" using assms(2) by simp
    then show ?thesis by (rule table) (use 1 in simp_all)
  next
    case (2 i)
    then have "tab m r (Pud i) = Some a" using assms(2) by (simp split: option.splits)
    then show ?thesis by (rule table) (use 2 in simp_all)
  next
    case (3 i j)
    then have "tab m r (Pmd i j) = Some a" using assms(2) by (simp split: option.splits)
    then show ?thesis by (rule table) (use 3 in simp_all)
  next
    case (4 i j k)
    then show ?thesis using assms(2) data walk_data by metis
  qed
qed

lemma walk_owned: "vm_full r s \<Longrightarrow> length p \<le> 3 \<Longrightarrow> walk (mem s) r p = Some a \<Longrightarrow> kowned s a"
  by (erule walk_cases) (auto dest: vm_fullD vm_okD(3) [OF vm_fullD(1)])

lemma walk_inj:
  assumes "vm_full r s" "length p \<le> 3" "length q \<le> 3" "walk (mem s) r p = Some a" "walk (mem s) r q = Some a"
  shows "p = q"
proof (cases rule: walk_cases [OF assms(2,4)])
  case p: (1 t)
  show ?thesis
  proof (cases rule: walk_cases [OF assms(3,5)])
    case q: (1 u)
    then have "t = u" using vm_okD(4) [OF vm_fullD(1) [OF assms(1)]] p(1) by blast
    then show ?thesis using p(2,3) q(2,3) by (auto split: list.splits)
  next
    case (2 i j k)
    then show ?thesis using vm_fullD(4) [OF assms(1)] tab_tables [OF p(1)] by blast
  qed
next
  case p: (2 i j k)
  show ?thesis
  proof (cases rule: walk_cases [OF assms(3,5)])
    case (1 u)
    then show ?thesis using vm_fullD(4) [OF assms(1)] tab_tables p(2) by blast
  next
    case (2 i' j' k')
    then show ?thesis using vm_fullD(5) [OF assms(1) p(2) 2(2)] p(1) by simp
  qed
qed

section \<open>free\_vm\<close>

lemma tables_pages: "tables m r \<subseteq> vm_pages m r"
proof
  fix a
  assume "a \<in> tables m r"
  then obtain t where t: "tab m r t = Some a" by (auto simp: tables_def ran_def)
  have "\<exists>p. length p \<le> 3 \<and> walk m r p = Some a"
  proof (cases t)
    case Pgd
    then show ?thesis using t by (intro exI [of _ "[]"]) simp
  next
    case (Pud i)
    then show ?thesis using t by (intro exI [of _ "[i]"]) simp
  next
    case (Pmd i j)
    then show ?thesis using t by (intro exI [of _ "[i, j]"]) (auto split: option.splits)
  qed
  then show "a \<in> vm_pages m r" by (simp add: vm_pages_def)
qed

lemma data_pages: "data_page m r x = Some a \<Longrightarrow> a \<in> vm_pages m r"
  unfolding vm_pages_def using walk_data [of m r "fst x" "fst (snd x)" "snd (snd x)"]
  by (auto intro!: exI [of _ "[fst x, fst (snd x), snd (snd x)]"] simp del: walk.simps)

lemma vm_pages_eq: "vm_pages m r = tables m r \<union> ran (data_page m r)"
proof
  show "vm_pages m r \<subseteq> tables m r \<union> ran (data_page m r)"
    unfolding vm_pages_def by (auto elim!: walk_cases intro: tab_tables ranI)
  show "tables m r \<union> ran (data_page m r) \<subseteq> vm_pages m r"
    using tables_pages data_pages by (auto simp: ran_def)
qed

lemma vm_pages_owned: "vm_full r s \<Longrightarrow> a \<in> vm_pages (mem s) r \<Longrightarrow> kowned s a"
  unfolding vm_pages_def using walk_owned by blast

lemma free_table_released:
  assumes full: "vm_full r s"
  shows "\<exists>t. free_table r 0 s = Inr t \<and> released (vm_pages (mem s) r - {r}) {} s t"
proof -
  let ?f = "freed_list 2 (mem s) r indices"
  note D = vm_fullD [OF full]
  have path: "\<exists>p. p \<noteq> [] \<and> length p \<le> 3 \<and> walk (mem s) r p = Some x" if "x \<in> set ?f" for x
    using freed_list_path [OF that] by auto
  have own: "kowned s x" if "x \<in> set ?f" for x using path [OF that] walk_owned [OF full] by blast
  have nr: "r \<notin> set ?f"
  proof
    assume "r \<in> set ?f"
    then show False using path walk_inj [OF full, of _ "[]" r] by fastforce
  qed
  have dist: "distinct ?f"
    by (rule freed_list_distinct) (use walk_inj [OF full] in auto)
  have r: "kowned s r" using vm_okD(3) [OF D(1), of Pgd] by simp
  obtain t where t: "free_entries 2 r indices s = Inr t" "released (set ?f) {} s t"
    using free_entries_released [OF vm_okD(1) [OF D(1)] r nr dist own] by auto
  have "set ?f \<subseteq> vm_pages (mem s) r - {r}" using path nr by (auto simp: vm_pages_def)
  then show ?thesis using t released_mono [OF t(2)] by (simp add: free_table_def)
qed

lemma PTE_PDE:
  assumes "P2V (PDE_ADDR e) \<in> region start" "KERNEL_BASE \<le> start"
  shows "PTE_ADDR e = PDE_ADDR e"
proof -
  have "V2P (P2V (PDE_ADDR e)) = PDE_ADDR e" by (simp add: P2V_def V2P_def)
  then have z: "take_bit 21 (PDE_ADDR e) = 0" using V2P_bits(1) [OF assms] by simp
  have b: "\<not> bit (PDE_ADDR e) n" if "n < 21" for n
    using that arg_cong [OF z, of "\<lambda>w. bit w n"] by (simp add: bit_take_bit_iff)
  have p: "bit (PDE_ADDR e) n \<longleftrightarrow> bit e n \<and> 12 \<le> n \<and> n < 48" for n
    unfolding PDE_ADDR_def PDE_mask using bit_imp_le_length [of e n] by (auto simp: bit_simps)
  have q: "bit (PTE_ADDR e) n \<longleftrightarrow> bit e n \<and> 21 \<le> n \<and> n < 48" for n
    unfolding PTE_ADDR_def PTE_mask using bit_imp_le_length [of e n] by (auto simp: bit_simps)
  show ?thesis
  proof (rule bit_word_eqI)
    show "bit (PTE_ADDR e) n = bit (PDE_ADDR e) n" for n
      using b [of n] p [of n] q [of n] by (cases "n < 21") auto
  qed
qed

lemma keeps_released: "keeps_pages P s t \<Longrightarrow> kavail t = kavail s \<Longrightarrow> released {} P s t"
  unfolding keeps_pages_def released_def by auto

lemma data_page_upd:
  assumes "vm_entry m' r = (vm_entry m r)(x := 0)"
  shows "data_page m' r = (data_page m r)(x := None)"
  unfolding data_page_def assms by auto

lemma free_page_full:
  assumes full: "vm_full r s"
  shows "\<exists>t. free_page r v s = Inr t \<and> vm_full r t \<and> tables (mem t) r = tables (mem s) r \<and>
    data_page (mem t) r = (data_page (mem s) r)(vm_index v := None) \<and>
    released (set_option (data_page (mem s) r (vm_index v))) (tables (mem s) r) s t"
proof -
  note D = vm_fullD [OF full] and O = vm_okD [OF vm_fullD(1) [OF full]]
  obtain i j k where ix: "vm_index v = (i, j, k)" by (cases "vm_index v") auto
  then have k: "k < 512" "drop_bit 21 v AND 0x1ff = of_nat k"
    using va_index_bound [of 2 v] by (auto simp: vm_index_def va_index_def)
  note look = find_pud_entry_lookup [OF D(1) ix, of 0]
  have nz: "b \<noteq> 0" if "tab (mem s) r (Pmd i j) = Some b" for b
    using region_nonzero [OF O(2) kowned_region [OF O(3) [OF that]]] .
  show ?thesis
  proof (cases "data_page (mem s) r (i, j, k)")
    case None
    have "free_page r v s = Inr s"
    proof (cases "tab (mem s) r (Pmd i j)")
      case (Some b)
      then have "entry_at (mem s) b (of_nat k) AND ENTRY_V = 0"
        using None vm_entry_at [OF Some k(1)] by (simp add: data_page_def split: if_splits)
      then show ?thesis using look Some nz k(2) by (simp add: free_page_def Let_def del: tab.simps)
    qed (use look in \<open>simp add: free_page_def del: tab.simps\<close>)
    then show ?thesis using None full ix released_refl [OF O(1)] by (auto simp: fun_upd_idem)
  next
    case (Some d)
    then obtain b where b: "tab (mem s) r (Pmd i j) = Some b"
      by (cases "tab (mem s) r (Pmd i j)") (auto simp: data_page_def vm_entry_def)
    let ?e = "entry_at (mem s) b (of_nat k)"
    have e: "?e AND ENTRY_V \<noteq> 0" "P2V (PDE_ADDR ?e) = d"
      using Some vm_entry_at [OF b k(1)] by (auto simp: data_page_def split: if_splits)
    have d: "kowned s d" "d \<notin> tables (mem s) r" using D(3,4) [OF Some] by blast+
    have "P2V (PTE_ADDR ?e) = d" using PTE_PDE [of ?e, OF _ O(2)] e(2) kowned_region [OF d(1)] by simp
    moreover obtain u where u: "kfree d s = Inr u" "released {d} {} s u" using kfree_released [OF O(1) d(1)] by blast
    ultimately have run: "free_page r v s = Inr (set_entry b (of_nat k) 0 u)"
      using look b nz k(2) e(1) by (simp add: free_page_def Let_def del: tab.simps)
    have own: "kowned u q" if "kowned s q" "q \<noteq> d" for q using released_owned [OF u(2)] that d(1) by auto
    have U: "vm_ok r u" "tab (mem u) r = tab (mem s) r" "vm_entry (mem u) r = vm_entry (mem s) r"
      by (rule vm_ok_same [OF D(1)];
          use u(2) own tables_owned [OF D(1)] d(2) released_entry [OF u(2)] in \<open>fastforce simp: released_def\<close>)+
    have bu: "tab (mem u) r (Pmd i j) = Some b" using U(2) b by simp
    define t where "t = set_entry b (of_nat k) 0 u"
    note T = set_block_vm [OF U(1) bu k(1), of 0, folded t_def]
    have tabs: "tables (mem t) r = tables (mem s) r" by (simp add: tables_def T(4) U(2))
    have ent: "vm_entry (mem t) r = (vm_entry (mem s) r)((i, j, k) := 0)" using T(2) U(3) by simp
    note dp = data_page_upd [OF ent]
    have bl: "blocks_only (mem t) r" using D(2) by (simp add: blocks_only_def ent)
    have "kowned t a \<and> a \<notin> tables (mem t) r" if "data_page (mem t) r x = Some a" for x a
    proof -
      have x: "data_page (mem s) r x = Some a" "x \<noteq> (i, j, k)" using that dp by (auto split: if_splits)
      then have "a \<noteq> d" using D(5) [OF x(1)] Some by blast
      then show ?thesis using keeps_owned [OF T(3) own] D(3,4) [OF x(1)] tabs by simp
    qed
    moreover have "x = y" if "data_page (mem t) r x = Some a" "data_page (mem t) r y = Some a" for x y a
      using that D(5) unfolding dp by (auto split: if_splits)
    ultimately have "vm_full r t" using T(1) bl unfolding vm_full_def by blast
    moreover have "released {d} (tables (mem s) r) s t"
      using released_mono [OF released_trans [OF u(2) keeps_released [OF T(3,5)]], of "{d}" "tables (mem s) r"]
        d(1) tab_tables [OF b] by auto
    ultimately show ?thesis using run tabs dp ix Some by (auto simp: t_def)
  qed
qed

lemma free_vm_released:
  assumes full: "vm_full r s"
  shows "\<exists>t. free_vm r s = Inr t \<and> released (vm_pages (mem s) r) {} s t"
proof -
  let ?V = "vm_pages (mem s) r"
  obtain t where t: "free_page r 0x400000 s = Inr t" "vm_full r t" "tables (mem t) r = tables (mem s) r"
      "data_page (mem t) r = (data_page (mem s) r)(vm_index 0x400000 := None)"
      "released (set_option (data_page (mem s) r (vm_index 0x400000))) (tables (mem s) r) s t"
    using free_page_full [OF full] by blast
  have d: "set_option (data_page (mem s) r (vm_index 0x400000)) \<subseteq> ?V" using data_pages by fastforce
  have sub: "vm_pages (mem t) r \<subseteq> ?V" unfolding vm_pages_eq t(3,4) by (auto simp: ran_def)
  obtain u where u: "free_table r 0 t = Inr u" "released (vm_pages (mem t) r - {r}) {} t u"
    using free_table_released [OF t(2)] by blast
  have "kowned t r" using vm_okD(3) [OF vm_fullD(1) [OF t(2)], of Pgd] by simp
  then have "kowned u r" using released_owned [OF u(2)] vm_pages_owned [OF t(2)] by blast
  then obtain w where w: "kfree r u = Inr w" "released {r} {} u w"
    using kfree_released [of u r] u(2) by (auto simp: released_def)
  have r: "r \<in> ?V" using tables_pages tables_root by blast
  have own: "kowned s q" if "q \<in> ?V" for q using vm_pages_owned [OF full that] .
  have "released ?V ?V s t" using released_mono [OF t(5) d tables_pages] .
  then have "released ?V ?V s u"
    using released_mono [OF released_trans [OF _ u(2) own], of ?V ?V ?V ?V] sub by auto
  then have "released ?V ?V s w"
    using released_mono [OF released_trans [OF _ w(2) own], of ?V ?V ?V ?V] r by auto
  then have "released ?V {} s w" by (simp add: released_def)
  moreover have "free_vm r s = Inr w" using t(1) u(1) w(1) by (simp add: free_vm_def)
  ultimately show ?thesis by blast
qed

end
