(* ===== verification/Buddy_Init.thy ===== *)
theory Buddy_Init
  imports Page_Allocator
begin

text \<open>
  Boot-time initialisation of the allocator: \<open>buddy_init\<close> ends, and the blocks it links into the
  free lists are aligned, disjoint, and cover every page from its start address to the end of
  memory.  \<open>init_memory\<close> therefore establishes the invariant that \<open>kalloc\<close> and \<open>kfree\<close> keep.
\<close>

section \<open>Empty lists\<close>

lemma list_init_other:
  assumes "separated S" "h \<in> S" "a \<in> S" "a \<noteq> h"
  shows "next_of (list_init m h) a = next_of m a" "prev_of (list_init m h) a = prev_of m a"
  using assms by (simp_all add: list_init_def Let_def node_upd [OF assms(1)])

lemma list_init_frame:
  assumes "\<not> in_range h 16 x"
  shows "list_init m h x = m x"
  using assms by (simp add: list_init_def Let_def set_node_outside)

lemma init_heads_dll:
  assumes "layout_ok A start" "n \<le> MAX_ORDER" "i < n"
  shows "dll (init_heads A n m) (free_list A i) []"
  using assms(2,3)
proof (induction n)
  case 0
  then show ?case by simp
next
  case (Suc n)
  show ?case
  proof (cases "i = n")
    case True
    then show ?thesis by (simp add: list_init_dll)
  next
    case False
    then have "dll (init_heads A n m) (free_list A i) []" using Suc by simp
    moreover have "free_list A i \<noteq> free_list A n" "free_list A i \<in> heads A \<union> region start"
        "free_list A n \<in> heads A \<union> region start"
      using free_list_inj [OF assms(1), of i n] False Suc.prems by (auto simp: heads_def)
    ultimately show ?thesis
      using list_init_other [OF separated_nodes [OF assms(1)], of "free_list A n" "free_list A i"]
      by (subst dll_cong [of _ _ _ "init_heads A n m"]) auto
  qed
qed

lemma init_heads_frame:
  assumes "\<And>i. i < n \<Longrightarrow> \<not> in_range (free_list A i) 16 x"
  shows "init_heads A n m x = m x"
  using assms by (induction n) (simp_all add: list_init_frame)

lemma init_heads_inv:
  assumes lay: "layout_ok A start"
  shows "free_inv A start (init_heads A MAX_ORDER (store64 m (A + 152) start)) (\<lambda>_. [])"
proof -
  let ?m = "store64 m (A + 152) start"
  have "start_addr A (init_heads A MAX_ORDER ?m) = start_addr A ?m"
    by (rule start_addr_frame [OF lay], rule init_heads_frame) (auto simp: heads_def)
  then show ?thesis
    using init_heads_dll [OF lay] lay
    by (simp add: free_inv_def lists_ok_def start_addr_def free_pages_def)
qed

section \<open>The messages fit the print buffer\<close>

lemma init_message_fits:
  "\<exists>out. format_spec init_message [Int_arg a, Int_arg b] = Some out \<and> length out \<le> 1024"
  using hex_length [of a] hex_length [of b]
  by (simp add: init_message_def conv_spec_def)

lemma printk_init_message:
  assumes "\<not> locks s Print_lock"
  shows "\<exists>n out. printk init_message [Int_arg a, Int_arg b] s = Inr (n, s\<lparr>console := console s @ out\<rparr>)"
  using init_message_fits [of a b] printk_fits [OF _ _ assms] by blast

section \<open>The fill loop\<close>

lemma init_order_Some:
  assumes "block_size 0 \<le> remaining" "cur mod block_size 0 = 0" "0 < n"
  shows "\<exists>i. init_order cur remaining n = Some i"
  using assms(3)
proof (induction n)
  case (Suc n)
  then show ?case using assms(1,2) by (cases n) auto
qed simp

lemma block_ok_init:
  assumes "i < MAX_ORDER" "cur mod block_size i = 0" "page_aligned cur" "start \<le> cur"
    and "unat cur + unat remaining \<le> unat MEMORY_END" "block_size i \<le> remaining"
  shows "block_ok start i cur" "pn (cur + block_size i) = pn cur + 2 ^ i" "page_aligned (cur + block_size i)"
    "unat (cur + block_size i) = unat cur + 2 ^ (i + 21)"
    "unat (remaining - block_size i) = unat remaining - 2 ^ (i + 21)" "2 ^ (i + 21) \<le> unat remaining"
proof -
  note bs = unat_block_size [OF assms(1)]
  show le: "2 ^ (i + 21) \<le> unat remaining" using assms(6) bs by (simp add: word_le_nat_alt)
  have bnd: "unat cur + 2 ^ (i + 21) \<le> 0xffff000030000000"
    using assms(5) le unfolding unat_MEMORY_END by linarith
  then have "unat cur + 2 ^ (i + 21) < 2 ^ 64" by simp
  then have "unat (cur + of_nat (2 ^ (i + 21))) = unat cur + 2 ^ (i + 21)"
    by (intro unat_plus_of_nat) simp
  then show u: "unat (cur + block_size i) = unat cur + 2 ^ (i + 21)"
    by (simp add: block_size_def PAGE_SHIFT_def)
  have "unat cur mod 2 ^ (i + 21) = 0"
    using assms(2) bs by (simp add: word_unat_eq_iff unat_mod)
  then have "2 ^ i dvd pn cur"
    using unat_aligned [OF assms(3)] by (simp add: power_add mod_eq_0_iff_dvd)
  then show "block_ok start i cur"
    using assms(3,4) bnd unfolding block_ok_def unat_MEMORY_END by blast
  show "pn (cur + block_size i) = pn cur + 2 ^ i" "page_aligned (cur + block_size i)"
    using assms(3) by (simp_all add: pn_def page_aligned_def u power_add)
  show "unat (remaining - block_size i) = unat remaining - 2 ^ (i + 21)"
    using assms(6) bs by (simp add: unat_diff_le)
qed

lemma buddy_fill_inv:
  assumes "free_inv (sym_allocator s) start (mem s) L" "page_aligned cur" "start \<le> cur"
    and "unat cur + unat remaining \<le> unat MEMORY_END" "2 ^ 21 dvd unat remaining"
    and "free_pages L = mset [pn start ..< pn cur]" "\<not> locks s Print_lock"
  shows "\<exists>m' c' L'. buddy_fill cur remaining s = Inr (s\<lparr>mem := m', console := c'\<rparr>) \<and>
    free_inv (sym_allocator s) start m' L' \<and>
    free_pages L' = mset [pn start ..< pn cur + unat remaining div 2 ^ 21] \<and>
    same_outside (sym_allocator s) {pn start ..< pn cur + unat remaining div 2 ^ 21} (mem s) m'"
  using assms
proof (induction cur remaining s arbitrary: L rule: buddy_fill.induct)
  case (1 cur remaining s)
  have O: "0 < MAX_ORDER" by (simp add: MAX_ORDER_def)
  note b0 = unat_block_size [OF O]
  show ?case
  proof (cases "remaining < block_size 0")
    case True
    then have "unat remaining = 0"
      using "1.prems"(5) b0 by (auto simp: word_less_nat_alt dest: nat_dvd_not_less)
    then show ?thesis
      using True "1.prems" by (intro exI [of _ "mem s"] exI [of _ "console s"] exI [of _ L])
        (simp add: buddy_fill.simps)
  next
    case False
    have "cur mod block_size 0 = 0"
      using "1.prems"(2) b0 by (simp add: page_aligned_def word_unat_eq_iff unat_mod)
    then have "\<exists>i. init_order cur remaining MAX_ORDER = Some i"
      by (rule init_order_Some [OF leI [OF False] _ O])
    then obtain i where i: "init_order cur remaining MAX_ORDER = Some i" ..
    then have f: "i < MAX_ORDER" "block_size i \<le> remaining" "cur mod block_size i = 0"
      using init_order_fits by auto
    note b = block_ok_init [OF f(1,3) "1.prems"(2,3,4) f(2)]
    let ?A = "sym_allocator s" and ?m = "list_add (mem s) (free_list (sym_allocator s) i) cur"
    define K where "K = L(i := cur # L i)"
    have le: "pn start \<le> pn cur"
      using "1.prems"(3) by (simp add: pn_def div_le_mono word_le_nat_alt)
    have "[pn start ..< pn cur + 2 ^ i] = [pn start ..< pn cur] @ [pn cur ..< pn cur + 2 ^ i]"
      using le by (rule upt_add_eq_append)
    then have pgs: "free_pages L + block_pages i cur = mset [pn start ..< pn cur + 2 ^ i]"
      using "1.prems"(6) by (simp add: block_pages_def)
    have cnt: "count (free_pages L + block_pages i cur) p \<le> 1" for p
      unfolding pgs by (simp add: distinct_count_atmost_1 [THEN iffD1, rule_format] del: mset_upt)
    have inv: "free_inv ?A start ?m K"
      unfolding K_def
      by (rule free_inv_add [OF "1.prems"(1) f(1) b(1) cnt])
    obtain n out where pr: "printk init_message [Int_arg cur, Int_arg (of_nat i)] (s\<lparr>mem := ?m\<rparr>) =
        Inr (n, s\<lparr>mem := ?m, console := console s @ out\<rparr>)"
      using printk_init_message [of "s\<lparr>mem := ?m\<rparr>" cur "of_nat i"] "1.prems"(7) by auto
    have dv: "2 ^ 21 dvd unat (remaining - block_size i)"
      using "1.prems"(5) unfolding b(5) by (simp add: power_add dvd_diff_nat)
    let ?upto = "pn (cur + block_size i) + unat (remaining - block_size i) div 2 ^ 21"
    have "\<exists>m' c' L'. buddy_fill (cur + block_size i) (remaining - block_size i)
          (s\<lparr>mem := ?m, console := console s @ out\<rparr>) = Inr (s\<lparr>mem := m', console := c'\<rparr>) \<and>
        free_inv ?A start m' L' \<and> free_pages L' = mset [pn start ..< ?upto] \<and>
        same_outside ?A {pn start ..< ?upto} ?m m'"
      using "1.IH" [OF False i, of "(n, s\<lparr>mem := ?m, console := console s @ out\<rparr>)" n "s\<lparr>mem := ?m, console := console s @ out\<rparr>" K]
        inv b "1.prems" dv pgs free_pages_add [OF f(1), of L cur, folded K_def] pr
      by (simp add: word_le_nat_alt add.commute)
    then obtain m' c' L' where ih: "buddy_fill (cur + block_size i) (remaining - block_size i)
          (s\<lparr>mem := ?m, console := console s @ out\<rparr>) = Inr (s\<lparr>mem := m', console := c'\<rparr>)"
        "free_inv ?A start m' L'" "free_pages L' = mset [pn start ..< ?upto]" "same_outside ?A {pn start ..< ?upto} ?m m'"
      by blast
    have e: "?upto = pn cur + unat remaining div 2 ^ 21"
    proof -
      have "unat remaining = 2 ^ i * 2 ^ 21 + (unat remaining - 2 ^ (i + 21))"
        using b(6) by (simp add: power_add)
      then have "unat remaining div 2 ^ 21 = 2 ^ i + (unat remaining - 2 ^ (i + 21)) div 2 ^ 21"
        by (metis div_mult_self3 power_eq_0_iff zero_neq_numeral)
      then show ?thesis using b(2,5) by simp
    qed
    have "same_outside ?A {pn start ..< ?upto} (mem s) ?m"
      by (rule list_add_same [OF "1.prems"(1) f(1) block_ok_region [OF b(1)]]) (use "1.prems"(6) le b(2) in auto)
    from same_outside_trans [OF this ih(4) subset_refl subset_refl] show ?thesis
      using False i pr ih(1-3) unfolding e
      by (intro exI [of _ m'] exI [of _ c'] exI [of _ L']) (simp add: buddy_fill.simps [of cur remaining s])
  qed
qed

section \<open>The whole initialisation\<close>

lemma PA_UP_spec:
  assumes "v \<le> MEMORY_END"
  shows "page_aligned (PA_UP v)" "v \<le> PA_UP v" "PA_UP v \<le> MEMORY_END" "unat (PA_UP v) < unat v + 2 ^ 21"
proof -
  define n where "n = unat v"
  have n: "n \<le> 0xffff000030000000"
    using assms unfolding n_def word_le_nat_alt unat_MEMORY_END .
  have e: "v + PAGE_SIZE - 1 = v + of_nat 2097151" by (simp add: PAGE_SIZE_def)
  have "unat (v + of_nat 2097151) = n + 2097151"
    unfolding n_def by (rule unat_plus_of_nat) (use n in \<open>simp add: n_def\<close>)
  then have "unat (drop_bit 21 (v + PAGE_SIZE - 1)) = (n + 2097151) div 2 ^ 21"
    unfolding e by (simp add: drop_bit_eq_div unat_div)
  moreover have b: "(n + 2097151) div 2 ^ 21 * 2 ^ 21 \<le> 0xffff000030000000"
    using div_le_mono [of "n + 2097151" "0xffff000030000000 + 2097151" "2 ^ 21"] n by simp
  ultimately have u: "unat (PA_UP v) = (n + 2097151) div 2 ^ 21 * 2 ^ 21"
    unfolding PA_UP_def PAGE_SHIFT_def
    by (simp add: push_bit_eq_mult unat_word_ariths mult.commute)
  show "page_aligned (PA_UP v)" by (simp add: page_aligned_def u)
  have "(n + 2097151) mod 2 ^ 21 < 2 ^ 21" by simp
  then have d: "n \<le> (n + 2097151) div 2 ^ 21 * 2 ^ 21" "(n + 2097151) div 2 ^ 21 * 2 ^ 21 < n + 2 ^ 21"
    using div_mult_mod_eq [of "n + 2097151" "2 ^ 21"] by simp_all
  show "v \<le> PA_UP v" "unat (PA_UP v) < unat v + 2 ^ 21"
    unfolding word_le_nat_alt u n_def [symmetric] by (rule d)+
  show "PA_UP v \<le> MEMORY_END" unfolding word_le_nat_alt unat_MEMORY_END u by (rule b)
qed

lemma buddy_init_inv:
  assumes lay: "layout_ok (sym_allocator s) start" and "start \<le> MEMORY_END" "\<not> locks s Print_lock"
  shows "\<exists>m' c' L. buddy_init start (MEMORY_END - start) s = Inr (s\<lparr>mem := m', console := c'\<rparr>) \<and>
    free_inv (sym_allocator s) start m' L \<and> free_pages L = mset [pn start ..< pn MEMORY_END] \<and>
    same_outside (sym_allocator s) {pn start ..< pn MEMORY_END} (mem s) m'"
proof -
  define t where "t = s\<lparr>mem := init_heads (sym_allocator s) MAX_ORDER (store64 (mem s) (sym_allocator s + 152) start)\<rparr>"
  have u: "unat start + unat (MEMORY_END - start) = unat MEMORY_END"
    using assms(2) by (simp add: unat_diff_le word_le_nat_alt del: unat_MEMORY_END)
  have al: "page_aligned start" using lay by (simp add: layout_ok_def)
  have m: "unat MEMORY_END = pn MEMORY_END * 2 ^ 21" by (simp add: pn_def)
  have r: "unat (MEMORY_END - start) = (pn MEMORY_END - pn start) * 2 ^ 21"
    using u m unat_aligned [OF al] by (simp add: diff_mult_distrib del: unat_MEMORY_END)
  have le: "pn start \<le> pn MEMORY_END"
    using assms(2) unfolding pn_def word_le_nat_alt by (rule div_le_mono)
  have "\<exists>m' c' L'. buddy_fill start (MEMORY_END - start) t = Inr (t\<lparr>mem := m', console := c'\<rparr>) \<and>
      free_inv (sym_allocator t) start m' L' \<and>
      free_pages L' = mset [pn start ..< pn start + unat (MEMORY_END - start) div 2 ^ 21] \<and>
      same_outside (sym_allocator t) {pn start ..< pn start + unat (MEMORY_END - start) div 2 ^ 21} (mem t) m'"
  proof (rule buddy_fill_inv)
    show "free_inv (sym_allocator t) start (mem t) (\<lambda>_. [])"
      using init_heads_inv [OF lay] by (simp add: t_def)
    show "unat start + unat (MEMORY_END - start) \<le> unat MEMORY_END" using u by (rule eq_refl)
    show "2 ^ 21 dvd unat (MEMORY_END - start)" unfolding r by (rule dvd_triv_right)
  qed (use al assms(3) in \<open>simp_all add: t_def free_pages_def\<close>)
  moreover have "pn start + unat (MEMORY_END - start) div 2 ^ 21 = pn MEMORY_END"
    unfolding r using le by simp
  moreover have "mem t x = mem s x" if x: "\<not> in_range (sym_allocator s) 160 x" for x
  proof -
    have "\<not> in_range (sym_allocator s + of_nat 152) 8 x" using in_range_split [of "sym_allocator s" 152 8 x 160] x by auto
    moreover have "mem t x = store64 (mem s) (sym_allocator s + 152) start x"
      unfolding t_def by (simp, rule init_heads_frame) (use head_in_object [OF lay] x in blast)
    ultimately show ?thesis by (simp add: store64_outside)
  qed
  ultimately show ?thesis by (simp add: buddy_init_def Let_def t_def same_outside_def)
qed

lemma init_message2_fits:
  assumes "\<not> locks s Print_lock"
  shows "\<exists>n out. printk (''Buddy Allocator initialized from 0x%x to 0x%x'' @ [CHR 0x0A])
    [Int_arg a, Int_arg b] s = Inr (n, s\<lparr>console := console s @ out\<rparr>)"
proof -
  have "\<exists>out. format_spec (''Buddy Allocator initialized from 0x%x to 0x%x'' @ [CHR 0x0A])
      [Int_arg a, Int_arg b] = Some out \<and> length out \<le> 1024"
    using hex_length [of a] hex_length [of b] by (simp add: conv_spec_def)
  then show ?thesis using printk_fits [OF _ _ assms] by blast
qed

lemma init_memory_inv:
  assumes "unat (sym_allocator s) + 160 \<le> unat (sym_end s)" "sym_end s \<le> MEMORY_END"
    and "\<not> locks s Print_lock" "\<not> locks s Allocator_lock"
  shows "\<exists>m' c' L. init_memory s = Inr (s\<lparr>mem := m', console := c'\<rparr>) \<and>
    kmem_inv (s\<lparr>mem := m', console := c'\<rparr>) L \<and>
    start_addr (sym_allocator s) m' = PA_UP (sym_end s) \<and>
    free_pages L = mset [pn (PA_UP (sym_end s)) ..< pn MEMORY_END] \<and>
    same_outside (sym_allocator s) {pn (PA_UP (sym_end s)) ..< pn MEMORY_END} (mem s) m'"
proof -
  let ?p = "PA_UP (sym_end s)"
  note up = PA_UP_spec [OF assms(2)]
  have lay: "layout_ok (sym_allocator s) ?p"
    using assms(1) up(1,2) by (simp add: layout_ok_def word_le_nat_alt)
  obtain n out where pr: "printk (''Buddy Allocator initialized from 0x%x to 0x%x'' @ [CHR 0x0A])
      [Int_arg ?p, Int_arg MEMORY_END] s = Inr (n, s\<lparr>console := console s @ out\<rparr>)"
    using init_message2_fits [OF assms(3)] by blast
  let ?s = "s\<lparr>console := console s @ out\<rparr>"
  obtain m' c' L where b: "buddy_init ?p (MEMORY_END - ?p) ?s = Inr (?s\<lparr>mem := m', console := c'\<rparr>)"
      "free_inv (sym_allocator s) ?p m' L" "free_pages L = mset [pn ?p ..< pn MEMORY_END]"
      "same_outside (sym_allocator s) {pn ?p ..< pn MEMORY_END} (mem s) m'"
    using buddy_init_inv [of ?s ?p] lay up(3) assms(3) by auto
  then show ?thesis
    using pr up(2) assms(4) free_inv_start [OF b(2)] b(4)
    by (intro exI [of _ m'] exI [of _ c'] exI [of _ L]) (simp add: init_memory_def kmem_inv_def)
qed

lemma buddy_init_unaligned:
  assumes "\<not> page_aligned start" "PAGE_SIZE \<le> n"
  shows "buddy_init start n s = Inl Diverge"
proof -
  have "init_order start n k = None" if "k \<le> MAX_ORDER" for k
    using that
  proof (induction k)
    case (Suc k)
    have "start mod block_size k \<noteq> 0"
    proof
      assume "start mod block_size k = 0"
      then have "2 ^ (k + 21) dvd unat start"
        using unat_block_size [of k] Suc.prems by (simp add: word_unat_eq_iff unat_mod mod_eq_0_iff_dvd)
      then have "2 ^ 21 dvd unat start" by (rule dvd_trans [rotated]) (simp add: power_add)
      then show False using assms(1) by (simp add: page_aligned_def mod_eq_0_iff_dvd)
    qed
    then show ?case using Suc by simp
  qed simp
  moreover have "\<not> n < block_size 0"
    using assms(2) by (simp add: block_size_def PAGE_SHIFT_def PAGE_SIZE_def not_less)
  ultimately show ?thesis by (simp add: buddy_init_def Let_def buddy_fill.simps)
qed

section \<open>Properties\<close>

text \<open>
  A machine about to run \<open>init_memory\<close>, and the one \<open>init_memory\<close> leaves: the kernel image ends
  640 KiB above its base, so the first page handed out is number 1 of the kernel window.
\<close>

definition boot_kernel :: kernel where
  "boot_kernel = \<lparr>mem = \<lambda>_. 0, console = '''', locks = \<lambda>_. False,
     sym_end = 0xffff0000000a0000, sym_allocator = 0xffff000000098000\<rparr>"

definition booted_kernel :: kernel where
  "booted_kernel = projr (init_memory boot_kernel)"

lemma boot_kernel_ok:
  "unat (sym_allocator boot_kernel) + 160 \<le> unat (sym_end boot_kernel)"
  "sym_end boot_kernel \<le> MEMORY_END" "\<not> locks boot_kernel l"
  by (simp_all add: boot_kernel_def MEMORY_END_def P2V_def KERNEL_BASE_def)

lemma PA_UP_boot: "PA_UP (sym_end boot_kernel) = 0xffff000000200000"
  by (simp add: PA_UP_def boot_kernel_def PAGE_SHIFT_def PAGE_SIZE_def push_bit_eq_mult drop_bit_eq_div)

lemma pn_boot: "pn 0xffff000000200000 = 0x7fff8000001" "pn MEMORY_END = 0x7fff8000180"
  by (simp_all add: pn_def)

lemma booted_kernel_inv:
  "\<exists>L. kmem_inv booted_kernel L \<and> start_of booted_kernel = 0xffff000000200000 \<and>
    \<not> locks booted_kernel Print_lock \<and>
    set_mset (free_pages L) = {0x7fff8000001 ..< 0x7fff8000180}"
proof -
  obtain m' c' L where b: "init_memory boot_kernel = Inr (boot_kernel\<lparr>mem := m', console := c'\<rparr>)"
      "kmem_inv (boot_kernel\<lparr>mem := m', console := c'\<rparr>) L"
      "start_addr (sym_allocator boot_kernel) m' = 0xffff000000200000"
      "free_pages L = mset [0x7fff8000001 ..< 0x7fff8000180]"
    using init_memory_inv [OF boot_kernel_ok(1,2,3,3)] unfolding PA_UP_boot pn_boot by blast
  then have k: "booted_kernel = boot_kernel\<lparr>mem := m', console := c'\<rparr>" by (simp add: booted_kernel_def)
  have "set_mset (free_pages L) = {0x7fff8000001 ..< 0x7fff8000180}"
    unfolding b(4) by (simp only: set_mset_mset set_upt)
  then show ?thesis unfolding k using b(2,3) boot_kernel_ok(3) by (intro exI [of _ L]) simp
qed

lemma booted_kernel_alloc:
  "kalloc_inv booted_kernel" "start_of booted_kernel = 0xffff000000200000"
  "\<not> locks booted_kernel Print_lock" "kavail booted_kernel = {0x7fff8000001 ..< 0x7fff8000180}"
proof -
  obtain L where L: "kmem_inv booted_kernel L" "start_of booted_kernel = 0xffff000000200000"
      "\<not> locks booted_kernel Print_lock" "set_mset (free_pages L) = {0x7fff8000001 ..< 0x7fff8000180}"
    using booted_kernel_inv by blast
  show "start_of booted_kernel = 0xffff000000200000" "\<not> locks booted_kernel Print_lock" by fact+
  show "kalloc_inv booted_kernel" using L(1,2) pn_boot(1) by (auto simp: kalloc_inv_def)
  show "kavail booted_kernel = {0x7fff8000001 ..< 0x7fff8000180}" using kavail_eq [OF L(1)] L(4) by simp
qed

text \<open>
  C22: initialisation.  When the allocator object lies in the kernel image and the image ends below
  the end of memory, \<open>init_memory\<close> returns (its loops end), the free lists it builds are well
  formed, the free blocks hold every page from the first page boundary after the image to the end of
  memory, each exactly once, and no byte outside the allocator object and these pages changes.
\<close>

theorem init_memory_correct:
  assumes "unat (sym_allocator s) + 160 \<le> unat (sym_end s)" "sym_end s \<le> MEMORY_END"
    and "\<not> locks s Print_lock" "\<not> locks s Allocator_lock"
  shows "\<exists>m' c' L. init_memory s = Inr (s\<lparr>mem := m', console := c'\<rparr>) \<and>
    kmem_inv (s\<lparr>mem := m', console := c'\<rparr>) L \<and>
    start_addr (sym_allocator s) m' = PA_UP (sym_end s) \<and>
    free_pages L = mset [pn (PA_UP (sym_end s)) ..< pn MEMORY_END] \<and>
    same_outside (sym_allocator s) {pn (PA_UP (sym_end s)) ..< pn MEMORY_END} (mem s) m'"
  using assms by (rule init_memory_inv)

theorem init_memory_correct_witness:
  "\<exists>m' c' L. init_memory boot_kernel = Inr (boot_kernel\<lparr>mem := m', console := c'\<rparr>) \<and>
    kmem_inv (boot_kernel\<lparr>mem := m', console := c'\<rparr>) L \<and>
    free_pages L = mset [0x7fff8000001 ..< 0x7fff8000180]"
  using init_memory_correct [OF boot_kernel_ok(1,2,3,3)] unfolding PA_UP_boot pn_boot by blast

text \<open>
  C6: allocation.  \<open>kalloc\<close> returns NULL and changes nothing when no page is free.  Otherwise it
  returns the address of a page that was free, filled with zeros, removes exactly that page from
  the free pages, keeps the free lists well formed, and changes no byte outside the allocator object
  and the pages that were free.
\<close>

theorem kalloc_correct:
  assumes "kmem_inv s L"
  shows "if free_pages L = {#} then kalloc s = Inr (0, s)
    else \<exists>a m' L'. kalloc s = Inr (a, s\<lparr>mem := m'\<rparr>) \<and> kmem_inv (s\<lparr>mem := m'\<rparr>) L' \<and>
      start_addr (sym_allocator s) m' = start_of s \<and> a \<in> region (start_of s) \<and> a \<noteq> 0 \<and>
      free_pages L = add_mset (pn a) (free_pages L') \<and>
      (\<forall>x. in_range a (2 ^ 21) x \<longrightarrow> m' x = 0) \<and>
      same_outside (sym_allocator s) (set_mset (free_pages L)) (mem s) m'"
  using assms by (rule kalloc_spec)

theorem kalloc_correct_witness:
  "\<exists>a t. kalloc booted_kernel = Inr (a, t) \<and> pn a \<in> {0x7fff8000001 ..< 0x7fff8000180} \<and>
    (\<forall>x. in_range a (2 ^ 21) x \<longrightarrow> mem t x = 0)"
proof -
  obtain L where L: "kmem_inv booted_kernel L" "set_mset (free_pages L) = {0x7fff8000001 ..< 0x7fff8000180}"
    using booted_kernel_inv by blast
  then have "0x7fff8000001 \<in># free_pages L" by simp
  then have "free_pages L \<noteq> {#}" by auto
  then obtain a m' L' where a: "kalloc booted_kernel = Inr (a, booted_kernel\<lparr>mem := m'\<rparr>)"
      "free_pages L = add_mset (pn a) (free_pages L')" "\<forall>x. in_range a (2 ^ 21) x \<longrightarrow> m' x = 0"
    using kalloc_correct [OF L(1)] by auto
  then have "pn a \<in># free_pages L" by simp
  then show ?thesis
    using a(1,3) L(2) by (intro exI [of _ a] exI [of _ "booted_kernel\<lparr>mem := m'\<rparr>"]) simp
qed

text \<open>
  C2: no page is handed out twice.  From a state where the allocator invariant holds, every
  sequence of allocations and frees of held pages runs without error, and the pages held at the end
  are distinct pages of the managed region, none of which the allocator still counts as free.
  (The first managed page has an odd number, as it has for an image of less than 2 MiB.)
\<close>

theorem no_double_allocation:
  assumes "kalloc_inv s"
  shows "\<exists>t held n. client_run kalloc kfree ops (s, [], 0) = Inr (t, held, n) \<and> kalloc_inv t \<and>
    distinct held \<and> (\<forall>p \<in> set held. p \<in> region (start_of t) \<and> pn p \<notin> kavail t)"
  using kpages.client_safe [of s "[]" ops 0] assms by (auto simp: kpages.holds_def)

theorem no_double_allocation_witness:
  "\<exists>t held n. client_run kalloc kfree [Alloc, Alloc, Free 0, Alloc] (booted_kernel, [], 0) = Inr (t, held, n) \<and>
    distinct held"
  using no_double_allocation [OF booted_kernel_alloc(1)] by blast

text \<open>
  C23: frees give nothing back.  Over every sequence of allocations and frees, the number of pages
  handed out so far plus the number still free is constant: \<open>kfree\<close> never makes the allocator
  richer, so a kernel that keeps allocating and freeing runs out of memory.
\<close>

theorem kfree_leaks:
  assumes "kalloc_inv s" "client_run kalloc kfree ops (s, [], 0) = Inr (t, held, n)"
  shows "n + card (kavail t) = card (kavail s)"
  using kpages.client_budget [of s "[]" ops 0 t held n] assms by (simp add: kpages.holds_def)

theorem kfree_leaks_witness:
  "\<exists>t held n. client_run kalloc kfree [Alloc, Free 0] (booted_kernel, [], 0) = Inr (t, held, n) \<and>
    n + card (kavail t) = 383"
proof -
  have "kpages.holds booted_kernel []" using booted_kernel_alloc(1) by (simp add: kpages.holds_def)
  then obtain t held n where r: "client_run kalloc kfree [Alloc, Free 0] (booted_kernel, [], 0) = Inr (t, held, n)"
    using kpages.client_safe by blast
  then show ?thesis using kfree_leaks [OF booted_kernel_alloc(1) r] booted_kernel_alloc(4) by simp
qed

text \<open>
  \<open>kfree\<close> of a managed page that is not free returns, keeps the free lists well formed, changes
  no byte outside the allocator object, the free pages and the page itself, and leaves the number of
  free pages as it was; the free set can only trade one page for the freed one.
\<close>

theorem kfree_correct:
  assumes "kmem_inv s L" "odd (pn (start_of s))" "v \<in> region (start_of s)" "pn v \<notin># free_pages L"
  shows "\<exists>m' L'. kfree v s = Inr (s\<lparr>mem := m'\<rparr>) \<and> kmem_inv (s\<lparr>mem := m'\<rparr>) L' \<and>
    start_addr (sym_allocator s) m' = start_of s \<and>
    size (free_pages L') = size (free_pages L) \<and>
    set_mset (free_pages L') \<subseteq> insert (pn v) (set_mset (free_pages L)) \<and>
    same_outside (sym_allocator s) (insert (pn v) (set_mset (free_pages L))) (mem s) m'"
  using assms by (rule kfree_spec)

theorem kfree_correct_witness:
  "\<exists>a t u. kalloc booted_kernel = Inr (a, t) \<and> kfree a t = Inr u \<and> kavail u \<subseteq> insert (pn a) (kavail t)"
proof -
  obtain L where L: "kmem_inv booted_kernel L" "set_mset (free_pages L) = {0x7fff8000001 ..< 0x7fff8000180}"
    using booted_kernel_inv by blast
  then have "0x7fff8000001 \<in># free_pages L" by simp
  then have "free_pages L \<noteq> {#}" by auto
  then obtain a m' L' where a: "kalloc booted_kernel = Inr (a, booted_kernel\<lparr>mem := m'\<rparr>)"
      "kmem_inv (booted_kernel\<lparr>mem := m'\<rparr>) L'" "a \<in> region (start_of booted_kernel)"
      "start_addr (sym_allocator booted_kernel) m' = start_of booted_kernel"
      "free_pages L = add_mset (pn a) (free_pages L')"
    using kalloc_spec [OF L(1)] by auto
  let ?t = "booted_kernel\<lparr>mem := m'\<rparr>"
  have "count (free_pages L) (pn a) \<le> 1" using L(1) by (simp add: kmem_inv_def free_inv_def)
  then have "pn a \<notin># free_pages L'" using a(5) by (simp add: not_in_iff)
  then obtain m'' L'' where f: "kfree a ?t = Inr (?t\<lparr>mem := m''\<rparr>)" "kmem_inv (?t\<lparr>mem := m''\<rparr>) L''"
      "set_mset (free_pages L'') \<subseteq> insert (pn a) (set_mset (free_pages L'))"
    using kfree_correct [OF a(2), of a] a(3,4) booted_kernel_alloc(2) pn_boot(1) by auto
  then show ?thesis using a(1) kavail_eq [OF a(2)] kavail_eq [OF f(2)] by blast
qed

text \<open>
  \<open>buddy_init\<close> never returns when its start address is not page aligned and at least a page is
  given to it: no order fits the address and the outer loop makes no progress.
\<close>

theorem buddy_init_diverges:
  assumes "\<not> page_aligned start" "PAGE_SIZE \<le> n"
  shows "buddy_init start n s = Inl Diverge"
  using assms by (rule buddy_init_unaligned)

theorem buddy_init_diverges_witness:
  "buddy_init 0xffff0000000a0000 0x400000 boot_kernel = Inl Diverge"
  by (rule buddy_init_diverges) (simp_all add: page_aligned_def PAGE_SIZE_def)

end
