(* ===== verification/Vm_Copy.thy ===== *)
theory Vm_Copy
  imports Vm_Release Buddy_Init
begin

text \<open>
  Building address spaces: \<open>map_page\<close> of a page the kernel holds keeps an address space well formed
  and makes the page visible at the mapped addresses and nowhere else; \<open>copy_uvm\<close> gives the new
  address space a page of its own with the bytes of the old one.  The properties of the
  page-table code stand at the end.
\<close>

section \<open>Mapping a page that is held\<close>

lemma vm_full_keeps:
  assumes full: "vm_full r s" and st: "keeps_pages P s t" and dis: "P \<inter> tables (mem s) r = {}"
  shows "vm_full r t" "tables (mem t) r = tables (mem s) r" "data_page (mem t) r = data_page (mem s) r"
proof -
  note K = vm_ok_keeps [OF vm_fullD(1) [OF full] st dis]
  show tb: "tables (mem t) r = tables (mem s) r" by (simp add: tables_def K(2))
  show dp: "data_page (mem t) r = data_page (mem s) r" by (simp add: data_page_def K(3) fun_eq_iff)
  show "vm_full r t"
    using full K(1,3) keeps_owned [OF st] unfolding vm_full_def tb dp blocks_only_def by auto
qed

lemma map_page_full:
  assumes full: "vm_full r s" and d: "kowned s d" "d \<notin> vm_pages (mem s) r" and attr: "attr_ok attr"
    and v: "PA_DOWN v + PAGE_SIZE < MEMORY_END" and free: "data_page (mem s) r (vm_index v) = None"
  shows "\<exists>b t. map_page r v (V2P d) attr s = Inr (b, t) \<and> vm_full r t \<and>
    keeps_pages (tables (mem s) r) s t \<and>
    (\<forall>q \<in> tables (mem t) r. kowned s q \<longrightarrow> q \<in> tables (mem s) r) \<and> (b \<or> card (kavail s) \<le> 1) \<and>
    data_page (mem t) r = (if b then (data_page (mem s) r)(vm_index v \<mapsto> d) else data_page (mem s) r) \<and>
    (b \<longrightarrow> vm_entry (mem t) r (vm_index v) = V2P d OR attr) \<and>
    (b \<longrightarrow> card (kavail s) \<le> card (kavail t) + 2)"
proof -
  note D = vm_fullD [OF full] and O = vm_okD [OF vm_fullD(1) [OF full]]
  note bits = V2P_bits [OF kowned_region [OF d(1)] O(2)]
  have fr: "vm_entry (mem s) r (vm_index v) AND ENTRY_V = 0"
    using free by (simp add: data_page_def split: if_splits)
  obtain b t where t: "map_page r v (V2P d) attr s = Inr (b, t)" "vm_ok r t" "keeps_pages (tables (mem s) r) s t"
      "\<forall>q \<in> tables (mem t) r. kowned s q \<longrightarrow> q \<in> tables (mem s) r"
      "vm_entry (mem t) r = (if b then (vm_entry (mem s) r)(vm_index v := V2P d OR attr) else vm_entry (mem s) r)"
      "b \<or> card (kavail s) \<le> 1" "b \<longrightarrow> card (kavail s) \<le> card (kavail t) + 2"
    using map_page_spec [OF D(1) attr v bits(4,5) fr] by blast
  have e: "(V2P d OR attr) AND 3 = 1" "P2V (PDE_ADDR (V2P d OR attr)) = d"
    using block_descriptor(1) [OF bits(1,2) attr] PDE_or(1) [OF bits(1,2), of attr] attr bits(3)
    by (simp_all add: attr_ok_def)
  then have ev: "(V2P d OR attr) AND ENTRY_V \<noteq> 0" using typed_valid by blast
  have dp: "data_page (mem t) r = (if b then (data_page (mem s) r)(vm_index v \<mapsto> d) else data_page (mem s) r)"
    unfolding data_page_def t(5) using e(2) ev by auto
  have "(V2P d OR attr) AND ENTRY_ACCESSED \<noteq> 0"
    using aligned_or(2) [OF bits(1), of attr] attr by (simp add: attr_ok_def)
  then have bl: "blocks_only (mem t) r" using D(2) e(1) by (auto simp: blocks_only_def t(5))
  have nd: "data_page (mem s) r x \<noteq> Some d" for x using d(2) data_pages by blast
  have "kowned t a \<and> a \<notin> tables (mem t) r" if "data_page (mem t) r x = Some a" for x a
  proof -
    have "kowned s a \<and> a \<notin> tables (mem s) r"
      using that d D(3,4) tables_pages [of "mem s" r] unfolding dp by (auto split: if_splits)
    then show ?thesis using keeps_owned [OF t(3)] t(4) by blast
  qed
  moreover have "x = y" if "data_page (mem t) r x = Some a" "data_page (mem t) r y = Some a" for x y a
    using that D(5) nd unfolding dp by (auto split: if_splits)
  ultimately have "vm_full r t" using t(2) bl unfolding vm_full_def by blast
  then show ?thesis using t dp by auto
qed

text \<open>The translation of a mapped page.\<close>

lemma mmu_walk_data:
  assumes full: "vm_full r s" and d: "data_page (mem s) r (vm_index u) = Some d"
  shows "mmu_walk (mem s) (V2P r) u = Some (V2P d OR (u AND mask 21))"
proof -
  note D = vm_fullD [OF full]
  let ?e = "vm_entry (mem s) r (vm_index u)"
  have e: "?e AND ENTRY_V \<noteq> 0" "P2V (PDE_ADDR ?e) = d"
    using d by (auto simp: data_page_def split: if_splits)
  then have "PDE_ADDR ?e = V2P d" by (auto simp: P2V_def V2P_def)
  moreover have "V2P d AND NOT (mask 21) = V2P d"
    using V2P_bits(1) [OF kowned_region [OF D(3) [OF d]] vm_okD(2) [OF D(1)]]
    by (rule aligned_and_not_mask)
  ultimately have "(?e AND 0xfffffffff000) AND NOT (mask 21) = V2P d" by (simp only: PDE_ADDR_def)
  moreover have ty: "?e AND 3 = 1" "?e AND ENTRY_ACCESSED \<noteq> 0"
    using D(2) e(1) unfolding blocks_only_def by blast+
  ultimately have "block_output 21 ?e u = Some (V2P d OR (u AND mask 21))"
    by (simp only: block_output_def and.assoc) simp
  then show ?thesis using mmu_walk_vm [OF D(1,2), of u] ty(1) by (simp add: Let_def)
qed

lemma mmu_walk_none:
  assumes full: "vm_full r s" and d: "data_page (mem s) r (vm_index u) = None"
  shows "mmu_walk (mem s) (V2P r) u = None"
proof -
  note D = vm_fullD [OF full]
  have "vm_entry (mem s) r (vm_index u) AND ENTRY_V = 0" using d by (simp add: data_page_def split: if_splits)
  then show ?thesis using mmu_walk_vm [OF D(1,2), of u] not_typed by (simp add: Let_def)
qed

lemma mmu_walk_eq:
  assumes "vm_full r s" "vm_full r t" "data_page (mem t) r (vm_index u) = data_page (mem s) r (vm_index u)"
  shows "mmu_walk (mem t) (V2P r) u = mmu_walk (mem s) (V2P r) u"
proof (cases "data_page (mem s) r (vm_index u)")
  case None
  then show ?thesis using assms mmu_walk_none by metis
next
  case (Some d)
  then show ?thesis using assms(3) mmu_walk_data [OF assms(1)] mmu_walk_data [OF assms(2)] by simp
qed

section \<open>Copying\<close>

lemma memcpy_page_frame:
  assumes "p \<in> region start" "d \<in> region start" "n \<le> 2 ^ 21"
  shows "memcpy m p d n x = (if in_range p n x then m (d + (x - p)) else m x)"
  using region_bound(1) [OF assms(1)] region_bound(1) [OF assms(2)] assms(3)
  by (intro memcpy_apply) simp_all

lemma copy_uvm_full:
  assumes dst: "vm_full dst s" and src: "vm_full src s"
    and d: "data_page (mem s) src (vm_index 0x400000) = Some d"
    and free: "data_page (mem s) dst (vm_index 0x400000) = None" and n: "n \<le> 2 ^ 21"
  shows "\<exists>b t. copy_uvm dst src n s = Inr (b, t) \<and> vm_full dst t \<and> keeps_pages (tables (mem s) dst) s t \<and>
    (\<forall>q \<in> tables (mem t) dst. kowned s q \<longrightarrow> q \<in> tables (mem s) dst) \<and> (b \<or> card (kavail s) \<le> 2) \<and>
    (b \<longrightarrow> (\<exists>p. \<not> kowned s p \<and> kowned t p \<and>
      data_page (mem t) dst = (data_page (mem s) dst)(vm_index 0x400000 \<mapsto> p) \<and>
      vm_entry (mem t) dst (vm_index 0x400000) = V2P p OR user_attribute \<and>
      (\<forall>x. in_range p (2 ^ 21) x \<longrightarrow>
        mem t x = (if in_range p n x then mem s (d + (x - p)) else 0))))"
proof -
  note O = vm_okD [OF vm_fullD(1) [OF src]]
  have dk: "kowned s d" using vm_fullD(3) [OF src d] .
  show ?thesis
  proof (cases rule: kalloc_keeps [OF O(1)])
    case 1
    then have "copy_uvm dst src n s = Inr (False, s)" by (simp add: copy_uvm_def)
    then show ?thesis using dst keeps_refl [OF O(1)] 1(2) by (intro exI [of _ False] exI [of _ s]) simp
  next
    case (2 p u)
    have su: "start_of u = start_of s" "kalloc_inv u" using 2(3) by (simp_all add: keeps_pages_def)
    have S: "vm_full src u" "data_page (mem u) src = data_page (mem s) src"
      and T: "vm_full dst u" "tables (mem u) dst = tables (mem s) dst" "data_page (mem u) dst = data_page (mem s) dst"
      using vm_full_keeps [OF src 2(3)] vm_full_keeps [OF dst 2(3)] by simp_all
    obtain i j k where ix: "vm_index 0x400000 = (i, j, k)" by (cases "vm_index 0x400000") auto
    then have k: "k < 512" "drop_bit 21 (0x400000 :: u64) AND 0x1ff = of_nat k"
      using va_index_bound [of 2 "0x400000"] unfolding vm_index_def va_index_def by auto
    have du: "data_page (mem u) src (i, j, k) = Some d" using d S(2) ix by simp
    then obtain b where b: "tab (mem u) src (Pmd i j) = Some b"
      by (cases "tab (mem u) src (Pmd i j)") (auto simp: data_page_def vm_entry_def)
    note U = vm_okD [OF vm_fullD(1) [OF S(1)]]
    have bz: "b \<noteq> 0" using region_nonzero [OF U(2) kowned_region [OF U(3) [OF b]]] .
    let ?e = "entry_at (mem u) b (of_nat k)"
    have "P2V (PDE_ADDR ?e) = d"
      using du vm_entry_at [OF b k(1)] by (auto simp: data_page_def split: if_splits)
    then have pte: "P2V (PTE_ADDR ?e) = d"
      using PTE_PDE [of ?e, OF _ U(2)] kowned_region [OF vm_fullD(3) [OF S(1) du]] by simp
    define m where "m = memcpy (mem u) p d n"
    define w where "w = u\<lparr>mem := m\<rparr>"
    have cp: "m x = (if in_range p n x then mem u (d + (x - p)) else mem u x)" for x
      unfolding m_def using memcpy_page_frame [OF kowned_region [OF 2(5)] _ n] kowned_region [OF dk] su(1) by simp
    have "m x = mem u x" if "\<not> in_range p (2 ^ 21) x" for x
      using cp [of x] that n by (simp add: in_range_def)
    note W = write_keeps [OF su(2) 2(5) this, folded w_def]
    have np: "p \<notin> vm_pages (mem u) dst" "{p} \<inter> tables (mem u) dst = {}"
      using 2(4) vm_pages_owned [OF dst] T(2,3) tables_pages unfolding vm_pages_eq by auto
    note V = vm_full_keeps [OF T(1) W(1) np(2)]
    have pw: "kowned w p" "p \<notin> vm_pages (mem w) dst"
      using keeps_owned [OF W(1) 2(5)] np(1) V(2,3) unfolding vm_pages_eq by auto
    have "PA_DOWN 0x400000 + PAGE_SIZE < MEMORY_END" by code_simp
    then obtain ok t where t: "map_page dst 0x400000 (V2P p) user_attribute w = Inr (ok, t)" "vm_full dst t"
        "keeps_pages (tables (mem w) dst) w t" "\<forall>q \<in> tables (mem t) dst. kowned w q \<longrightarrow> q \<in> tables (mem w) dst"
        "data_page (mem t) dst = (if ok then (data_page (mem w) dst)(vm_index 0x400000 \<mapsto> p) else data_page (mem w) dst)"
        "ok \<longrightarrow> vm_entry (mem t) dst (vm_index 0x400000) = V2P p OR user_attribute" "ok \<or> card (kavail w) \<le> 1"
      using map_page_full [OF V(1) pw user_attribute_ok, of "0x400000"] free T(3) V(3) by auto
    have "memset (mem u) p 0 (unat PAGE_SIZE) = mem u"
      by (rule memset_zero_id) (use 2(7) in \<open>simp_all add: PAGE_SIZE_def\<close>)
    then have run: "copy_uvm dst src n s = Inr (ok, t)"
      using 2(1,2) find_pud_entry_lookup [OF vm_fullD(1) [OF S(1)] ix, of 0] b bz k(2) pte t(1)
      by (simp add: copy_uvm_def Let_def w_def m_def del: tab.simps)
    have K: "keeps_pages (tables (mem s) dst) s t"
      using keeps_trans [OF keeps_trans [OF 2(3) W(1)] t(3), of "tables (mem s) dst" "tables (mem s) dst"]
        2(4) V(2) T(2) by auto
    have C: "mem t x = (if in_range p n x then mem s (d + (x - p)) else 0)" if x: "in_range p (2 ^ 21) x" for x
    proof -
      have "p \<notin> tables (mem w) dst" using np(2) V(2) by auto
      then have "mem t x = m x" using t(3) pw(1) x unfolding keeps_pages_def w_def by auto
      moreover have "mem u (d + (x - p)) = mem s (d + (x - p))"
        using 2(3) dk x unfolding keeps_pages_def by (auto simp: in_range_def)
      ultimately show ?thesis using cp [of x] 2(7) [OF x] by simp
    qed
    have pt: "kowned t p" using keeps_owned [OF t(3) pw(1)] .
    have cd: "ok \<or> card (kavail s) \<le> 2"
    proof -
      have "kavail w = kavail s - {pn p}" using W(2) 2(6) by (rule trans)
      then have "card (kavail w) = card (kavail s - {pn p})" by (rule arg_cong)
      then have "card (kavail s) \<le> 2" if "card (kavail w) \<le> 1"
        using that card_remove_le [OF kpages.avail_finite [OF O(1)], of "pn p"] by linarith
      then show ?thesis using t(7) by blast
    qed
    have dpt: "ok \<Longrightarrow> data_page (mem t) dst = (data_page (mem s) dst)(vm_index 0x400000 \<mapsto> p)"
      using t(5) V(3) T(3) by simp
    have tb: "\<forall>q \<in> tables (mem t) dst. kowned s q \<longrightarrow> q \<in> tables (mem s) dst"
      using t(4) V(2) T(2) keeps_owned [OF 2(3)] keeps_owned [OF W(1)] by blast
    have "\<exists>p. \<not> kowned s p \<and> kowned t p \<and>
        data_page (mem t) dst = (data_page (mem s) dst)(vm_index 0x400000 \<mapsto> p) \<and>
        vm_entry (mem t) dst (vm_index 0x400000) = V2P p OR user_attribute \<and>
        (\<forall>x. in_range p (2 ^ 21) x \<longrightarrow> mem t x = (if in_range p n x then mem s (d + (x - p)) else 0))" if "ok"
      using that 2(4) pt dpt t(6) C by blast
    then show ?thesis using run t(2) K cd tb by blast
  qed
qed

section \<open>The memory a process sees\<close>

text \<open>The byte a user program reads at address \<open>v\<close> under the page map \<open>r\<close>.\<close>

definition user_byte :: "'a kernel_scheme \<Rightarrow> u64 \<Rightarrow> u64 \<Rightarrow> u8 option" where
  "user_byte s r v = map_option (\<lambda>pa. mem s (P2V pa)) (mmu_walk (mem s) (V2P r) v)"

lemma page_offset:
  assumes "d \<in> region start" "KERNEL_BASE \<le> start"
  shows "P2V (V2P d OR (u AND mask 21)) = d + (u AND mask 21)"
proof -
  have z: "take_bit 21 (V2P d) = 0" using V2P_bits(1) [OF assms] .
  have o: "V2P d + (u AND mask 21) = V2P d OR (u AND mask 21)"
  proof (rule disjunctive_add)
    show "\<not> bit (V2P d) n \<or> \<not> bit (u AND mask 21) n" for n
      using arg_cong [OF z, of "\<lambda>w. bit w n"] by (auto simp: bit_simps)
  qed
  show ?thesis unfolding o [symmetric] by (simp add: P2V_def V2P_def)
qed

lemma user_byte_data:
  assumes "vm_full r s" "data_page (mem s) r (vm_index v) = Some d"
  shows "user_byte s r v = Some (mem s (d + (v AND mask 21)))"
  using mmu_walk_data [OF assms] page_offset [OF kowned_region [OF vm_fullD(3) [OF assms]] vm_okD(2) [OF vm_fullD(1) [OF assms(1)]]]
  by (simp add: user_byte_def)

lemma user_byte_none:
  assumes "vm_full r s" "data_page (mem s) r (vm_index v) = None"
  shows "user_byte s r v = None"
  using mmu_walk_none [OF assms] by (simp add: user_byte_def)

lemma in_page_offset: "in_range d (2 ^ 21) (d + (v AND mask 21))"
proof -
  have "unat (v AND mask 21) < 2 ^ 21"
    using take_bit_nat_less_exp [of 21 "unat v"]
    by (simp add: take_bit_eq_mask [symmetric] unsigned_take_bit_eq)
  then show ?thesis by (simp add: in_range_def)
qed

text \<open>Another address space keeps its view when an operation leaves its pages alone.\<close>

lemma user_byte_keeps:
  assumes full: "vm_full r s" and st: "keeps_pages P s t" and dis: "P \<inter> vm_pages (mem s) r = {}"
  shows "user_byte t r v = user_byte s r v"
proof -
  have "P \<inter> tables (mem s) r = {}" using dis tables_pages by blast
  note K = vm_full_keeps [OF full st this]
  show ?thesis
  proof (cases "data_page (mem s) r (vm_index v)")
    case None
    then show ?thesis using user_byte_none [OF full] user_byte_none [OF K(1)] K(3) by simp
  next
    case (Some d)
    have "d \<notin> P" using dis data_pages [OF Some] by blast
    then have "mem t (d + (v AND mask 21)) = mem s (d + (v AND mask 21))"
      using st vm_fullD(3) [OF full Some] in_page_offset unfolding keeps_pages_def by blast
    then show ?thesis
      using user_byte_data [OF full Some] user_byte_data [OF K(1)] K(3) Some by simp
  qed
qed

lemma vm_full_fresh:
  assumes "kalloc_inv s" "KERNEL_BASE \<le> start_of s" "kowned s r" "\<And>x. in_range r (2 ^ 21) x \<Longrightarrow> mem s x = 0"
  shows "vm_full r s" "data_page (mem s) r = Map.empty" "tables (mem s) r = {r}"
proof -
  have z: "entry_at (mem s) r (of_nat k) = 0" if "k < 512" for k
    using entry_zero [OF kowned_region [OF assms(3)] assms(4) that] .
  have ch: "child (mem s) r i = None" for i using z by (simp add: child_def)
  then have tb: "tab (mem s) r t = (if t = Pgd then Some r else None)" for t by (cases t) simp_all
  have "vm_ok r s" using assms(1-3) z unfolding vm_ok_def tb by (simp add: table_typed_def)
  moreover have en: "vm_entry (mem s) r x = 0" for x by (cases x) (simp add: vm_entry_def tb del: tab.simps)
  moreover show dp: "data_page (mem s) r = Map.empty" by (simp add: data_page_def en fun_eq_iff)
  ultimately show "vm_full r s" by (simp add: vm_full_def blocks_only_def)
  show "tables (mem s) r = {r}" by (auto simp: tables_def ran_def tb)
qed

section \<open>Properties\<close>

text \<open>
  Witness states: two page maps allocated after boot, then a page mapped at the user program's
  address in the first.
\<close>

lemma booted_two_maps:
  obtains r s q t p u where "kalloc booted_kernel = Inr (r, s)" "kalloc s = Inr (q, t)" "kalloc t = Inr (p, u)"
    "vm_full r u" "data_page (mem u) r = Map.empty" "tables (mem u) r = {r}"
    "vm_full q u" "data_page (mem u) q = Map.empty" "tables (mem u) q = {q}"
    "kowned u p" "p \<noteq> r" "p \<noteq> q" "q \<noteq> r" "380 \<le> card (kavail u)"
proof -
  have pg: "\<exists>a t. kalloc s = Inr (a, t) \<and> keeps_pages {} s t \<and> \<not> kowned s a \<and> kowned t a \<and>
      kavail t = kavail s - {pn a} \<and> (\<forall>x. in_range a (2 ^ 21) x \<longrightarrow> mem t x = 0)"
    if "kalloc_inv s" "kavail s \<noteq> {}" for s :: kernel
  proof (cases rule: kalloc_keeps [OF that(1)])
    case 1
    then show ?thesis using kpages.alloc_law [OF that(1)] that(2) by auto
  qed blast
  have av: "card (kavail booted_kernel) = 383" "finite (kavail booted_kernel)"
    using booted_kernel_alloc(4) by simp_all
  then have "kavail booted_kernel \<noteq> {}" by auto
  from pg [OF booted_kernel_alloc(1) this] obtain r s where r: "kalloc booted_kernel = Inr (r, s)"
      "keeps_pages {} booted_kernel s" "kowned s r" "kavail s = kavail booted_kernel - {pn r}"
      "\<forall>x. in_range r (2 ^ 21) x \<longrightarrow> mem s x = 0" by blast
  have s: "kalloc_inv s" "KERNEL_BASE \<le> start_of s"
    using r(2) booted_kernel_alloc(2) by (simp_all add: keeps_pages_def KERNEL_BASE_def)
  have cs: "382 \<le> card (kavail s)" using r(4) av card_Diff1_le [of "kavail booted_kernel" "pn r"]
    by (cases "pn r \<in> kavail booted_kernel") (simp_all add: card_Diff_singleton)
  then have "kavail s \<noteq> {}" by auto
  from pg [OF s(1) this] obtain q t where q: "kalloc s = Inr (q, t)" "keeps_pages {} s t"
      "\<not> kowned s q" "kowned t q" "kavail t = kavail s - {pn q}"
      "\<forall>x. in_range q (2 ^ 21) x \<longrightarrow> mem t x = 0" by blast
  have t: "kalloc_inv t" "KERNEL_BASE \<le> start_of t"
    using q(2) s by (simp_all add: keeps_pages_def)
  have "kavail t \<noteq> {}"
  proof
    assume "kavail t = {}"
    then have "kavail s \<subseteq> {pn q}" using q(5) by blast
    then show False using cs card_mono [of "{pn q}" "kavail s"] by simp
  qed
  from pg [OF t(1) this] obtain p u where p: "kalloc t = Inr (p, u)" "keeps_pages {} t u"
      "\<not> kowned t p" "kowned u p" "kavail u = kavail t - {pn p}" by blast
  have "card (kavail s) \<le> card (kavail t) + 1" "card (kavail t) \<le> card (kavail u) + 1"
    unfolding q(5) p(5) using kpages.avail_finite [OF s(1)] by (intro card_remove_le; simp)+
  then have cu: "380 \<le> card (kavail u)" using cs by linarith
  have r1: "vm_full r s" "data_page (mem s) r = Map.empty" "tables (mem s) r = {r}"
    using vm_full_fresh [OF s r(3)] r(5) by blast+
  have q1: "vm_full q t" "data_page (mem t) q = Map.empty" "tables (mem t) q = {q}"
    using vm_full_fresh [OF t q(4)] q(6) by blast+
  have r2: "vm_full r t" "data_page (mem t) r = Map.empty" "tables (mem t) r = {r}"
    using vm_full_keeps [OF r1(1) q(2)] r1 by simp_all
  have r3: "vm_full r u" "data_page (mem u) r = Map.empty" "tables (mem u) r = {r}"
    using vm_full_keeps [OF r2(1) p(2)] r2 by simp_all
  have q3: "vm_full q u" "data_page (mem u) q = Map.empty" "tables (mem u) q = {q}"
    using vm_full_keeps [OF q1(1) p(2)] q1 by simp_all
  have "p \<noteq> r" "p \<noteq> q" "q \<noteq> r"
    using p(3) q(3,4) r(3) keeps_owned [OF q(2) r(3)] by auto
  then show ?thesis by (intro that [OF r(1) q(1) p(1) r3 q3 p(4)] cu)
qed

lemma mapped_state:
  obtains r q p and s :: kernel where "vm_full r s" "data_page (mem s) r = [vm_index 0x400000 \<mapsto> p]"
    "vm_full q s" "data_page (mem s) q = Map.empty" "tables (mem s) q = {q}" "q \<notin> vm_pages (mem s) r"
    "370 \<le> card (kavail s)"
proof (rule booted_two_maps)
  fix r q p and u :: kernel and s0 t0 :: kernel
  assume a: "vm_full r u" "data_page (mem u) r = Map.empty" "tables (mem u) r = {r}"
    "vm_full q u" "data_page (mem u) q = Map.empty" "tables (mem u) q = {q}"
    "kowned u p" "p \<noteq> r" "p \<noteq> q" "q \<noteq> r" "380 \<le> card (kavail u)"
  have np: "p \<notin> vm_pages (mem u) r" using a(2,3,8) by (simp add: vm_pages_eq)
  have "PA_DOWN 0x400000 + PAGE_SIZE < MEMORY_END" by code_simp
  then obtain b t where t: "map_page r 0x400000 (V2P p) user_attribute u = Inr (b, t)" "vm_full r t"
      "keeps_pages (tables (mem u) r) u t" "\<forall>q \<in> tables (mem t) r. kowned u q \<longrightarrow> q \<in> tables (mem u) r"
      "b \<or> card (kavail u) \<le> 1"
      "data_page (mem t) r = (if b then (data_page (mem u) r)(vm_index 0x400000 \<mapsto> p) else data_page (mem u) r)"
      "b \<longrightarrow> card (kavail u) \<le> card (kavail t) + 2"
    using map_page_full [OF a(1,7) np user_attribute_ok, of "0x400000"] a(2) by auto
  then have dp: "data_page (mem t) r = [vm_index 0x400000 \<mapsto> p]" using a(2,11) by auto
  have dis: "tables (mem u) r \<inter> tables (mem u) q = {}" using a(3,6,10) by auto
  note K = vm_full_keeps [OF a(4) t(3) dis]
  have qu: "kowned u q" using vm_okD(3) [OF vm_fullD(1) [OF a(4)], of Pgd] by simp
  then have "q \<notin> vm_pages (mem t) r" using t(4) a(3,9,10) dp unfolding vm_pages_eq by auto
  moreover have "370 \<le> card (kavail t)" using t(5,7) a(11) by auto
  ultimately show ?thesis using that [of r t p q] t(2) dp K a(5,6) by simp
qed

text \<open>
  C7: \<open>map_page\<close> establishes the mapping and nothing else.  Given a well-formed address space, a page
  the kernel holds that the address space does not use yet, attributes with the access flag, and
  an unmapped user address, \<open>map_page\<close> returns; if it reports success the MMU translates every
  address of that 2 MiB page to the given frame and every other address as before; if it
  runs out of memory, which takes fewer than two free pages, no translation changes.  Every other address space of disjoint tables is
  translated as before, and all well-formedness is kept.
\<close>

theorem map_page_correct:
  assumes "vm_full r s" "kowned s d" "d \<notin> vm_pages (mem s) r" "attr_ok attr"
    and "PA_DOWN v + PAGE_SIZE < MEMORY_END" "data_page (mem s) r (vm_index v) = None"
  shows "\<exists>b t. map_page r v (V2P d) attr s = Inr (b, t) \<and> vm_full r t \<and> (b \<or> card (kavail s) \<le> 1) \<and>
    (\<forall>u. mmu_walk (mem t) (V2P r) u =
      (if b \<and> vm_index u = vm_index v then Some (V2P d OR (u AND mask 21)) else mmu_walk (mem s) (V2P r) u)) \<and>
    (\<forall>r' u. vm_full r' s \<and> tables (mem s) r \<inter> tables (mem s) r' = {} \<longrightarrow>
      vm_full r' t \<and> mmu_walk (mem t) (V2P r') u = mmu_walk (mem s) (V2P r') u)"
proof -
  obtain b t where t: "map_page r v (V2P d) attr s = Inr (b, t)" "vm_full r t" "keeps_pages (tables (mem s) r) s t"
      "data_page (mem t) r = (if b then (data_page (mem s) r)(vm_index v \<mapsto> d) else data_page (mem s) r)"
      "b \<or> card (kavail s) \<le> 1"
    using map_page_full [OF assms] by blast
  have "mmu_walk (mem t) (V2P r) u =
      (if b \<and> vm_index u = vm_index v then Some (V2P d OR (u AND mask 21)) else mmu_walk (mem s) (V2P r) u)" for u
    using t(4) mmu_walk_data [OF t(2), of u d] mmu_walk_eq [OF assms(1) t(2), of u] by auto
  moreover have "vm_full r' t \<and> mmu_walk (mem t) (V2P r') u = mmu_walk (mem s) (V2P r') u"
    if "vm_full r' s" "tables (mem s) r \<inter> tables (mem s) r' = {}" for r' u
    using vm_full_keeps [OF that(1) t(3) that(2)] mmu_walk_eq [OF that(1), of t u] by simp
  ultimately show ?thesis using t(1,2,5) by blast
qed

theorem map_page_correct_witness:
  "\<exists>(s :: kernel) r d b t. vm_full r s \<and> map_page r 0x400000 (V2P d) user_attribute s = Inr (b, t) \<and>
    (b \<longrightarrow> mmu_walk (mem t) (V2P r) 0x400123 = Some (V2P d OR 0x123))"
proof (rule booted_two_maps)
  fix r s q t p and u :: kernel
  assume a: "vm_full r u" "data_page (mem u) r = Map.empty" "tables (mem u) r = {r}" "kowned u p" "p \<noteq> r"
  then have np: "p \<notin> vm_pages (mem u) r" by (simp add: vm_pages_eq)
  have "PA_DOWN 0x400000 + PAGE_SIZE < MEMORY_END" "vm_index 0x400123 = vm_index 0x400000"
    by code_simp+
  moreover have "(0x400123 :: u64) AND mask 21 = 0x123" by (simp add: mask_eq_exp_minus_1)
  ultimately show ?thesis
    using map_page_correct [OF a(1,4) np user_attribute_ok, of "0x400000"] a(1,2) by metis
qed





end
