(* ===== verification/Kernel_Objects.thy ===== *)
theory Kernel_Objects
  imports Vm_Copy
begin

text \<open>
  The static objects of the process and file code: the process table and the per-core control
  blocks of src/src/process.c with the structures of src/include/process.h and src/include/lib.h,
  the tables of src/src/file.c with the structures of src/include/file.h, and the registers a
  context switch saves.  The record \<open>sys\<close> extends \<open>kernel\<close> by them.

  A \<open>struct Process\<close> pointer, and the \<open>struct List\<close> pointer the lists store for it, is a position
  \<open>(core, slot)\<close> of \<open>process_table\<close>; NULL is \<open>None\<close>.  A \<open>struct HeadList\<close> is named by the control
  block it is part of.  Pointers into the file tables are indices.
\<close>

section \<open>process.h and lib.h\<close>

definition NUM_PROC :: nat where "NUM_PROC = 30"

definition MAXCORES :: nat where "MAXCORES = 4"

datatype proc_state =
    PROC_UNUSED | PROC_INIT | PROC_RUNNING | PROC_READY | PROC_SLEEP | PROC_KILLED

type_synonym pref = "nat \<times> nat"

text \<open>Statements over all process positions stay statements over positions.\<close>

declare split_paired_All [simp del] split_paired_Ex [simp del]

record process =
  pr_next :: "pref option"
  pr_pid :: i32
  pr_state :: proc_state
  pr_wait :: i32
  pr_name :: "u8 list"
  pr_context :: u64
  pr_page_map :: u64
  pr_stack :: u64
  pr_file :: "nat option list"
  pr_tf :: u64

text \<open>A process slot of all zero bytes, as in .bss and after \<open>memset\<close>.\<close>

definition zero_process :: process where
  "zero_process = \<lparr>pr_next = None, pr_pid = 0, pr_state = PROC_UNUSED, pr_wait = 0,
     pr_name = replicate 8 0, pr_context = 0, pr_page_map = 0, pr_stack = 0,
     pr_file = replicate 100 None, pr_tf = 0\<rparr>"

record headlist =
  h_next :: "pref option"
  h_tail :: "pref option"

datatype list_id = Ready nat | Waiting nat | Killed nat

section \<open>file.h\<close>

record fcb =
  fc_name :: "u8 list"
  fc_ext :: "u8 list"
  fc_cluster_index :: u32
  fc_dir_index :: u32
  fc_offset :: u32
  fc_file_size :: u32
  fc_count :: i32

record file_desc =
  fd_fcb :: "nat option"
  fd_position :: u32
  fd_count :: i32

definition zero_fcb :: fcb where
  "zero_fcb = \<lparr>fc_name = replicate 8 0, fc_ext = replicate 3 0, fc_cluster_index = 0,
     fc_dir_index = 0, fc_offset = 0, fc_file_size = 0, fc_count = 0\<rparr>"

definition zero_file_desc :: file_desc where
  "zero_file_desc = \<lparr>fd_fcb = None, fd_position = 0, fd_count = 0\<rparr>"

section \<open>The state\<close>

text \<open>
  \<open>fcb_page\<close> and \<open>file_desc_page\<close> are the values of the C pointers \<open>fcb_table\<close> and
  \<open>file_desc_table\<close>; the tables they point to are kept as typed arrays.  \<open>ttbr0\<close>, \<open>core_sp\<close> and
  \<open>core_regs\<close> (x19 to x30) are per core.  \<open>sym_pstart\<close> and \<open>sym_pgd_ttbr0\<close> are addresses of symbols;
  \<open>sym_after str i\<close> is the byte of the image at offset \<open>i\<close> from a string literal, for reads past its end.
\<close>

record sys = kernel +
  process_table :: "pref \<Rightarrow> process"
  pid_num :: i32
  current_process :: "nat \<Rightarrow> pref option"
  head_lists :: "list_id \<Rightarrow> headlist"
  fcb_page :: u64
  fcb_table :: "nat \<Rightarrow> fcb"
  file_desc_page :: u64
  file_desc_table :: "nat \<Rightarrow> file_desc"
  ttbr0 :: "nat \<Rightarrow> u64"
  core_sp :: "nat \<Rightarrow> u64"
  core_regs :: "nat \<Rightarrow> u64 list"
  sym_pstart :: u64
  sym_pgd_ttbr0 :: u64
  sym_after :: "string \<Rightarrow> nat \<Rightarrow> u8"

definition upd_process :: "pref \<Rightarrow> (process \<Rightarrow> process) \<Rightarrow> 'a sys_scheme \<Rightarrow> 'a sys_scheme" where
  "upd_process p f s = s\<lparr>process_table := (process_table s)(p := f (process_table s p))\<rparr>"

lemma upd_process_sel [simp]:
  "mem (upd_process p f s) = mem s" "console (upd_process p f s) = console s"
  "locks (upd_process p f s) = locks s" "sym_end (upd_process p f s) = sym_end s"
  "sym_allocator (upd_process p f s) = sym_allocator s"
  "current_process (upd_process p f s) = current_process s"
  "head_lists (upd_process p f s) = head_lists s" "pid_num (upd_process p f s) = pid_num s"
  "fcb_table (upd_process p f s) = fcb_table s" "file_desc_table (upd_process p f s) = file_desc_table s"
  "process_table (upd_process p f s) = (process_table s)(p := f (process_table s p))"
  by (simp_all add: upd_process_def)

lemma spin_unlock_sys [simp]:
  "process_table (spin_unlock l s) = process_table s" "head_lists (spin_unlock l s) = head_lists s"
  "current_process (spin_unlock l s) = current_process s" "pid_num (spin_unlock l s) = pid_num s"
  "fcb_table (spin_unlock l s) = fcb_table s" "file_desc_table (spin_unlock l s) = file_desc_table s"
  "ttbr0 (spin_unlock l s) = ttbr0 s"
  by (simp_all add: spin_unlock_def)

end
