(* ===== verification/User_Access.thy ===== *)
theory User_Access
  imports Kernel_Objects
begin

text \<open>
  How kernel code on a core reads and writes through a pointer.  Kernel addresses name memory
  directly; an address below \<open>KERNEL_BASE\<close> is translated by the page tables in the core's \<open>TTBR0\<close>,
  and an address they do not map is a fault.  \<open>memset\<close> and \<open>memcpy\<close> of src/src/liba.s are given again
  over such accesses, byte for byte.

  The lemmas show that on kernel addresses these are the routines of theory \<open>Kernel_Memory\<close>, and that a
  copy to an address range that a page maps linearly is a copy to the page.
\<close>

definition translate :: "nat \<Rightarrow> 'a sys_scheme \<Rightarrow> u64 \<Rightarrow> u64 option" where
  "translate cpu s v =
     (if KERNEL_BASE \<le> v then Some v else map_option P2V (mmu_walk (mem s) (ttbr0 s cpu) v))"

definition vload :: "nat \<Rightarrow> u64 \<Rightarrow> 'a sys_scheme \<Rightarrow> u8 res" where
  "vload cpu v s = (case translate cpu s v of None \<Rightarrow> Inl (Fault v) | Some a \<Rightarrow> Inr (mem s a))"

definition vstore :: "nat \<Rightarrow> u64 \<Rightarrow> u8 \<Rightarrow> 'a sys_scheme \<Rightarrow> 'a sys_scheme res" where
  "vstore cpu v b s =
     (case translate cpu s v of None \<Rightarrow> Inl (Fault v) | Some a \<Rightarrow> Inr (s\<lparr>mem := (mem s)(a := b)\<rparr>))"

fun vload_bytes :: "nat \<Rightarrow> u64 \<Rightarrow> nat \<Rightarrow> 'a sys_scheme \<Rightarrow> u8 list res" where
  "vload_bytes cpu v 0 s = Inr []"
| "vload_bytes cpu v (Suc n) s =
     rbind (vload cpu v s) (\<lambda>b. rbind (vload_bytes cpu (v + 1) n s) (\<lambda>bs. Inr (b # bs)))"

fun vstore_bytes :: "nat \<Rightarrow> u64 \<Rightarrow> u8 list \<Rightarrow> 'a sys_scheme \<Rightarrow> 'a sys_scheme res" where
  "vstore_bytes cpu v [] s = Inr s"
| "vstore_bytes cpu v (b # bs) s = rbind (vstore cpu v b s) (\<lambda>s. vstore_bytes cpu (v + 1) bs s)"

definition vload64 :: "nat \<Rightarrow> u64 \<Rightarrow> 'a sys_scheme \<Rightarrow> u64 res" where
  "vload64 cpu v s = rbind (vload_bytes cpu v 8 s) (\<lambda>bs. Inr (le_word bs))"

primrec vmemset :: "nat \<Rightarrow> u64 \<Rightarrow> u8 \<Rightarrow> nat \<Rightarrow> 'a sys_scheme \<Rightarrow> 'a sys_scheme res" where
  "vmemset cpu dst value 0 s = Inr s"
| "vmemset cpu dst value (Suc n) s = rbind (vstore cpu dst value s) (\<lambda>s. vmemset cpu (dst + 1) value n s)"

primrec vcopy_loop :: "nat \<Rightarrow> u64 \<Rightarrow> u64 \<Rightarrow> u64 \<Rightarrow> nat \<Rightarrow> 'a sys_scheme \<Rightarrow> 'a sys_scheme res" where
  "vcopy_loop cpu dst src step 0 s = Inr s"
| "vcopy_loop cpu dst src step (Suc n) s =
     rbind (vload cpu src s) (\<lambda>b.
     rbind (vstore cpu dst b s) (\<lambda>s.
     vcopy_loop cpu (dst + step) (src + step) step n s))"

definition vmemcpy :: "nat \<Rightarrow> u64 \<Rightarrow> u64 \<Rightarrow> nat \<Rightarrow> 'a sys_scheme \<Rightarrow> 'a sys_scheme res" where
  "vmemcpy cpu dst src n s =
     (if n = 0 then Inr s
      else if dst \<le> src then vcopy_loop cpu dst src 1 n s
      else if src + of_nat n \<le> dst then vcopy_loop cpu dst src 1 n s
      else vcopy_loop cpu (dst + of_nat (n - 1)) (src + of_nat (n - 1)) (- 1) n s)"

section \<open>Linearly mapped ranges\<close>

text \<open>
  \<open>linear cpu s v d n\<close>: the core reaches the \<open>n\<close> bytes of memory from \<open>d\<close> on through the addresses from
  \<open>v\<close> on, and storing into these bytes does not change that.
\<close>

definition linear :: "nat \<Rightarrow> 'a sys_scheme \<Rightarrow> u64 \<Rightarrow> u64 \<Rightarrow> nat \<Rightarrow> bool" where
  "linear cpu s v d n \<longleftrightarrow>
     (\<forall>m. (\<forall>x. \<not> in_range d n x \<longrightarrow> m x = mem s x) \<longrightarrow>
       (\<forall>i < n. translate cpu (s\<lparr>mem := m\<rparr>) (v + of_nat i) = Some (d + of_nat i)))"

lemma linear_kernel:
  assumes "KERNEL_BASE \<le> d" "unat d + n \<le> 2 ^ 64"
  shows "linear cpu s d d n"
proof -
  have "KERNEL_BASE \<le> d + of_nat i" if "i < n" for i
    using assms that unat_plus_of_nat [of d i] by (simp add: word_le_nat_alt)
  then show ?thesis by (simp add: linear_def translate_def)
qed

lemma linear_store:
  assumes "linear cpu s v d n" "\<forall>x. \<not> in_range d n x \<longrightarrow> m x = mem s x"
  shows "linear cpu (s\<lparr>mem := m\<rparr>) v d n"
  using assms unfolding linear_def by simp

lemma linear_translate:
  assumes "linear cpu s v d n" "i < n"
  shows "translate cpu s (v + of_nat i) = Some (d + of_nat i)"
  using assms spec [of "\<lambda>m. (\<forall>x. \<not> in_range d n x \<longrightarrow> m x = mem s x) \<longrightarrow>
       (\<forall>i < n. translate cpu (s\<lparr>mem := m\<rparr>) (v + of_nat i) = Some (d + of_nat i))" "mem s"]
  unfolding linear_def by simp

lemma linear_sub:
  assumes "linear cpu s v d n" "i + k \<le> n" "n < 2 ^ 64"
  shows "linear cpu s (v + of_nat i) (d + of_nat i) k"
proof -
  have "in_range d n x" if "in_range (d + of_nat i) k x" for x
  proof -
    have "unat (x - d) = unat (x - (d + of_nat i)) + i"
      using that assms(2,3) unat_plus_of_nat [of "x - (d + of_nat i)" i] by (simp add: in_range_def)
    then show ?thesis using that assms(2) by (simp add: in_range_def)
  qed
  then have "(\<forall>x. \<not> in_range (d + of_nat i) k x \<longrightarrow> m x = mem s x) \<Longrightarrow> j < k \<Longrightarrow>
      translate cpu (s\<lparr>mem := m\<rparr>) (v + of_nat (i + j)) = Some (d + of_nat (i + j))" for m j
    using assms(1,2) unfolding linear_def by (meson add_less_cancel_left less_le_trans)
  then show ?thesis unfolding linear_def by (simp add: add.assoc)
qed

text \<open>Copying from kernel memory into a linearly mapped range, upwards.\<close>

lemma vcopy_forward:
  assumes "linear cpu s v d n" "KERNEL_BASE \<le> a" "unat a + n \<le> 2 ^ 64" "n < 2 ^ 64"
  shows "vcopy_loop cpu v a 1 n s = Inr (s\<lparr>mem := copy_loop (mem s) d a 1 n\<rparr>)"
  using assms
proof (induction n arbitrary: s v d a)
  case (Suc n)
  let ?s = "s\<lparr>mem := (mem s)(d := mem s a)\<rparr>"
  have "translate cpu s v = Some d" using linear_translate [OF Suc.prems(1), of 0] by simp
  moreover have "vload cpu a s = Inr (mem s a)" using Suc.prems(2) by (simp add: vload_def translate_def)
  ultimately have step: "vcopy_loop cpu v a 1 (Suc n) s = vcopy_loop cpu (v + 1) (a + 1) 1 n ?s"
    by (simp add: vstore_def)
  have "linear cpu ?s v d (Suc n)" using linear_store [OF Suc.prems(1), of "(mem s)(d := mem s a)"] by auto
  then have "linear cpu ?s (v + 1) (d + 1) n" using linear_sub [of cpu ?s v d "Suc n" 1 n] Suc.prems(4) by simp
  moreover have "n \<noteq> 0 \<Longrightarrow> unat (a + 1) = unat a + 1"
    using unat_plus_of_nat [of a 1] Suc.prems(3) by simp
  ultimately have "vcopy_loop cpu (v + 1) (a + 1) 1 n ?s = Inr (?s\<lparr>mem := copy_loop (mem ?s) (d + 1) (a + 1) 1 n\<rparr>)"
    using Suc.IH [of ?s "v + 1" "d + 1" "a + 1"] Suc.prems(2-4)
    by (cases "n = 0") (simp_all add: word_le_nat_alt del: fun_upd_apply)
  then show ?case unfolding step by simp
qed simp

lemma vcopy_kernel:
  assumes "\<forall>i < n. KERNEL_BASE \<le> dst + of_nat i * step \<and> KERNEL_BASE \<le> src + of_nat i * step"
  shows "vcopy_loop cpu dst src step n s = Inr (s\<lparr>mem := copy_loop (mem s) dst src step n\<rparr>)"
  using assms
proof (induction n arbitrary: s dst src)
  case (Suc n)
  have "KERNEL_BASE \<le> dst" "KERNEL_BASE \<le> src" using Suc.prems by (auto dest: spec [of _ 0])
  moreover have "\<forall>i < n. KERNEL_BASE \<le> (dst + step) + of_nat i * step \<and> KERNEL_BASE \<le> (src + step) + of_nat i * step"
  proof (intro allI impI)
    fix i assume "i < n"
    then show "KERNEL_BASE \<le> (dst + step) + of_nat i * step \<and> KERNEL_BASE \<le> (src + step) + of_nat i * step"
      using Suc.prems [rule_format, of "Suc i"] by (simp add: algebra_simps)
  qed
  ultimately show ?case using Suc.IH by (simp add: vload_def vstore_def translate_def)
qed simp

lemma kernel_offset:
  assumes "KERNEL_BASE \<le> a" "unat a + n \<le> 2 ^ 64" "i < n"
  shows "KERNEL_BASE \<le> a + of_nat i"
  using assms unat_plus_of_nat [of a i] by (simp add: word_le_nat_alt)

lemma vmemcpy_kernel:
  assumes "KERNEL_BASE \<le> dst" "unat dst + n \<le> 2 ^ 64" "KERNEL_BASE \<le> src" "unat src + n \<le> 2 ^ 64"
  shows "vmemcpy cpu dst src n s = Inr (s\<lparr>mem := memcpy (mem s) dst src n\<rparr>)"
proof -
  have up: "vcopy_loop cpu dst src 1 n s = Inr (s\<lparr>mem := copy_loop (mem s) dst src 1 n\<rparr>)"
    using kernel_offset [OF assms(1,2)] kernel_offset [OF assms(3,4)] by (intro vcopy_kernel) simp
  have rev: "a + of_nat (n - 1) + of_nat i * (- 1) = a + of_nat (n - 1 - i)" if "i < n" for a :: u64 and i
    using that by (simp add: of_nat_diff)
  have down: "vcopy_loop cpu (dst + of_nat (n - 1)) (src + of_nat (n - 1)) (- 1) n s =
      Inr (s\<lparr>mem := copy_loop (mem s) (dst + of_nat (n - 1)) (src + of_nat (n - 1)) (- 1) n\<rparr>)"
  proof (rule vcopy_kernel, intro allI impI)
    fix i assume i: "i < n"
    then have "n - 1 - i < n" by simp
    then show "KERNEL_BASE \<le> dst + of_nat (n - 1) + of_nat i * - 1 \<and> KERNEL_BASE \<le> src + of_nat (n - 1) + of_nat i * - 1"
      unfolding rev [OF i] using kernel_offset [OF assms(1,2)] kernel_offset [OF assms(3,4)] by blast
  qed
  show ?thesis unfolding vmemcpy_def memcpy_def up down by simp
qed

text \<open>
  A copy from kernel memory into a linearly mapped range that it does not overlap: the range holds
  the bytes of the source, everything else is unchanged.
\<close>

lemma vmemcpy_linear:
  assumes "linear cpu s v d n" "KERNEL_BASE \<le> a" "unat a + n \<le> 2 ^ 64" "n < 2 ^ 64"
    and "v = d \<and> KERNEL_BASE \<le> d \<and> unat d + n \<le> 2 ^ 64 \<or> v < KERNEL_BASE" "0 < n \<Longrightarrow> apart d n a n"
  shows "\<exists>m. vmemcpy cpu v a n s = Inr (s\<lparr>mem := m\<rparr>) \<and> load_bytes m d n = load_bytes (mem s) a n \<and>
    (\<forall>x. \<not> in_range d n x \<longrightarrow> m x = mem s x)"
proof (cases "v < KERNEL_BASE \<and> 0 < n")
  case True
  let ?m = "copy_loop (mem s) d a 1 n"
  have "v \<le> a" using True assms(2) by (meson less_imp_le order.trans)
  then have run: "vmemcpy cpu v a n s = Inr (s\<lparr>mem := ?m\<rparr>)"
    using True vcopy_forward [OF assms(1-4)] by (simp add: vmemcpy_def)
  have m: "?m x = (if in_range d n x then mem s (a + (x - d)) else mem s x)" for x
    using assms(4,6) True by (intro copy_forward) (auto simp: apart_def)
  have "load_bytes ?m d n = load_bytes (mem s) a n"
  proof (rule nth_equalityI)
    fix i assume "i < length (load_bytes ?m d n)"
    then show "load_bytes ?m d n ! i = load_bytes (mem s) a n ! i"
      using m [of "d + of_nat i"] assms(4) by (simp add: in_range_def unat_of_nat take_bit_nat_eq_self)
  qed simp
  then show ?thesis using run m by auto
next
  case False
  then have k: "n = 0 \<or> KERNEL_BASE \<le> d \<and> unat d + n \<le> 2 ^ 64 \<and> v = d" using assms(5) by auto
  show ?thesis
  proof (cases "n = 0")
    case True
    then show ?thesis by (intro exI [of _ "mem s"]) (simp add: vmemcpy_def)
  next
    case False
    then have d: "KERNEL_BASE \<le> d" "unat d + n \<le> 2 ^ 64" "v = d" using k by auto
    show ?thesis
      using vmemcpy_kernel [OF d(1,2) assms(2,3), of cpu s] d(3)
        load_bytes_memcpy [OF assms(3) d(2) assms(4), of "mem s"] memcpy_apply [OF assms(3) d(2) assms(4), of "mem s"]
      by (intro exI [of _ "memcpy (mem s) d a n"]) simp
  qed
qed

end
