(* ===== verification/File_System.thy ===== *)
theory File_System
  imports User_Access
begin

text \<open>
  The file system of src/src/file.c: a FAT16 volume that the loader places in memory at \<open>FS_BASE\<close>,
  read in place.  The structures of src/include/file.h are read at their packed offsets; the
  arithmetic is that of the C types (\<open>uint16_t\<close> and \<open>uint8_t\<close> fields promoted, \<open>uint32_t\<close> products and
  sums that wrap).  Open files are the tables \<open>fcb_table\<close> and \<open>file_desc_table\<close> and the \<open>file\<close> array of a
  process.

  A path argument is a function from index to byte, as the code reads it: a byte of a string
  constant of the kernel, or of user memory, where reading may fault.
\<close>

section \<open>The volume\<close>

definition FS_BASE :: u64 where
  "FS_BASE = P2V 0x30000000"

definition ENTRY_EMPTY :: u8 where "ENTRY_EMPTY = 0"

definition ENTRY_DELETED :: u8 where "ENTRY_DELETED = 0xe5"

text \<open>The fields of \<open>struct BPB\<close> that are used, at a pointer \<open>p\<close>.\<close>

definition bytes_per_sector :: "memory \<Rightarrow> u64 \<Rightarrow> u16" where
  "bytes_per_sector m p = load16 m (p + 11)"

definition sectors_per_cluster :: "memory \<Rightarrow> u64 \<Rightarrow> u8" where
  "sectors_per_cluster m p = m (p + 13)"

definition reserved_sector_count :: "memory \<Rightarrow> u64 \<Rightarrow> u16" where
  "reserved_sector_count m p = load16 m (p + 14)"

definition fat_count :: "memory \<Rightarrow> u64 \<Rightarrow> u8" where
  "fat_count m p = m (p + 16)"

definition root_entry_count :: "memory \<Rightarrow> u64 \<Rightarrow> u16" where
  "root_entry_count m p = load16 m (p + 17)"

definition sectors_per_fat :: "memory \<Rightarrow> u64 \<Rightarrow> u16" where
  "sectors_per_fat m p = load16 m (p + 22)"

text \<open>The fields of \<open>struct DirEntry\<close>, at a pointer \<open>e\<close>.\<close>

definition de_name :: "memory \<Rightarrow> u64 \<Rightarrow> u8 list" where
  "de_name m e = load_bytes m e 8"

definition de_ext :: "memory \<Rightarrow> u64 \<Rightarrow> u8 list" where
  "de_ext m e = load_bytes m (e + 8) 3"

definition de_attributes :: "memory \<Rightarrow> u64 \<Rightarrow> u8" where
  "de_attributes m e = m (e + 11)"

definition de_cluster_index :: "memory \<Rightarrow> u64 \<Rightarrow> u16" where
  "de_cluster_index m e = load16 m (e + 26)"

definition de_file_size :: "memory \<Rightarrow> u64 \<Rightarrow> u32" where
  "de_file_size m e = load32 m (e + 28)"

definition get_fs_bpb :: "memory \<Rightarrow> u64" where
  "get_fs_bpb m = (let lba = load32 m (FS_BASE + 0x1be + 8) in FS_BASE + ucast (lba * 512))"

definition get_fat_table :: "memory \<Rightarrow> u64" where
  "get_fat_table m =
     (let p = get_fs_bpb m;
          offset = (ucast (reserved_sector_count m p) :: u32) * ucast (bytes_per_sector m p)
      in p + ucast offset)"

definition get_cluster_value :: "memory \<Rightarrow> u32 \<Rightarrow> u16" where
  "get_cluster_value m cluster_index = load16 m (get_fat_table m + 2 * ucast cluster_index)"

definition get_cluster_offset :: "memory \<Rightarrow> u32 \<Rightarrow> u32 res" where
  "get_cluster_offset m index =
     kassert (2 \<le> index) ''src/file.c'' 36
       (let p = get_fs_bpb m;
            res_size = (ucast (reserved_sector_count m p) :: u32) * ucast (bytes_per_sector m p);
            fat_size = (ucast (fat_count m p) :: u32) * ucast (sectors_per_fat m p) * ucast (bytes_per_sector m p);
            dir_size = (ucast (root_entry_count m p) :: u32) * 32
        in Inr (res_size + fat_size + dir_size +
                (index - 2) * (ucast (sectors_per_cluster m p) * ucast (bytes_per_sector m p))))"

definition get_cluster_size :: "memory \<Rightarrow> u32" where
  "get_cluster_size m =
     (let bpb = get_fs_bpb m in ucast (bytes_per_sector m bpb) * ucast (sectors_per_cluster m bpb))"

definition get_root_directory_count :: "memory \<Rightarrow> u32" where
  "get_root_directory_count m = ucast (root_entry_count m (get_fs_bpb m))"

definition get_root_directory :: "memory \<Rightarrow> u64" where
  "get_root_directory m =
     (let p = get_fs_bpb m;
          offset = ((ucast (reserved_sector_count m p) :: u32) + ucast (fat_count m p) * ucast (sectors_per_fat m p)) *
            ucast (bytes_per_sector m p)
      in p + ucast offset)"

definition dir_entry :: "memory \<Rightarrow> nat \<Rightarrow> u64" where
  "dir_entry m i = get_root_directory m + 32 * of_nat i"

section \<open>Names\<close>

type_synonym path = "nat \<Rightarrow> u8 res"

text \<open>A string constant, of which only the characters and the final NUL may be read.\<close>

definition byte_of_char :: "char \<Rightarrow> u8" where
  "byte_of_char c = of_nat (of_char c)"

definition lit_path :: "string \<Rightarrow> path" where
  "lit_path str i =
     (if i < length str then Inr (byte_of_char (str ! i)) else if i = length str then Inr 0 else Inl Out_of_bounds)"

definition is_file_name_equal :: "memory \<Rightarrow> u64 \<Rightarrow> u8 list \<Rightarrow> u8 list \<Rightarrow> bool" where
  "is_file_name_equal m e name ext \<longleftrightarrow> de_name m e = name \<and> de_ext m e = ext"

text \<open>The loops of \<open>split_path\<close>, with the number of characters still allowed; \<open>None\<close> is the \<open>return false\<close> at a slash.\<close>

primrec split_name :: "nat \<Rightarrow> path \<Rightarrow> nat \<Rightarrow> u8 list \<Rightarrow> (nat \<times> u8 list) option res" where
  "split_name 0 path i name = Inr (Some (i, name))"
| "split_name (Suc n) path i name =
     rbind (path i) (\<lambda>c.
     if c = 0x2e \<or> c = 0 then Inr (Some (i, name))
     else if c = 0x2f then Inr None
     else split_name n path (i + 1) (name[i := c]))"

primrec split_ext :: "nat \<Rightarrow> path \<Rightarrow> nat \<Rightarrow> nat \<Rightarrow> u8 list \<Rightarrow> (nat \<times> u8 list) option res" where
  "split_ext 0 path i j ext = Inr (Some (i, ext))"
| "split_ext (Suc n) path i j ext =
     rbind (path i) (\<lambda>c.
     if c = 0 then Inr (Some (i, ext))
     else if c = 0x2f then Inr None
     else split_ext n path (i + 1) (j + 1) (ext[j := c]))"

definition split_path :: "path \<Rightarrow> u8 list \<Rightarrow> u8 list \<Rightarrow> (u8 list \<times> u8 list) option res" where
  "split_path path name ext =
     rbind (split_name 8 path 0 name) (\<lambda>r.
     case r of
       None \<Rightarrow> Inr None
     | Some (i, name) \<Rightarrow>
         rbind (path i) (\<lambda>c.
         rbind (if c = 0x2e then split_ext 3 path (i + 1) 0 ext else Inr (Some (i, ext))) (\<lambda>r.
         case r of
           None \<Rightarrow> Inr None
         | Some (i, ext) \<Rightarrow> rbind (path i) (\<lambda>c. if c \<noteq> 0 then Inr None else Inr (Some (name, ext))))))"

definition search_file :: "memory \<Rightarrow> path \<Rightarrow> u32 res" where
  "search_file m path =
     rbind (split_path path (replicate 8 0x20) (replicate 3 0x20)) (\<lambda>r.
     case r of
       None \<Rightarrow> Inr 0xffffffff
     | Some (name, ext) \<Rightarrow>
         (case find (\<lambda>i.
             \<not> (m (dir_entry m i) = ENTRY_EMPTY \<or> m (dir_entry m i) = ENTRY_DELETED) \<and>
             de_attributes m (dir_entry m i) \<noteq> 0xf \<and> is_file_name_equal m (dir_entry m i) name ext)
             [0..<unat (get_root_directory_count m)] of
           None \<Rightarrow> Inr 0xffffffff
         | Some i \<Rightarrow> Inr (of_nat i)))"

section \<open>Reading\<close>

primrec skip_clusters :: "nat \<Rightarrow> memory \<Rightarrow> u32 \<Rightarrow> u32 res" where
  "skip_clusters 0 m index = Inr index"
| "skip_clusters (Suc n) m index =
     (let index = ucast (get_cluster_value m index)
      in kassert (index < 0xfff7) ''src/file.c'' 156 (skip_clusters n m index))"

text \<open>The loop over whole clusters; \<open>None\<close> is a loop that does not end.\<close>

partial_function (option) read_clusters ::
  "nat \<Rightarrow> u64 \<Rightarrow> u32 \<Rightarrow> u32 \<Rightarrow> u64 \<Rightarrow> u32 \<Rightarrow> u32 \<Rightarrow> 'a sys_scheme \<Rightarrow> (u32 \<times> 'a sys_scheme) res option" where
  [code]: "read_clusters cpu bpb cluster_size size0 buffer read_size index s =
     (if read_size < size0 \<and> index < 0xfff7 then
        (case get_cluster_offset (mem s) index of
          Inl e \<Rightarrow> Some (Inl e)
        | Inr off \<Rightarrow>
            let data = ucast off + bpb in
            if size0 \<le> read_size + cluster_size then
              Some (rbind (vmemcpy cpu buffer data (unat (size0 - read_size)) s) (\<lambda>s. Inr (size0, s)))
            else
              (case vmemcpy cpu buffer data (unat cluster_size) s of
                Inl e \<Rightarrow> Some (Inl e)
              | Inr s \<Rightarrow>
                  read_clusters cpu bpb cluster_size size0 (buffer + ucast cluster_size)
                    (read_size + cluster_size) (ucast (get_cluster_value (mem s) index)) s))
      else Some (Inr (read_size, s)))"

definition read_raw_data ::
  "nat \<Rightarrow> u32 \<Rightarrow> u64 \<Rightarrow> u32 \<Rightarrow> u32 \<Rightarrow> 'a sys_scheme \<Rightarrow> (u32 \<times> 'a sys_scheme) res" where
  "read_raw_data cpu cluster_index buffer position size0 s =
     (let cluster_size = get_cluster_size (mem s) in
      if cluster_size = 0 then Inl Div_by_zero
      else
        (let count = position div cluster_size;
             offset = position mod cluster_size
         in rbind (skip_clusters (unat count) (mem s) cluster_index) (\<lambda>index.
            let bpb = get_fs_bpb (mem s) in
            rbind
              (if offset \<noteq> 0 then
                 (let read_size = (if offset + size0 \<le> cluster_size then size0 else cluster_size - offset) in
                  rbind (get_cluster_offset (mem s) index) (\<lambda>off.
                  let data = ucast off + bpb in
                  rbind (vmemcpy cpu buffer (data + ucast offset) (unat read_size) s) (\<lambda>s.
                  Inr (read_size, buffer + ucast read_size, ucast (get_cluster_value (mem s) index) :: u32, s))))
               else Inr (0, buffer, index, s))
              (\<lambda>(read_size, buffer, index, s).
               case read_clusters cpu bpb cluster_size size0 buffer read_size index s of
                 None \<Rightarrow> Inl Diverge
               | Some r \<Rightarrow> r))))"

section \<open>Open files\<close>

text \<open>The expression \<open>process->file[fd]\<close>, dereferenced, and the control block it points to.\<close>

definition file_at :: "'a sys_scheme \<Rightarrow> pref \<Rightarrow> i32 \<Rightarrow> nat res" where
  "file_at s p fd =
     (if 0 \<le> sint fd \<and> sint fd < 100
      then (case pr_file (process_table s p) ! nat (sint fd) of None \<Rightarrow> Inl Null_deref | Some f \<Rightarrow> Inr f)
      else Inl Out_of_bounds)"

definition fcb_at :: "'a sys_scheme \<Rightarrow> nat \<Rightarrow> nat res" where
  "fcb_at s f = (case fd_fcb (file_desc_table s f) of None \<Rightarrow> Inl Null_deref | Some c \<Rightarrow> Inr c)"

definition upd_desc :: "nat \<Rightarrow> (file_desc \<Rightarrow> file_desc) \<Rightarrow> 'a sys_scheme \<Rightarrow> 'a sys_scheme" where
  "upd_desc f g s = s\<lparr>file_desc_table := (file_desc_table s)(f := g (file_desc_table s f))\<rparr>"

definition upd_fcb :: "nat \<Rightarrow> (fcb \<Rightarrow> fcb) \<Rightarrow> 'a sys_scheme \<Rightarrow> 'a sys_scheme" where
  "upd_fcb c g s = s\<lparr>fcb_table := (fcb_table s)(c := g (fcb_table s c))\<rparr>"

definition set_file :: "pref \<Rightarrow> nat \<Rightarrow> nat option \<Rightarrow> 'a sys_scheme \<Rightarrow> 'a sys_scheme" where
  "set_file p fd f s = upd_process p (\<lambda>r. r\<lparr>pr_file := (pr_file r)[fd := f]\<rparr>) s"

definition read_file ::
  "nat \<Rightarrow> pref \<Rightarrow> i32 \<Rightarrow> u64 \<Rightarrow> u32 \<Rightarrow> 'a sys_scheme \<Rightarrow> (u32 \<times> 'a sys_scheme) res" where
  "read_file cpu process fd buffer size0 s =
     rbind (file_at s process fd) (\<lambda>f.
     let position = fd_position (file_desc_table s f) in
     rbind (fcb_at s f) (\<lambda>c.
     let file_size = fc_file_size (fcb_table s c) in
     if file_size < position + size0 then Inr (- 1, s)
     else
       rbind (read_raw_data cpu (fc_cluster_index (fcb_table s c)) buffer position size0 s) (\<lambda>(read_size, s).
       Inr (read_size, upd_desc f (\<lambda>d. d\<lparr>fd_position := fd_position d + read_size\<rparr>) s))))"

text \<open>A control block is 32 bytes and a descriptor 16: a page holds this many of them.\<close>

definition FCB_COUNT :: nat where "FCB_COUNT = unat PAGE_SIZE div 32"

definition FILE_DESC_COUNT :: nat where "FILE_DESC_COUNT = unat PAGE_SIZE div 16"

definition get_fcb :: "u32 \<Rightarrow> 'a sys_scheme \<Rightarrow> (nat \<times> 'a sys_scheme) res" where
  "get_fcb index0 s =
     (let index = unat index0 in
      if FCB_COUNT \<le> index then Inl Out_of_bounds
      else
        (let s = (if fc_count (fcb_table s index) = 0
                  then (let e = dir_entry (mem s) index in
                        upd_fcb index (\<lambda>c. c\<lparr>fc_dir_index := index0, fc_file_size := de_file_size (mem s) e,
                            fc_cluster_index := ucast (de_cluster_index (mem s) e),
                            fc_name := de_name (mem s) e, fc_ext := de_ext (mem s) e\<rparr>) s)
                  else s);
             s = upd_fcb index (\<lambda>c. c\<lparr>fc_count := fc_count c + 1\<rparr>) s
         in Inr (index, s)))"

definition get_file_size :: "pref \<Rightarrow> i32 \<Rightarrow> 'a sys_scheme \<Rightarrow> u32 res" where
  "get_file_size process fd s =
     rbind (file_at s process fd) (\<lambda>f. rbind (fcb_at s f) (\<lambda>c. Inr (fc_file_size (fcb_table s c))))"

definition free_slot :: "process \<Rightarrow> nat option" where
  "free_slot r = find (\<lambda>i. pr_file r ! i = None) [0..<100]"

definition free_desc :: "(nat \<Rightarrow> file_desc) \<Rightarrow> nat option" where
  "free_desc t = find (\<lambda>i. fd_fcb (t i) = None) [0..<FILE_DESC_COUNT]"

definition open_file :: "pref \<Rightarrow> path \<Rightarrow> 'a sys_scheme \<Rightarrow> (i32 \<times> 'a sys_scheme) res" where
  "open_file process path_name s =
     (case free_slot (process_table s process) of
       None \<Rightarrow> Inr (- 1, s)
     | Some fd \<Rightarrow>
         (case free_desc (file_desc_table s) of
           None \<Rightarrow> Inr (- 1, s)
         | Some f \<Rightarrow>
             rbind (search_file (mem s) path_name) (\<lambda>entry_index.
             if entry_index = 0xffffffff then Inr (- 1, s)
             else
               rbind (get_fcb entry_index s) (\<lambda>(fcb_index, s).
               let s = upd_desc f (\<lambda>_. zero_file_desc\<lparr>fd_fcb := Some fcb_index, fd_count := 1\<rparr>) s;
                   s = set_file process fd (Some f) s
               in Inr (of_nat fd, s)))))"

definition put_fcb :: "nat \<Rightarrow> 'a sys_scheme \<Rightarrow> 'a sys_scheme res" where
  "put_fcb c s =
     kassert (0 < sint (fc_count (fcb_table s c))) ''src/file.c'' 269
       (Inr (upd_fcb c (\<lambda>r. r\<lparr>fc_count := fc_count r - 1\<rparr>) s))"

definition close_file :: "pref \<Rightarrow> i32 \<Rightarrow> 'a sys_scheme \<Rightarrow> 'a sys_scheme res" where
  "close_file process fd s =
     rbind (file_at s process fd) (\<lambda>f.
     rbind (fcb_at s f) (\<lambda>c.
     rbind (put_fcb c s) (\<lambda>s.
     let s = upd_desc f (\<lambda>d. d\<lparr>fd_count := fd_count d - 1\<rparr>) s;
         s = (if fd_count (file_desc_table s f) = 0 then upd_desc f (\<lambda>d. d\<lparr>fd_fcb := None\<rparr>) s else s)
     in Inr (set_file process (nat (sint fd)) None s))))"

section \<open>Start\<close>

definition init_fcb :: "'a sys_scheme \<Rightarrow> (bool \<times> 'a sys_scheme) res" where
  "init_fcb s =
     rbind (kalloc s) (\<lambda>(p, s).
     let s = s\<lparr>fcb_page := p\<rparr> in
     if p = 0 then Inr (False, s)
     else Inr (True, s\<lparr>mem := memset (mem s) p 0 (unat PAGE_SIZE), fcb_table := (\<lambda>_. zero_fcb)\<rparr>))"

definition init_file_desc :: "'a sys_scheme \<Rightarrow> (bool \<times> 'a sys_scheme) res" where
  "init_file_desc s =
     rbind (kalloc s) (\<lambda>(p, s).
     let s = s\<lparr>file_desc_page := p\<rparr> in
     if p = 0 then Inr (False, s)
     else Inr (True, s\<lparr>mem := memset (mem s) p 0 (unat PAGE_SIZE), file_desc_table := (\<lambda>_. zero_file_desc)\<rparr>))"

definition init_fs :: "'a sys_scheme \<Rightarrow> 'a sys_scheme res" where
  "init_fs s =
     (let p = get_fs_bpb (mem s) in
      if mem s (p + 0x1fe) \<noteq> 0x55 \<or> mem s (p + 0x1ff) \<noteq> 0xaa
      then rbind (printk (''invalid signature'' @ [CHR 0x0A]) [] s) (\<lambda>(n, s). Inl (Assert_failed ''src/file.c'' 311))
      else
        rbind (init_fcb s) (\<lambda>(ok, s).
        kassert ok ''src/file.c'' 314
        (rbind (init_file_desc s) (\<lambda>(ok, s).
        kassert ok ''src/file.c'' 315 (Inr s)))))"

definition read_root_directory :: "nat \<Rightarrow> u64 \<Rightarrow> 'a sys_scheme \<Rightarrow> (i32 \<times> 'a sys_scheme) res" where
  "read_root_directory cpu buffer s =
     (let e = get_root_directory (mem s);
          count = get_root_directory_count (mem s)
      in rbind (vmemcpy cpu buffer e (unat (count * 32)) s) (\<lambda>s. Inr (count, s)))"

end
