(* ===== verification/Boot_Code.thy ===== *)
theory Boot_Code
  imports Boot_Tables File_System
begin

text \<open>
  The first instructions of every core (src/src/boot.s): the drop from EL2 to EL1, the stacks, the
  boot page tables and the MMU (src/src/mmu.s), the copy of the file system image and the clearing of
  the bss section, up to the call of \<open>KMain\<close> on core 0 and of \<open>secondary_main\<close> on the others.

  The registers of a core are a record; the addresses the linker fixes (src/src/link.lds) are
  parameters.  Stack traffic of the called routines is not modelled.  \<open>invalidate_dcache\<close>, which
  nothing calls, is not either.
\<close>

section \<open>Registers and symbols\<close>

record boot_cpu =
  currentel :: u64
  mpidr_el1 :: u64
  boot_sp :: u64
  sctlr_el1 :: u64
  hcr_el2 :: u64
  spsr_el2 :: u64
  elr_el2 :: u64
  vbar_el1 :: u64
  ttbr0_el1 :: u64
  ttbr1_el1 :: u64
  mair_el1 :: u64
  tcr_el1 :: u64

text \<open>\<open>sym_tables\<close> and \<open>sym_el1_entry\<close> are physical, as \<open>adr\<close> finds them before the MMU is on.\<close>

record boot_image =
  sym_tables :: u64
  sym_el1_entry :: u64
  sym_stack_top :: u64
  sym_bss_start :: u64
  sym_bss_end :: u64
  sym_vector_table :: u64

section \<open>liba.s and mmu.s\<close>

definition getcpuid :: "boot_cpu \<Rightarrow> u64" where
  "getcpuid c = mpidr_el1 c AND 3"

definition get_el :: "boot_cpu \<Rightarrow> u64" where
  "get_el c = drop_bit 2 (currentel c)"

partial_function (option) delay :: "u64 \<Rightarrow> u64 option" where
  [code]: "delay x0 = (let x0 = x0 - 1 in if x0 \<noteq> 0 then delay x0 else Some x0)"

definition MAIR_ATTR :: u64 where "MAIR_ATTR = 0xFF OR push_bit 8 0xFF"

definition TCR_VALUE :: u64 where
  "TCR_VALUE = 16 OR push_bit 16 16 OR push_bit 14 0 OR push_bit 30 2 OR push_bit 12 3 OR push_bit 10 1 OR push_bit 8 1"

definition SCTLR_MMU_ENABLE :: u64 where "SCTLR_MMU_ENABLE = push_bit 0 1"
definition SCTLR_D_CACHE :: u64 where "SCTLR_D_CACHE = push_bit 2 1"
definition SCTLR_I_CACHE :: u64 where "SCTLR_I_CACHE = push_bit 12 1"

definition read_pgd :: "boot_cpu \<Rightarrow> u64" where
  "read_pgd c = ttbr0_el1 c"

definition load_pgd :: "u64 \<Rightarrow> boot_cpu \<Rightarrow> boot_cpu" where
  "load_pgd x0 c = c\<lparr>ttbr0_el1 := x0\<rparr>"

definition enable_mmu :: "boot_image \<Rightarrow> boot_cpu \<Rightarrow> boot_cpu" where
  "enable_mmu img c =
     (let c = c\<lparr>ttbr1_el1 := pgd_ttbr1 (sym_tables img)\<rparr>;
          c = c\<lparr>ttbr0_el1 := pgd_ttbr0 (sym_tables img)\<rparr>;
          c = c\<lparr>mair_el1 := MAIR_ATTR\<rparr>;
          c = c\<lparr>tcr_el1 := TCR_VALUE\<rparr>
      in c\<lparr>sctlr_el1 := sctlr_el1 c OR (SCTLR_MMU_ENABLE OR SCTLR_D_CACHE OR SCTLR_I_CACHE)\<rparr>)"

section \<open>boot.s\<close>

text \<open>The two constants at the top of boot.s; the address is the \<open>FS_BASE\<close> of src/include/file.h.\<close>

definition BOOT_FS_BASE :: u64 where "BOOT_FS_BASE = 0xffff000030000000"
definition FS_SIZE :: nat where "FS_SIZE = 101 * 16 * 63 * 512"

text \<open>Where a core ends up: in the C code, or in the loop \<open>end\<close>.\<close>

datatype boot_end = In_KMain | In_secondary_main | Parked

text \<open>Return from EL2: the level comes from bits 3 and 2 of the saved status.\<close>

definition eret_el2 :: "boot_cpu \<Rightarrow> boot_cpu" where
  "eret_el2 c = c\<lparr>currentel := push_bit 2 (drop_bit 2 (spsr_el2 c) AND 3)\<rparr>"

definition slave_loop :: "boot_image \<Rightarrow> memory \<Rightarrow> boot_cpu \<Rightarrow> boot_end \<times> memory \<times> boot_cpu" where
  "slave_loop img m c = (In_secondary_main, m, (enable_mmu img c)\<lparr>vbar_el1 := sym_vector_table img\<rparr>)"

definition master_init :: "boot_image \<Rightarrow> memory \<Rightarrow> boot_cpu \<Rightarrow> (boot_end \<times> memory \<times> boot_cpu) option" where
  "master_init img m c =
     (let c = c\<lparr>boot_sp := 0x80000\<rparr>
      in Option.bind (setup_vm2 (sym_tables img) m) (\<lambda>m.
         let c = enable_mmu img c;
             m = memcpy m BOOT_FS_BASE (sym_bss_start img) FS_SIZE;
             m = memset m (sym_bss_start img) 0 (unat (sym_bss_end img - sym_bss_start img));
             c = c\<lparr>vbar_el1 := sym_vector_table img\<rparr>;
             c = c\<lparr>boot_sp := sym_stack_top img\<rparr>
         in Some (In_KMain, m, c)))"

definition el1_entry :: "boot_image \<Rightarrow> memory \<Rightarrow> boot_cpu \<Rightarrow> (boot_end \<times> memory \<times> boot_cpu) option" where
  "el1_entry img m c =
     (let x0 = mpidr_el1 c AND 0xFF;
          x2 = x0 * 4096;
          c = c\<lparr>boot_sp := sym_stack_top img - x2\<rparr>
      in if x0 = 0 then master_init img m c else Some (slave_loop img m c))"

text \<open>The label \<open>kernel_entry\<close>.\<close>

definition from_el2 :: "boot_image \<Rightarrow> memory \<Rightarrow> boot_cpu \<Rightarrow> (boot_end \<times> memory \<times> boot_cpu) option" where
  "from_el2 img m c =
     (if drop_bit 2 (currentel c) \<noteq> 2 then Some (Parked, m, c)
      else
        let c = c\<lparr>sctlr_el1 := 0\<rparr>;
            c = c\<lparr>hcr_el2 := push_bit 31 1\<rparr>;
            c = c\<lparr>spsr_el2 := 0b1111000101\<rparr>;
            c = c\<lparr>elr_el2 := sym_el1_entry img\<rparr>
        in el1_entry img m (eret_el2 c))"

definition start :: "boot_image \<Rightarrow> memory \<Rightarrow> boot_cpu \<Rightarrow> (boot_end \<times> memory \<times> boot_cpu) option" where
  "start img m c =
     (let x0 = drop_bit 2 (currentel c)
      in if x0 = 2 then from_el2 img m c
         else if x0 = 1 then el1_entry img m c
         else Some (Parked, m, c))"

section \<open>Lemmas\<close>

lemma boot_fs_base: "BOOT_FS_BASE = FS_BASE" "unat FS_BASE = 0xffff000030000000" "FS_SIZE = 52125696"
  by (simp_all add: BOOT_FS_BASE_def FS_BASE_def FS_SIZE_def P2V_def KERNEL_BASE_def)

lemma delay_returns: "delay x = Some 0"
proof -
  have "delay x = Some 0" if "unat (x - 1) = n" for n
    using that
  proof (induction n arbitrary: x)
    case 0
    then have "x - 1 = 0" by (simp add: unat_eq_0)
    then show ?case by (subst delay.simps) simp
  next
    case (Suc n)
    then have z: "x - 1 \<noteq> 0" by auto
    have "unat (x - 1 - 1) = n" using unat_minus_one [OF z] Suc.prems by linarith
    from Suc.IH [OF this] show ?case using z by (subst delay.simps) (simp only: Let_def if_True not_False_eq_True simp_thms)
  qed
  then show ?thesis by blast
qed

lemma enable_mmu_sel:
  "ttbr1_el1 (enable_mmu img c) = pgd_ttbr1 (sym_tables img)" "ttbr0_el1 (enable_mmu img c) = pgd_ttbr0 (sym_tables img)"
  "currentel (enable_mmu img c) = currentel c" "mpidr_el1 (enable_mmu img c) = mpidr_el1 c"
  "boot_sp (enable_mmu img c) = boot_sp c" "sctlr_el1 (enable_mmu img c) = sctlr_el1 c OR 0x1005"
  by (simp_all add: enable_mmu_def SCTLR_MMU_ENABLE_def SCTLR_D_CACHE_def SCTLR_I_CACHE_def)

text \<open>The image in memory, as the linker script and the loader lay it out.\<close>

definition image_ok :: "boot_image \<Rightarrow> memory \<Rightarrow> bool" where
  "image_ok img m \<longleftrightarrow> take_bit 12 (sym_tables img) = 0 \<and> (\<forall>i < 3584. load64 m (P2V (sym_tables img) + of_nat (8 * i)) = 0) \<and>
     KERNEL_BASE \<le> sym_bss_start img \<and> P2V (sym_tables img) \<ge> KERNEL_BASE \<and>
     unat (P2V (sym_tables img)) + 7 * 4096 \<le> unat (sym_bss_start img) \<and>
     sym_bss_start img \<le> sym_bss_end img \<and> sym_bss_end img \<le> FS_BASE \<and>
     unat (sym_bss_start img) + FS_SIZE \<le> unat FS_BASE"

lemma image_okD:
  assumes "image_ok img m"
  shows "take_bit 12 (sym_tables img) = 0" "\<forall>i < 3584. boot_words (sym_tables img) m i = 0" "unat (sym_tables img) < 2 ^ 40"
    "unat (P2V (sym_tables img)) + 7 * 4096 \<le> unat (sym_bss_start img)" "sym_bss_start img \<le> sym_bss_end img"
    "unat (sym_bss_end img) \<le> unat FS_BASE" "unat (sym_bss_start img) + FS_SIZE \<le> unat FS_BASE"
proof -
  have t: "KERNEL_BASE \<le> P2V (sym_tables img)" "unat (P2V (sym_tables img)) < 0xffff000030000000"
    using assms boot_fs_base(2) by (simp_all add: image_ok_def)
  have "sym_tables img = P2V (sym_tables img) - KERNEL_BASE" by (simp add: P2V_def)
  then have "unat (sym_tables img) = unat (P2V (sym_tables img)) - unat KERNEL_BASE"
    using unat_diff_le [OF t(1)] by metis
  then show "unat (sym_tables img) < 2 ^ 40" using t(2) by (simp add: KERNEL_BASE_def)
qed (use assms in \<open>simp_all add: image_ok_def boot_words_def boot_addr_def word_le_nat_alt\<close>)

text \<open>What \<open>master_init\<close> leaves in memory.\<close>

definition booted :: "boot_image \<Rightarrow> memory \<Rightarrow> memory \<Rightarrow> bool" where
  "booted img m t \<longleftrightarrow>
     (\<forall>i < FS_SIZE. t (FS_BASE + of_nat i) = m (sym_bss_start img + of_nat i)) \<and>
     (\<forall>x. sym_bss_start img \<le> x \<and> x < sym_bss_end img \<longrightarrow> t x = 0) \<and>
     (\<forall>v. KERNEL_BASE \<le> v \<longrightarrow> mmu_walk t (pgd_ttbr1 (sym_tables img)) v =
        (if V2P v < RAM_MAX_ADDR \<or> 0x3f000000 \<le> V2P v \<and> V2P v < LOCAL_PERIPH_END then Some (V2P v) else None)) \<and>
     (\<forall>v < 2 ^ 48. mmu_walk t (pgd_ttbr0 (sym_tables img)) v = (if v < PAGE_SIZE then Some v else None)) \<and>
     (\<forall>x. \<not> in_range (P2V (sym_tables img)) (7 * 4096) x \<and> \<not> in_range FS_BASE FS_SIZE x \<and>
        \<not> (sym_bss_start img \<le> x \<and> x < sym_bss_end img) \<longrightarrow> t x = m x)"

lemma master_init_run:
  assumes ok: "image_ok img m"
  shows "\<exists>t. master_init img m c =
      Some (In_KMain, t, (enable_mmu img (c\<lparr>boot_sp := 0x80000\<rparr>))\<lparr>vbar_el1 := sym_vector_table img, boot_sp := sym_stack_top img\<rparr>) \<and>
    booted img m t"
proof -
  let ?B = "sym_tables img" and ?s = "sym_bss_start img" and ?e = "sym_bss_end img"
  note D = image_okD [OF ok] and F = boot_fs_base
  obtain m1 where m1: "setup_vm2 ?B m = Some m1" and rep: "boot_rep ?B m (boot_array ?B BOOT_NORMAL_ATTR (boot_words ?B m)) m1"
    using setup_vm2_run by blast
  define m2 where "m2 = memcpy m1 FS_BASE ?s FS_SIZE"
  define t where "t = memset m2 ?s 0 (unat (?e - ?s))"
  have n: "unat (?e - ?s) = unat ?e - unat ?s" by (rule unat_diff_le [OF D(5)])
  have e: "unat ?e < 2 ^ 64" "unat ?s \<le> unat ?e" using D(5) unsigned_less [of ?e, where ?'a = nat] by (simp_all add: word_le_nat_alt)
  have bss: "in_range ?s (unat (?e - ?s)) x \<longleftrightarrow> ?s \<le> x \<and> x < ?e" for x
    using in_range_bounds [of ?s "unat (?e - ?s)" x] n e by (simp add: word_le_nat_alt word_less_nat_alt)
  have fs: "in_range FS_BASE FS_SIZE x \<longleftrightarrow> unat FS_BASE \<le> unat x \<and> unat x < unat FS_BASE + FS_SIZE" for x
    by (rule in_range_bounds) (simp add: F)
  have m2: "m2 x = (if in_range FS_BASE FS_SIZE x then m1 (?s + (x - FS_BASE)) else m1 x)" for x
    unfolding m2_def by (rule memcpy_apply) (use D(7) F in simp_all)
  have t: "t x = (if ?s \<le> x \<and> x < ?e then 0 else m2 x)" for x
    unfolding t_def bss [symmetric] by (rule memset_apply) (use n e in simp)
  have tab: "\<not> in_range (P2V ?B) (7 * 4096) x" if "unat ?s \<le> unat x" for x
    using in_range_bounds [of "P2V ?B" "7 * 4096" x] D(4) e that by simp
  have keep: "t x = m1 x" if "unat x < unat ?s" for x
    using t [of x] m2 [of x] fs [of x] that D(7) by (simp add: word_le_nat_alt)
  have words: "boot_words ?B t i = boot_words ?B m1 i" if "i < 3584" for i
  proof -
    have b: "unat (P2V ?B) + 8 * i + 8 \<le> unat ?s" using D(4) that by simp
    have a: "unat (boot_addr ?B i) = unat (P2V ?B) + 8 * i"
      using b e unfolding boot_addr_def by (intro unat_plus_of_nat) simp
    show ?thesis
      unfolding boot_words_def
    proof (rule load64_cong)
      fix x assume "in_range (boot_addr ?B i) 8 x"
      then show "t x = m1 x" using in_range_bounds [of "boot_addr ?B i" 8 x] a b e keep [of x] by simp
    qed
  qed
  have "boot_rep ?B t (boot_array ?B BOOT_NORMAL_ATTR (boot_words ?B m)) t"
    using rep words by (simp add: boot_rep_def)
  note w = boot_maps [OF this D(2,1,3) boot_attrs(4)]
  have "booted img m t"
    unfolding booted_def
  proof (intro conjI allI impI)
    fix i assume i: "i < FS_SIZE"
    have u: "unat (of_nat i :: u64) = i" using i F by (intro unat_small) simp
    have x: "unat (FS_BASE + of_nat i) = unat FS_BASE + i" "unat (?s + of_nat i) = unat ?s + i"
      using i F D(7) by (intro unat_plus_of_nat; simp)+
    have "in_range FS_BASE FS_SIZE (FS_BASE + of_nat i)" using fs i x by simp
    then have "t (FS_BASE + of_nat i) = m1 (?s + of_nat i)"
      using t [of "FS_BASE + of_nat i"] m2 [of "FS_BASE + of_nat i"] x D(6) by (simp add: word_less_nat_alt)
    also have "\<dots> = m (?s + of_nat i)" using rep tab [of "?s + of_nat i"] x by (simp add: boot_rep_def)
    finally show "t (FS_BASE + of_nat i) = m (?s + of_nat i)" .
  next
    show "t x = 0" if "?s \<le> x \<and> x < ?e" for x using t that by simp
  next
    show "mmu_walk t (pgd_ttbr1 ?B) v =
        (if V2P v < RAM_MAX_ADDR \<or> 0x3f000000 \<le> V2P v \<and> V2P v < LOCAL_PERIPH_END then Some (V2P v) else None)"
      if "KERNEL_BASE \<le> v" for v by (rule w(1) [OF that])
  next
    show "mmu_walk t (pgd_ttbr0 ?B) v = (if v < PAGE_SIZE then Some v else None)" if "v < 2 ^ 48" for v by (rule w(2) [OF that])
  next
    fix x assume "\<not> in_range (P2V ?B) (7 * 4096) x \<and> \<not> in_range FS_BASE FS_SIZE x \<and> \<not> (?s \<le> x \<and> x < ?e)"
    then show "t x = m x" using t m2 rep by (auto simp: boot_rep_def)
  qed
  moreover have "master_init img m c =
      Some (In_KMain, t, (enable_mmu img (c\<lparr>boot_sp := 0x80000\<rparr>))\<lparr>vbar_el1 := sym_vector_table img, boot_sp := sym_stack_top img\<rparr>)"
    by (simp add: master_init_def m1 m2_def t_def F(1) Let_def)
  ultimately show ?thesis by blast
qed

section \<open>Properties\<close>

text \<open>
  C15: Booting.  A core that starts in EL2 or EL1 with the image in memory arrives in the C code in
  EL1 with the MMU and the caches on, its own stack and the vector table: core 0 in \<open>KMain\<close>, the others in
  \<open>secondary_main\<close> without having touched memory.  By then core 0 has copied the file system image
  from behind the kernel to \<open>FS_BASE\<close> before clearing the bss section over it, the boot tables map exactly
  RAM and the devices for the kernel and the first 2 MiB for the user half, and no other byte has changed.
\<close>

theorem boot_correct:
  assumes "image_ok img m" "drop_bit 2 (currentel c) \<in> {1, 2}"
  shows "\<exists>e t d. start img m c = Some (e, t, d) \<and> get_el d = 1 \<and> sctlr_el1 d AND 0x1005 = 0x1005 \<and>
    boot_sp d = sym_stack_top img - (mpidr_el1 c AND 0xFF) * 4096 \<and> vbar_el1 d = sym_vector_table img \<and>
    ttbr1_el1 d = pgd_ttbr1 (sym_tables img) \<and> ttbr0_el1 d = pgd_ttbr0 (sym_tables img) \<and>
    (if mpidr_el1 c AND 0xFF = 0 then e = In_KMain \<and> booted img m t else e = In_secondary_main \<and> t = m)"
proof -
  have entry: "\<exists>e t d. el1_entry img m b = Some (e, t, d) \<and> get_el d = get_el b \<and> sctlr_el1 d AND 0x1005 = 0x1005 \<and>
    boot_sp d = sym_stack_top img - (mpidr_el1 b AND 0xFF) * 4096 \<and> vbar_el1 d = sym_vector_table img \<and>
    ttbr1_el1 d = pgd_ttbr1 (sym_tables img) \<and> ttbr0_el1 d = pgd_ttbr0 (sym_tables img) \<and>
    (if mpidr_el1 b AND 0xFF = 0 then e = In_KMain \<and> booted img m t else e = In_secondary_main \<and> t = m)" for b
  proof -
    have o: "(w OR 0x1005) AND 0x1005 = (0x1005 :: u64)" for w by (auto intro!: bit_word_eqI simp: bit_simps)
    show ?thesis
      using master_init_run [OF assms(1), of "b\<lparr>boot_sp := sym_stack_top img\<rparr>"]
      by (auto simp: el1_entry_def slave_loop_def enable_mmu_sel get_el_def o Let_def)
  qed
  show ?thesis
  proof (cases "drop_bit 2 (currentel c) = 1")
    case True
    then have "start img m c = el1_entry img m c" "get_el c = 1" by (simp_all add: start_def get_el_def)
    then show ?thesis using entry [of c] by simp
  next
    case False
    then have l: "drop_bit 2 (currentel c) = 2" using assms(2) by simp
    define b where "b = eret_el2 (c\<lparr>sctlr_el1 := 0, hcr_el2 := push_bit 31 1, spsr_el2 := 0b1111000101, elr_el2 := sym_el1_entry img\<rparr>)"
    have "start img m c = el1_entry img m b" using l by (simp add: start_def from_el2_def b_def)
    moreover have "get_el b = 1" "mpidr_el1 b = mpidr_el1 c" by (simp_all add: b_def eret_el2_def get_el_def)
    ultimately show ?thesis using entry [of b] by simp
  qed
qed

text \<open>An image with one byte of a file system behind it.\<close>

theorem boot_correct_witness:
  "\<exists>t d. start \<lparr>sym_tables = 0x90000, sym_el1_entry = 0x80100, sym_stack_top = 0xffff0000000b4000, sym_bss_start = 0xffff0000000a0000,
        sym_bss_end = 0xffff0000000b0000, sym_vector_table = 0xffff000000081000\<rparr> ((\<lambda>_. 0)(0xffff0000000a0005 := 7))
      \<lparr>currentel = 8, mpidr_el1 = 0x80000000, boot_sp = 0, sctlr_el1 = 0, hcr_el2 = 0, spsr_el2 = 0, elr_el2 = 0, vbar_el1 = 0,
        ttbr0_el1 = 0, ttbr1_el1 = 0, mair_el1 = 0, tcr_el1 = 0\<rparr> = Some (In_KMain, t, d) \<and>
    get_el d = 1 \<and> t 0xffff000030000005 = 7 \<and> t 0xffff0000000a0005 = 0 \<and>
    mmu_walk t (ttbr1_el1 d) 0xffff00003f201000 = Some 0x3f201000"
proof -
  let ?img = "\<lparr>sym_tables = 0x90000, sym_el1_entry = 0x80100, sym_stack_top = 0xffff0000000b4000, sym_bss_start = 0xffff0000000a0000,
        sym_bss_end = 0xffff0000000b0000, sym_vector_table = 0xffff000000081000\<rparr> :: boot_image"
  let ?m = "(\<lambda>_. 0)(0xffff0000000a0005 := 7) :: memory"
  let ?c = "\<lparr>currentel = 8, mpidr_el1 = 0x80000000, boot_sp = 0, sctlr_el1 = 0, hcr_el2 = 0, spsr_el2 = 0, elr_el2 = 0, vbar_el1 = 0,
        ttbr0_el1 = 0, ttbr1_el1 = 0, mair_el1 = 0, tcr_el1 = 0\<rparr> :: boot_cpu"
  have z: "load64 ?m (P2V 0x90000 + of_nat (8 * i)) = 0" if "i < 3584" for i
  proof -
    have u: "unat (P2V 0x90000 + of_nat (8 * i)) = 0xffff000000090000 + 8 * i"
      using that unat_plus_of_nat [of "P2V 0x90000" "8 * i"] by (simp add: P2V_def KERNEL_BASE_def)
    have "load64 ?m (P2V 0x90000 + of_nat (8 * i)) = load64 (\<lambda>_. 0) (P2V 0x90000 + of_nat (8 * i))"
    proof (rule load64_cong)
      fix x assume "in_range (P2V 0x90000 + of_nat (8 * i)) 8 x"
      then have "unat x < 0xffff000000090000 + 8 * i + 8"
        using in_range_bounds [of "P2V 0x90000 + of_nat (8 * i)" 8 x] u that by simp
      then have "x \<noteq> 0xffff0000000a0005" using that by auto
      then show "?m x = 0" by simp
    qed
    then show ?thesis by (simp only: load64_zero)
  qed
  have fs: "FS_BASE = 0xffff000030000000" by (simp add: FS_BASE_def P2V_def KERNEL_BASE_def)
  have ok: "image_ok ?img ?m"
    using z by (simp add: image_ok_def fs FS_SIZE_def) (simp add: P2V_def KERNEL_BASE_def)
  have l: "drop_bit 2 (currentel ?c) \<in> {1, 2}" by simp
  obtain t d where t: "start ?img ?m ?c = Some (In_KMain, t, d)" "get_el d = 1" "ttbr1_el1 d = pgd_ttbr1 0x90000" "booted ?img ?m t"
    using boot_correct [OF ok l] by auto
  have b: "\<forall>i < FS_SIZE. t (FS_BASE + of_nat i) = ?m (0xffff0000000a0000 + of_nat i)"
    "\<forall>x. 0xffff0000000a0000 \<le> x \<and> x < 0xffff0000000b0000 \<longrightarrow> t x = 0"
    "\<forall>v. KERNEL_BASE \<le> v \<longrightarrow> mmu_walk t (pgd_ttbr1 0x90000) v =
        (if V2P v < RAM_MAX_ADDR \<or> 0x3f000000 \<le> V2P v \<and> V2P v < LOCAL_PERIPH_END then Some (V2P v) else None)"
    using t(4) by (simp_all add: booted_def)
  have "t 0xffff000030000005 = 7" using b(1) [rule_format, of 5] by (simp add: fs FS_SIZE_def)
  moreover have "t 0xffff0000000a0005 = 0" using b(2) by simp
  moreover have "mmu_walk t (ttbr1_el1 d) 0xffff00003f201000 = Some 0x3f201000"
    using b(3) t(3) by (simp add: KERNEL_BASE_def V2P_def RAM_MAX_ADDR_def LOCAL_PERIPH_END_def)
  ultimately show ?thesis using t(1,2) by blast
qed

end
