(* ===== verification/Head_List.thy ===== *)
theory Head_List
  imports Kernel_Objects
begin

text \<open>
  The singly linked lists of src/src/lib.c (\<open>append_list_tail\<close>, \<open>remove_list_head\<close>, \<open>is_list_empty\<close>,
  \<open>get_list_count\<close>, \<open>remove_list\<close>), which hold the ready, waiting and killed processes, over the
  process table that stores their links.  The interface \<open>fifo\<close> states what the lists promise: each
  is a sequence, appending adds at the end, taking the head is first-in first-out, and removal by
  the wait value takes the first match.  It is interpreted on the C functions.
\<close>

section \<open>The operations\<close>

definition set_link :: "pref \<Rightarrow> pref option \<Rightarrow> 'a sys_scheme \<Rightarrow> 'a sys_scheme" where
  "set_link p q s = upd_process p (\<lambda>r. r\<lparr>pr_next := q\<rparr>) s"

definition set_head :: "list_id \<Rightarrow> headlist \<Rightarrow> 'a sys_scheme \<Rightarrow> 'a sys_scheme" where
  "set_head l h s = s\<lparr>head_lists := (head_lists s)(l := h)\<rparr>"

definition is_list_empty :: "list_id \<Rightarrow> 'a sys_scheme \<Rightarrow> bool" where
  "is_list_empty l s \<longleftrightarrow> h_next (head_lists s l) = None"

definition append_list_tail :: "list_id \<Rightarrow> pref \<Rightarrow> 'a sys_scheme \<Rightarrow> 'a sys_scheme res" where
  "append_list_tail l item s =
     rbind (spin_lock List_lock s) (\<lambda>s.
     let s = set_link item None s in
     rbind
       (if is_list_empty l s
        then Inr (set_head l \<lparr>h_next = Some item, h_tail = Some item\<rparr> s)
        else case h_tail (head_lists s l) of
            None \<Rightarrow> Inl Null_deref
          | Some t \<Rightarrow>
              (let s = set_link t (Some item) s
               in Inr (set_head l ((head_lists s l)\<lparr>h_tail := Some item\<rparr>) s)))
       (\<lambda>s. Inr (spin_unlock List_lock s)))"

text \<open>When the list becomes empty, the lock is released before the tail is cleared, and again after.\<close>

definition remove_list_head :: "list_id \<Rightarrow> 'a sys_scheme \<Rightarrow> (pref option \<times> 'a sys_scheme) res" where
  "remove_list_head l s =
     rbind (spin_lock List_lock s) (\<lambda>s.
     case h_next (head_lists s l) of
       None \<Rightarrow> Inr (None, spin_unlock List_lock s)
     | Some item \<Rightarrow>
         (let s = set_head l ((head_lists s l)\<lparr>h_next := pr_next (process_table s item)\<rparr>) s;
              s = (if h_next (head_lists s l) = None
                   then (let s = spin_unlock List_lock s
                         in set_head l ((head_lists s l)\<lparr>h_tail := None\<rparr>) s)
                   else s)
          in Inr (Some item, spin_unlock List_lock s)))"

partial_function (option) count_from :: "(pref \<Rightarrow> process) \<Rightarrow> pref option \<Rightarrow> nat \<Rightarrow> nat option" where
  [code]: "count_from pt current n =
     (case current of
       None \<Rightarrow> Some n
     | Some p \<Rightarrow> count_from pt (pr_next (pt p)) (n + 1))"

definition get_list_count :: "list_id \<Rightarrow> 'a sys_scheme \<Rightarrow> nat res" where
  "get_list_count l s =
     (case count_from (process_table s) (h_next (head_lists s l)) 0 of
       None \<Rightarrow> Inl Diverge | Some n \<Rightarrow> Inr n)"

text \<open>
  The search loop of \<open>remove_list\<close>: \<open>prev\<close> is \<open>None\<close> while it is the list head itself.  The result
  is the match and its predecessor.
\<close>

partial_function (option) scan_list ::
  "(pref \<Rightarrow> process) \<Rightarrow> i32 \<Rightarrow> pref option \<Rightarrow> pref option \<Rightarrow> (pref option \<times> pref) option option" where
  [code]: "scan_list pt w prev current =
     (if current = None then Some None
      else if pr_wait (pt (the current)) = w then Some (Some (prev, the current))
      else scan_list pt w current (pr_next (pt (the current))))"

definition remove_list :: "list_id \<Rightarrow> i32 \<Rightarrow> 'a sys_scheme \<Rightarrow> (pref option \<times> 'a sys_scheme) res" where
  "remove_list l w s =
     (case scan_list (process_table s) w None (h_next (head_lists s l)) of
       None \<Rightarrow> Inl Diverge
     | Some None \<Rightarrow> Inr (None, s)
     | Some (Some (prev, current)) \<Rightarrow>
         (let nx = pr_next (process_table s current);
              s = (case prev of
                     None \<Rightarrow> set_head l ((head_lists s l)\<lparr>h_next := nx\<rparr>) s
                   | Some q \<Rightarrow> set_link q nx s);
              s = (if h_next (head_lists s l) = None
                   then set_head l ((head_lists s l)\<lparr>h_tail := None\<rparr>) s
                   else if nx = None
                   then set_head l ((head_lists s l)\<lparr>h_tail := prev\<rparr>) s
                   else s)
          in Inr (Some current, s)))"

section \<open>The interface\<close>

text \<open>
  \<open>rep s Q\<close>: in state \<open>s\<close> list \<open>l\<close> holds the sequence \<open>Q l\<close>.  \<open>frame s t\<close>: \<open>t\<close> differs from \<open>s\<close>
  in the links only; in particular the key by which items are removed is the same.
\<close>

locale fifo =
  fixes enq :: "'l \<Rightarrow> 'p \<Rightarrow> 's \<Rightarrow> 's res"
    and deq :: "'l \<Rightarrow> 's \<Rightarrow> ('p option \<times> 's) res"
    and rem :: "'l \<Rightarrow> 'k \<Rightarrow> 's \<Rightarrow> ('p option \<times> 's) res"
    and rep :: "'s \<Rightarrow> ('l \<Rightarrow> 'p list) \<Rightarrow> bool"
    and key :: "'s \<Rightarrow> 'p \<Rightarrow> 'k"
    and frame :: "'s \<Rightarrow> 's \<Rightarrow> bool"
  assumes enq_law: "rep s Q \<Longrightarrow> \<forall>l. p \<notin> set (Q l) \<Longrightarrow>
      \<exists>t. enq l p s = Inr t \<and> rep t (Q(l := Q l @ [p])) \<and> frame s t"
    and deq_law: "rep s Q \<Longrightarrow>
      \<exists>t. deq l s = Inr (case Q l of [] \<Rightarrow> None | p # _ \<Rightarrow> Some p, t) \<and> rep t (Q(l := tl (Q l))) \<and> frame s t"
    and rem_law: "rep s Q \<Longrightarrow>
      \<exists>t. rem l k s = Inr (find (\<lambda>p. key s p = k) (Q l), t) \<and>
        rep t (Q(l := (case find (\<lambda>p. key s p = k) (Q l) of None \<Rightarrow> Q l | Some p \<Rightarrow> remove1 p (Q l)))) \<and>
        frame s t"
    and rep_distinct: "rep s Q \<Longrightarrow> distinct (Q l)"
    and rep_disjoint: "rep s Q \<Longrightarrow> l \<noteq> l' \<Longrightarrow> set (Q l) \<inter> set (Q l') = {}"
    and frame_refl: "frame s s"
    and frame_trans: "frame s t \<Longrightarrow> frame t u \<Longrightarrow> frame s u"
    and frame_key: "frame s t \<Longrightarrow> key t p = key s p"
begin

text \<open>Taking \<open>n\<close> items from the head of a list, and appending items one after the other.\<close>

primrec drain :: "nat \<Rightarrow> 'l \<Rightarrow> 's \<Rightarrow> ('p list \<times> 's) res" where
  "drain 0 l s = Inr ([], s)"
| "drain (Suc n) l s =
     rbind (deq l s) (\<lambda>(p, s).
     case p of None \<Rightarrow> Inr ([], s) | Some x \<Rightarrow> rbind (drain n l s) (\<lambda>(xs, s). Inr (x # xs, s)))"

primrec fill :: "'l \<Rightarrow> 'p list \<Rightarrow> 's \<Rightarrow> 's res" where
  "fill l [] s = Inr s"
| "fill l (p # ps) s = rbind (enq l p s) (\<lambda>s. fill l ps s)"

lemma drain_take:
  "rep s Q \<Longrightarrow> \<exists>t. drain n l s = Inr (take n (Q l), t) \<and> rep t (Q(l := drop n (Q l))) \<and> frame s t"
proof (induction n arbitrary: s Q)
  case 0
  then show ?case by (simp add: frame_refl)
next
  case (Suc n)
  obtain u where u: "deq l s = Inr (case Q l of [] \<Rightarrow> None | p # _ \<Rightarrow> Some p, u)"
      "rep u (Q(l := tl (Q l)))" "frame s u"
    using deq_law [OF Suc.prems] by blast
  show ?case
  proof (cases "Q l")
    case Nil
    then show ?thesis using u by (auto simp del: fun_upd_apply)
  next
    case (Cons x xs)
    obtain t where t: "drain n l u = Inr (take n xs, t)" "rep t (Q(l := drop n xs))" "frame u t"
      using Suc.IH [OF u(2)] Cons by (auto simp: fun_upd_same simp del: fun_upd_apply)
    then show ?thesis
      using u(1) Cons frame_trans [OF u(3) t(3)] by (auto simp del: fun_upd_apply)
  qed
qed

lemma fill_append:
  "rep s Q \<Longrightarrow> distinct ps \<Longrightarrow> \<forall>l. set ps \<inter> set (Q l) = {} \<Longrightarrow>
    \<exists>t. fill l ps s = Inr t \<and> rep t (Q(l := Q l @ ps)) \<and> frame s t"
proof (induction ps arbitrary: s Q)
  case Nil
  then show ?case by (simp add: frame_refl)
next
  case (Cons p ps)
  obtain u where u: "enq l p s = Inr u" "rep u (Q(l := Q l @ [p]))" "frame s u"
    using enq_law [OF Cons.prems(1), of p l] Cons.prems(3) by auto
  have fresh: "\<forall>l'. set ps \<inter> set ((Q(l := Q l @ [p])) l') = {}" using Cons.prems(2,3) by auto
  obtain t where t: "fill l ps u = Inr t" "rep t (Q(l := Q l @ p # ps))" "frame u t"
    using Cons.IH [OF u(2) _ fresh] Cons.prems(2) by (auto simp: fun_upd_same simp del: fun_upd_apply)
  then show ?case using u(1) frame_trans [OF u(3) t(3)] by (auto simp del: fun_upd_apply)
qed

text \<open>What is appended comes out in the same order, behind what was there.\<close>

lemma first_in_first_out:
  assumes "rep s Q" "distinct ps" "\<forall>l. set ps \<inter> set (Q l) = {}"
  shows "\<exists>u t. fill l ps s = Inr u \<and> drain (length (Q l) + length ps) l u = Inr (Q l @ ps, t) \<and>
    rep t (Q(l := [])) \<and> frame s t"
proof -
  obtain u where u: "fill l ps s = Inr u" "rep u (Q(l := Q l @ ps))" "frame s u"
    using fill_append [OF assms] by blast
  obtain t where t: "drain (length (Q l) + length ps) l u = Inr (Q l @ ps, t)" "rep t (Q(l := []))" "frame u t"
    using drain_take [OF u(2), of "length (Q l) + length ps" l] by auto
  then show ?thesis using u(1) frame_trans [OF u(3) t(3)] by blast
qed

end

section \<open>The links of lib.c\<close>

fun chain :: "(pref \<Rightarrow> process) \<Rightarrow> pref option \<Rightarrow> pref list \<Rightarrow> bool" where
  "chain pt c [] \<longleftrightarrow> c = None"
| "chain pt c (x # xs) \<longleftrightarrow> c = Some x \<and> chain pt (pr_next (pt x)) xs"

definition queue_rep :: "(pref \<Rightarrow> process) \<Rightarrow> headlist \<Rightarrow> pref list \<Rightarrow> bool" where
  "queue_rep pt h xs \<longleftrightarrow> chain pt (h_next h) xs \<and> distinct xs \<and>
     h_tail h = (if xs = [] then None else Some (last xs))"

definition lists_rep :: "'a sys_scheme \<Rightarrow> (list_id \<Rightarrow> pref list) \<Rightarrow> bool" where
  "lists_rep s Q \<longleftrightarrow> \<not> locks s List_lock \<and> (\<forall>l. queue_rep (process_table s) (head_lists s l) (Q l)) \<and>
     (\<forall>l l'. l \<noteq> l' \<longrightarrow> set (Q l) \<inter> set (Q l') = {})"

definition links_only :: "'a sys_scheme \<Rightarrow> 'a sys_scheme \<Rightarrow> bool" where
  "links_only s t \<longleftrightarrow> t = s\<lparr>process_table := process_table t, head_lists := head_lists t\<rparr> \<and>
     (\<forall>p. process_table t p = (process_table s p)\<lparr>pr_next := pr_next (process_table t p)\<rparr>)"

lemma chain_cong: "(\<And>x. x \<in> set xs \<Longrightarrow> pr_next (pt' x) = pr_next (pt x)) \<Longrightarrow> chain pt' c xs = chain pt c xs"
  by (induction xs arbitrary: c) auto

lemma queue_rep_cong:
  "(\<And>x. x \<in> set xs \<Longrightarrow> pr_next (pt' x) = pr_next (pt x)) \<Longrightarrow> queue_rep pt' h xs = queue_rep pt h xs"
  unfolding queue_rep_def using chain_cong [of xs pt' pt] by simp

lemma chain_append:
  "chain pt c (xs @ [y]) \<longleftrightarrow>
     (if xs = [] then c = Some y else chain (pt(last xs := (pt (last xs))\<lparr>pr_next := None\<rparr>)) c xs \<and>
        pr_next (pt (last xs)) = Some y) \<and> pr_next (pt y) = None" if "distinct (xs @ [y])"
  using that
proof (induction xs arbitrary: c)
  case Nil
  then show ?case by simp
next
  case (Cons x xs)
  show ?case
  proof (cases "xs = []")
    case True
    then show ?thesis by auto
  next
    case False
    then have "x \<noteq> last xs" using Cons.prems by auto
    then show ?thesis using Cons False by auto
  qed
qed

subsection \<open>One list\<close>

lemma queue_rep_append:
  assumes "queue_rep pt h xs" "p \<notin> set xs"
  defines "pt0 \<equiv> pt(p := (pt p)\<lparr>pr_next := None\<rparr>)"
  shows "xs = [] \<Longrightarrow> queue_rep pt0 \<lparr>h_next = Some p, h_tail = Some p\<rparr> (xs @ [p])"
    and "xs \<noteq> [] \<Longrightarrow> queue_rep (pt0(last xs := (pt0 (last xs))\<lparr>pr_next := Some p\<rparr>)) (h\<lparr>h_tail := Some p\<rparr>) (xs @ [p])"
proof -
  show "xs = [] \<Longrightarrow> queue_rep pt0 \<lparr>h_next = Some p, h_tail = Some p\<rparr> (xs @ [p])"
    by (simp add: queue_rep_def pt0_def)
next
  assume ne: "xs \<noteq> []"
  define pt1 where "pt1 = pt0(last xs := (pt0 (last xs))\<lparr>pr_next := Some p\<rparr>)"
  have d: "distinct (xs @ [p])" using assms by (simp add: queue_rep_def)
  have np: "last xs \<noteq> p" using assms(2) ne by auto
  have "chain pt (h_next h) xs" using assms by (simp add: queue_rep_def)
  then have "chain pt (h_next h) (butlast xs @ [last xs])" "distinct (butlast xs @ [last xs])"
    using ne d by simp_all
  then have "pr_next (pt (last xs)) = None" by (subst (asm) chain_append) auto
  then have "chain (pt1(last xs := (pt1 (last xs))\<lparr>pr_next := None\<rparr>)) (h_next h) xs"
    using \<open>chain pt (h_next h) xs\<close> assms(2)
    by (subst chain_cong [where pt = pt]) (auto simp: pt1_def pt0_def)
  then have "chain pt1 (h_next h) (xs @ [p])"
    using chain_append [OF d, of pt1 "h_next h"] ne np by (simp add: pt1_def pt0_def)
  then show "queue_rep (pt0(last xs := (pt0 (last xs))\<lparr>pr_next := Some p\<rparr>)) (h\<lparr>h_tail := Some p\<rparr>) (xs @ [p])"
    using d unfolding queue_rep_def pt1_def by simp
qed

lemma queue_rep_head:
  "queue_rep pt h (x # xs) \<Longrightarrow>
    queue_rep pt \<lparr>h_next = pr_next (pt x), h_tail = (if xs = [] then None else h_tail h)\<rparr> xs"
  by (auto simp: queue_rep_def)

lemma queue_rep_headD:
  "queue_rep pt h (x # xs) \<Longrightarrow> h_next h = Some x"
  "queue_rep pt h [] \<Longrightarrow> h_next h = None"
  "queue_rep pt h xs \<Longrightarrow> h_next h = None \<longleftrightarrow> xs = []"
  by (cases xs; simp add: queue_rep_def)+

lemma chain_drop_middle:
  assumes "chain pt c (xs @ p # ys)" "distinct (xs @ p # ys)" "xs \<noteq> []"
  shows "chain (pt(last xs := (pt (last xs))\<lparr>pr_next := pr_next (pt p)\<rparr>)) c (xs @ ys)"
  using assms
proof (induction xs arbitrary: c)
  case Nil
  then show ?case by simp
next
  case (Cons x xs)
  show ?case
  proof (cases "xs = []")
    case True
    then have "chain pt (pr_next (pt p)) ys" using Cons.prems by simp
    then have "chain (pt(x := (pt x)\<lparr>pr_next := pr_next (pt p)\<rparr>)) (pr_next (pt p)) ys"
      using Cons.prems by (subst chain_cong [where pt = pt]) auto
    then show ?thesis using True Cons.prems by (simp add: fun_upd_def)
  next
    case False
    then have "x \<noteq> last xs" using Cons.prems by auto
    then show ?thesis using Cons False by auto
  qed
qed

lemma chain_suffix: "chain pt c (xs @ p # ys) \<Longrightarrow> chain pt (pr_next (pt p)) ys"
  by (induction xs arbitrary: c) auto

lemma chain_next_None: "chain pt c (xs @ p # ys) \<Longrightarrow> pr_next (pt p) = None \<longleftrightarrow> ys = []"
  using chain_suffix [of pt c xs p ys] by (cases ys) auto

lemma scan_list_step [simp]:
  "scan_list pt w prev None = Some None"
  "scan_list pt w prev (Some x) =
    (if pr_wait (pt x) = w then Some (Some (prev, x)) else scan_list pt w (Some x) (pr_next (pt x)))"
  by (subst scan_list.simps; simp)+

lemma scan_list_chain:
  "chain pt c xs \<Longrightarrow> scan_list pt w prev c =
    Some (case find (\<lambda>p. pr_wait (pt p) = w) xs of
            None \<Rightarrow> None
          | Some p \<Rightarrow> (let before = takeWhile (\<lambda>p. pr_wait (pt p) \<noteq> w) xs
                      in Some (if before = [] then prev else Some (last before), p)))"
proof (induction xs arbitrary: c prev)
  case Nil
  then show ?case by simp
next
  case (Cons x xs)
  then show ?case
    by (cases "pr_wait (pt x) = w") (auto simp: Let_def split: option.split)
qed

lemma find_split:
  "find P xs = Some p \<Longrightarrow> xs = takeWhile (\<lambda>x. \<not> P x) xs @ p # drop (Suc (length (takeWhile (\<lambda>x. \<not> P x) xs))) xs"
  by (induction xs) (auto split: if_splits)

lemma queue_rep_remove:
  assumes "queue_rep pt h (xs @ p # ys)"
  shows "xs = [] \<Longrightarrow> queue_rep pt \<lparr>h_next = pr_next (pt p), h_tail = (if ys = [] then None else h_tail h)\<rparr> (xs @ ys)"
    and "xs \<noteq> [] \<Longrightarrow>
      queue_rep (pt(last xs := (pt (last xs))\<lparr>pr_next := pr_next (pt p)\<rparr>))
        (h\<lparr>h_tail := (if ys = [] then Some (last xs) else h_tail h)\<rparr>) (xs @ ys)"
  using assms chain_drop_middle [of pt "h_next h" xs p ys]
  by (auto simp: queue_rep_def simp del: fun_upd_apply)

subsection \<open>The laws\<close>

lemma lists_repD:
  assumes "lists_rep s Q"
  shows "\<not> locks s List_lock" "queue_rep (process_table s) (head_lists s l) (Q l)"
    "l \<noteq> l' \<Longrightarrow> x \<in> set (Q l) \<Longrightarrow> x \<notin> set (Q l')"
  using assms by (auto simp: lists_rep_def)

text \<open>A change to one list's header, to links of its own members and of an item on no list keeps the others.\<close>

lemma lists_rep_update:
  assumes "lists_rep s Q" and "queue_rep pt h xs"
    and "\<And>x. pr_next (pt x) \<noteq> pr_next (process_table s x) \<Longrightarrow> x \<in> set (Q l) \<or> (\<forall>l. x \<notin> set (Q l))"
    and "\<And>x. x \<in> set xs \<Longrightarrow> x \<in> set (Q l) \<or> (\<forall>l. x \<notin> set (Q l))"
  shows "lists_rep (s\<lparr>process_table := pt, head_lists := (head_lists s)(l := h)\<rparr>) (Q(l := xs))"
proof -
  have "queue_rep pt (head_lists s l') (Q l')" if "l' \<noteq> l" for l'
    using lists_repD(2) [OF assms(1), of l'] lists_repD(3) [OF assms(1) that] assms(3)
    by (subst queue_rep_cong [where pt = "process_table s"]) blast+
  moreover have "x \<notin> set xs" if "l' \<noteq> l" "x \<in> set (Q l')" for l' x
    using assms(4) that lists_repD(3) [OF assms(1) that] by blast
  then have "l' \<noteq> l \<Longrightarrow> set xs \<inter> set (Q l') = {}" for l' by blast
  moreover have "set ys \<inter> set zs = {} \<Longrightarrow> set zs \<inter> set ys = {}" for ys zs :: "pref list" by blast
  ultimately show ?thesis
    using assms(1,2) by (simp add: lists_rep_def)
qed

lemma links_only_heads [simp]: "links_only s (s\<lparr>head_lists := hl\<rparr>)"
  by (simp add: links_only_def)

lemma headlist_update:
  "h\<lparr>h_next := a\<rparr> = \<lparr>h_next = a, h_tail = h_tail h\<rparr>"
  "h\<lparr>h_next := a, h_tail := b\<rparr> = \<lparr>h_next = a, h_tail = b\<rparr>"
  by (cases h; simp)+

lemma links_onlyI:
  "(\<And>p. pt p = (process_table s p)\<lparr>pr_next := pr_next (pt p)\<rparr>) \<Longrightarrow>
    links_only s (s\<lparr>process_table := pt, head_lists := hl\<rparr>)"
  by (simp add: links_only_def)

lemma append_list_tail_run:
  fixes p :: pref and s :: "'a sys_scheme"
  assumes "\<not> locks s List_lock"
  defines "pt \<equiv> (process_table s)(p := (process_table s p)\<lparr>pr_next := None\<rparr>)"
  shows "h_next (head_lists s l) = None \<Longrightarrow> append_list_tail l p s =
      Inr (s\<lparr>process_table := pt, head_lists := (head_lists s)(l := \<lparr>h_next = Some p, h_tail = Some p\<rparr>)\<rparr>)"
    and "h_next (head_lists s l) = Some y \<Longrightarrow> h_tail (head_lists s l) = Some t \<Longrightarrow> append_list_tail l p s =
      Inr (s\<lparr>process_table := pt(t := (pt t)\<lparr>pr_next := Some p\<rparr>),
             head_lists := (head_lists s)(l := (head_lists s l)\<lparr>h_tail := Some p\<rparr>)\<rparr>)"
  using assms(1)
  by (simp_all add: append_list_tail_def is_list_empty_def set_head_def set_link_def upd_process_def
      spin_unlock_def Let_def pt_def fun_upd_idem)

lemma append_list_tail_law:
  assumes "lists_rep s Q" "\<forall>l. p \<notin> set (Q l)"
  shows "\<exists>t. append_list_tail l p s = Inr t \<and> lists_rep t (Q(l := Q l @ [p])) \<and> links_only s t"
proof -
  note q = lists_repD(2) [OF assms(1), of l] and lk = lists_repD(1) [OF assms(1)]
  have p: "p \<notin> set (Q l)" using assms(2) by blast
  define pt where "pt = (process_table s)(p := (process_table s p)\<lparr>pr_next := None\<rparr>)"
  have pt: "pt x = (process_table s x)\<lparr>pr_next := pr_next (pt x)\<rparr>" for x by (simp add: pt_def)
  have pt': "(pt(z := (pt z)\<lparr>pr_next := n\<rparr>)) x =
      (process_table s x)\<lparr>pr_next := pr_next ((pt(z := (pt z)\<lparr>pr_next := n\<rparr>)) x)\<rparr>" for x z n
    by (simp add: pt_def)
  show ?thesis
  proof (cases "Q l = []")
    case True
    then have "h_next (head_lists s l) = None" using q by (simp add: queue_rep_headD(3))
    note run = append_list_tail_run(1) [OF lk this, of p, folded pt_def]
    have "lists_rep (s\<lparr>process_table := pt, head_lists := (head_lists s)(l := \<lparr>h_next = Some p, h_tail = Some p\<rparr>)\<rparr>)
        (Q(l := Q l @ [p]))"
      using queue_rep_append(1) [OF q p True, folded pt_def] assms(2) True
      by (intro lists_rep_update [OF assms(1)]) (auto simp: pt_def split: if_splits)
    then show ?thesis
      unfolding run by (blast intro: links_onlyI pt)
  next
    case False
    then obtain y where "h_next (head_lists s l) = Some y" "h_tail (head_lists s l) = Some (last (Q l))"
      using q queue_rep_headD(3) [OF q] by (auto simp: queue_rep_def)
    note run = append_list_tail_run(2) [OF lk this, of p, folded pt_def]
    have "last (Q l) \<in> set (Q l)" using False by simp
    then have "lists_rep (s\<lparr>process_table := pt(last (Q l) := (pt (last (Q l)))\<lparr>pr_next := Some p\<rparr>),
        head_lists := (head_lists s)(l := (head_lists s l)\<lparr>h_tail := Some p\<rparr>)\<rparr>) (Q(l := Q l @ [p]))"
      using queue_rep_append(2) [OF q p False, folded pt_def] assms(2)
      by (intro lists_rep_update [OF assms(1)]) (auto simp: pt_def split: if_splits)
    then show ?thesis
      unfolding run by (blast intro: links_onlyI pt')
  qed
qed

lemma remove_list_head_run:
  assumes "\<not> locks s List_lock"
  shows "h_next (head_lists s l) = None \<Longrightarrow> remove_list_head l s = Inr (None, s)"
    and "h_next (head_lists s l) = Some x \<Longrightarrow> remove_list_head l s =
      Inr (Some x, s\<lparr>process_table := process_table s, head_lists := (head_lists s)(l :=
         \<lparr>h_next = pr_next (process_table s x),
          h_tail = (if pr_next (process_table s x) = None then None else h_tail (head_lists s l))\<rparr>)\<rparr>)"
  using assms
  by (simp_all add: remove_list_head_def set_head_def spin_unlock_def Let_def fun_upd_idem headlist_update)

lemma remove_list_head_law:
  assumes "lists_rep s Q"
  shows "\<exists>t. remove_list_head l s = Inr (case Q l of [] \<Rightarrow> None | p # _ \<Rightarrow> Some p, t) \<and>
    lists_rep t (Q(l := tl (Q l))) \<and> links_only s t"
proof -
  note q = lists_repD(2) [OF assms(1), of l] and lk = lists_repD(1) [OF assms(1)]
  show ?thesis
  proof (cases "Q l")
    case Nil
    then show ?thesis
      using remove_list_head_run(1) [OF lk, of l] queue_rep_headD(3) [OF q] assms fun_upd_idem [of Q l "[]"]
      by (simp add: links_only_def)
  next
    case (Cons x xs)
    then have n: "pr_next (process_table s x) = None \<longleftrightarrow> xs = []" "h_next (head_lists s l) = Some x"
      using q by (cases xs; auto simp: queue_rep_def)+
    note run = remove_list_head_run(2) [OF lk n(2)]
    have "queue_rep (process_table s) \<lparr>h_next = pr_next (process_table s x),
        h_tail = (if xs = [] then None else h_tail (head_lists s l))\<rparr> xs"
      using q Cons by (intro queue_rep_head) simp
    from lists_rep_update [OF assms this, of l] Cons show ?thesis
      unfolding run n(1) by (auto intro!: links_onlyI simp del: fun_upd_apply)
  qed
qed

lemma remove_list_law:
  assumes "lists_rep s Q"
  shows "\<exists>t. remove_list l w s = Inr (find (\<lambda>p. pr_wait (process_table s p) = w) (Q l), t) \<and>
    lists_rep t (Q(l := (case find (\<lambda>p. pr_wait (process_table s p) = w) (Q l) of
        None \<Rightarrow> Q l | Some p \<Rightarrow> remove1 p (Q l)))) \<and> links_only s t"
proof -
  note q = lists_repD(2) [OF assms(1), of l]
  then have c: "chain (process_table s) (h_next (head_lists s l)) (Q l)" and d: "distinct (Q l)"
    by (simp_all add: queue_rep_def)
  note scan = scan_list_chain [OF c, of w None]
  show ?thesis
  proof (cases "find (\<lambda>p. pr_wait (process_table s p) = w) (Q l)")
    case None
    then show ?thesis using assms by (simp add: remove_list_def scan links_only_def)
  next
    case (Some p)
    define xs where "xs = takeWhile (\<lambda>p. pr_wait (process_table s p) \<noteq> w) (Q l)"
    obtain ys where ys: "Q l = xs @ p # ys" using find_split [OF Some] unfolding xs_def by blast
    have nx: "pr_next (process_table s p) = None \<longleftrightarrow> ys = []"
      using c unfolding ys by (rule chain_next_None)
    have r1: "remove1 p (Q l) = xs @ ys" using d ys by (auto simp: remove1_append)
    have qr: "queue_rep (process_table s) (head_lists s l) (xs @ p # ys)" using q ys by simp
    show ?thesis
    proof (cases "xs = []")
      case True
      have run: "remove_list l w s = Inr (Some p, s\<lparr>process_table := process_table s,
          head_lists := (head_lists s)(l := \<lparr>h_next = pr_next (process_table s p),
            h_tail = (if ys = [] then None else h_tail (head_lists s l))\<rparr>)\<rparr>)"
        using Some True nx
        by (simp add: remove_list_def scan xs_def [symmetric] set_head_def Let_def headlist_update)
      from lists_rep_update [OF assms queue_rep_remove(1) [OF qr True], of l] ys show ?thesis
        unfolding run Some r1 option.case by (auto intro!: links_onlyI simp del: fun_upd_apply)
    next
      case False
      obtain y where hn: "h_next (head_lists s l) = Some y" using queue_rep_headD(3) [OF q] ys by auto
      have "last xs \<in> set (Q l)" using False ys by simp
      moreover have run: "remove_list l w s = Inr (Some p, s\<lparr>process_table := (process_table s)
            (last xs := (process_table s (last xs))\<lparr>pr_next := pr_next (process_table s p)\<rparr>),
          head_lists := (head_lists s)(l := (head_lists s l)\<lparr>
            h_tail := (if ys = [] then Some (last xs) else h_tail (head_lists s l))\<rparr>)\<rparr>)"
        unfolding remove_list_def scan xs_def [symmetric] using Some False nx hn
        by (simp add: set_head_def set_link_def upd_process_def Let_def)
      moreover define pt where "pt = (process_table s)
            (last xs := (process_table s (last xs))\<lparr>pr_next := pr_next (process_table s p)\<rparr>)"
      ultimately have "lists_rep (s\<lparr>process_table := pt, head_lists := (head_lists s)(l := (head_lists s l)\<lparr>
            h_tail := (if ys = [] then Some (last xs) else h_tail (head_lists s l))\<rparr>)\<rparr>) (Q(l := xs @ ys))"
        using queue_rep_remove(2) [OF qr False] ys
        by (intro lists_rep_update [OF assms]) (auto simp: pt_def split: if_splits)
      moreover have "pt x = (process_table s x)\<lparr>pr_next := pr_next (pt x)\<rparr>" for x by (simp add: pt_def)
      ultimately show ?thesis
        unfolding run Some r1 option.case pt_def [symmetric] by (blast intro: links_onlyI)
    qed
  qed
qed

lemma links_only_trans: "links_only s t \<Longrightarrow> links_only t u \<Longrightarrow> links_only s u"
  unfolding links_only_def
  by (metis (no_types, lifting) process.surjective process.update_convs(1) sys.surjective
      sys.update_convs(1,4))

lemma links_onlyE:
  assumes "links_only s t"
  obtains pt hl where "t = s\<lparr>process_table := pt, head_lists := hl\<rparr>"
    "\<And>p. \<exists>n. pt p = (process_table s p)\<lparr>pr_next := n\<rparr>"
  using assms unfolding links_only_def by blast

lemma links_only_process:
  assumes "links_only s t"
  obtains n where "process_table t p = (process_table s p)\<lparr>pr_next := n\<rparr>"
  using assms unfolding links_only_def by blast

lemma links_onlyD:
  assumes "links_only s t"
  shows "pr_wait (process_table t p) = pr_wait (process_table s p)"
    and "pr_state (process_table t p) = pr_state (process_table s p)"
    and "pr_pid (process_table t p) = pr_pid (process_table s p)"
    and "current_process t = current_process s" and "locks t = locks s" and "mem t = mem s"
proof -
  obtain n where "process_table t p = (process_table s p)\<lparr>pr_next := n\<rparr>"
    using links_only_process [OF assms] .
  then show "pr_wait (process_table t p) = pr_wait (process_table s p)"
    "pr_state (process_table t p) = pr_state (process_table s p)"
    "pr_pid (process_table t p) = pr_pid (process_table s p)" by simp_all
  obtain pt hl where "t = s\<lparr>process_table := pt, head_lists := hl\<rparr>"
    using links_onlyE [OF assms] by blast
  then show "current_process t = current_process s" "locks t = locks s" "mem t = mem s" by simp_all
qed

interpretation proc_list: fifo append_list_tail remove_list_head remove_list lists_rep
  "\<lambda>s p. pr_wait (process_table s p)" links_only
proof
  fix s t u :: "'a sys_scheme" and l l' :: list_id and p :: pref and Q w
  show "lists_rep s Q \<Longrightarrow> \<forall>l. p \<notin> set (Q l) \<Longrightarrow>
      \<exists>t. append_list_tail l p s = Inr t \<and> lists_rep t (Q(l := Q l @ [p])) \<and> links_only s t"
    by (rule append_list_tail_law)
  show "lists_rep s Q \<Longrightarrow> \<exists>t. remove_list_head l s = Inr (case Q l of [] \<Rightarrow> None | p # _ \<Rightarrow> Some p, t) \<and>
      lists_rep t (Q(l := tl (Q l))) \<and> links_only s t"
    by (rule remove_list_head_law)
  show "lists_rep s Q \<Longrightarrow> \<exists>t. remove_list l w s = Inr (find (\<lambda>p. pr_wait (process_table s p) = w) (Q l), t) \<and>
      lists_rep t (Q(l := (case find (\<lambda>p. pr_wait (process_table s p) = w) (Q l) of
        None \<Rightarrow> Q l | Some p \<Rightarrow> remove1 p (Q l)))) \<and> links_only s t"
    by (rule remove_list_law)
  show "lists_rep s Q \<Longrightarrow> distinct (Q l)"
    using lists_repD(2) [of s Q l] by (simp add: queue_rep_def)
  show "lists_rep s Q \<Longrightarrow> l \<noteq> l' \<Longrightarrow> set (Q l) \<inter> set (Q l') = {}"
    by (simp add: lists_rep_def)
  show "links_only s s" by (simp add: links_only_def)
  show "links_only s t \<Longrightarrow> links_only t u \<Longrightarrow> links_only s u" by (rule links_only_trans)
  show "links_only s t \<Longrightarrow> pr_wait (process_table t p) = pr_wait (process_table s p)" by (rule links_onlyD(1))
qed

lemma count_from_chain: "chain pt c xs \<Longrightarrow> count_from pt c n = Some (n + length xs)"
  by (induction xs arbitrary: c n) (auto simp: count_from.simps [of pt None] count_from.simps [of pt "Some x" for x])

lemma get_list_count_rep: "lists_rep s Q \<Longrightarrow> get_list_count l s = Inr (length (Q l))"
  using lists_repD(2) [of s Q l] count_from_chain
  by (fastforce simp: get_list_count_def queue_rep_def)

end
