(* ===== verification/Scheduler.thy ===== *)
theory Scheduler
  imports Head_List
begin

text \<open>
  Scheduling: \<open>schedule\<close>, \<open>yield\<close>, \<open>sleep\<close>, \<open>wake_up\<close> and \<open>exit\<close> of src/src/process.c, with the context
  switch \<open>swap\<close> of src/src/handler.s and \<open>switch_vm\<close> of src/src/memory.c.  Every operation takes the
  number of the core it runs on, which is what \<open>getcpuid\<close> returns there.

  A call that reaches \<open>swap\<close> continues in another process.  \<open>Switch s\<close> is the state in which the
  incoming process returns from \<open>swap\<close> (or enters \<open>pstart\<close> for the first time); \<open>Stay s\<close> is an
  ordinary return.  Every saved return point continues with the release of \<open>process_lock\<close>: the ends
  of \<open>yield\<close> and \<open>sleep\<close>, and the first call of \<open>pstart\<close>.  This continuation is \<open>resume\<close>.
\<close>

section \<open>The context switch\<close>

datatype 's flow = Stay 's | Switch 's

fun store_words :: "memory \<Rightarrow> u64 \<Rightarrow> u64 list \<Rightarrow> memory" where
  "store_words m a [] = m"
| "store_words m a (w # ws) = store_words (store64 m a w) (a + 8) ws"

fun load_words :: "memory \<Rightarrow> u64 \<Rightarrow> nat \<Rightarrow> u64 list" where
  "load_words m a 0 = []"
| "load_words m a (Suc n) = load64 m a # load_words m (a + 8) n"

definition swap :: "nat \<Rightarrow> pref \<Rightarrow> u64 \<Rightarrow> 'a sys_scheme \<Rightarrow> 'a sys_scheme" where
  "swap cpu prev nxt s =
     (let sp = core_sp s cpu - 12 * 8;
          s = s\<lparr>mem := store_words (mem s) sp (core_regs s cpu)\<rparr>;
          s = upd_process prev (\<lambda>r. r\<lparr>pr_context := sp\<rparr>) s
      in s\<lparr>core_regs := (core_regs s)(cpu := load_words (mem s) nxt 12),
           core_sp := (core_sp s)(cpu := nxt + 12 * 8)\<rparr>)"

definition switch_vm :: "nat \<Rightarrow> u64 \<Rightarrow> 'a sys_scheme \<Rightarrow> 'a sys_scheme" where
  "switch_vm cpu pgmap s = s\<lparr>ttbr0 := (ttbr0 s)(cpu := V2P pgmap)\<rparr>"

definition switch_process :: "nat \<Rightarrow> pref \<Rightarrow> pref \<Rightarrow> 'a sys_scheme \<Rightarrow> 'a sys_scheme" where
  "switch_process cpu prev current s =
     swap cpu prev (pr_context (process_table s current))
       (switch_vm cpu (pr_page_map (process_table s current)) s)"

text \<open>What the incoming process does first.\<close>

definition resume :: "'a sys_scheme \<Rightarrow> 'a sys_scheme" where
  "resume s = spin_unlock Process_lock s"

section \<open>The operations\<close>

definition schedule :: "nat \<Rightarrow> 'a sys_scheme \<Rightarrow> 'a sys_scheme flow res" where
  "schedule cpu s =
     (let prev_proc = current_process s cpu in
      rbind
        (if is_list_empty (Ready cpu) s then Inr (Some (cpu, 0), s) else remove_list_head (Ready cpu) s)
        (\<lambda>(current_proc, s).
         case current_proc of
           None \<Rightarrow> Inl Null_deref
         | Some current \<Rightarrow>
             (let s = upd_process current (\<lambda>r. r\<lparr>pr_state := PROC_RUNNING\<rparr>) s in
              if prev_proc = Some current then Inr (Stay s)
              else
                (let s = s\<lparr>current_process := (current_process s)(cpu := Some current)\<rparr> in
                 case prev_proc of
                   None \<Rightarrow> Inl Null_deref
                 | Some prev \<Rightarrow> Inr (Switch (switch_process cpu prev current s))))))"

text \<open>The common end of \<open>yield\<close> and \<open>sleep\<close>: after an ordinary return of \<open>schedule\<close> the lock is released.\<close>

definition schedule_unlock :: "nat \<Rightarrow> 'a sys_scheme \<Rightarrow> 'a sys_scheme flow res" where
  "schedule_unlock cpu s =
     rbind (schedule cpu s) (\<lambda>f. case f of
       Stay s \<Rightarrow> Inr (Stay (spin_unlock Process_lock s))
     | Switch s \<Rightarrow> Inr (Switch s))"

definition yield :: "nat \<Rightarrow> 'a sys_scheme \<Rightarrow> 'a sys_scheme flow res" where
  "yield cpu s =
     rbind (spin_lock Process_lock s) (\<lambda>s.
     if is_list_empty (Ready cpu) s then Inr (Stay (spin_unlock Process_lock s))
     else case current_process s cpu of
         None \<Rightarrow> Inl Null_deref
       | Some process \<Rightarrow>
           (let s = upd_process process (\<lambda>r. r\<lparr>pr_state := PROC_READY\<rparr>) s in
            rbind (if sint (pr_pid (process_table s process)) \<ge> 4
                   then append_list_tail (Ready cpu) process s else Inr s)
              (\<lambda>s. schedule_unlock cpu s)))"

definition sleep :: "nat \<Rightarrow> i32 \<Rightarrow> 'a sys_scheme \<Rightarrow> 'a sys_scheme flow res" where
  "sleep cpu w s =
     rbind (spin_lock Process_lock s) (\<lambda>s.
     case current_process s cpu of
       None \<Rightarrow> Inl Null_deref
     | Some process \<Rightarrow>
         (let s = upd_process process (\<lambda>r. r\<lparr>pr_state := PROC_SLEEP\<rparr>) s;
              s = upd_process process (\<lambda>r. r\<lparr>pr_wait := w\<rparr>) s
          in rbind (append_list_tail (Waiting cpu) process s) (\<lambda>s. schedule_unlock cpu s)))"

text \<open>The inner loop of \<open>wake_up\<close> for core \<open>i\<close>; \<open>None\<close> would be a loop that does not end.\<close>

partial_function (option) wake_core :: "nat \<Rightarrow> i32 \<Rightarrow> 'a sys_scheme \<Rightarrow> 'a sys_scheme res option" where
  [code]: "wake_core i w s =
     (case remove_list (Waiting i) w s of
       Inl e \<Rightarrow> Some (Inl e)
     | Inr (q, s) \<Rightarrow>
         if q = None then Some (Inr s)
         else
           (case append_list_tail (Ready i) (the q) (upd_process (the q) (\<lambda>r. r\<lparr>pr_state := PROC_READY\<rparr>) s) of
             Inl e \<Rightarrow> Some (Inl e)
           | Inr s \<Rightarrow> wake_core i w s))"

fun wake_cores :: "nat list \<Rightarrow> i32 \<Rightarrow> 'a sys_scheme \<Rightarrow> 'a sys_scheme res" where
  "wake_cores [] w s = Inr s"
| "wake_cores (i # is) w s =
     rbind (case wake_core i w s of None \<Rightarrow> Inl Diverge | Some r \<Rightarrow> r) (\<lambda>s. wake_cores is w s)"

definition wake_up :: "i32 \<Rightarrow> 'a sys_scheme \<Rightarrow> 'a sys_scheme res" where
  "wake_up w s =
     rbind (spin_lock Process_lock s) (\<lambda>s.
     rbind (wake_cores [0..<MAXCORES] w s) (\<lambda>s.
     Inr (spin_unlock Process_lock s)))"

text \<open>\<open>exit\<close> still holds \<open>process_lock\<close> when \<open>schedule\<close> returns without switching.\<close>

definition exit_process :: "nat \<Rightarrow> 'a sys_scheme \<Rightarrow> 'a sys_scheme flow res" where
  "exit_process cpu s =
     (case current_process s cpu of
       None \<Rightarrow> Inl Null_deref
     | Some process \<Rightarrow>
         (let s = upd_process process (\<lambda>r. r\<lparr>pr_state := PROC_KILLED\<rparr>) s;
              s = upd_process process (\<lambda>r. r\<lparr>pr_wait := pr_pid r\<rparr>) s
          in rbind (spin_lock Process_lock s) (\<lambda>s.
             rbind (append_list_tail (Killed cpu) process s) (\<lambda>s.
             let s = spin_unlock Process_lock s in
             rbind (wake_up (- 3) s) (\<lambda>s.
             rbind (spin_lock Process_lock s) (\<lambda>s.
             schedule cpu s))))))"

end
