(* ===== verification/Scheduler_Correct.thy ===== *)
theory Scheduler_Correct
  imports Scheduler
begin

text \<open>
  The scheduler's invariant and what each operation of theory \<open>Scheduler\<close> does to the queues.
  \<open>sched_inv s Q R\<close>: the lists of all cores hold the sequences \<open>Q\<close>, core \<open>c\<close> runs process \<open>R c\<close>, and
  a process is on the ready, waiting or killed list of its core exactly when its state says so, so
  that no process is lost and none is scheduled twice.
\<close>

section \<open>The invariant\<close>

definition slot :: "pref \<Rightarrow> bool" where
  "slot p \<longleftrightarrow> fst p < MAXCORES \<and> 1 \<le> snd p \<and> snd p < NUM_PROC"

fun core_of :: "list_id \<Rightarrow> nat" where
  "core_of (Ready c) = c"
| "core_of (Waiting c) = c"
| "core_of (Killed c) = c"

fun list_state :: "list_id \<Rightarrow> proc_state" where
  "list_state (Ready c) = PROC_READY"
| "list_state (Waiting c) = PROC_SLEEP"
| "list_state (Killed c) = PROC_KILLED"

abbreviation state_of :: "'a sys_scheme \<Rightarrow> pref \<Rightarrow> proc_state" where
  "state_of s p \<equiv> pr_state (process_table s p)"

abbreviation pid_of :: "'a sys_scheme \<Rightarrow> pref \<Rightarrow> i32" where
  "pid_of s p \<equiv> pr_pid (process_table s p)"

abbreviation wait_of :: "'a sys_scheme \<Rightarrow> pref \<Rightarrow> i32" where
  "wait_of s p \<equiv> pr_wait (process_table s p)"

text \<open>One process's state agrees with its place: on a list, running, or neither.\<close>

definition placed :: "'a sys_scheme \<Rightarrow> (list_id \<Rightarrow> pref list) \<Rightarrow> (nat \<Rightarrow> pref) \<Rightarrow> pref \<Rightarrow> bool" where
  "placed s Q R p \<longleftrightarrow>
     (\<forall>l. core_of l = fst p \<longrightarrow> (state_of s p = list_state l \<longleftrightarrow> p \<in> set (Q l))) \<and>
     (state_of s p = PROC_RUNNING \<longleftrightarrow> R (fst p) = p) \<and>
     (state_of s p \<noteq> PROC_UNUSED \<longrightarrow> 4 \<le> sint (pid_of s p))"

definition sched_rep :: "'a sys_scheme \<Rightarrow> (list_id \<Rightarrow> pref list) \<Rightarrow> (nat \<Rightarrow> pref) \<Rightarrow> bool" where
  "sched_rep s Q R \<longleftrightarrow> lists_rep s Q \<and>
     (\<forall>l. \<forall>p \<in> set (Q l). slot p \<and> fst p = core_of l) \<and>
     (\<forall>p. slot p \<longrightarrow> placed s Q R p) \<and>
     (\<forall>c < MAXCORES. fst (R c) = c \<and> snd (R c) < NUM_PROC) \<and>
     (\<forall>c < MAXCORES. sint (pid_of s (c, 0)) < 4)"

definition sched_inv :: "'a sys_scheme \<Rightarrow> (list_id \<Rightarrow> pref list) \<Rightarrow> (nat \<Rightarrow> pref) \<Rightarrow> bool" where
  "sched_inv s Q R \<longleftrightarrow> sched_rep s Q R \<and> (\<forall>c < MAXCORES. current_process s c = Some (R c)) \<and>
     \<not> locks s Process_lock"

lemma sched_repD:
  assumes "sched_rep s Q R"
  shows "lists_rep s Q" "p \<in> set (Q l) \<Longrightarrow> slot p" "p \<in> set (Q l) \<Longrightarrow> fst p = core_of l"
    "slot p \<Longrightarrow> placed s Q R p" "c < MAXCORES \<Longrightarrow> fst (R c) = c" "c < MAXCORES \<Longrightarrow> snd (R c) < NUM_PROC"
    "c < MAXCORES \<Longrightarrow> sint (pid_of s (c, 0)) < 4"
  using assms by (auto simp: sched_rep_def)

text \<open>Every change the scheduler makes moves one process \<open>q\<close> to another place.\<close>

lemma sched_rep_move:
  assumes "sched_rep s Q R" and "lists_rep t Q'"
    and "\<And>p. pid_of t p = pid_of s p" and "\<And>p. p \<noteq> q \<Longrightarrow> state_of t p = state_of s p"
    and "\<And>p l. p \<noteq> q \<Longrightarrow> p \<in> set (Q' l) \<longleftrightarrow> p \<in> set (Q l)"
    and "\<And>p. p \<noteq> q \<Longrightarrow> slot p \<Longrightarrow> R' (fst p) = p \<longleftrightarrow> R (fst p) = p"
    and "\<And>c. c < MAXCORES \<Longrightarrow> fst (R' c) = c \<and> snd (R' c) < NUM_PROC"
    and "\<And>l. q \<in> set (Q' l) \<Longrightarrow> slot q \<and> fst q = core_of l"
    and "slot q \<Longrightarrow> placed t Q' R' q"
  shows "sched_rep t Q' R'"
proof -
  have "slot p \<and> fst p = core_of l" if "p \<in> set (Q' l)" for p l
    using sched_repD(2,3) [OF assms(1), of p l] assms(5,8) that by (cases "p = q") blast+
  moreover have "placed t Q' R' p" if "slot p" for p
    using sched_repD(4) [OF assms(1) that] assms(3-6,9) that unfolding placed_def by (cases "p = q") simp_all
  ultimately show ?thesis
    using assms(2,3,7) sched_repD(7) [OF assms(1)] unfolding sched_rep_def by simp
qed

lemma not_listed:
  assumes "sched_rep s Q R" "\<forall>l. state_of s p \<noteq> list_state l"
  shows "p \<notin> set (Q l)"
  using sched_repD(2,3) [OF assms(1), of p l] sched_repD(4) [OF assms(1), of p] assms(2)
  unfolding placed_def by metis

lemma running_state:
  "sched_rep s Q R \<Longrightarrow> slot (R c) \<Longrightarrow> c < MAXCORES \<Longrightarrow> state_of s (R c) = PROC_RUNNING"
  using sched_repD(4) [of s Q R "R c"] sched_repD(5) [of s Q R c] by (simp add: placed_def)

lemma running_not_listed: "sched_rep s Q R \<Longrightarrow> slot (R c) \<Longrightarrow> c < MAXCORES \<Longrightarrow> R c \<notin> set (Q l)"
proof -
  have "\<forall>l. PROC_RUNNING \<noteq> list_state l" by (rule allI, case_tac l) simp_all
  then show "sched_rep s Q R \<Longrightarrow> slot (R c) \<Longrightarrow> c < MAXCORES \<Longrightarrow> R c \<notin> set (Q l)"
    by (metis not_listed running_state)
qed

lemma list_state_inj: "core_of l = core_of l' \<Longrightarrow> list_state l = list_state l' \<longleftrightarrow> l = l'"
  by (cases l; cases l') simp_all

lemma list_state_neq [simp]: "list_state l \<noteq> PROC_RUNNING" "list_state l \<noteq> PROC_UNUSED"
  "PROC_RUNNING \<noteq> list_state l" "PROC_UNUSED \<noteq> list_state l"
  by (cases l; simp)+

lemma idle_not_slot [simp]: "\<not> slot (c, 0)"
  by (simp add: slot_def)

lemma slot_not_idle [simp]: "slot p \<Longrightarrow> p \<noteq> (c, 0)" "slot p \<Longrightarrow> (c, 0) \<noteq> p"
  by (auto simp: slot_def)

lemma idle_not_listed: "sched_rep s Q R \<Longrightarrow> (c, 0) \<notin> set (Q l)"
  using sched_repD(2) [of s Q R "(c, 0)" l] by auto

lemma listed_state:
  assumes "sched_rep s Q R" "p \<in> set (Q l)"
  shows "state_of s p = list_state l" "4 \<le> sint (pid_of s p)"
proof -
  have "placed s Q R p" "core_of l = fst p"
    using sched_repD(2,3) [OF assms] sched_repD(4) [OF assms(1)] by auto
  then show "state_of s p = list_state l" "4 \<le> sint (pid_of s p)"
    using assms(2) unfolding placed_def by (metis list_state_neq(2))+
qed

lemma running_cases:
  assumes "sched_rep s Q R" "c < MAXCORES"
  obtains "R c = (c, 0)" | "slot (R c)" "fst (R c) = c" "R c \<noteq> (c, 0)"
proof (cases "snd (R c) = 0")
  case True
  then show ?thesis using sched_repD(5) [OF assms] that(1) by (cases "R c") simp
next
  case False
  then show ?thesis using sched_repD(5,6) [OF assms] assms(2) that(2) by (cases "R c") (simp add: slot_def)
qed

lemma lists_rep_cong:
  "locks t List_lock = locks s List_lock \<Longrightarrow> head_lists t = head_lists s \<Longrightarrow>
    (\<And>p. pr_next (process_table t p) = pr_next (process_table s p)) \<Longrightarrow> lists_rep t Q \<longleftrightarrow> lists_rep s Q"
  using queue_rep_cong [of _ "process_table t" "process_table s"] by (simp add: lists_rep_def)

section \<open>What the operations leave alone\<close>

text \<open>Only links, states, wait values and saved contexts of processes change.\<close>

definition same_process :: "process \<Rightarrow> process \<Rightarrow> bool" where
  "same_process r r' \<longleftrightarrow> pr_pid r' = pr_pid r \<and> pr_name r' = pr_name r \<and> pr_page_map r' = pr_page_map r \<and>
     pr_stack r' = pr_stack r \<and> pr_file r' = pr_file r \<and> pr_tf r' = pr_tf r"

definition sched_frame :: "'a sys_scheme \<Rightarrow> 'a sys_scheme \<Rightarrow> bool" where
  "sched_frame s t \<longleftrightarrow>
     (\<forall>p. same_process (process_table s p) (process_table t p)) \<and>
     (\<forall>l. l \<noteq> Process_lock \<longrightarrow> locks t l = locks s l) \<and> pid_num t = pid_num s \<and>
     fcb_table t = fcb_table s \<and> file_desc_table t = file_desc_table s"

lemma sched_frame_pid: "sched_frame s t \<Longrightarrow> pid_of t p = pid_of s p"
  by (simp add: sched_frame_def same_process_def)

lemma sched_frame_trans: "sched_frame s t \<Longrightarrow> sched_frame t u \<Longrightarrow> sched_frame s u"
  by (simp add: sched_frame_def same_process_def)

lemma sched_frame_refl: "sched_frame s s"
  by (simp add: sched_frame_def same_process_def)

lemma sched_frame_links: "links_only s t \<Longrightarrow> sched_frame s t"
proof (elim links_onlyE)
  fix pt hl
  assume t: "t = s\<lparr>process_table := pt, head_lists := hl\<rparr>"
    and pt: "\<And>p. \<exists>n. pt p = (process_table s p)\<lparr>pr_next := n\<rparr>"
  have "same_process (process_table s p) (pt p)" for p
  proof -
    obtain n where "pt p = (process_table s p)\<lparr>pr_next := n\<rparr>" using pt by blast
    then show ?thesis by (simp add: same_process_def)
  qed
  then show "sched_frame s t" by (simp add: sched_frame_def t)
qed

text \<open>Writing a process's state and wait value.\<close>

definition mark :: "pref \<Rightarrow> proc_state \<Rightarrow> i32 \<Rightarrow> 'a sys_scheme \<Rightarrow> 'a sys_scheme" where
  "mark p st w s = upd_process p (\<lambda>r. r\<lparr>pr_state := st, pr_wait := w\<rparr>) s"

lemma mark_sel [simp]:
  "state_of (mark p st w s) x = (if x = p then st else state_of s x)" "pid_of (mark p st w s) x = pid_of s x"
  "wait_of (mark p st w s) x = (if x = p then w else wait_of s x)"
  "pr_next (process_table (mark p st w s) x) = pr_next (process_table s x)"
  "locks (mark p st w s) = locks s" "head_lists (mark p st w s) = head_lists s"
  "current_process (mark p st w s) = current_process s"
  by (auto simp: mark_def fun_eq_iff)

lemma sched_frame_mark: "sched_frame s (mark p st w s)"
  by (simp add: mark_def sched_frame_def same_process_def)

lemma lists_rep_mark [simp]: "lists_rep (mark p st w s) Q \<longleftrightarrow> lists_rep s Q"
  by (rule lists_rep_cong) simp_all

lemma mark_eqs:
  "upd_process p (\<lambda>r. r\<lparr>pr_state := st\<rparr>) s = mark p st (wait_of s p) s"
  "upd_process p (\<lambda>r. r\<lparr>pr_wait := w\<rparr>) (mark p st w' s) = mark p st w s"
  "upd_process p (\<lambda>r. r\<lparr>pr_wait := pr_pid r\<rparr>) (mark p st w' s) = mark p st (pid_of s p) s"
  by (simp_all add: mark_def upd_process_def)

section \<open>The moves\<close>

text \<open>The running process goes to a list of its core.\<close>

lemma park:
  assumes "sched_rep s Q R" "c < MAXCORES" "slot (R c)" "core_of l = c"
  shows "\<exists>t. append_list_tail l (R c) (mark (R c) (list_state l) w s) = Inr t \<and>
    sched_rep t (Q(l := Q l @ [R c])) (R(c := (c, 0))) \<and> sched_frame s t \<and>
    (\<forall>p. wait_of t p = (if p = R c then w else wait_of s p)) \<and> current_process t = current_process s \<and> locks t = locks s"
proof -
  let ?p = "R c" and ?s = "mark (R c) (list_state l) w s"
  have "lists_rep ?s Q" and new: "\<forall>l. ?p \<notin> set (Q l)"
    using sched_repD(1) [OF assms(1)] running_not_listed [OF assms(1,3,2)] by simp_all
  then obtain t where t: "append_list_tail l ?p ?s = Inr t" "lists_rep t (Q(l := Q l @ [?p]))" "links_only ?s t"
    using append_list_tail_law by blast
  note D = links_onlyD [OF t(3)]
  have c: "fst ?p = c" using sched_repD(5) [OF assms(1,2)] .
  have "sched_rep t (Q(l := Q l @ [?p])) (R(c := (c, 0)))"
  proof (rule sched_rep_move [where q = ?p, OF assms(1) t(2)])
    have "R (fst ?p) = ?p" "(c, 0) \<noteq> ?p" using c assms(3) by simp_all
    then show "placed t (Q(l := Q l @ [?p])) (R(c := (c, 0))) ?p"
      using sched_repD(4) [OF assms(1,3)] running_state [OF assms(1,3,2)] c new assms(3,4) list_state_inj [of l]
      by (auto simp: placed_def D)
    show "fst ((R(c := (c, 0))) c') = c' \<and> snd ((R(c := (c, 0))) c') < NUM_PROC" if "c' < MAXCORES" for c'
      using sched_repD(5,6) [OF assms(1) that] by (simp add: NUM_PROC_def)
  qed (use assms(3,4) c new D in \<open>auto split: if_splits\<close>)
  moreover have "sched_frame s t"
    using sched_frame_trans [OF sched_frame_mark sched_frame_links [OF t(3)]] .
  moreover have "\<forall>p. wait_of t p = (if p = ?p then w else wait_of s p)" using D(1) by simp
  ultimately show ?thesis using t(1) D(4,5) by auto
qed

text \<open>A core with nothing running takes the head of its ready list, or its idle process.\<close>

definition pick_next :: "nat \<Rightarrow> (list_id \<Rightarrow> pref list) \<Rightarrow> pref" where
  "pick_next c Q = (case Q (Ready c) of [] \<Rightarrow> (c, 0) | x # _ \<Rightarrow> x)"

lemma swap_sel [simp]:
  "state_of (swap c p n s) x = state_of s x" "wait_of (swap c p n s) x = wait_of s x"
  "pid_of (swap c p n s) x = pid_of s x"
  "pr_next (process_table (swap c p n s) x) = pr_next (process_table s x)" "locks (swap c p n s) = locks s"
  "head_lists (swap c p n s) = head_lists s" "current_process (swap c p n s) = current_process s"
  by (auto simp: swap_def upd_process_def Let_def fun_eq_iff)

lemma switch_process_sel [simp]:
  "state_of (switch_process c p q s) x = state_of s x" "wait_of (switch_process c p q s) x = wait_of s x"
  "pid_of (switch_process c p q s) x = pid_of s x"
  "pr_next (process_table (switch_process c p q s) x) = pr_next (process_table s x)"
  "locks (switch_process c p q s) = locks s"
  "head_lists (switch_process c p q s) = head_lists s"
  "current_process (switch_process c p q s) = current_process s"
  by (simp_all add: switch_process_def switch_vm_def)

lemma sched_frame_switch: "sched_frame s (switch_process c p q s)"
  unfolding switch_process_def switch_vm_def swap_def Let_def
  by (simp add: sched_frame_def same_process_def upd_process_def)

lemma lists_rep_switch [simp]: "lists_rep (switch_process c p q s) Q \<longleftrightarrow> lists_rep s Q"
  by (rule lists_rep_cong) simp_all

lemma dispatch:
  assumes "sched_rep s Q R" "c < MAXCORES" "R c = (c, 0)" "current_process s c = Some prev"
  defines "n \<equiv> pick_next c Q"
  shows "\<exists>t. schedule c s = Inr (if prev = n then Stay t else Switch t) \<and>
    sched_rep t (Q(Ready c := tl (Q (Ready c)))) (R(c := n)) \<and> sched_frame s t \<and>
    (\<forall>p. wait_of t p = wait_of s p) \<and> current_process t = (current_process s)(c := Some n) \<and> locks t = locks s"
proof -
  have take: "\<exists>u. (if is_list_empty (Ready c) s then Inr (Some (c, 0), s) else remove_list_head (Ready c) s) = Inr (Some n, u) \<and>
      lists_rep u (Q(Ready c := tl (Q (Ready c)))) \<and> links_only s u"
  proof (cases "Q (Ready c)")
    case Nil
    then have "is_list_empty (Ready c) s"
      using queue_rep_headD(3) [OF lists_repD(2) [OF sched_repD(1) [OF assms(1)], of "Ready c"]]
      by (simp add: is_list_empty_def)
    then show ?thesis
      using Nil sched_repD(1) [OF assms(1)] fun_upd_idem [of Q "Ready c" "[]"]
      by (simp add: n_def pick_next_def links_only_def)
  next
    case (Cons x xs)
    then have "\<not> is_list_empty (Ready c) s"
      using queue_rep_headD(3) [OF lists_repD(2) [OF sched_repD(1) [OF assms(1)], of "Ready c"]]
      by (simp add: is_list_empty_def)
    then show ?thesis
      using Cons remove_list_head_law [OF sched_repD(1) [OF assms(1)], of "Ready c"]
      by (simp add: n_def pick_next_def)
  qed
  then obtain u where u: "lists_rep u (Q(Ready c := tl (Q (Ready c))))" "links_only s u" and
    hd: "(if is_list_empty (Ready c) s then Inr (Some (c, 0), s) else remove_list_head (Ready c) s) = Inr (Some n, u)"
    by blast
  note D = links_onlyD [OF u(2)]
  define v where "v = mark n PROC_RUNNING (wait_of u n) u"
  define w where "w = v\<lparr>current_process := (current_process v)(c := Some n)\<rparr>"
  define t where "t = (if prev = n then v else switch_process c prev n w)"
  have run: "schedule c s = Inr (if prev = n then Stay t else Switch t)"
    using assms(4) by (auto simp: schedule_def hd mark_eqs v_def [symmetric] w_def [symmetric] t_def)
  have cur: "current_process t = (current_process s)(c := Some n)"
    using assms(4) by (auto simp: t_def w_def v_def D fun_eq_iff)
  have lr: "lists_rep t (Q(Ready c := tl (Q (Ready c))))"
    using u(1) lists_rep_cong [of w v] by (simp add: t_def w_def v_def)
  have st: "state_of t p = (if p = n then PROC_RUNNING else state_of s p)" "pid_of t p = pid_of s p"
      "wait_of t p = wait_of s p" for p
    by (simp_all add: t_def w_def v_def D)
  have lk: "locks t = locks s" by (simp add: t_def w_def v_def D)
  have n_in: "slot n \<Longrightarrow> n \<in> set (Q (Ready c)) \<and> fst n = c" "fst n = c" "snd n < NUM_PROC"
    using sched_repD(2,3) [OF assms(1), of n "Ready c"]
    by (auto simp: n_def pick_next_def slot_def NUM_PROC_def split: list.splits)
  have hdQ: "n \<in> set (Q (Ready c)) \<Longrightarrow> Q (Ready c) = n # tl (Q (Ready c))"
    by (auto simp: n_def pick_next_def split: list.splits)
  have d: "distinct (Q (Ready c))" and dj: "l \<noteq> Ready c \<Longrightarrow> n \<in> set (Q (Ready c)) \<Longrightarrow> n \<notin> set (Q l)" for l
    using sched_repD(1) [OF assms(1)] lists_repD(2) [of s Q "Ready c"] lists_repD(3) [of s Q "Ready c" l n]
    by (auto simp: queue_rep_def)
  have tl: "n \<notin> set (tl (Q (Ready c)))"
    using d hdQ list.set_sel(2) [of "Q (Ready c)"] by (metis distinct.simps(2) list.sel(2) list.set_cases)
  have "sched_rep t (Q(Ready c := tl (Q (Ready c)))) (R(c := n))"
  proof (rule sched_rep_move [where q = n, OF assms(1) lr])
    show "p \<in> set ((Q(Ready c := tl (Q (Ready c)))) l) \<longleftrightarrow> p \<in> set (Q l)" if "p \<noteq> n" for p l
      using that by (cases "Q (Ready c)") (auto simp: n_def pick_next_def)
    show "(R(c := n)) (fst p) = p \<longleftrightarrow> R (fst p) = p" if "p \<noteq> n" "slot p" for p
      using that assms(3) by simp
    show "slot n \<Longrightarrow> placed t (Q(Ready c := tl (Q (Ready c)))) (R(c := n)) n"
      using n_in(1) tl dj listed_state(2) [OF assms(1), of n "Ready c"] by (auto simp: placed_def st)
    show "slot n \<and> fst n = core_of l" if "n \<in> set ((Q(Ready c := tl (Q (Ready c)))) l)" for l
      using that sched_repD(2,3) [OF assms(1), of n l] tl by (auto split: if_splits)
    show "fst ((R(c := n)) c') = c' \<and> snd ((R(c := n)) c') < NUM_PROC" if "c' < MAXCORES" for c'
      using sched_repD(5,6) [OF assms(1) that] n_in(2,3) by simp
  qed (simp_all add: st)
  moreover have "sched_frame v w" by (simp add: w_def sched_frame_def same_process_def)
  then have "sched_frame s t"
    using sched_frame_links [OF u(2)] sched_frame_mark [of u n PROC_RUNNING "wait_of u n"]
      sched_frame_switch [of w c prev n] sched_frame_trans
    unfolding t_def v_def by (metis (full_types))
  ultimately show ?thesis using run cur st(3) lk by blast
qed

section \<open>The operations on the queues\<close>

text \<open>The state a call leaves behind once the incoming process, if any, has released the lock.\<close>

fun settle :: "'a sys_scheme flow \<Rightarrow> 'a sys_scheme" where
  "settle (Stay s) = s"
| "settle (Switch s) = resume s"

lemma sched_invD:
  assumes "sched_inv s Q R"
  shows "sched_rep s Q R" "c < MAXCORES \<Longrightarrow> current_process s c = Some (R c)" "\<not> locks s Process_lock"
  using assms by (auto simp: sched_inv_def)

lemma sched_rep_locks:
  "l \<noteq> List_lock \<Longrightarrow> sched_rep (s\<lparr>locks := (locks s)(l := b)\<rparr>) Q R \<longleftrightarrow> sched_rep s Q R"
  by (simp add: sched_rep_def placed_def lists_rep_def)

lemma sched_frame_locks: "sched_frame s (s\<lparr>locks := (locks s)(Process_lock := b)\<rparr>)"
  by (simp add: sched_frame_def same_process_def)

text \<open>Parked with the lock held, a core schedules and the lock is released.\<close>

lemma schedule_unlock_law:
  assumes "sched_rep s Q (R(c := (c, 0)))" "c < MAXCORES" "current_process s c = Some prev"
    and "\<forall>c' < MAXCORES. c' \<noteq> c \<longrightarrow> current_process s c' = Some (R c')"
  defines "n \<equiv> pick_next c Q"
  shows "\<exists>f. schedule_unlock c s = Inr f \<and> (f = Stay (settle f) \<longleftrightarrow> prev = n) \<and>
    sched_inv (settle f) (Q(Ready c := tl (Q (Ready c)))) (R(c := n)) \<and> sched_frame s (settle f) \<and>
    (\<forall>p. wait_of (settle f) p = wait_of s p)"
proof -
  obtain t where t: "schedule c s = Inr (if prev = n then Stay t else Switch t)"
    "sched_rep t (Q(Ready c := tl (Q (Ready c)))) (R(c := n))" "sched_frame s t"
    "\<forall>p. wait_of t p = wait_of s p" "current_process t = (current_process s)(c := Some n)"
    using dispatch [OF assms(1,2) fun_upd_same assms(3), folded n_def] unfolding fun_upd_upd by blast
  define f where "f = (if prev = n then Stay (spin_unlock Process_lock t) else Switch t)"
  have st: "settle f = t\<lparr>locks := (locks t)(Process_lock := False)\<rparr>"
    by (simp add: f_def resume_def spin_unlock_def)
  have "schedule_unlock c s = Inr f" by (simp add: schedule_unlock_def t(1) f_def)
  moreover have "f = Stay (settle f) \<longleftrightarrow> prev = n" by (simp add: f_def)
  moreover have "sched_inv (settle f) (Q(Ready c := tl (Q (Ready c)))) (R(c := n))"
    using t(2,5) assms(4) unfolding st by (simp add: sched_inv_def sched_rep_locks)
  moreover have "sched_frame s (settle f)"
    unfolding st using sched_frame_trans [OF t(3) sched_frame_locks] .
  ultimately show ?thesis using t(4) st by (intro exI [of _ f]) simp
qed

text \<open>
  \<open>yield\<close> returns at once when nothing is ready; otherwise the running process, unless it is the
  idle one, goes to the end of the ready list and the head of the list runs.
\<close>

lemma yield_law:
  assumes "sched_inv s Q R" "c < MAXCORES"
  shows "\<exists>f. yield c s = Inr f \<and> sched_frame s (settle f) \<and> (\<forall>p. wait_of (settle f) p = wait_of s p) \<and>
    (case Q (Ready c) of
       [] \<Rightarrow> f = Stay s
     | x # xs \<Rightarrow> f \<noteq> Stay (settle f) \<and>
         sched_inv (settle f) (Q(Ready c := (if R c = (c, 0) then xs else xs @ [R c]))) (R(c := x)))"
proof -
  note rep = sched_invD(1) [OF assms(1)] and cur = sched_invD(2) [OF assms(1)] and lk = sched_invD(3) [OF assms(1)]
  note q = lists_repD(2) [OF sched_repD(1) [OF rep], of "Ready c"]
  define s0 where "s0 = s\<lparr>locks := (locks s)(Process_lock := True)\<rparr>"
  have rep0: "sched_rep s0 Q R" and cur0: "current_process s0 = current_process s"
    using rep by (simp_all add: s0_def sched_rep_locks)
  have fr0: "sched_frame s s0" unfolding s0_def by (rule sched_frame_locks)
  show ?thesis
  proof (cases "Q (Ready c)")
    case Nil
    then have "is_list_empty (Ready c) s" using queue_rep_headD(3) [OF q] by (simp add: is_list_empty_def)
    then show ?thesis using Nil lk by (simp add: yield_def is_list_empty_def sched_frame_refl)
  next
    case (Cons x xs)
    have x: "slot x" "x \<in> set (Q (Ready c))" using sched_repD(2) [OF rep, of x "Ready c"] Cons by simp_all
    have ne: "\<not> is_list_empty (Ready c) s0" using queue_rep_headD(3) [OF q] Cons by (simp add: is_list_empty_def s0_def)
    define s1 where "s1 = mark (R c) PROC_READY (wait_of s0 (R c)) s0"
    have run: "yield c s = rbind (if sint (pid_of s (R c)) \<ge> 4 then append_list_tail (Ready c) (R c) s1 else Inr s1)
        (schedule_unlock c)"
      using lk ne cur [OF assms(2)] cur0 by (simp add: yield_def s0_def [symmetric] mark_eqs s1_def) (simp add: s0_def)
    have "\<exists>t. yield c s = schedule_unlock c t \<and> sched_frame s t \<and> (\<forall>p. wait_of t p = wait_of s p) \<and>
      current_process t = current_process s \<and>
      sched_rep t (Q(Ready c := (if R c = (c, 0) then x # xs else x # xs @ [R c]))) (R(c := (c, 0)))"
      using running_cases [OF rep assms(2)]
    proof cases
      case 1
      have "\<not> 4 \<le> sint (pid_of s (R c))" using sched_repD(7) [OF rep assms(2)] 1 by simp
      then have "yield c s = schedule_unlock c s1" by (simp add: run)
      moreover have "sched_rep s1 Q R"
        by (rule sched_rep_move [where q = "R c", OF rep0])
           (use sched_repD [OF rep0] idle_not_listed [OF rep0] 1 in \<open>simp_all add: s1_def\<close>)
      moreover have "sched_frame s s1" unfolding s1_def using sched_frame_trans [OF fr0 sched_frame_mark] .
      ultimately show ?thesis
        using 1 Cons cur0 fun_upd_idem [of R c "(c, 0)"] fun_upd_idem [of Q "Ready c" "x # xs"]
        by (intro exI [of _ s1]) (simp add: s1_def s0_def)
    next
      case 2
      have "4 \<le> sint (pid_of s (R c))"
        using sched_repD(4) [OF rep 2(1)] running_state [OF rep 2(1) assms(2)] by (simp add: placed_def)
      moreover obtain t where t: "append_list_tail (Ready c) (R c) s1 = Inr t"
        "sched_rep t (Q(Ready c := Q (Ready c) @ [R c])) (R(c := (c, 0)))" "sched_frame s0 t"
        "\<forall>p. wait_of t p = (if p = R c then wait_of s0 (R c) else wait_of s0 p)" "current_process t = current_process s0"
        using park [OF rep0 assms(2) 2(1), of "Ready c" "wait_of s0 (R c)"] by (auto simp: s1_def)
      ultimately show ?thesis
        using run 2 Cons cur0 sched_frame_trans [OF fr0 t(3)] by (intro exI [of _ t]) (simp add: s0_def)
    qed
    then obtain t where t: "yield c s = schedule_unlock c t" "sched_frame s t" "\<forall>p. wait_of t p = wait_of s p"
      "current_process t = current_process s"
      and rt: "sched_rep t (Q(Ready c := (if R c = (c, 0) then x # xs else x # xs @ [R c]))) (R(c := (c, 0)))" by blast
    have nx: "pick_next c (Q(Ready c := (if R c = (c, 0) then x # xs else x # xs @ [R c]))) = x"
      by (simp add: pick_next_def)
    have xR: "R c \<noteq> x" using x running_not_listed [OF rep, of c] assms(2) by (cases "slot (R c)") auto
    have Qx: "(Q(Ready c := (if R c = (c, 0) then x # xs else x # xs @ [R c])))(Ready c :=
        tl ((Q(Ready c := (if R c = (c, 0) then x # xs else x # xs @ [R c]))) (Ready c))) =
        Q(Ready c := (if R c = (c, 0) then xs else xs @ [R c]))" by (simp add: fun_eq_iff)
    have "current_process t c = Some (R c)" "\<forall>c' < MAXCORES. c' \<noteq> c \<longrightarrow> current_process t c' = Some (R c')"
      using t(4) cur assms(2) by simp_all
    then obtain f where f: "schedule_unlock c t = Inr f" "f = Stay (settle f) \<longleftrightarrow> R c = x"
      "sched_inv (settle f) (Q(Ready c := (if R c = (c, 0) then xs else xs @ [R c]))) (R(c := x))"
      "sched_frame t (settle f)" "\<forall>p. wait_of (settle f) p = wait_of t p"
      using schedule_unlock_law [OF rt assms(2)] unfolding nx Qx by blast
    then show ?thesis using t Cons xR sched_frame_trans [OF t(2) f(4)] by (intro exI [of _ f]) simp
  qed
qed

lemma sleep_law:
  assumes "sched_inv s Q R" "c < MAXCORES" "slot (R c)"
  shows "\<exists>f. sleep c w s = Inr f \<and> f \<noteq> Stay (settle f) \<and> sched_frame s (settle f) \<and>
    (\<forall>p. wait_of (settle f) p = (if p = R c then w else wait_of s p)) \<and>
    sched_inv (settle f) (Q(Waiting c := Q (Waiting c) @ [R c], Ready c := tl (Q (Ready c)))) (R(c := pick_next c Q))"
proof -
  note rep = sched_invD(1) [OF assms(1)] and cur = sched_invD(2) [OF assms(1)] and lk = sched_invD(3) [OF assms(1)]
  define s0 where "s0 = s\<lparr>locks := (locks s)(Process_lock := True)\<rparr>"
  have rep0: "sched_rep s0 Q R" and fr0: "sched_frame s s0" and cur0: "current_process s0 = current_process s"
    using rep sched_frame_locks [of s True] by (simp_all add: s0_def sched_rep_locks)
  define Q' where "Q' = Q(Waiting c := Q (Waiting c) @ [R c])"
  obtain t where t: "append_list_tail (Waiting c) (R c) (mark (R c) PROC_SLEEP w s0) = Inr t"
    "sched_rep t Q' (R(c := (c, 0)))" "sched_frame s0 t"
    "\<forall>p. wait_of t p = (if p = R c then w else wait_of s0 p)" "current_process t = current_process s0"
    using park [OF rep0 assms(2,3), of "Waiting c" w] unfolding Q'_def by auto
  have run: "sleep c w s = schedule_unlock c t"
    using lk cur [OF assms(2)] cur0 t(1) by (simp add: sleep_def s0_def [symmetric] mark_eqs)
  have "current_process t c = Some (R c)" "\<forall>c' < MAXCORES. c' \<noteq> c \<longrightarrow> current_process t c' = Some (R c')"
    using t(5) cur0 cur assms(2) by simp_all
  then obtain f where f: "schedule_unlock c t = Inr f" "f = Stay (settle f) \<longleftrightarrow> R c = pick_next c Q'"
      "sched_inv (settle f) (Q'(Ready c := tl (Q' (Ready c)))) (R(c := pick_next c Q'))"
      "sched_frame t (settle f)" "\<forall>p. wait_of (settle f) p = wait_of t p"
    using schedule_unlock_law [OF t(2) assms(2)] by blast
  have Qs: "pick_next c Q' = pick_next c Q" "Q' (Ready c) = Q (Ready c)" by (simp_all add: Q'_def pick_next_def)
  have "R c \<noteq> pick_next c Q"
    using running_not_listed [OF rep assms(3,2), of "Ready c"] assms(3)
    by (auto simp: pick_next_def split: list.splits)
  then show ?thesis
    using run f(1-3,5) t(4) sched_frame_trans [OF sched_frame_trans [OF fr0 t(3)] f(4)]
    unfolding Qs unfolding Q'_def by (intro exI [of _ f]) (simp add: s0_def)
qed

text \<open>Waking: the waiters with the value \<open>w\<close>, in order, to the end of the ready list of their core.\<close>

definition woken :: "nat set \<Rightarrow> i32 \<Rightarrow> (pref \<Rightarrow> i32) \<Rightarrow> (list_id \<Rightarrow> pref list) \<Rightarrow> list_id \<Rightarrow> pref list" where
  "woken I w wt Q l = (case l of
       Ready i \<Rightarrow> Q l @ (if i \<in> I then filter (\<lambda>p. wt p = w) (Q (Waiting i)) else [])
     | Waiting i \<Rightarrow> (if i \<in> I then filter (\<lambda>p. wt p \<noteq> w) (Q l) else Q l)
     | Killed i \<Rightarrow> Q l)"

lemma wake_one:
  assumes "sched_rep s Q R" "find (\<lambda>p. wait_of s p = w) (Q (Waiting i)) = Some p"
  shows "\<exists>t. wake_core i w s = wake_core i w t \<and> sched_frame s t \<and> current_process t = current_process s \<and>
    locks t = locks s \<and> (\<forall>p. wait_of t p = wait_of s p) \<and>
    sched_rep t (Q(Waiting i := remove1 p (Q (Waiting i)), Ready i := Q (Ready i) @ [p])) R"
proof -
  let ?Q1 = "Q(Waiting i := remove1 p (Q (Waiting i)))"
  have p: "p \<in> set (Q (Waiting i))" "wait_of s p = w" using assms(2) by (auto simp: find_Some_iff)
  note L = sched_repD(1) [OF assms(1)]
  have d: "distinct (Q (Waiting i))" using lists_repD(2) [OF L, of "Waiting i"] by (simp add: queue_rep_def)
  obtain u where u: "remove_list (Waiting i) w s = Inr (Some p, u)" "lists_rep u ?Q1" "links_only s u"
    using remove_list_law [OF L, of "Waiting i" w] assms(2) by auto
  note D = links_onlyD [OF u(3)]
  have out: "\<forall>l. p \<notin> set (?Q1 l)"
    using d lists_repD(3) [OF L, of "Waiting i" _ p] p(1) by auto
  let ?v = "mark p PROC_READY (wait_of u p) u"
  obtain t where t: "append_list_tail (Ready i) p ?v = Inr t"
    "lists_rep t (?Q1(Ready i := ?Q1 (Ready i) @ [p]))" "links_only ?v t"
    using append_list_tail_law [of ?v ?Q1 p "Ready i"] u(2) out by auto
  note E = links_onlyD [OF t(3)]
  have run: "wake_core i w s = wake_core i w t"
    by (subst wake_core.simps) (simp add: u(1) mark_eqs t(1))
  have st: "state_of t x = (if x = p then PROC_READY else state_of s x)" "pid_of t x = pid_of s x"
      "wait_of t x = wait_of s x" for x
    by (simp_all add: E D)
  have sp: "slot p" "fst p = i" using sched_repD(2,3) [OF assms(1) p(1)] by simp_all
  have "R i \<noteq> p" using sched_repD(4) [OF assms(1) sp(1)] listed_state(1) [OF assms(1) p(1)] sp(2)
    by (auto simp: placed_def)
  moreover have "PROC_READY = list_state l \<longleftrightarrow> l = Ready i" if "core_of l = i" for l
    using that by (cases l) auto
  ultimately have "sched_rep t (?Q1(Ready i := ?Q1 (Ready i) @ [p])) R"
    using sched_repD(5,6) [OF assms(1)] listed_state(2) [OF assms(1) p(1)] out d
    by (intro sched_rep_move [where q = p, OF assms(1) t(2)])
       (auto simp: st sp placed_def split: if_splits)
  moreover have "sched_frame s t"
    using sched_frame_links [OF u(3)] sched_frame_mark [of u p PROC_READY "wait_of u p"]
      sched_frame_links [OF t(3)] sched_frame_trans by blast
  ultimately show ?thesis
    using run st(3) E(4,5) D(4,5) by (intro exI [of _ t]) simp
qed

lemma filter_remove1_find:
  "distinct xs \<Longrightarrow> find P xs = Some p \<Longrightarrow>
    filter (\<lambda>x. \<not> P x) (remove1 p xs) = filter (\<lambda>x. \<not> P x) xs \<and> p # filter P (remove1 p xs) = filter P xs"
proof (induction xs)
  case (Cons x xs)
  then show ?case using find_Some_iff [of P xs p] by (auto split: if_splits)
qed simp

lemma wake_core_law:
  "sched_rep s Q R \<Longrightarrow>
    \<exists>t. wake_core i w s = Some (Inr t) \<and> sched_frame s t \<and> current_process t = current_process s \<and>
      locks t = locks s \<and> (\<forall>p. wait_of t p = wait_of s p) \<and> sched_rep t (woken {i} w (wait_of s) Q) R"
proof (induction "length (filter (\<lambda>p. wait_of s p = w) (Q (Waiting i)))" arbitrary: s Q)
  case 0
  then have none: "\<forall>p \<in> set (Q (Waiting i)). wait_of s p \<noteq> w" by (auto simp: filter_empty_conv)
  then have "find (\<lambda>p. wait_of s p = w) (Q (Waiting i)) = None" by (simp add: find_None_iff)
  then obtain t where t: "remove_list (Waiting i) w s = Inr (None, t)" "lists_rep t Q" "links_only s t"
    using remove_list_law [OF sched_repD(1) [OF "0.prems"], of "Waiting i" w] by auto
  note D = links_onlyD [OF t(3)]
  have "wake_core i w s = Some (Inr t)" by (subst wake_core.simps) (simp add: t(1))
  moreover have "woken {i} w (wait_of s) Q = Q"
    using none by (auto simp: woken_def fun_eq_iff filter_id_conv split: list_id.splits)
  moreover have "sched_rep t Q R"
    by (rule sched_rep_move [where q = "(0, 0)", OF "0.prems" t(2)])
       (use sched_repD [OF "0.prems"] idle_not_listed [OF "0.prems"] in \<open>simp_all add: D\<close>)
  ultimately show ?case using sched_frame_links [OF t(3)] D by auto
next
  case (Suc n)
  have d: "distinct (Q (Waiting i))"
    using lists_repD(2) [OF sched_repD(1) [OF Suc.prems], of "Waiting i"] by (simp add: queue_rep_def)
  obtain p where p: "find (\<lambda>p. wait_of s p = w) (Q (Waiting i)) = Some p"
    using Suc.hyps(2) by (cases "find (\<lambda>p. wait_of s p = w) (Q (Waiting i))") (auto simp: find_None_iff filter_empty_conv)
  note fr = filter_remove1_find [OF d p]
  define Q' where "Q' = Q(Waiting i := remove1 p (Q (Waiting i)), Ready i := Q (Ready i) @ [p])"
  obtain u where u: "wake_core i w s = wake_core i w u" "sched_frame s u" "current_process u = current_process s"
    "locks u = locks s" "\<forall>p. wait_of u p = wait_of s p" "sched_rep u Q' R"
    using wake_one [OF Suc.prems p] unfolding Q'_def by blast
  have "n = length (filter (\<lambda>p. wait_of u p = w) (Q' (Waiting i)))"
    using Suc.hyps(2) arg_cong [OF conjunct2 [OF fr], of length] u(5) by (simp add: Q'_def)
  then obtain t where t: "wake_core i w u = Some (Inr t)" "sched_frame u t" "current_process t = current_process u"
    "locks t = locks u" "\<forall>p. wait_of t p = wait_of u p" "sched_rep t (woken {i} w (wait_of u) Q') R"
    using Suc.hyps(1) [OF _ u(6)] by blast
  have "woken {i} w (wait_of u) Q' = woken {i} w (wait_of s) Q"
    using fr u(5) by (auto simp: woken_def Q'_def fun_eq_iff split: list_id.splits)
  then show ?case using t u sched_frame_trans [OF u(2) t(2)] by auto
qed

lemma woken_insert:
  "i \<notin> I \<Longrightarrow> woken {i} w wt (woken I w wt Q) = woken (insert i I) w wt Q"
  by (auto simp: woken_def fun_eq_iff split: list_id.splits)

lemma woken_empty: "woken {} w wt Q = Q"
  by (auto simp: woken_def fun_eq_iff split: list_id.splits)

lemma wake_cores_law:
  "sched_rep s Q R \<Longrightarrow> distinct is \<Longrightarrow>
    \<exists>t. wake_cores is w s = Inr t \<and> sched_frame s t \<and> current_process t = current_process s \<and>
      locks t = locks s \<and> (\<forall>p. wait_of t p = wait_of s p) \<and> sched_rep t (woken (set is) w (wait_of s) Q) R"
proof (induction "is" arbitrary: s Q)
  case Nil
  then show ?case by (simp add: sched_frame_refl woken_empty)
next
  case (Cons i "is")
  obtain u where u: "wake_core i w s = Some (Inr u)" "sched_frame s u" "current_process u = current_process s"
    "locks u = locks s" "\<forall>p. wait_of u p = wait_of s p" "sched_rep u (woken {i} w (wait_of s) Q) R"
    using wake_core_law [OF Cons.prems(1)] by blast
  obtain t where t: "wake_cores is w u = Inr t" "sched_frame u t" "current_process t = current_process u"
    "locks t = locks u" "\<forall>p. wait_of t p = wait_of u p"
    "sched_rep t (woken (set is) w (wait_of u) (woken {i} w (wait_of s) Q)) R"
    using Cons.IH [OF u(6)] Cons.prems(2) by auto
  have "wait_of u = wait_of s" using u(5) by auto
  then have "woken (set is) w (wait_of u) (woken {i} w (wait_of s) Q) = woken (set (i # is)) w (wait_of s) Q"
    using Cons.prems(2) by (auto simp: woken_def fun_eq_iff split: list_id.splits)
  then show ?case using t u sched_frame_trans [OF u(2) t(2)] by auto
qed

lemma wake_up_rep:
  assumes rep: "sched_rep s Q R" and lk: "\<not> locks s Process_lock"
  shows "\<exists>t. wake_up w s = Inr t \<and> sched_frame s t \<and> (\<forall>p. wait_of t p = wait_of s p) \<and>
    current_process t = current_process s \<and> \<not> locks t Process_lock \<and> sched_rep t (woken {..<MAXCORES} w (wait_of s) Q) R"
proof -
  define s0 where "s0 = s\<lparr>locks := (locks s)(Process_lock := True)\<rparr>"
  have rep0: "sched_rep s0 Q R" and fr0: "sched_frame s s0"
    using rep sched_frame_locks [of s True] by (simp_all add: s0_def sched_rep_locks)
  have "set [0..<MAXCORES] = {..<MAXCORES}" by auto
  then obtain t where t: "wake_cores [0..<MAXCORES] w s0 = Inr t" "sched_frame s0 t"
    "current_process t = current_process s0" "locks t = locks s0" "\<forall>p. wait_of t p = wait_of s0 p"
    "sched_rep t (woken {..<MAXCORES} w (wait_of s0) Q) R"
    using wake_cores_law [OF rep0, of "[0..<MAXCORES]" w] by auto
  have run: "wake_up w s = Inr (t\<lparr>locks := (locks t)(Process_lock := False)\<rparr>)"
    using lk t(1) by (simp add: wake_up_def s0_def [symmetric] spin_unlock_def)
  have "wait_of s0 = wait_of s" by (simp add: s0_def)
  then have "sched_rep (t\<lparr>locks := (locks t)(Process_lock := False)\<rparr>) (woken {..<MAXCORES} w (wait_of s) Q) R"
    using t(6) by (simp add: sched_rep_locks)
  then show ?thesis
    using run t(3,5) sched_frame_trans [OF sched_frame_trans [OF fr0 t(2)] sched_frame_locks]
    by (intro exI [of _ "t\<lparr>locks := (locks t)(Process_lock := False)\<rparr>"]) (simp add: s0_def)
qed

lemma wake_up_law:
  assumes "sched_inv s Q R"
  shows "\<exists>t. wake_up w s = Inr t \<and> sched_frame s t \<and> (\<forall>p. wait_of t p = wait_of s p) \<and>
    sched_inv t (woken {..<MAXCORES} w (wait_of s) Q) R"
  using wake_up_rep [OF sched_invD(1,3) [OF assms], of w] sched_invD(2) [OF assms] by (auto simp: sched_inv_def)

text \<open>
  \<open>exit\<close> puts the running process on the killed list with its own pid as wait value, wakes the
  processes that wait for an exit, and schedules.
\<close>

lemma exit_law:
  assumes "sched_inv s Q R" "c < MAXCORES" "slot (R c)"
  defines "Q' \<equiv> woken {..<MAXCORES} (- 3) (wait_of s) (Q(Killed c := Q (Killed c) @ [R c]))"
  shows "\<exists>t. exit_process c s = Inr (Switch t) \<and> sched_frame s (resume t) \<and>
    (\<forall>p. wait_of (resume t) p = (if p = R c then pid_of s (R c) else wait_of s p)) \<and>
    sched_inv (resume t) (Q'(Ready c := tl (Q' (Ready c)))) (R(c := pick_next c Q'))"
proof -
  note rep = sched_invD(1) [OF assms(1)] and cur = sched_invD(2) [OF assms(1)] and lk = sched_invD(3) [OF assms(1)]
  define s0 where "s0 = s\<lparr>locks := (locks s)(Process_lock := True)\<rparr>"
  have rep0: "sched_rep s0 Q R" and fr0: "sched_frame s s0"
    using rep sched_frame_locks [of s True] by (simp_all add: s0_def sched_rep_locks)
  define K where "K = Q(Killed c := Q (Killed c) @ [R c])"
  obtain t1 where t1: "append_list_tail (Killed c) (R c) (mark (R c) PROC_KILLED (pid_of s0 (R c)) s0) = Inr t1"
    "sched_rep t1 K (R(c := (c, 0)))" "sched_frame s0 t1"
    "\<forall>p. wait_of t1 p = (if p = R c then pid_of s0 (R c) else wait_of s0 p)" "current_process t1 = current_process s0"
    using park [OF rep0 assms(2,3), of "Killed c" "pid_of s0 (R c)"] unfolding K_def by auto
  define t2 where "t2 = t1\<lparr>locks := (locks t1)(Process_lock := False)\<rparr>"
  have "sched_rep t2 K (R(c := (c, 0)))" "\<not> locks t2 Process_lock" "sched_frame t1 t2"
    using t1(2) sched_frame_locks [of t1 False] by (simp_all add: t2_def sched_rep_locks)
  moreover have "woken {..<MAXCORES} (- 3) (wait_of t2) K = Q'"
  proof -
    have "R c \<notin> set (K (Waiting i))" for i
      using running_not_listed [OF rep assms(3,2)] by (simp add: K_def)
    then have "filter (\<lambda>p. wait_of t2 p = v) (K (Waiting i)) = filter (\<lambda>p. wait_of s p = v) (K (Waiting i))"
      "filter (\<lambda>p. wait_of t2 p \<noteq> v) (K (Waiting i)) = filter (\<lambda>p. wait_of s p \<noteq> v) (K (Waiting i))" for i v
      using t1(4) by (auto simp: t2_def s0_def intro!: filter_cong)
    then show ?thesis unfolding Q'_def K_def [symmetric] by (auto simp: woken_def fun_eq_iff split: list_id.splits)
  qed
  ultimately obtain t3 where t3: "wake_up (- 3) t2 = Inr t3" "sched_frame t2 t3" "\<forall>p. wait_of t3 p = wait_of t2 p"
    "current_process t3 = current_process t2" "\<not> locks t3 Process_lock" "sched_rep t3 Q' (R(c := (c, 0)))"
    and fr2: "sched_frame t1 t2"
    using wake_up_rep [of t2 K "R(c := (c, 0))" "- 3"] by auto
  define t4 where "t4 = t3\<lparr>locks := (locks t3)(Process_lock := True)\<rparr>"
  have cs: "current_process t4 = current_process s"
    by (simp add: t4_def t3(4) t2_def t1(5) s0_def)
  have cu: "current_process t4 c = Some (R c)" "\<forall>c' < MAXCORES. c' \<noteq> c \<longrightarrow> current_process t4 c' = Some (R c')"
    using cs cur assms(2) by simp_all
  have "sched_rep t4 Q' (R(c := (c, 0)))" "sched_frame t3 t4"
    using t3(6) sched_frame_locks [of t3 True] by (simp_all add: t4_def sched_rep_locks)
  note d = dispatch [OF this(1) assms(2) fun_upd_same cu(1), unfolded fun_upd_upd] and fr4 = this(2)
  have "R c \<notin> set (Q' (Ready c))"
    using running_not_listed [OF rep assms(3,2)] by (simp add: Q'_def woken_def)
  then have ne: "R c \<noteq> pick_next c Q'" using assms(3) by (auto simp: pick_next_def split: list.splits)
  obtain t where t: "schedule c t4 = Inr (Switch t)" "sched_rep t (Q'(Ready c := tl (Q' (Ready c)))) (R(c := pick_next c Q'))"
    "sched_frame t4 t" "\<forall>p. wait_of t p = wait_of t4 p"
    "current_process t = (current_process t4)(c := Some (pick_next c Q'))"
    using d ne by auto
  have rt: "resume t = t\<lparr>locks := (locks t)(Process_lock := False)\<rparr>" by (simp add: resume_def spin_unlock_def)
  have comm: "mark (R c) PROC_KILLED w (s\<lparr>locks := L\<rparr>) = (mark (R c) PROC_KILLED w s)\<lparr>locks := L\<rparr>" for w L
    by (simp add: mark_def upd_process_def)
  have pid0: "pid_of s0 (R c) = pid_of s (R c)" by (simp add: s0_def)
  have "exit_process c s = schedule c t4"
    using lk t3(5) t1(1) t3(1) cur [OF assms(2)]
    by (simp add: exit_process_def mark_eqs pid0 s0_def comm Let_def t2_def t4_def spin_unlock_def)
  moreover have "sched_frame s t"
    using fr0 t1(3) fr2 t3(2) fr4 t(3) sched_frame_trans by blast
  then have "sched_frame s (resume t)" unfolding rt by (rule sched_frame_trans [OF _ sched_frame_locks])
  moreover have "sched_inv (resume t) (Q'(Ready c := tl (Q' (Ready c)))) (R(c := pick_next c Q'))"
    using t(2,5) cu(2) unfolding rt by (simp add: sched_inv_def sched_rep_locks)
  moreover have "\<forall>p. wait_of (resume t) p = (if p = R c then pid_of s (R c) else wait_of s p)"
    unfolding rt using t(4) t3(3) t1(4) by (simp add: t4_def t2_def s0_def)
  ultimately show ?thesis using t(1) by auto
qed

end
