(* ===== verification/Scheduler_Traces.thy ===== *)
theory Scheduler_Traces
  imports Scheduler_Correct
begin

text \<open>
  Scheduling on four cores as a transition system.  An event is one call of \<open>yield\<close>, \<open>sleep\<close>,
  \<open>wake_up\<close> or \<open>exit\<close> on some core; each runs under \<open>process_lock\<close>, so an execution is an
  interleaving of such calls.  The invariant of theory \<open>Scheduler_Correct\<close> holds along every
  execution, calls never fail to return, no process is lost, and a ready process gets to run.
\<close>

datatype event = Yield nat | Sleep nat i32 | Wake i32 | Exit nat

text \<open>The idle process of a core neither sleeps nor exits.\<close>

inductive sched_step :: "'a sys_scheme \<Rightarrow> event \<Rightarrow> 'a sys_scheme \<Rightarrow> bool" where
  step_yield: "c < MAXCORES \<Longrightarrow> yield c s = Inr f \<Longrightarrow> sched_step s (Yield c) (settle f)"
| step_sleep: "c < MAXCORES \<Longrightarrow> current_process s c = Some p \<Longrightarrow> snd p \<noteq> 0 \<Longrightarrow> sleep c w s = Inr f \<Longrightarrow>
    sched_step s (Sleep c w) (settle f)"
| step_wake: "wake_up w s = Inr t \<Longrightarrow> sched_step s (Wake w) t"
| step_exit: "c < MAXCORES \<Longrightarrow> current_process s c = Some p \<Longrightarrow> snd p \<noteq> 0 \<Longrightarrow> exit_process c s = Inr f \<Longrightarrow>
    sched_step s (Exit c) (settle f)"

inductive_cases sched_stepE: "sched_step s e t"

inductive sched_trace :: "'a sys_scheme \<Rightarrow> event list \<Rightarrow> 'a sys_scheme \<Rightarrow> bool" where
  trace_nil: "sched_trace s [] s"
| trace_cons: "sched_step s e t \<Longrightarrow> sched_trace t es u \<Longrightarrow> sched_trace s (e # es) u"

inductive_cases trace_consE: "sched_trace s (e # es) u"

text \<open>A process has a place when it runs or is on a list.\<close>

definition has_place :: "(list_id \<Rightarrow> pref list) \<Rightarrow> (nat \<Rightarrow> pref) \<Rightarrow> pref \<Rightarrow> bool" where
  "has_place Q R p \<longleftrightarrow> R (fst p) = p \<or> (\<exists>l. p \<in> set (Q l))"

text \<open>The events at which core \<open>c\<close> gives up its processor.\<close>

fun gives_up :: "nat \<Rightarrow> event \<Rightarrow> bool" where
  "gives_up c (Yield d) \<longleftrightarrow> c = d"
| "gives_up c (Sleep d w) \<longleftrightarrow> c = d"
| "gives_up c (Wake w) \<longleftrightarrow> False"
| "gives_up c (Exit d) \<longleftrightarrow> c = d"

text \<open>How a step changes the ready list of a core: new entries at the end, and the head leaves to run.\<close>

definition advanced :: "nat \<Rightarrow> (list_id \<Rightarrow> pref list) \<Rightarrow> (list_id \<Rightarrow> pref list) \<Rightarrow> (nat \<Rightarrow> pref) \<Rightarrow> bool \<Rightarrow> bool" where
  "advanced c Q Q' R' taken \<longleftrightarrow>
     (if taken \<and> Q (Ready c) \<noteq> [] then R' c = hd (Q (Ready c)) \<and> (\<exists>ys. Q' (Ready c) = tl (Q (Ready c)) @ ys)
      else \<exists>ys. Q' (Ready c) = Q (Ready c) @ ys) \<or> (taken \<and> Q (Ready c) = [])"

lemma running_slot:
  "sched_inv s Q R \<Longrightarrow> c < MAXCORES \<Longrightarrow> current_process s c = Some p \<Longrightarrow> snd p \<noteq> 0 \<Longrightarrow> slot (R c)"
  using running_cases [OF sched_invD(1), of s Q R c] sched_invD(2) [of s Q R c] by fastforce

lemma pick_next_hd: "Q (Ready c) \<noteq> [] \<Longrightarrow> pick_next c Q = hd (Q (Ready c))"
  by (cases "Q (Ready c)") (simp_all add: pick_next_def)

lemma woken_Ready: "\<exists>ys. woken I w wt Q (Ready c) = Q (Ready c) @ ys"
  by (simp add: woken_def)

lemma woken_place: "(\<exists>l. p \<in> set (woken I w wt Q l)) \<longleftrightarrow> (\<exists>l. p \<in> set (Q l))"
proof
  assume "\<exists>l. p \<in> set (woken I w wt Q l)"
  then obtain l where "p \<in> set (woken I w wt Q l)" by blast
  then show "\<exists>l. p \<in> set (Q l)" by (cases l) (auto simp: woken_def split: if_splits)
next
  assume "\<exists>l. p \<in> set (Q l)"
  then obtain l where l: "p \<in> set (Q l)" by blast
  then have "p \<in> set (woken I w wt Q l) \<or> (\<exists>i. p \<in> set (woken I w wt Q (Ready i)))"
    by (cases l) (auto simp: woken_def)
  then show "\<exists>l. p \<in> set (woken I w wt Q l)" by blast
qed

lemma listed_upd:
  "(\<exists>l'. p \<in> set ((Q(l := xs)) l')) \<longleftrightarrow> p \<in> set xs \<or> (\<exists>l'. l' \<noteq> l \<and> p \<in> set (Q l'))"
  by auto

lemma listed_at: "(\<exists>l'. p \<in> set (Q l')) \<longleftrightarrow> p \<in> set (Q l) \<or> (\<exists>l'. l' \<noteq> l \<and> p \<in> set (Q l'))"
  by auto

text \<open>Taking the next process from the ready list, and parking the running one, keep every place.\<close>

lemma take_place:
  assumes "fst (pick_next c Q) = c" "slot p"
  shows "has_place (Q(Ready c := tl (Q (Ready c)))) (R(c := pick_next c Q)) p \<longleftrightarrow> has_place Q (R(c := (c, 0))) p"
  unfolding has_place_def listed_upd listed_at [of p Q "Ready c"]
  using assms by (cases "Q (Ready c)") (auto simp: pick_next_def)

lemma park_place:
  assumes "slot p" "fst (R c) = c"
  shows "has_place (Q(l := Q l @ [R c])) (R(c := (c, 0))) p \<longleftrightarrow> has_place Q R p"
  unfolding has_place_def listed_upd listed_at [of p Q l] using assms by auto

lemma idle_place:
  assumes "slot p" "R c = (c, 0)"
  shows "has_place Q (R(c := (c, 0))) p \<longleftrightarrow> has_place Q R p"
  using assms by (simp add: has_place_def)

lemma woken_has_place: "has_place (woken I w wt Q) R p \<longleftrightarrow> has_place Q R p"
  unfolding has_place_def woken_place ..

lemma pick_next_core: "sched_rep s Q R \<Longrightarrow> fst (pick_next c Q) = c"
  using sched_repD(3) [of s Q R "hd (Q (Ready c))" "Ready c"]
  by (cases "Q (Ready c)") (simp_all add: pick_next_def)

text \<open>One step: the invariant, the places, and the progress of every ready list.\<close>

lemma step_law:
  assumes inv: "sched_inv s Q R" and st: "sched_step s e t"
  shows "\<exists>Q' R'. sched_inv t Q' R' \<and> sched_frame s t \<and> (\<forall>p. slot p \<longrightarrow> has_place Q' R' p \<longleftrightarrow> has_place Q R p) \<and>
    (\<forall>c < MAXCORES. advanced c Q Q' R' (gives_up c e))"
  using st
proof (cases rule: sched_step.cases)
  case (step_yield c f)
  note st1 = this
  have c: "fst (R c) = c" "fst (pick_next c Q) = c"
    using sched_repD(5) [OF sched_invD(1) [OF inv] st1(3)] pick_next_core [OF sched_invD(1) [OF inv]] by simp_all
  obtain f' where f': "yield c s = Inr f'" "sched_frame s (settle f')"
    "case Q (Ready c) of [] \<Rightarrow> f' = Stay s | x # xs \<Rightarrow> f' \<noteq> Stay (settle f') \<and>
       sched_inv (settle f') (Q(Ready c := (if R c = (c, 0) then xs else xs @ [R c]))) (R(c := x))"
    using yield_law [OF inv st1(3)] by blast
  show ?thesis
  proof (cases "Q (Ready c)")
    case Nil
    then show ?thesis using f' st1 inv by (intro exI [of _ Q] exI [of _ R]) (auto simp: advanced_def)
  next
    case (Cons x xs)
    let ?Q = "Q(Ready c := (if R c = (c, 0) then xs else xs @ [R c]))"
    have "has_place ?Q (R(c := x)) p \<longleftrightarrow> has_place Q R p" if "slot p" for p
      unfolding has_place_def listed_upd listed_at [of p Q "Ready c"]
      using that Cons c by (auto simp: pick_next_def)
    then show ?thesis
      using f' st1 Cons by (intro exI [of _ ?Q] exI [of _ "R(c := x)"]) (auto simp: advanced_def)
  qed
next
  case (step_sleep c p w f)
  note st2 = this
  note sl = running_slot [OF inv st2(3-5)]
  obtain f' where f': "sleep c w s = Inr f'" "sched_frame s (settle f')"
    "sched_inv (settle f') (Q(Waiting c := Q (Waiting c) @ [R c], Ready c := tl (Q (Ready c)))) (R(c := pick_next c Q))"
    using sleep_law [OF inv st2(3) sl] by blast
  let ?W = "Q(Waiting c := Q (Waiting c) @ [R c])"
  have W: "pick_next c ?W = pick_next c Q" "?W (Ready c) = Q (Ready c)" by (simp_all add: pick_next_def)
  have "has_place (?W(Ready c := tl (Q (Ready c)))) (R(c := pick_next c Q)) p \<longleftrightarrow> has_place Q R p" if "slot p" for p
    using take_place [of c ?W p R] park_place [OF that, of R c Q "Waiting c"] that
      pick_next_core [OF sched_invD(1) [OF inv], of c] sched_repD(5) [OF sched_invD(1) [OF inv] st2(3)]
    unfolding W by simp
  then show ?thesis
    using f' st2(1,2,6) pick_next_hd [of Q]
    by (intro exI [of _ "?W(Ready c := tl (Q (Ready c)))"] exI [of _ "R(c := pick_next c Q)"]) (auto simp: advanced_def)
next
  case (step_wake w)
  note st3 = this
  obtain t' where t': "wake_up w s = Inr t'" "sched_frame s t'" "sched_inv t' (woken {..<MAXCORES} w (wait_of s) Q) R"
    using wake_up_law [OF inv, of w] by blast
  then show ?thesis
    using st3 woken_Ready woken_has_place
    by (intro exI [of _ "woken {..<MAXCORES} w (wait_of s) Q"] exI [of _ R]) (auto simp: advanced_def)
next
  case (step_exit c p f)
  note st4 = this
  note sl = running_slot [OF inv st4(3-5)]
  let ?K = "Q(Killed c := Q (Killed c) @ [R c])"
  define W where "W = woken {..<MAXCORES} (- 3) (wait_of s) ?K"
  obtain t' where t': "exit_process c s = Inr (Switch t')" "sched_frame s (resume t')"
    "sched_inv (resume t') (W(Ready c := tl (W (Ready c)))) (R(c := pick_next c W))"
    using exit_law [OF inv st4(3) sl] unfolding W_def by blast
  have cW: "fst (pick_next c W) = c"
    using sched_repD(5) [OF sched_invD(1) [OF t'(3)] st4(3)] by simp
  have "has_place (W(Ready c := tl (W (Ready c)))) (R(c := pick_next c W)) p \<longleftrightarrow> has_place Q R p" if "slot p" for p
    using take_place [OF cW that] park_place [OF that, of R c Q "Killed c"]
      sched_repD(5) [OF sched_invD(1) [OF inv] st4(3)] by (simp add: W_def woken_has_place)
  moreover have wr: "\<exists>ys. W (Ready d) = Q (Ready d) @ ys" for d
    using woken_Ready [of "{..<MAXCORES}" "- 3" "wait_of s" ?K d] by (simp add: W_def)
  moreover have "advanced d Q (W(Ready c := tl (W (Ready c)))) (R(c := pick_next c W)) (gives_up d e)" for d
    using st4(1) wr [of c] wr [of d] pick_next_hd [of W c] by (cases "Q (Ready c)") (auto simp: advanced_def)
  ultimately show ?thesis
    using t' st4(2,6)
    by (intro exI [of _ "W(Ready c := tl (W (Ready c)))"] exI [of _ "R(c := pick_next c W)"]) auto
qed

section \<open>Executions\<close>

lemma trace_law:
  assumes "sched_trace s es t" "sched_inv s Q R"
  shows "\<exists>Q' R'. sched_inv t Q' R' \<and> sched_frame s t \<and> (\<forall>p. slot p \<longrightarrow> has_place Q' R' p \<longleftrightarrow> has_place Q R p)"
  using assms
proof (induction arbitrary: Q R rule: sched_trace.induct)
  case (trace_nil s)
  then show ?case using sched_frame_refl by blast
next
  case (trace_cons s e t es u)
  obtain Q1 R1 where 1: "sched_inv t Q1 R1" "sched_frame s t" "\<forall>p. slot p \<longrightarrow> has_place Q1 R1 p \<longleftrightarrow> has_place Q R p"
    using step_law [OF trace_cons.prems trace_cons.hyps(1)] by blast
  obtain Q2 R2 where 2: "sched_inv u Q2 R2" "sched_frame t u" "\<forall>p. slot p \<longrightarrow> has_place Q2 R2 p \<longleftrightarrow> has_place Q1 R1 p"
    using trace_cons.IH [OF 1(1)] by blast
  show ?case using 1 2 sched_frame_trans [OF 1(2) 2(2)] by blast
qed

text \<open>In a state of the invariant, no call of the scheduler fails.\<close>

lemma step_enabled:
  assumes "sched_inv s Q R"
  shows "c < MAXCORES \<Longrightarrow> \<exists>t. sched_step s (Yield c) t" and "\<exists>t. sched_step s (Wake w) t"
    and "c < MAXCORES \<Longrightarrow> slot (R c) \<Longrightarrow> (\<exists>t. sched_step s (Sleep c w) t) \<and> (\<exists>t. sched_step s (Exit c) t)"
proof -
  show "c < MAXCORES \<Longrightarrow> \<exists>t. sched_step s (Yield c) t"
    using yield_law [OF assms] step_yield by blast
  show "\<exists>t. sched_step s (Wake w) t"
    using wake_up_law [OF assms, of w] step_wake by blast
  assume c: "c < MAXCORES" "slot (R c)"
  note cur = sched_invD(2) [OF assms c(1)]
  have "snd (R c) \<noteq> 0" using c(2) by (simp add: slot_def)
  then show "(\<exists>t. sched_step s (Sleep c w) t) \<and> (\<exists>t. sched_step s (Exit c) t)"
    using sleep_law [OF assms c, of w] exit_law [OF assms c] step_sleep [OF c(1) cur] step_exit [OF c(1) cur] by blast
qed

text \<open>A process with \<open>k\<close> others in front of it runs at the latest when its core gives up for the \<open>k + 1\<close>st time.\<close>

lemma ready_runs:
  assumes "sched_trace s es t" "sched_inv s Q R" "c < MAXCORES" "Q (Ready c) = xs @ p # ys"
    and "length xs < length (filter (gives_up c) es)"
  shows "\<exists>es1 es2 u. es = es1 @ es2 \<and> sched_trace s es1 u \<and> current_process u c = Some p"
  using assms
proof (induction arbitrary: Q R xs ys rule: sched_trace.induct)
  case (trace_nil s)
  then show ?case by simp
next
  case (trace_cons s e t es u)
  obtain Q1 R1 where 1: "sched_inv t Q1 R1" and adv: "advanced c Q Q1 R1 (gives_up c e)"
    using step_law [OF trace_cons.prems(1) trace_cons.hyps(1)] trace_cons.prems(2) by blast
  show ?case
  proof (cases "gives_up c e \<and> xs = []")
    case True
    then have "R1 c = p" using adv trace_cons.prems(3) by (simp add: advanced_def)
    then have "current_process t c = Some p" using sched_invD(2) [OF 1 trace_cons.prems(2)] by simp
    moreover have "sched_trace s [e] t" using trace_cons.hyps(1) trace_nil by (rule sched_trace.trace_cons)
    ultimately show ?thesis by (intro exI [of _ "[e]"] exI [of _ es] exI [of _ t]) simp
  next
    case False
    define xs' where "xs' = (if gives_up c e then tl xs else xs)"
    have "\<exists>ys'. Q1 (Ready c) = xs' @ p # ys'"
      using adv False trace_cons.prems(3) by (cases xs) (auto simp: advanced_def xs'_def split: if_splits)
    moreover have "length xs' < length (filter (gives_up c) es)"
      using trace_cons.prems(4) False by (cases xs) (auto simp: xs'_def split: if_splits)
    ultimately obtain es1 es2 v where "es = es1 @ es2" "sched_trace t es1 v" "current_process v c = Some p"
      using trace_cons.IH [OF 1 trace_cons.prems(2)] by blast
    then show ?thesis
      using sched_trace.trace_cons [OF trace_cons.hyps(1)] by (metis append_Cons)
  qed
qed

section \<open>Saving and restoring the registers\<close>

lemma in_range_tail:
  assumes "in_range (a + 8) (8 * n) x" "8 * Suc n < 2 ^ 64"
  shows "in_range a (8 * Suc n) x" and "\<not> in_range a 8 x"
proof -
  have "unat (x - (a + 8)) < 8 * n" using assms(1) by (simp add: in_range_def)
  moreover have "x - a = (x - (a + 8)) + of_nat 8" by simp
  ultimately have "unat (x - a) = unat (x - (a + 8)) + 8"
    using assms(2) unat_plus_of_nat [of "x - (a + 8)" 8] by simp
  then show "in_range a (8 * Suc n) x" "\<not> in_range a 8 x"
    using \<open>unat (x - (a + 8)) < 8 * n\<close> by (simp_all add: in_range_def)
qed

lemma store_words_outside:
  "8 * length ws < 2 ^ 64 \<Longrightarrow> \<not> in_range a (8 * length ws) x \<Longrightarrow> store_words m a ws x = m x"
proof (induction ws arbitrary: a m)
  case (Cons w ws)
  then have "\<not> in_range (a + 8) (8 * length ws) x" "\<not> in_range a 8 x"
    using in_range_tail(1) [of a "length ws" x] by (auto simp: in_range_def)
  then show ?case using Cons by (simp add: store64_outside)
qed simp

lemma load_words_cong:
  "8 * n < 2 ^ 64 \<Longrightarrow> (\<And>x. in_range a (8 * n) x \<Longrightarrow> m x = m' x) \<Longrightarrow> load_words m a n = load_words m' a n"
proof (induction n arbitrary: a)
  case (Suc n)
  have "load64 m a = load64 m' a"
    by (rule load64_cong) (use Suc.prems in \<open>auto simp: in_range_def\<close>)
  moreover have "load_words m (a + 8) n = load_words m' (a + 8) n"
    using Suc.prems in_range_tail(1) [of a n] by (intro Suc.IH) auto
  ultimately show ?case by simp
qed simp

lemma load_store_words: "8 * length ws < 2 ^ 64 \<Longrightarrow> load_words (store_words m a ws) a (length ws) = ws"
proof (induction ws arbitrary: a m)
  case (Cons w ws)
  have "load64 (store_words (store64 m a w) (a + 8) ws) a = load64 (store64 m a w) a"
    using Cons.prems in_range_tail(2) [of a "length ws"]
    by (intro load64_cong store_words_outside) auto
  then show ?case using Cons by simp
qed simp

lemma remove_list_head_registers:
  assumes "remove_list_head l s = Inr (p, t)"
  shows "core_sp t = core_sp s" "core_regs t = core_regs s" "current_process t = current_process s"
    "pr_context (process_table t x) = pr_context (process_table s x)"
    "pr_page_map (process_table t x) = pr_page_map (process_table s x)"
  using assms
  by (auto simp: remove_list_head_def rbind_elims set_head_def spin_unlock_def Let_def split: option.splits)

text \<open>
  C38: A context switch is complete.  When \<open>schedule\<close> switches from process \<open>p\<close> to process \<open>n\<close>, the
  core continues with the registers x19 to x30 and the stack pointer saved in \<open>n\<close>'s context, on
  \<open>n\<close>'s page tables, with \<open>n\<close> marked as running and current; and \<open>p\<close>'s context points to a block
  on its stack that holds exactly the registers \<open>p\<close> had.
\<close>

theorem context_switch_complete:
  assumes "schedule c s = Inr (Switch t)" "length (core_regs s c) = 12"
  shows "\<exists>p n. current_process s c = Some p \<and> current_process t c = Some n \<and> p \<noteq> n \<and>
    state_of t n = PROC_RUNNING \<and>
    ttbr0 t c = V2P (pr_page_map (process_table s n)) \<and>
    core_sp t c = pr_context (process_table s n) + 96 \<and>
    core_regs t c = load_words (mem t) (pr_context (process_table s n)) 12 \<and>
    pr_context (process_table t p) = core_sp s c - 96 \<and>
    load_words (mem t) (core_sp s c - 96) 12 = core_regs s c"
proof -
  obtain q u where take: "(if is_list_empty (Ready c) s then Inr (Some (c, 0), s) else remove_list_head (Ready c) s) = Inr (q, u)"
    using assms(1) unfolding schedule_def by (auto simp: rbind_elims Let_def simp del: split_paired_Ex)
  then obtain n p where q: "q = Some n" and p: "current_process s c = Some p" "p \<noteq> n"
    and t: "t = switch_process c p n ((mark n PROC_RUNNING (wait_of u n) u)
      \<lparr>current_process := (current_process u)(c := Some n)\<rparr>)"
    using assms(1) unfolding schedule_def take
    by (cases q; cases "current_process s c") (simp_all add: Let_def mark_eqs split: if_splits)
  have same: "core_sp u = core_sp s" "core_regs u = core_regs s" "current_process u = current_process s"
    "pr_context (process_table u x) = pr_context (process_table s x)"
    "pr_page_map (process_table u x) = pr_page_map (process_table s x)" for x
    using take remove_list_head_registers [of "Ready c" s q u] by (simp_all split: if_splits)
  show ?thesis
    using p same assms(2) load_store_words [of "core_regs s c" "mem u" "core_sp s c - 96"]
    by (intro exI [of _ p] exI [of _ n])
       (simp add: t switch_process_def switch_vm_def swap_def Let_def upd_process_def mark_def)
qed

text \<open>
  Switching away and back restores a process.  After \<open>swap\<close> has saved process \<open>p\<close>, and provided
  the block it saved and \<open>p\<close>'s context field are left alone, a later \<open>swap\<close> to \<open>p\<close>'s context, on any
  core and from any process whose own save area does not overlap the block, gives back the
  registers and the stack pointer \<open>p\<close> had.
\<close>

theorem swap_round_trip:
  assumes "length (core_regs s c) = 12" "length (core_regs u d) = 12"
    and "u' = swap c p nx s"
    and "\<forall>x. in_range (core_sp s c - 96) 96 x \<longrightarrow> mem u x = mem u' x"
    and "pr_context (process_table u p) = pr_context (process_table u' p)"
    and "apart (core_sp s c - 96) 96 (core_sp u d - 96) 96"
  shows "core_regs (swap d q (pr_context (process_table u p)) u) d = core_regs s c \<and>
    core_sp (swap d q (pr_context (process_table u p)) u) d = core_sp s c"
proof -
  let ?a = "core_sp s c - 96" and ?b = "core_sp u d - 96"
  have ctx: "pr_context (process_table u p) = ?a"
    using assms(3,5) by (simp add: swap_def Let_def upd_process_def)
  have "mem u' = store_words (mem s) ?a (core_regs s c)"
    using assms(3) by (simp add: swap_def Let_def upd_process_def)
  moreover have "store_words (mem u) ?b (core_regs u d) x = mem u' x" if "in_range ?a 96 x" for x
    using that assms(2,4,6) apart_disjoint [of ?b 96 ?a 96 x] store_words_outside [of "core_regs u d" ?b x]
    by (simp add: apart_sym)
  ultimately have "load_words (store_words (mem u) ?b (core_regs u d)) ?a 12 = core_regs s c"
    using load_words_cong [of 12 ?a "store_words (mem u) ?b (core_regs u d)" "mem u'"]
      load_store_words [of "core_regs s c" "mem s" ?a] assms(1) by simp
  then show ?thesis using ctx by (simp add: swap_def Let_def upd_process_def)
qed

section \<open>Waiting and waking\<close>

lemma has_place_state:
  assumes "sched_inv s Q R" "slot p"
  shows "has_place Q R p \<longleftrightarrow> state_of s p \<noteq> PROC_UNUSED \<and> state_of s p \<noteq> PROC_INIT"
proof -
  note pl = sched_repD(4) [OF sched_invD(1) [OF assms(1)] assms(2)]
  have "p \<in> set (Q l) \<longleftrightarrow> core_of l = fst p \<and> state_of s p = list_state l" for l
    using pl sched_repD(3) [OF sched_invD(1) [OF assms(1)], of p l] unfolding placed_def by auto
  moreover have "(\<exists>l. core_of l = fst p \<and> st = list_state l) \<longleftrightarrow> st \<in> {PROC_READY, PROC_SLEEP, PROC_KILLED}" for st
  proof
    assume "\<exists>l. core_of l = fst p \<and> st = list_state l"
    then obtain l where "st = list_state l" by blast
    then show "st \<in> {PROC_READY, PROC_SLEEP, PROC_KILLED}" by (cases l) simp_all
  next
    assume "st \<in> {PROC_READY, PROC_SLEEP, PROC_KILLED}"
    then show "\<exists>l. core_of l = fst p \<and> st = list_state l" by (metis core_of.simps insertE list_state.simps singletonD)
  qed
  moreover have "state_of s p = PROC_RUNNING \<longleftrightarrow> R (fst p) = p" using pl by (simp add: placed_def)
  ultimately show ?thesis
    unfolding has_place_def by (cases "state_of s p") simp_all
qed

lemma waiting_member:
  assumes "sched_inv s Q R" "slot p"
  shows "state_of s p = PROC_SLEEP \<longleftrightarrow> p \<in> set (Q (Waiting (fst p)))"
    and "state_of s p = PROC_READY \<longleftrightarrow> p \<in> set (Q (Ready (fst p)))"
  using sched_repD(4) [OF sched_invD(1) [OF assms(1)] assms(2)] unfolding placed_def
  by (metis core_of.simps list_state.simps)+

text \<open>A sleeping process is made ready by the event it waits for, and keeps waiting for it until then.\<close>

lemma step_waiting:
  assumes inv: "sched_inv s Q R" and st: "sched_step s e t" and p: "slot p" "state_of s p = PROC_SLEEP"
  shows "state_of t p \<in> {PROC_READY, PROC_RUNNING} \<or>
    state_of t p = PROC_SLEEP \<and> wait_of t p = wait_of s p \<and> e \<noteq> Wake (wait_of s p)"
proof -
  have pQ: "p \<in> set (Q (Waiting (fst p)))" using waiting_member(1) [OF inv p(1)] p(2) by simp
  have notR: "R c \<noteq> p" if "c < MAXCORES" for c
    using running_state [OF sched_invD(1) [OF inv] _ that] p by auto
  show ?thesis using st
  proof (cases rule: sched_step.cases)
    case (step_yield c f)
    obtain f' where f': "yield c s = Inr f'" "\<forall>p. wait_of (settle f') p = wait_of s p"
      "case Q (Ready c) of [] \<Rightarrow> f' = Stay s | x # xs \<Rightarrow> f' \<noteq> Stay (settle f') \<and>
         sched_inv (settle f') (Q(Ready c := (if R c = (c, 0) then xs else xs @ [R c]))) (R(c := x))"
      using yield_law [OF inv step_yield(3)] by blast
    then have "state_of t p = PROC_SLEEP"
      using step_yield pQ p waiting_member(1) [OF _ p(1), of t] by (cases "Q (Ready c)") auto
    then show ?thesis using step_yield f'(1,2) by simp
  next
    case (step_sleep c q w f)
    obtain f' where f': "sleep c w s = Inr f'" "\<forall>p. wait_of (settle f') p = (if p = R c then w else wait_of s p)"
      "sched_inv (settle f') (Q(Waiting c := Q (Waiting c) @ [R c], Ready c := tl (Q (Ready c)))) (R(c := pick_next c Q))"
      using sleep_law [OF inv step_sleep(3) running_slot [OF inv step_sleep(3-5)]] by blast
    then show ?thesis
      using step_sleep pQ waiting_member(1) [OF _ p(1), of t] notR [OF step_sleep(3)] by auto
  next
    case (step_wake w)
    obtain t' where t': "wake_up w s = Inr t'" "\<forall>p. wait_of t' p = wait_of s p"
        "sched_inv t' (woken {..<MAXCORES} w (wait_of s) Q) R"
      using wake_up_law [OF inv, of w] by blast
    then show ?thesis
      using step_wake pQ p(1) waiting_member [OF _ p(1), of t] by (auto simp: woken_def slot_def)
  next
    case (step_exit c q f)
    define W where "W = woken {..<MAXCORES} (- 3) (wait_of s) (Q(Killed c := Q (Killed c) @ [R c]))"
    obtain t' where t': "exit_process c s = Inr (Switch t')"
      "\<forall>p. wait_of (resume t') p = (if p = R c then pid_of s (R c) else wait_of s p)"
      "sched_inv (resume t') (W(Ready c := tl (W (Ready c)))) (R(c := pick_next c W))"
      using exit_law [OF inv step_exit(3) running_slot [OF inv step_exit(3-5)]] unfolding W_def by blast
    have "p \<in> set (W (Ready (fst p))) \<or> p \<in> set (W (Waiting (fst p)))"
      using pQ p(1) by (auto simp: W_def woken_def slot_def)
    moreover have "p \<in> set (tl (W (Ready c))) \<or> pick_next c W = p" if "p \<in> set (W (Ready c))"
      using that by (cases "W (Ready c)") (auto simp: pick_next_def)
    ultimately have "state_of (resume t') p \<in> {PROC_READY, PROC_RUNNING, PROC_SLEEP}"
      using waiting_member [OF t'(3) p(1)] sched_repD(4) [OF sched_invD(1) [OF t'(3)] p(1)]
      by (auto simp: placed_def split: if_splits)
    then show ?thesis
      using step_exit t'(1,2) notR [OF step_exit(3)] by auto
  qed
qed

lemma waiting_wakes:
  assumes "sched_trace s es t" "sched_inv s Q R" "slot p" "state_of s p = PROC_SLEEP" "Wake (wait_of s p) \<in> set es"
  shows "\<exists>es1 es2 u. es = es1 @ es2 \<and> sched_trace s es1 u \<and> state_of u p \<in> {PROC_READY, PROC_RUNNING}"
  using assms
proof (induction arbitrary: Q R rule: sched_trace.induct)
  case (trace_nil s)
  then show ?case by simp
next
  case (trace_cons s e t es u)
  obtain Q1 R1 where 1: "sched_inv t Q1 R1" using step_law [OF trace_cons.prems(1) trace_cons.hyps(1)] by blast
  have one: "sched_trace s [e] t" using trace_cons.hyps(1) trace_nil by (rule sched_trace.trace_cons)
  consider "state_of t p \<in> {PROC_READY, PROC_RUNNING}"
    | "state_of t p = PROC_SLEEP" "wait_of t p = wait_of s p" "e \<noteq> Wake (wait_of s p)"
    using step_waiting [OF trace_cons.prems(1) trace_cons.hyps(1) trace_cons.prems(2,3)] by blast
  then show ?case
  proof cases
    case 1
    then show ?thesis using one by (intro exI [of _ "[e]"] exI [of _ es] exI [of _ t]) simp
  next
    case 2
    then obtain es1 es2 v where "es = es1 @ es2" "sched_trace t es1 v" "state_of v p \<in> {PROC_READY, PROC_RUNNING}"
      using trace_cons.IH [OF 1 trace_cons.prems(2)] trace_cons.prems(4) by auto
    then show ?thesis using sched_trace.trace_cons [OF trace_cons.hyps(1)] by (metis append_Cons)
  qed
qed

section \<open>A concrete system\<close>

text \<open>Core 0 idles with processes 4 and 5 ready; the other cores idle.\<close>

definition ready_process :: "pref option \<Rightarrow> i32 \<Rightarrow> u64 \<Rightarrow> process" where
  "ready_process n pid ctx =
     zero_process\<lparr>pr_next := n, pr_pid := pid, pr_state := PROC_READY, pr_context := ctx\<rparr>"

definition two_ready :: sys where
  "two_ready = \<lparr>mem = (\<lambda>_. 0), console = [], locks = (\<lambda>_. False), sym_end = 0, sym_allocator = 0,
     process_table = (\<lambda>p. if p = (0, 1) then ready_process (Some (0, 2)) 4 0x2000
        else if p = (0, 2) then ready_process None 5 0x3000
        else if snd p = 0 then zero_process\<lparr>pr_pid := of_nat (fst p), pr_state := PROC_RUNNING\<rparr>
        else zero_process),
     pid_num = 6, current_process = (\<lambda>c. Some (c, 0)),
     head_lists = (\<lambda>l. if l = Ready 0 then \<lparr>h_next = Some (0, 1), h_tail = Some (0, 2)\<rparr>
        else \<lparr>h_next = None, h_tail = None\<rparr>),
     fcb_page = 0, fcb_table = (\<lambda>_. zero_fcb), file_desc_page = 0, file_desc_table = (\<lambda>_. zero_file_desc),
     ttbr0 = (\<lambda>_. 0), core_sp = (\<lambda>_. 0x1000), core_regs = (\<lambda>_. replicate 12 7), sym_pstart = 0, sym_pgd_ttbr0 = 0,
     sym_after = (\<lambda>_ _. 0)\<rparr>"

definition two_queue :: "list_id \<Rightarrow> pref list" where
  "two_queue l = (if l = Ready 0 then [(0, 1), (0, 2)] else [])"

lemma two_ready_process [simp]:
  "process_table two_ready (0, Suc 0) = ready_process (Some (0, 2)) 4 0x2000"
  "process_table two_ready (0, 2) = ready_process None 5 0x3000"
  by (simp_all add: two_ready_def)

lemma two_ready_inv: "sched_inv two_ready two_queue (\<lambda>c. (c, 0))"
proof -
  have L: "lists_rep two_ready two_queue"
    by (auto simp: lists_rep_def queue_rep_def two_queue_def two_ready_def ready_process_def)
  have "placed two_ready two_queue (\<lambda>c. (c, 0)) p" if sl: "slot p" for p
  proof -
    consider "p = (0, 1)" | "p = (0, 2)" | "p \<noteq> (0, 1)" "p \<noteq> (0, 2)" "snd p \<noteq> 0"
      using sl unfolding slot_def by (metis not_one_le_zero)
    then show ?thesis
    proof cases
      case 3
      then have "process_table two_ready p = zero_process" by (simp add: two_ready_def)
      moreover have "p \<notin> set (two_queue l)" for l using 3 by (auto simp: two_queue_def)
      ultimately show ?thesis using sl by (auto simp: placed_def zero_process_def)
    qed (auto simp: placed_def ready_process_def two_queue_def, (case_tac l; simp)+)
  qed
  moreover have "slot p \<and> fst p = core_of l" if "p \<in> set (two_queue l)" for p l
    using that by (auto simp: two_queue_def slot_def NUM_PROC_def MAXCORES_def split: if_splits)
  moreover have "c < MAXCORES \<Longrightarrow> sint (pid_of two_ready (c, 0)) < 4" for c
  proof -
    assume "c < MAXCORES"
    then consider "c = 0" | "c = 1" | "c = 2" | "c = 3" unfolding MAXCORES_def by linarith
    then show ?thesis by cases (simp_all add: two_ready_def)
  qed
  ultimately show ?thesis
    using L by (auto simp: sched_inv_def sched_rep_def NUM_PROC_def two_ready_def)
qed

section \<open>Properties\<close>

text \<open>
  C1: The scheduler's invariant holds along every execution.  From a state in which lists, states and
  current processes agree, any interleaving of calls of \<open>yield\<close>, \<open>sleep\<close>, \<open>wake_up\<close> and \<open>exit\<close> on the
  four cores leads to such a state again: every process is on exactly the list its state names or
  is the one its core runs.  No process appears or is lost, and pids do not change.
\<close>

theorem scheduler_invariant:
  assumes "sched_inv s Q R" "sched_trace s es t"
  shows "(\<exists>Q' R'. sched_inv t Q' R') \<and>
    (\<forall>p. slot p \<longrightarrow> state_of t p \<in> {PROC_UNUSED, PROC_INIT} \<longleftrightarrow> state_of s p \<in> {PROC_UNUSED, PROC_INIT}) \<and>
    (\<forall>p. pid_of t p = pid_of s p)"
proof -
  obtain Q' R' where t: "sched_inv t Q' R'" "sched_frame s t" "\<forall>p. slot p \<longrightarrow> has_place Q' R' p \<longleftrightarrow> has_place Q R p"
    using trace_law [OF assms(2,1)] by blast
  then show ?thesis
    using has_place_state [OF t(1)] has_place_state [OF assms(1)] sched_frame_pid by blast
qed

theorem scheduler_invariant_witness:
  "\<exists>t. sched_trace two_ready [Yield 0, Wake 3] t \<and> (\<exists>Q' R'. sched_inv t Q' R') \<and> pid_of t (0, 2) = 5"
proof -
  obtain t1 where t1: "sched_step two_ready (Yield 0) t1"
    using step_enabled(1) [OF two_ready_inv, of 0] by (auto simp: MAXCORES_def)
  then obtain Q1 R1 where "sched_inv t1 Q1 R1" using step_law [OF two_ready_inv] by blast
  then obtain t where "sched_step t1 (Wake 3) t" using step_enabled(2) by blast
  then have tr: "sched_trace two_ready [Yield 0, Wake 3] t"
    using t1 by (blast intro: sched_trace.intros)
  then show ?thesis
    using scheduler_invariant [OF two_ready_inv tr] by (intro exI [of _ t]) (simp add: ready_process_def)
qed

text \<open>
  C11: The scheduler never gets stuck.  In every state an execution reaches, each core can yield, any
  event can be signalled, and a core that runs a process (and not its idle loop) can put it to
  sleep or end it: these calls return, so no lock is left held, no list is corrupt and none of
  their loops runs forever.
\<close>

theorem scheduler_never_stuck:
  assumes "sched_inv s Q R" "sched_trace s es t" "c < MAXCORES" "current_process t c = Some p"
  shows "(\<exists>u. sched_step t (Yield c) u) \<and> (\<exists>u. sched_step t (Wake w) u) \<and>
    (snd p \<noteq> 0 \<longrightarrow> (\<exists>u. sched_step t (Sleep c w) u) \<and> (\<exists>u. sched_step t (Exit c) u))"
proof -
  obtain Q' R' where t: "sched_inv t Q' R'" using trace_law [OF assms(2,1)] by blast
  then show ?thesis
    using step_enabled [OF t] assms(3) running_slot [OF t assms(3,4)] by blast
qed

theorem scheduler_never_stuck_witness: "\<exists>u. sched_step two_ready (Yield 3) u"
  using scheduler_never_stuck [OF two_ready_inv trace_nil, of 3 "(3, 0)" 0]
  by (simp add: MAXCORES_def two_ready_def)

text \<open>
  C20: A ready process gets to run.  A process with \<open>k\<close> processes in front of it on the ready list of
  its core runs at the latest when that core gives up the processor (by a timer tick, a sleep or
  an exit) for the \<open>k + 1\<close>st time, whatever the cores do in between.
\<close>

theorem ready_process_runs:
  assumes "sched_inv s Q R" "sched_trace s es t" "c < MAXCORES"
    and "Q (Ready c) = xs @ p # ys" "length xs < length (filter (gives_up c) es)"
  shows "\<exists>es1 es2 u. es = es1 @ es2 \<and> sched_trace s es1 u \<and> current_process u c = Some p"
  using ready_runs [OF assms(2,1,3-5)] .

theorem ready_process_runs_witness:
  "\<exists>t es1 es2 u. sched_trace two_ready [Yield 0, Yield 0] t \<and> [Yield 0, Yield 0] = es1 @ es2 \<and>
    sched_trace two_ready es1 u \<and> current_process u 0 = Some (0, 2)"
proof -
  obtain t1 where t1: "sched_step two_ready (Yield 0) t1"
    using step_enabled(1) [OF two_ready_inv, of 0] by (auto simp: MAXCORES_def)
  then obtain Q1 R1 where "sched_inv t1 Q1 R1" using step_law [OF two_ready_inv] by blast
  then obtain t where "sched_step t1 (Yield 0) t" using step_enabled(1) [of t1 Q1 R1 0] by (auto simp: MAXCORES_def)
  then have tr: "sched_trace two_ready [Yield 0, Yield 0] t"
    using t1 by (blast intro: sched_trace.intros)
  moreover have "two_queue (Ready 0) = [(0, 1)] @ (0, 2) # []" by (simp add: two_queue_def)
  ultimately show ?thesis
    using ready_process_runs [OF two_ready_inv tr, of 0 "[(0, 1)]" "(0, 2)" "[]"] by (auto simp: MAXCORES_def)
qed

text \<open>
  C10: No wake-up is lost.  A process that called \<open>sleep\<close> with value \<open>w\<close> is made ready when \<open>wake_up\<close> is
  called with \<open>w\<close> on any core at any later time, whatever happened in between.
\<close>

theorem no_lost_wakeup:
  assumes "sched_inv s Q R" "c < MAXCORES" "current_process s c = Some p" "snd p \<noteq> 0"
    and "sleep c w s = Inr f" "sched_trace (settle f) es t" "Wake w \<in> set es"
  shows "state_of (settle f) p = PROC_SLEEP \<and>
    (\<exists>es1 es2 u. es = es1 @ es2 \<and> sched_trace (settle f) es1 u \<and> state_of u p \<in> {PROC_READY, PROC_RUNNING})"
proof -
  note sl = running_slot [OF assms(1-4)]
  have p: "R c = p" "fst p = c"
    using sched_invD(2) [OF assms(1,2)] assms(3) sched_repD(5) [OF sched_invD(1) [OF assms(1)] assms(2)] by auto
  have inv: "sched_inv (settle f) (Q(Waiting c := Q (Waiting c) @ [R c], Ready c := tl (Q (Ready c)))) (R(c := pick_next c Q))"
    and w: "wait_of (settle f) p = w"
    using sleep_law [OF assms(1,2) sl, of w] assms(5) p(1) by auto
  have "state_of (settle f) p = PROC_SLEEP"
    using waiting_member(1) [OF inv] sl p by simp
  then show ?thesis using waiting_wakes [OF assms(6) inv _ _] sl p(1) w assms(7) by blast
qed

lemma two_ready_runs:
  "\<exists>f. yield 0 two_ready = Inr f \<and> sched_inv (settle f) (two_queue(Ready 0 := [(0, 2)])) ((\<lambda>c. (c, 0))(0 := (0, 1)))"
proof -
  have q: "two_queue (Ready 0) = (0, 1) # [(0, 2)]" by (simp add: two_queue_def)
  have c: "(0::nat) < MAXCORES" by (simp add: MAXCORES_def)
  show ?thesis
    using yield_law [OF two_ready_inv c] unfolding q list.case by (simp only: refl if_True) blast
qed

theorem no_lost_wakeup_witness:
  "\<exists>(s :: sys) f t es1 es2 u. sleep 0 7 s = Inr f \<and> sched_trace (settle f) [Wake 7] t \<and> state_of (settle f) (0, 1) = PROC_SLEEP \<and>
    [Wake 7] = es1 @ es2 \<and> sched_trace (settle f) es1 u \<and> state_of u (0, 1) \<in> {PROC_READY, PROC_RUNNING}"
proof -
  obtain f0 :: "sys flow" where f0: "sched_inv (settle f0) (two_queue(Ready 0 := [(0, 2)])) ((\<lambda>c. (c, 0))(0 := (0, 1)))"
    using two_ready_runs by blast
  have sl: "slot (((\<lambda>c. (c, 0))(0 := (0, 1))) 0)" by (simp add: slot_def MAXCORES_def NUM_PROC_def)
  have c: "(0::nat) < MAXCORES" by (simp add: MAXCORES_def)
  obtain f Q R where f: "sleep 0 7 (settle f0) = Inr f" "sched_inv (settle f) Q R"
    using sleep_law [OF f0 c sl, of 7] by blast
  obtain t where "sched_step (settle f) (Wake 7) t" using step_enabled(2) [OF f(2)] by blast
  then have "sched_trace (settle f) [Wake 7] t" by (blast intro: sched_trace.intros)
  moreover have "current_process (settle f0) 0 = Some (0, 1)" using sched_invD(2) [OF f0 c] by simp
  ultimately show ?thesis
    using no_lost_wakeup [OF f0 c _ _ f(1), of "(0, 1)" "[Wake 7]" t] f(1) by simp blast
qed

text \<open>
  \<open>yield\<close> is round robin.  With an empty ready list it returns and changes nothing.  Otherwise it
  switches to the head of the list, and the process that ran goes to the end of the list, unless it
  is the idle process of the core, which is on no list.
\<close>

theorem yield_round_robin:
  assumes "sched_inv s Q R" "c < MAXCORES"
  shows "\<exists>f. yield c s = Inr f \<and>
    (case Q (Ready c) of
       [] \<Rightarrow> f = Stay s
     | x # xs \<Rightarrow> (\<exists>t. f = Switch t \<and>
         sched_inv (resume t) (Q(Ready c := (if R c = (c, 0) then xs else xs @ [R c]))) (R(c := x))))"
proof -
  obtain f where f: "yield c s = Inr f" "case Q (Ready c) of [] \<Rightarrow> f = Stay s | x # xs \<Rightarrow> f \<noteq> Stay (settle f) \<and>
      sched_inv (settle f) (Q(Ready c := (if R c = (c, 0) then xs else xs @ [R c]))) (R(c := x))"
    using yield_law [OF assms] by blast
  then show ?thesis by (cases f; cases "Q (Ready c)") (auto split: if_splits)
qed

theorem yield_round_robin_witness:
  "\<exists>t. yield 0 two_ready = Inr (Switch t) \<and> current_process (resume t) 0 = Some (0, 1)"
proof -
  obtain t where t: "yield 0 two_ready = Inr (Switch t)"
      "sched_inv (resume t) (two_queue(Ready 0 := [(0, 2)])) ((\<lambda>c. (c, 0))(0 := (0, 1)))"
    using yield_round_robin [OF two_ready_inv, of 0] by (auto simp: MAXCORES_def two_queue_def)
  then show ?thesis using sched_invD(2) [OF t(2), of 0] by (simp add: MAXCORES_def)
qed

text \<open>
  \<open>wake_up\<close> wakes exactly the processes that wait for the value, on every core: they move, in the
  order in which they went to sleep, to the end of the ready list of their own core; the others
  keep waiting in their order; running processes and killed ones are not affected.
\<close>

theorem wake_up_exact:
  assumes "sched_inv s Q R"
  shows "\<exists>t Q'. wake_up w s = Inr t \<and> sched_inv t Q' R \<and>
    (\<forall>c < MAXCORES.
       Q' (Ready c) = Q (Ready c) @ filter (\<lambda>p. wait_of s p = w) (Q (Waiting c)) \<and>
       Q' (Waiting c) = filter (\<lambda>p. wait_of s p \<noteq> w) (Q (Waiting c)) \<and>
       Q' (Killed c) = Q (Killed c))"
  using wake_up_law [OF assms, of w]
  by (elim exE conjE) (intro exI conjI, assumption, assumption, simp add: woken_def)

theorem wake_up_exact_witness: "\<exists>t Q'. wake_up 9 two_ready = Inr t \<and> Q' (Ready 0) = [(0, 1), (0, 2)] \<and> sched_inv t Q' (\<lambda>c. (c, 0))"
proof -
  have "two_queue (Ready 0) = [(0, 1), (0, 2)]" "two_queue (Waiting 0) = []" "(0::nat) < MAXCORES"
    by (simp_all add: two_queue_def MAXCORES_def)
  then show ?thesis using wake_up_exact [OF two_ready_inv, of 9] by fastforce
qed

theorem context_switch_complete_witness:
  "\<exists>t. schedule 0 two_ready = Inr (Switch t) \<and> core_sp t 0 = 0x2060 \<and> load_words (mem t) 0xfa0 12 = replicate 12 7"
proof -
  have c: "(0::nat) < MAXCORES" by (simp add: MAXCORES_def)
  have n: "pick_next 0 two_queue = (0, 1)" by (simp add: pick_next_def two_queue_def)
  obtain t where t: "schedule 0 two_ready = Inr (Switch t)" "current_process t 0 = Some (0, 1)"
    using dispatch [OF sched_invD(1) [OF two_ready_inv] c refl sched_invD(2) [OF two_ready_inv c], unfolded n] by auto
  moreover have "length (core_regs two_ready 0) = 12" by (simp add: two_ready_def)
  ultimately show ?thesis
    using context_switch_complete [OF t(1)]
    by (auto simp: ready_process_def) (auto simp: two_ready_def)
qed

text \<open>
  The round trip: after core 0 has switched from its idle process to process 4, a switch back finds
  the registers of the idle process.
\<close>

theorem swap_round_trip_witness:
  "let u = swap 0 (0, 0) 0x2000 two_ready in
   core_regs (swap 0 (0, 1) (pr_context (process_table u (0, 0))) u) 0 = replicate 12 7"
proof -
  let ?u = "swap 0 (0, 0) 0x2000 two_ready"
  have len: "length (core_regs ?u 0) = 12" "length (core_regs two_ready 0) = 12"
    by (simp_all add: swap_def Let_def two_ready_def upd_process_def numeral_eq_Suc)
  have sp: "core_sp two_ready 0 = 0x1000" "core_sp ?u 0 = 0x2060"
    by (simp_all add: swap_def Let_def two_ready_def upd_process_def)
  have "apart (core_sp two_ready 0 - 96) 96 (core_sp ?u 0 - 96) 96"
    unfolding sp by (simp add: apart_def)
  then show ?thesis
    using swap_round_trip [OF len(2,1) refl, of "(0, 0)" "0x2000" "(0, 1)"] by (simp add: Let_def two_ready_def)
qed

text \<open>
  C27: The lists of src/src/lib.c are sequences.  Appending an item that is on no list puts it at the
  end of one list; taking the head returns the first item, or NULL from an empty list; removing by
  wait value returns and unlinks the first item with that value, or NULL; counting gives the
  length.  Each changes only the list it is called on, and only links.
\<close>

theorem process_lists_refine:
  assumes "lists_rep s Q" "\<forall>l. p \<notin> set (Q l)"
  shows "(\<exists>t. append_list_tail l p s = Inr t \<and> lists_rep t (Q(l := Q l @ [p])) \<and> links_only s t) \<and>
    (\<exists>t. remove_list_head l s = Inr (case Q l of [] \<Rightarrow> None | x # _ \<Rightarrow> Some x, t) \<and>
      lists_rep t (Q(l := tl (Q l))) \<and> links_only s t) \<and>
    (\<exists>t. remove_list l w s = Inr (find (\<lambda>x. wait_of s x = w) (Q l), t) \<and>
      lists_rep t (Q(l := (case find (\<lambda>x. wait_of s x = w) (Q l) of None \<Rightarrow> Q l | Some x \<Rightarrow> remove1 x (Q l)))) \<and>
      links_only s t) \<and>
    get_list_count l s = Inr (length (Q l)) \<and> is_list_empty l s = (Q l = [])"
proof (intro conjI)
  show "get_list_count l s = Inr (length (Q l))" by (rule get_list_count_rep [OF assms(1)])
  show "is_list_empty l s = (Q l = [])"
    using queue_rep_headD(3) [OF lists_repD(2) [OF assms(1)]] by (simp add: is_list_empty_def)
qed (rule proc_list.enq_law [OF assms] proc_list.deq_law [OF assms(1)] proc_list.rem_law [OF assms(1)])+

theorem process_lists_refine_witness:
  "get_list_count (Ready 0) two_ready = Inr 2 \<and>
    (\<exists>t. append_list_tail (Ready 0) (0, 3) two_ready = Inr t \<and> lists_rep t (two_queue(Ready 0 := [(0, 1), (0, 2), (0, 3)])))"
proof -
  have "lists_rep two_ready two_queue" "\<forall>l. (0, 3) \<notin> set (two_queue l)" "two_queue (Ready 0) = [(0, 1), (0, 2)]"
    using sched_repD(1) [OF sched_invD(1) [OF two_ready_inv]] by (simp_all add: two_queue_def)
  then show ?thesis using process_lists_refine [of two_ready two_queue "(0, 3)" "Ready 0" 0] by fastforce
qed

end
