(* ===== verification/File_Names.thy ===== *)
theory File_Names
  imports File_System
begin

text \<open>
  What \<open>split_path\<close> of src/src/file.c accepts and returns: the specification \<open>split_spec\<close> says it over
  the whole string, the loops read it character by character and never past its end.
\<close>

definition bytes_path :: "u8 list \<Rightarrow> path" where
  "bytes_path str i = (if i < length str then Inr (str ! i) else if i = length str then Inr 0 else Inl Out_of_bounds)"

lemma lit_path_bytes: "lit_path str = bytes_path (map byte_of_char str)"
  by (auto simp: lit_path_def bytes_path_def fun_eq_iff)

text \<open>Name and extension of a path, and the directory's fixed-width form of each.\<close>

definition base_name :: "u8 list \<Rightarrow> u8 list" where
  "base_name str = takeWhile (\<lambda>c. c \<noteq> 0x2e) str"

definition extension :: "u8 list \<Rightarrow> u8 list" where
  "extension str = tl (dropWhile (\<lambda>c. c \<noteq> 0x2e) str)"

definition pad :: "nat \<Rightarrow> u8 list \<Rightarrow> u8 list" where
  "pad n xs = xs @ replicate (n - length xs) 0x20"

definition split_spec :: "u8 list \<Rightarrow> (u8 list \<times> u8 list) option" where
  "split_spec str =
     (if 0x2f \<notin> set str \<and> length (base_name str) \<le> 8 \<and> length (extension str) \<le> 3
      then Some (pad 8 (base_name str), pad 3 (extension str)) else None)"

lemma bytes_path_simps [simp]:
  "i < length str \<Longrightarrow> bytes_path str i = Inr (str ! i)" "bytes_path str (length str) = Inr 0"
  by (simp_all add: bytes_path_def)

text \<open>The loops, started behind a prefix already read.\<close>

lemma split_name_run:
  assumes "0 \<notin> set xs"
  shows "split_name n (bytes_path (pre @ xs)) (length pre) (pre @ replicate n 0x20) =
      (let b = take n (takeWhile (\<lambda>c. c \<noteq> 0x2e) xs) in
       Inr (if 0x2f \<in> set b then None
            else Some (length pre + length b, pre @ b @ replicate (n - length b) 0x20)))"
  using assms
proof (induction n arbitrary: pre xs)
  case 0
  then show ?case by (simp add: Let_def)
next
  case (Suc n)
  show ?case
  proof (cases xs)
    case Nil
    then show ?thesis by (simp add: bytes_path_def)
  next
    case (Cons c cs)
    have rd: "bytes_path (pre @ xs) (length pre) = Inr c" using Cons by (simp add: bytes_path_def)
    have nz: "c \<noteq> 0" using Cons Suc.prems by auto
    show ?thesis
    proof (cases "c = 0x2e \<or> c = 0x2f")
      case True
      then show ?thesis using rd Cons nz by (auto simp: Let_def)
    next
      case False
      have upd: "(pre @ replicate (Suc n) 0x20)[length pre := c] = (pre @ [c]) @ replicate n 0x20"
        by (simp add: list_update_append)
      have "split_name n (bytes_path ((pre @ [c]) @ cs)) (length (pre @ [c])) ((pre @ [c]) @ replicate n 0x20) =
        (let b = take n (takeWhile (\<lambda>c. c \<noteq> 0x2e) cs) in
         Inr (if 0x2f \<in> set b then None
            else Some (length (pre @ [c]) + length b, (pre @ [c]) @ b @ replicate (n - length b) 0x20)))"
        using Suc.IH [of cs "pre @ [c]"] Suc.prems Cons by simp
      then show ?thesis
        using rd False nz Cons upd by (auto simp: Let_def)
    qed
  qed
qed

lemma split_ext_run:
  assumes "0 \<notin> set xs"
  shows "split_ext n (bytes_path (pre @ xs)) (length pre) (length e) (e @ replicate n 0x20) =
      (let b = take n xs in
       Inr (if 0x2f \<in> set b then None
            else Some (length pre + length b, e @ b @ replicate (n - length b) 0x20)))"
  using assms
proof (induction n arbitrary: pre xs e)
  case 0
  then show ?case by (simp add: Let_def)
next
  case (Suc n)
  show ?case
  proof (cases xs)
    case Nil
    then show ?thesis by (simp add: bytes_path_def)
  next
    case (Cons c cs)
    have rd: "bytes_path (pre @ xs) (length pre) = Inr c" using Cons by (simp add: bytes_path_def)
    have nz: "c \<noteq> 0" using Cons Suc.prems by auto
    have upd: "(e @ replicate (Suc n) 0x20)[length e := c] = (e @ [c]) @ replicate n 0x20"
      by (simp add: list_update_append)
    show ?thesis
      using rd nz Cons upd Suc.IH [of cs "pre @ [c]" "e @ [c]"] Suc.prems by (cases "c = 0x2f") (auto simp: Let_def)
  qed
qed

lemma take_takeWhile_all: "length (takeWhile P xs) \<le> n \<Longrightarrow> take n (takeWhile P xs) = takeWhile P xs"
  by simp

lemma bytes_path_after:
  "bytes_path (xs @ ys) (length xs) = Inr (if ys = [] then 0 else hd ys)"
  by (cases ys) (simp_all add: bytes_path_def)

lemma no_dot: "0x2e \<notin> set str \<Longrightarrow> base_name str = str" "0x2e \<notin> set str \<Longrightarrow> extension str = []"
  unfolding base_name_def extension_def by (induction str) auto

lemma base_extension: "str = base_name str @ (if 0x2e \<in> set str then 0x2e # extension str else [])"
proof (cases "0x2e \<in> set str")
  case True
  then have "dropWhile (\<lambda>c. c \<noteq> 0x2e) str \<noteq> []" by (auto simp: dropWhile_eq_Nil_conv)
  then have "dropWhile (\<lambda>c. c \<noteq> 0x2e) str = 0x2e # extension str"
    using hd_dropWhile [of "\<lambda>c. c \<noteq> 0x2e" str] by (cases "dropWhile (\<lambda>c. c \<noteq> 0x2e) str") (auto simp: extension_def)
  then show ?thesis using True takeWhile_dropWhile_id [of "\<lambda>c. c \<noteq> 0x2e" str] by (simp add: base_name_def)
next
  case False
  then show ?thesis by (simp add: no_dot)
qed

lemma set_path: "set str = set (base_name str) \<union> (if 0x2e \<in> set str then insert 0x2e (set (extension str)) else {})"
  using arg_cong [OF base_extension [of str], of set] by (cases "0x2e \<in> set str") auto

lemma base_no_dot: "0x2e \<notin> set (base_name str)"
  by (auto simp: base_name_def dest: set_takeWhileD)

lemma split_path_run:
  assumes nz: "0 \<notin> set str"
  shows "split_path (bytes_path str) (replicate 8 0x20) (replicate 3 0x20) = Inr (split_spec str)"
proof -
  let ?b = "base_name str" and ?e = "extension str"
  note be = base_extension [of str]
  have nb: "0 \<notin> set ?b" "0 \<notin> set ?e"
    using nz set_path [of str] no_dot(2) [of str] by (auto split: if_splits)
  have sn: "split_name 8 (bytes_path str) 0 (replicate 8 0x20) =
      Inr (if 0x2f \<in> set (take 8 ?b) then None
           else Some (length (take 8 ?b), take 8 ?b @ replicate (8 - length (take 8 ?b)) 0x20))"
    using split_name_run [OF nz, of 8 "[]"] by (simp add: Let_def base_name_def)
  consider "0x2f \<in> set (take 8 ?b)" | "0x2f \<notin> set (take 8 ?b)" "8 < length ?b" | "0x2f \<notin> set (take 8 ?b)" "length ?b \<le> 8"
    by linarith
  then show ?thesis
  proof cases
    case 1
    then have "0x2f \<in> set str" using set_path [of str] set_take_subset [of 8 ?b] by blast
    then show ?thesis using 1 sn by (simp add: split_path_def split_spec_def)
  next
    case 2
    then have "bytes_path str 8 = Inr (?b ! 8)"
      using arg_cong [OF be, of length] arg_cong [OF be, of "\<lambda>x. x ! 8"] by (simp add: nth_append split: if_splits)
    moreover have "?b ! 8 \<noteq> 0x2e" "?b ! 8 \<noteq> 0" using 2 base_no_dot [of str] nb(1) nth_mem [of 8 ?b] by metis+
    ultimately show ?thesis using 2 sn by (simp add: split_path_def split_spec_def)
  next
    case 3
    then have sn': "split_name 8 (bytes_path str) 0 (replicate 8 0x20) = Inr (Some (length ?b, pad 8 ?b))" "0x2f \<notin> set ?b"
      using sn by (simp_all add: pad_def)
    show ?thesis
    proof (cases "0x2e \<in> set str")
      case False
      then have "?b = str" "?e = []" using no_dot by auto
      then show ?thesis using sn' 3(2) by (simp add: split_path_def split_spec_def pad_def bytes_path_def)
    next
      case True
      then have str: "str = (?b @ [0x2e]) @ ?e" using be by simp
      have dot: "bytes_path str (length ?b) = Inr 0x2e"
        using arg_cong [OF str, of "\<lambda>x. bytes_path x (length ?b)"] bytes_path_after [of ?b "0x2e # ?e"] by simp
      have se: "split_ext 3 (bytes_path str) (length ?b + 1) 0 (replicate 3 0x20) =
          Inr (if 0x2f \<in> set (take 3 ?e) then None
               else Some (length ?b + 1 + length (take 3 ?e), take 3 ?e @ replicate (3 - length (take 3 ?e)) 0x20))"
        using split_ext_run [OF nb(2), of 3 "?b @ [0x2e]" "[]"]
          arg_cong [OF str, of "\<lambda>x. split_ext 3 (bytes_path x) (length ?b + 1) 0 (replicate 3 0x20)"] by (simp add: Let_def)
      have slash: "0x2f \<in> set str \<longleftrightarrow> 0x2f \<in> set ?e"
        using sn'(2) set_path [of str] True by auto
      have run: "split_path (bytes_path str) (replicate 8 0x20) (replicate 3 0x20) =
          rbind (Inr (if 0x2f \<in> set (take 3 ?e) then None
               else Some (length ?b + 1 + length (take 3 ?e), take 3 ?e @ replicate (3 - length (take 3 ?e)) 0x20)))
            (\<lambda>r. case r of None \<Rightarrow> Inr None
             | Some (i, ext) \<Rightarrow> rbind (bytes_path str i) (\<lambda>c. if c \<noteq> 0 then Inr None else Inr (Some (pad 8 ?b, ext))))"
        unfolding split_path_def sn'(1) using dot se by simp
      show ?thesis
      proof (cases "0x2f \<in> set (take 3 ?e) \<or> length ?e \<le> 3")
        case True
        have "length str = length ?b + 1 + length ?e" using arg_cong [OF str, of length] by simp
        then have "bytes_path str (length ?b + 1 + length ?e) = Inr 0" by (simp add: bytes_path_def)
        then show ?thesis
          using True slash 3(2) set_take_subset [of 3 ?e] unfolding run by (auto simp: split_spec_def pad_def)
      next
        case False
        then have "str ! (length ?b + 1 + 3) = ?e ! 3" "length ?b + 1 + 3 < length str"
          using arg_cong [OF str, of "\<lambda>x. x ! (length ?b + 1 + 3)"] arg_cong [OF str, of length]
          by (simp_all add: nth_append)
        moreover have "?e ! 3 \<noteq> 0" using False nb(2) by (metis not_le_imp_less nth_mem)
        ultimately show ?thesis
          using False unfolding run by (simp add: split_spec_def min_def)
      qed
    qed
  qed
qed

section \<open>Properties\<close>

text \<open>
  \<open>split_path\<close> accepts exactly the 8.3 names.  For every NUL-terminated string it returns the part
  before the first dot and the part after it, padded with blanks to the eight and three characters
  of a directory entry, if these parts fit and there is no slash, and refuses the string otherwise;
  in neither case does it read past the terminating NUL or write past its two buffers.
\<close>

theorem split_path_correct:
  assumes "0 \<notin> set str"
  shows "split_path (bytes_path str) (replicate 8 0x20) (replicate 3 0x20) = Inr (split_spec str)"
  using split_path_run [OF assms] .

theorem split_path_correct_witness:
  "split_path (lit_path ''INIT.BIN'') (replicate 8 0x20) (replicate 3 0x20) =
     Inr (Some (map byte_of_char ''INIT    '', map byte_of_char ''BIN'')) \<and>
   split_path (lit_path ''DIR/A'') (replicate 8 0x20) (replicate 3 0x20) = Inr None"
proof -
  have z: "0 \<notin> set (map byte_of_char ''INIT.BIN'')" "0 \<notin> set (map byte_of_char ''DIR/A'')" by code_simp+
  have e: "split_spec (map byte_of_char ''INIT.BIN'') = Some (map byte_of_char ''INIT    '', map byte_of_char ''BIN'')"
    "split_spec (map byte_of_char ''DIR/A'') = None" by code_simp+
  show ?thesis
    unfolding lit_path_bytes using split_path_correct [OF z(1)] split_path_correct [OF z(2)] unfolding e by (rule conjI)
qed

text \<open>
  Names survive the round trip from the directory.  A name of at most eight and an extension of at
  most three characters, written with a dot between them, is split into the name and extension
  fields of the directory entry again; without an extension the dot may be left out.
\<close>

theorem directory_name_round_trip:
  assumes "length name \<le> 8" "length ext \<le> 3" "{0, 0x2e, 0x2f} \<inter> set name = {}" "{0, 0x2f} \<inter> set ext = {}"
  shows "split_path (bytes_path (name @ 0x2e # ext)) (replicate 8 0x20) (replicate 3 0x20) = Inr (Some (pad 8 name, pad 3 ext)) \<and>
    split_path (bytes_path name) (replicate 8 0x20) (replicate 3 0x20) = Inr (Some (pad 8 name, pad 3 []))"
proof -
  have nd: "0x2e \<notin> set name" and z: "0 \<notin> set (name @ 0x2e # ext)" "0 \<notin> set name" and
    sl: "0x2f \<notin> set (name @ 0x2e # ext)" "0x2f \<notin> set name" using assms(3,4) by auto
  have "takeWhile (\<lambda>c. c \<noteq> 0x2e) (name @ 0x2e # ext) = name" "dropWhile (\<lambda>c. c \<noteq> 0x2e) (name @ 0x2e # ext) = 0x2e # ext"
    using nd by (induction name) auto
  then have "split_spec (name @ 0x2e # ext) = Some (pad 8 name, pad 3 ext)"
    using assms(1,2) sl(1) by (simp add: split_spec_def base_name_def extension_def)
  moreover have "split_spec name = Some (pad 8 name, pad 3 [])"
    using assms(1) sl(2) no_dot [OF nd] by (simp add: split_spec_def)
  ultimately show ?thesis using split_path_run [OF z(1)] split_path_run [OF z(2)] by simp
qed

theorem directory_name_round_trip_witness:
  "split_path (bytes_path [0x41, 0x2e, 0x42, 0x2e]) (replicate 8 0x20) (replicate 3 0x20) = Inr (Some (pad 8 [0x41], pad 3 [0x42, 0x2e]))"
  using directory_name_round_trip [of "[0x41]" "[0x42, 0x2e]"] by simp

end
