(* ===== verification/File_Read.thy ===== *)
theory File_Read
  imports File_Names
begin

text \<open>
  Reading returns the file's contents.  The specification describes a FAT16 volume in unbounded
  arithmetic: where a cluster lies, which cluster follows it in the allocation table, and the bytes
  of a chain of clusters.  The lemmas show that \<open>read_raw_data\<close> of src/src/file.c copies exactly the
  requested part of the chain's bytes to the buffer, in kernel memory or in a mapped user page,
  and changes nothing else.
\<close>

section \<open>The volume\<close>

abbreviation volume :: "memory \<Rightarrow> u64" where
  "volume m \<equiv> get_fs_bpb m"

definition sector_bytes :: "memory \<Rightarrow> nat" where
  "sector_bytes m = unat (bytes_per_sector m (volume m))"

definition cluster_bytes :: "memory \<Rightarrow> nat" where
  "cluster_bytes m = unat (sectors_per_cluster m (volume m)) * sector_bytes m"

definition fat_start :: "memory \<Rightarrow> nat" where
  "fat_start m = unat (reserved_sector_count m (volume m)) * sector_bytes m"

definition data_start :: "memory \<Rightarrow> nat" where
  "data_start m = fat_start m +
     unat (fat_count m (volume m)) * unat (sectors_per_fat m (volume m)) * sector_bytes m +
     unat (root_entry_count m (volume m)) * 32"

definition cluster_pos :: "memory \<Rightarrow> nat \<Rightarrow> nat" where
  "cluster_pos m j = data_start m + (j - 2) * cluster_bytes m"

definition next_cluster :: "memory \<Rightarrow> nat \<Rightarrow> nat" where
  "next_cluster m j = unat (load16 m (volume m + of_nat (fat_start m + 2 * j)))"

definition cluster_data :: "memory \<Rightarrow> nat \<Rightarrow> u8 list" where
  "cluster_data m j = load_bytes m (volume m + of_nat (cluster_pos m j)) (cluster_bytes m)"

primrec fat_chain :: "memory \<Rightarrow> nat \<Rightarrow> nat \<Rightarrow> nat list" where
  "fat_chain m j 0 = []"
| "fat_chain m j (Suc n) = j # fat_chain m (next_cluster m j) n"

definition chain_data :: "memory \<Rightarrow> nat \<Rightarrow> nat \<Rightarrow> u8 list" where
  "chain_data m j n = concat (map (cluster_data m) (fat_chain m j n))"

text \<open>A cluster that belongs to a file: a valid number, within the first 4 GiB of the volume.\<close>

definition data_cluster :: "memory \<Rightarrow> nat \<Rightarrow> bool" where
  "data_cluster m j \<longleftrightarrow> 2 \<le> j \<and> j < 0xfff7 \<and> cluster_pos m j + cluster_bytes m < 2 ^ 32"

section \<open>The code computes these\<close>

lemma unat_ucast_up:
  fixes a :: "'a::len word"
  assumes "LENGTH('a) \<le> LENGTH('b::len)"
  shows "unat (ucast a :: 'b word) = unat a"
proof -
  have "unat a < 2 ^ LENGTH('a)" by (rule unsigned_less)
  also have "(2::nat) ^ LENGTH('a) \<le> 2 ^ LENGTH('b)" using assms by (rule power_increasing) simp
  finally show ?thesis by (simp add: unsigned_ucast_eq take_bit_nat_eq_self)
qed

lemma u16_bound: "unat (w :: u16) < 65536" and u8_bound: "unat (w' :: u8) < 256" and u32_bound: "unat (v :: u32) < 2 ^ 32"
  using unsigned_less [of w, where ?'a = nat] unsigned_less [of w', where ?'a = nat] unsigned_less [of v, where ?'a = nat] by simp_all

lemma unat_mult_small: "unat a * unat b < 2 ^ 32 \<Longrightarrow> unat (a * b :: u32) = unat a * unat b"
  by (simp add: unat_word_ariths take_bit_nat_eq_self)

lemma unat_add_small: "unat a + unat b < 2 ^ 32 \<Longrightarrow> unat (a + b :: u32) = unat a + unat b"
  by (simp add: unat_word_ariths take_bit_nat_eq_self)

lemma unat_ucast16 [simp]: "unat (ucast (a :: u16) :: u32) = unat a" and unat_ucast8 [simp]: "unat (ucast (b :: u8) :: u32) = unat b"
  and unat_ucast32 [simp]: "unat (ucast (c :: u32) :: u64) = unat c"
  by (simp_all add: unat_ucast_up)

lemma get_cluster_size_eq: "unat (get_cluster_size m) = cluster_bytes m"
proof -
  let ?b = "bytes_per_sector m (volume m)" and ?c = "sectors_per_cluster m (volume m)"
  have "unat ?b * unat ?c < 65536 * 256" using u16_bound [of ?b] u8_bound [of ?c] by (intro mult_strict_mono) auto
  then have "unat (ucast ?b * ucast ?c :: u32) = unat ?b * unat ?c"
    using unat_mult_small [of "ucast ?b" "ucast ?c"] by simp
  then show ?thesis by (simp add: get_cluster_size_def cluster_bytes_def sector_bytes_def Let_def mult.commute)
qed

lemma fat_start_eq:
  "unat ((ucast (reserved_sector_count m (volume m)) :: u32) * ucast (bytes_per_sector m (volume m))) = fat_start m"
  "fat_start m < 2 ^ 32"
proof -
  let ?b = "bytes_per_sector m (volume m)" and ?c = "reserved_sector_count m (volume m)"
  have lt: "unat ?c * unat ?b < 65536 * 65536" using u16_bound [of ?b] u16_bound [of ?c] by (intro mult_strict_mono) auto
  then show "unat ((ucast ?c :: u32) * ucast ?b) = fat_start m"
    using unat_mult_small [of "ucast ?c" "ucast ?b"] by (simp add: fat_start_def sector_bytes_def)
  show "fat_start m < 2 ^ 32" using lt by (simp add: fat_start_def sector_bytes_def)
qed

lemma get_cluster_value_eq: "unat (get_cluster_value m j) = next_cluster m (unat j)"
  by (simp add: get_cluster_value_def get_fat_table_def next_cluster_def Let_def fat_start_eq(1) [symmetric] add.assoc)

lemma get_cluster_offset_eq:
  assumes "data_cluster m j" "unat i = j"
  shows "\<exists>off. get_cluster_offset m i = Inr off \<and> unat off = cluster_pos m j"
proof -
  let ?p = "volume m"
  define res where "res = (ucast (reserved_sector_count m ?p) :: u32) * ucast (bytes_per_sector m ?p)"
  define fat where "fat = (ucast (fat_count m ?p) :: u32) * ucast (sectors_per_fat m ?p) * ucast (bytes_per_sector m ?p)"
  define dir where "dir = (ucast (root_entry_count m ?p) :: u32) * 32"
  define csz where "csz = (ucast (sectors_per_cluster m ?p) * ucast (bytes_per_sector m ?p) :: u32)"
  have fits: "data_start m + (j - 2) * cluster_bytes m < 2 ^ 32" "2 \<le> j"
    using assms(1) by (simp_all add: data_cluster_def cluster_pos_def)
  have res: "unat res = fat_start m" using fat_start_eq(1) by (simp add: res_def)
  have "unat (fat_count m ?p) * unat (sectors_per_fat m ?p) < 256 * 65536"
    using u16_bound u8_bound by (intro mult_strict_mono) auto
  then have "unat ((ucast (fat_count m ?p) :: u32) * ucast (sectors_per_fat m ?p)) = unat (fat_count m ?p) * unat (sectors_per_fat m ?p)"
    using unat_mult_small [of "ucast (fat_count m ?p)" "ucast (sectors_per_fat m ?p)"] by simp
  then have fat: "unat fat = unat (fat_count m ?p) * unat (sectors_per_fat m ?p) * sector_bytes m"
    using fits(1) unat_mult_small [of "ucast (fat_count m ?p) * ucast (sectors_per_fat m ?p)" "ucast (bytes_per_sector m ?p)"]
    by (simp add: fat_def sector_bytes_def data_start_def)
  have dir: "unat dir = unat (root_entry_count m ?p) * 32"
    using u16_bound [of "root_entry_count m ?p"] unat_mult_small [of "ucast (root_entry_count m ?p)" 32] by (simp add: dir_def)
  have csz: "unat csz = cluster_bytes m"
    using get_cluster_size_eq [of m] by (simp add: csz_def get_cluster_size_def Let_def mult.commute)
  have i2: "unat (i - 2) = j - 2" "2 \<le> i"
    using assms(2) fits(2) by (simp_all add: unat_diff_le word_le_nat_alt)
  have "unat ((i - 2) * csz) = (j - 2) * cluster_bytes m"
    using unat_mult_small [of "i - 2" csz] i2(1) csz fits(1) by simp
  moreover have "unat (res + fat + dir) = data_start m"
    using unat_add_small [of res fat] unat_add_small [of "res + fat" dir] res fat dir fits(1) by (simp add: data_start_def)
  ultimately have "unat (res + fat + dir + (i - 2) * csz) = cluster_pos m j"
    using unat_add_small [of "res + fat + dir" "(i - 2) * csz"] fits(1) by (simp add: cluster_pos_def)
  then show ?thesis
    using i2(2) unfolding get_cluster_offset_def Let_def res_def [symmetric] fat_def [symmetric] dir_def [symmetric] csz_def [symmetric]
    by simp
qed

section \<open>Writes below the volume\<close>

definition same_volume :: "memory \<Rightarrow> memory \<Rightarrow> bool" where
  "same_volume m m' \<longleftrightarrow> (\<forall>x. FS_BASE \<le> x \<longrightarrow> m' x = m x)"

lemma FS_BASE_unat: "unat FS_BASE = 0xffff000030000000"
  by (simp add: FS_BASE_def P2V_def KERNEL_BASE_def)

lemma KERNEL_BASE_unat: "unat KERNEL_BASE = 0xffff000000000000"
  by (simp add: KERNEL_BASE_def)

lemma volume_unat: "\<exists>k < 2 ^ 32. unat (volume m) = unat FS_BASE + k"
proof -
  define o0 where "o0 = load32 m (FS_BASE + 0x1be + 8) * 512"
  have "volume m = FS_BASE + of_nat (unat o0)" by (simp add: get_fs_bpb_def o0_def Let_def)
  moreover have "unat o0 < 2 ^ 32" by (rule u32_bound)
  ultimately show ?thesis using unat_plus_of_nat [of FS_BASE "unat o0"] FS_BASE_unat by auto
qed

lemma in_volume:
  assumes "k < 2 ^ 40"
  shows "unat (volume m + of_nat k) = unat (volume m) + k" "FS_BASE \<le> volume m + of_nat k"
    "unat (volume m + of_nat k) + 2 ^ 40 \<le> 2 ^ 64"
proof -
  obtain b where b: "b < 2 ^ 32" "unat (volume m) = unat FS_BASE + b" using volume_unat by blast
  then show "unat (volume m + of_nat k) = unat (volume m) + k"
    using assms unat_plus_of_nat [of "volume m" k] FS_BASE_unat by simp
  then show "FS_BASE \<le> volume m + of_nat k" "unat (volume m + of_nat k) + 2 ^ 40 \<le> 2 ^ 64"
    using b assms FS_BASE_unat by (simp_all add: word_le_nat_alt)
qed

lemma above_range:
  assumes "FS_BASE \<le> a" "unat a + n \<le> 2 ^ 64" "in_range a n x"
  shows "FS_BASE \<le> x"
proof -
  have "unat (a + of_nat (unat (x - a))) = unat a + unat (x - a)"
    using assms(2,3) by (intro unat_plus_of_nat) (simp add: in_range_def)
  then have "unat x = unat a + unat (x - a)" by simp
  then show ?thesis using assms(1) by (simp add: word_le_nat_alt)
qed

lemma load_above:
  assumes "same_volume m m'" "FS_BASE \<le> a" "unat a + n \<le> 2 ^ 64"
  shows "load_bytes m' a n = load_bytes m a n"
  using assms above_range [OF assms(2,3)] by (intro load_bytes_cong) (simp add: same_volume_def)

lemma load_volume: "same_volume m m' \<Longrightarrow> k < 2 ^ 40 \<Longrightarrow> n < 2 ^ 40 \<Longrightarrow>
    load_bytes m' (volume m + of_nat k) n = load_bytes m (volume m + of_nat k) n"
  using in_volume [of k m] by (intro load_above) simp_all

lemma same_volume_header:
  assumes "same_volume m m'"
  shows "volume m' = volume m"
proof -
  have "load_bytes m' (FS_BASE + 0x1be + 8) 4 = load_bytes m (FS_BASE + 0x1be + 8) 4"
    by (rule load_above [OF assms]) (simp_all add: FS_BASE_def P2V_def KERNEL_BASE_def)
  then show ?thesis by (simp add: get_fs_bpb_def load32_def)
qed

lemma same_volume_fields:
  assumes "same_volume m m'"
  shows "sector_bytes m' = sector_bytes m" "cluster_bytes m' = cluster_bytes m" "fat_start m' = fat_start m"
    "cluster_pos m' j = cluster_pos m j"
proof -
  note v = same_volume_header [OF assms]
  have 2: "load16 m' (volume m + of_nat k) = load16 m (volume m + of_nat k)" if "k < 2 ^ 40" for k
    using load_volume [OF assms that, of 2] by (simp add: load16_def)
  have 1: "m' (volume m + of_nat k) = m (volume m + of_nat k)" if "k < 2 ^ 40" for k
    using load_volume [OF assms that, of 1] by simp
  have f: "bytes_per_sector m' (volume m) = bytes_per_sector m (volume m)"
    "sectors_per_cluster m' (volume m) = sectors_per_cluster m (volume m)"
    "reserved_sector_count m' (volume m) = reserved_sector_count m (volume m)"
    "fat_count m' (volume m) = fat_count m (volume m)" "root_entry_count m' (volume m) = root_entry_count m (volume m)"
    "sectors_per_fat m' (volume m) = sectors_per_fat m (volume m)"
    using 2 [of 11] 1 [of 13] 2 [of 14] 1 [of 16] 2 [of 17] 2 [of 22]
    by (simp_all add: bytes_per_sector_def sectors_per_cluster_def reserved_sector_count_def fat_count_def
        root_entry_count_def sectors_per_fat_def)
  show "sector_bytes m' = sector_bytes m" "cluster_bytes m' = cluster_bytes m" "fat_start m' = fat_start m"
    "cluster_pos m' j = cluster_pos m j"
    by (simp_all add: sector_bytes_def cluster_bytes_def fat_start_def cluster_pos_def data_start_def v f)
qed

lemma same_volume_next:
  assumes "same_volume m m'" "j < 2 ^ 32"
  shows "next_cluster m' j = next_cluster m j"
proof -
  have "fat_start m + 2 * j < 2 ^ 40" using fat_start_eq(2) [of m] assms(2) by simp
  then show ?thesis
    using load_volume [OF assms(1), of "fat_start m + 2 * j" 2]
    by (simp add: next_cluster_def load16_def same_volume_header [OF assms(1)] same_volume_fields [OF assms(1)])
qed

lemma next_cluster_bound: "next_cluster m j < 2 ^ 32"
  using u16_bound [of "load16 m (volume m + of_nat (fat_start m + 2 * j))"] by (simp add: next_cluster_def)

lemma same_volume_chain: "same_volume m m' \<Longrightarrow> j < 2 ^ 32 \<Longrightarrow> fat_chain m' j n = fat_chain m j n"
  by (induction n arbitrary: j) (simp_all add: same_volume_next next_cluster_bound [simplified])

lemma same_volume_cluster:
  assumes "same_volume m m'" "data_cluster m j"
  shows "cluster_data m' j = cluster_data m j" "data_cluster m' j"
proof -
  show "data_cluster m' j" using assms(2) by (simp add: data_cluster_def same_volume_fields [OF assms(1)])
  show "cluster_data m' j = cluster_data m j"
    using load_volume [OF assms(1), of "cluster_pos m j" "cluster_bytes m"] assms(2)
    by (simp add: cluster_data_def data_cluster_def same_volume_header [OF assms(1)] same_volume_fields [OF assms(1)])
qed

lemma same_volume_data:
  assumes "same_volume m m'" "j < 2 ^ 32" "\<forall>c \<in> set (fat_chain m j n). data_cluster m c"
  shows "chain_data m' j n = chain_data m j n"
  using same_volume_cluster(1) [OF assms(1)] assms(3) unfolding chain_data_def same_volume_chain [OF assms(1,2)]
  by (metis (no_types, lifting) map_cong)

section \<open>Buffers\<close>

text \<open>
  A buffer of \<open>n\<close> bytes at address \<open>v\<close> that is the memory at \<open>d\<close>: a kernel address below the volume, or a
  user address mapped to such memory.
\<close>

definition buffer_ok :: "nat \<Rightarrow> 'a sys_scheme \<Rightarrow> u64 \<Rightarrow> u64 \<Rightarrow> nat \<Rightarrow> bool" where
  "buffer_ok cpu s v d n \<longleftrightarrow> linear cpu s v d n \<and> KERNEL_BASE \<le> d \<and> unat d + n \<le> unat FS_BASE \<and>
     (v = d \<or> unat v + n \<le> unat KERNEL_BASE)"

lemma buffer_advance:
  assumes "buffer_ok cpu s v d n" "i \<le> n"
  shows "buffer_ok cpu s (v + of_nat i) (d + of_nat i) (n - i)" "unat (d + of_nat i) = unat d + i"
proof -
  have b: "unat d + n \<le> unat FS_BASE" "KERNEL_BASE \<le> d" "v = d \<or> unat v + n \<le> unat KERNEL_BASE"
    using assms(1) by (simp_all add: buffer_ok_def)
  show d: "unat (d + of_nat i) = unat d + i"
    using b(1) assms(2) FS_BASE_unat by (intro unat_plus_of_nat) simp
  have "unat v + n \<le> unat KERNEL_BASE \<Longrightarrow> unat (v + of_nat i) = unat v + i"
    using assms(2) KERNEL_BASE_unat by (intro unat_plus_of_nat) simp
  moreover have "linear cpu s (v + of_nat i) (d + of_nat i) (n - i)"
    using assms b(1) FS_BASE_unat by (intro linear_sub [of cpu s v d n]) (auto simp: buffer_ok_def)
  ultimately show "buffer_ok cpu s (v + of_nat i) (d + of_nat i) (n - i)"
    using b d assms(2) by (auto simp: buffer_ok_def word_le_nat_alt)
qed

lemma buffer_shrink: "buffer_ok cpu s v d n \<Longrightarrow> i \<le> n \<Longrightarrow> buffer_ok cpu s v d i"
proof -
  assume a: "buffer_ok cpu s v d n" "i \<le> n"
  then have "linear cpu s (v + of_nat 0) (d + of_nat 0) i"
    using FS_BASE_unat by (intro linear_sub [of cpu s v d n]) (auto simp: buffer_ok_def)
  then show ?thesis using a by (auto simp: buffer_ok_def)
qed

lemma buffer_store:
  "buffer_ok cpu s v d n \<Longrightarrow> \<forall>x. \<not> in_range d n x \<longrightarrow> m x = mem s x \<Longrightarrow> buffer_ok cpu (s\<lparr>mem := m\<rparr>) v d n"
  using linear_store by (auto simp: buffer_ok_def)

lemma range_below:
  assumes "in_range d n x" "unat d + n \<le> unat FS_BASE"
  shows "\<not> FS_BASE \<le> x"
proof -
  have "unat (d + of_nat (unat (x - d))) = unat d + unat (x - d)"
    using assms FS_BASE_unat by (intro unat_plus_of_nat) (simp add: in_range_def)
  then show ?thesis using assms by (simp add: word_le_nat_alt in_range_def)
qed

lemma buffer_volume:
  "unat d + n \<le> unat FS_BASE \<Longrightarrow> \<forall>x. \<not> in_range d n x \<longrightarrow> m' x = m x \<Longrightarrow> same_volume m m'"
  using range_below by (auto simp: same_volume_def)

text \<open>One copy from the volume into a buffer.\<close>

lemma copy_from_volume:
  assumes "buffer_ok cpu s v d n" "k < 2 ^ 40" "n < 2 ^ 40"
  shows "\<exists>m. vmemcpy cpu v (volume (mem s) + of_nat k) n s = Inr (s\<lparr>mem := m\<rparr>) \<and>
    load_bytes m d n = load_bytes (mem s) (volume (mem s) + of_nat k) n \<and>
    (\<forall>x. \<not> in_range d n x \<longrightarrow> m x = mem s x)"
proof (cases "n = 0")
  case True
  then show ?thesis by (intro exI [of _ "mem s"]) (simp add: vmemcpy_def)
next
  case False
  let ?a = "volume (mem s) + of_nat k"
  have b: "linear cpu s v d n" "unat d + n \<le> unat FS_BASE" "KERNEL_BASE \<le> d" "v = d \<or> unat v + n \<le> unat KERNEL_BASE"
    using assms(1) by (simp_all add: buffer_ok_def)
  have a: "FS_BASE \<le> ?a" "unat ?a + n \<le> 2 ^ 64" using in_volume [OF assms(2), of "mem s"] assms(3) by simp_all
  have "KERNEL_BASE \<le> FS_BASE" by (simp add: FS_BASE_def P2V_def KERNEL_BASE_def)
  then have k: "KERNEL_BASE \<le> ?a" using a(1) by (rule order.trans)
  have "unat FS_BASE < 2 ^ 64" using FS_BASE_unat by simp
  then have "v = d \<and> KERNEL_BASE \<le> d \<and> unat d + n \<le> 2 ^ 64 \<or> v < KERNEL_BASE"
    using b False by (auto simp: word_less_nat_alt)
  moreover have "apart d n ?a n"
    using a b(2) False by (intro apart_before) (simp_all add: word_le_nat_alt)
  ultimately show ?thesis
    using assms(3) by (intro vmemcpy_linear [OF b(1) k a(2)]) simp_all
qed

lemma load_bytes_append: "load_bytes m a (n + k) = load_bytes m a n @ load_bytes m (a + of_nat n) k"
  by (induction n arbitrary: a) (simp_all add: add.assoc)

section \<open>The loops\<close>

lemma skip_clusters_run:
  assumes "n < length (fat_chain m j k)" "\<forall>c \<in> set (fat_chain m j k). data_cluster m c" "unat i = j"
  shows "\<exists>i'. skip_clusters n m i = Inr i' \<and> unat i' = fat_chain m j k ! n"
  using assms
proof (induction n arbitrary: i j k)
  case 0
  then show ?case by (cases k) simp_all
next
  case (Suc n)
  obtain k' where k: "k = Suc k'" using Suc.prems(1) by (cases k) simp_all
  let ?i = "ucast (get_cluster_value m i) :: u32"
  have i: "unat ?i = next_cluster m j" using get_cluster_value_eq [of m i] Suc.prems(3) by simp
  obtain k'' where "k' = Suc k''" using Suc.prems(1) k by (cases k') simp_all
  then have "data_cluster m (next_cluster m j)" using Suc.prems(2) k by simp
  then have "?i < 0xfff7" using i by (simp add: word_less_nat_alt data_cluster_def)
  then show ?case using Suc.IH [OF _ _ i, of k'] Suc.prems(1,2) k by simp
qed

lemma length_fat_chain [simp]: "length (fat_chain m j n) = n"
  by (induction n arbitrary: j) simp_all

lemma length_cluster_data [simp]: "length (cluster_data m j) = cluster_bytes m"
  by (simp add: cluster_data_def)

lemma chain_data_Suc: "chain_data m j (Suc n) = cluster_data m j @ chain_data m (next_cluster m j) n"
  by (simp add: chain_data_def)

lemma load_bytes_apart_store:
  assumes "\<forall>x. \<not> in_range (d + of_nat i) k x \<longrightarrow> m' x = m x" "i + k < 2 ^ 64"
  shows "load_bytes m' d i = load_bytes m d i"
proof (rule load_bytes_cong)
  fix x assume x: "in_range d i x"
  have "\<not> in_range (d + of_nat i) k x"
  proof
    assume "in_range (d + of_nat i) k x"
    then have "unat (x - (d + of_nat i) + of_nat i) = unat (x - (d + of_nat i)) + i"
      using assms(2) by (intro unat_plus_of_nat) (simp add: in_range_def)
    then show False using x by (simp add: in_range_def)
  qed
  then show "m' x = m x" using assms(1) by blast
qed

text \<open>
  The loop over whole clusters, entered with \<open>r\<close> bytes read, copies the rest of the request from the
  start of the chain.
\<close>

lemma read_clusters_run:
  assumes "buffer_ok cpu s v d (unat sz - unat r)" "r \<le> sz" "csz = get_cluster_size (mem s)" "0 < cluster_bytes (mem s)"
    and "unat sz + cluster_bytes (mem s) < 2 ^ 32"
    and "\<forall>c \<in> set (fat_chain (mem s) j n). data_cluster (mem s) c" "unat i = j"
    and "unat sz - unat r \<le> n * cluster_bytes (mem s)"
  shows "\<exists>m. read_clusters cpu (volume (mem s)) csz sz v r i s = Some (Inr (sz, s\<lparr>mem := m\<rparr>)) \<and>
    load_bytes m d (unat sz - unat r) = take (unat sz - unat r) (chain_data (mem s) j n) \<and>
    (\<forall>x. \<not> in_range d (unat sz - unat r) x \<longrightarrow> m x = mem s x)"
  using assms
proof (induction n arbitrary: s v d r i j)
  case 0
  then have "r = sz" by (simp add: word_le_nat_alt word_unat_eq_iff)
  then show ?case using 0 by (intro exI [of _ "mem s"]) (simp add: read_clusters.simps)
next
  case (Suc n)
  let ?m = "mem s" and ?L = "unat sz - unat r" and ?C = "cluster_bytes (mem s)"
  show ?case
  proof (cases "r = sz")
    case True
    then show ?thesis by (intro exI [of _ "mem s"]) (simp add: read_clusters.simps)
  next
    case False
    then have lt: "r < sz" using Suc.prems(2) by simp
    have L: "0 < ?L" "?L < 2 ^ 32" using lt u32_bound [of sz] by (simp_all add: word_less_nat_alt)
    have dc: "data_cluster ?m j" using Suc.prems(6) by simp
    then have i: "i < 0xfff7" using Suc.prems(7) by (simp add: word_less_nat_alt data_cluster_def)
    obtain off where off: "get_cluster_offset ?m i = Inr off" "unat off = cluster_pos ?m j"
      using get_cluster_offset_eq [OF dc Suc.prems(7)] by blast
    have src: "ucast off + volume ?m = volume ?m + of_nat (cluster_pos ?m j)"
      using off(2) by (simp add: add.commute flip: off(2))
    have csz: "unat csz = ?C" using get_cluster_size_eq Suc.prems(3) by simp
    have pos: "cluster_pos ?m j + ?C < 2 ^ 32" using dc by (simp add: data_cluster_def)
    have rc: "unat (r + csz) = unat r + ?C"
      using Suc.prems(5) csz lt unat_add_small [of r csz] by (simp add: word_less_nat_alt)
    show ?thesis
    proof (cases "sz \<le> r + csz")
      case True
      then have fit: "?L \<le> ?C" using rc by (simp add: word_le_nat_alt)
      have "unat (sz - r) = ?L" using Suc.prems(2) by (simp add: unat_diff_le)
      moreover obtain m where m: "vmemcpy cpu v (volume ?m + of_nat (cluster_pos ?m j)) ?L s = Inr (s\<lparr>mem := m\<rparr>)"
        "load_bytes m d ?L = load_bytes ?m (volume ?m + of_nat (cluster_pos ?m j)) ?L"
        "\<forall>x. \<not> in_range d ?L x \<longrightarrow> m x = ?m x"
        using copy_from_volume [OF Suc.prems(1), of "cluster_pos ?m j"] pos L(2) by auto
      moreover have "load_bytes ?m (volume ?m + of_nat (cluster_pos ?m j)) ?L = take ?L (chain_data ?m j (Suc n))"
        using load_bytes_append [of ?m "volume ?m + of_nat (cluster_pos ?m j)" ?L "?C - ?L"] fit
        by (simp add: chain_data_Suc cluster_data_def)
      ultimately show ?thesis
        using lt i off(1) True by (intro exI [of _ m]) (simp add: read_clusters.simps Let_def src)
    next
      case False
      then have fit: "?C < ?L" using rc by (simp add: word_le_nat_alt)
      obtain m1 where m1: "vmemcpy cpu v (volume ?m + of_nat (cluster_pos ?m j)) ?C s = Inr (s\<lparr>mem := m1\<rparr>)"
        "load_bytes m1 d ?C = cluster_data ?m j" "\<forall>x. \<not> in_range d ?C x \<longrightarrow> m1 x = ?m x"
        using copy_from_volume [OF buffer_shrink [OF Suc.prems(1)], of ?C "cluster_pos ?m j"] pos fit
        unfolding cluster_data_def by auto
      let ?s = "s\<lparr>mem := m1\<rparr>" and ?i = "ucast (get_cluster_value m1 i) :: u32"
      have m1L: "\<forall>x. \<not> in_range d ?L x \<longrightarrow> m1 x = ?m x" using m1(3) in_range_prefix [of d ?C _ ?L] fit by auto
      have below: "unat d + ?L \<le> unat FS_BASE" using Suc.prems(1) by (simp add: buffer_ok_def)
      have sv: "same_volume ?m m1" by (rule buffer_volume [OF below m1L])
      have step: "read_clusters cpu (volume ?m) csz sz v r i s =
          read_clusters cpu (volume ?m) csz sz (v + of_nat ?C) (r + csz) ?i ?s"
      proof -
        have "vmemcpy cpu v (volume ?m + of_nat (cluster_pos ?m j)) (unat csz) s = Inr ?s" using m1(1) csz by simp
        moreover have "(of_nat ?C :: u64) = ucast csz" by (simp flip: csz)
        ultimately show ?thesis using lt i off(1) False by (subst read_clusters.simps) (simp add: Let_def src)
      qed
      have j32: "j < 2 ^ 32" using Suc.prems(7) u32_bound [of i] by simp
      have L': "unat sz - unat (r + csz) = ?L - ?C" using rc by simp
      have "unat ?i = next_cluster m1 j" using get_cluster_value_eq [of m1 i] Suc.prems(7) by simp
      then have ij: "unat ?i = next_cluster ?m j" using same_volume_next [OF sv j32] by simp
      have ch: "fat_chain m1 (next_cluster ?m j) n = fat_chain ?m (next_cluster ?m j) n"
        by (rule same_volume_chain [OF sv next_cluster_bound])
      have dcs: "\<forall>c \<in> set (fat_chain ?m (next_cluster ?m j) n). data_cluster ?m c" using Suc.prems(6) by simp
      have "buffer_ok cpu ?s (v + of_nat ?C) (d + of_nat ?C) (unat sz - unat (r + csz))"
        unfolding L' using buffer_advance(1) [OF buffer_store [OF Suc.prems(1) m1L], of ?C] fit by simp
      moreover have "r + csz \<le> sz" using False by simp
      moreover have "csz = get_cluster_size (mem ?s)"
        using get_cluster_size_eq [of m1] csz same_volume_fields(2) [OF sv] by (simp add: word_unat_eq_iff)
      moreover have "\<forall>c \<in> set (fat_chain (mem ?s) (next_cluster ?m j) n). data_cluster (mem ?s) c"
        using dcs same_volume_cluster(2) [OF sv] ch by simp
      moreover have "unat sz - unat (r + csz) \<le> n * cluster_bytes (mem ?s)"
        using Suc.prems(8) L' same_volume_fields(2) [OF sv] by simp
      ultimately obtain m where m: "read_clusters cpu (volume (mem ?s)) csz sz (v + of_nat ?C) (r + csz) ?i ?s =
          Some (Inr (sz, ?s\<lparr>mem := m\<rparr>))"
        "load_bytes m (d + of_nat ?C) (?L - ?C) = take (?L - ?C) (chain_data m1 (next_cluster ?m j) n)"
        "\<forall>x. \<not> in_range (d + of_nat ?C) (?L - ?C) x \<longrightarrow> m x = m1 x"
        using Suc.IH [where s = ?s and v = "v + of_nat ?C" and d = "d + of_nat ?C" and r = "r + csz" and i = ?i and j = "next_cluster ?m j"] Suc.prems(4,5) ij
          same_volume_fields(2) [OF sv] unfolding L' by auto
      have "chain_data m1 (next_cluster ?m j) n = chain_data ?m (next_cluster ?m j) n"
        by (rule same_volume_data [OF sv next_cluster_bound dcs])
      moreover have "load_bytes m d ?C = cluster_data ?m j"
        using load_bytes_apart_store [OF m(3)] m1(2) fit L(2) by simp
      ultimately have "load_bytes m d ?L = take ?L (chain_data ?m j (Suc n))"
        using load_bytes_append [of m d ?C "?L - ?C"] m(2) fit by (simp add: chain_data_Suc)
      moreover have "\<forall>x. \<not> in_range d ?L x \<longrightarrow> m x = ?m x"
      proof (intro allI impI)
        fix x assume x: "\<not> in_range d ?L x"
        then have "\<not> in_range (d + of_nat ?C) (?L - ?C) x"
          using in_range_split [of d ?C "?L - ?C" x ?L] fit L(2) by fastforce
        then show "m x = ?m x" using m(3) m1L x by metis
      qed
      ultimately show ?thesis
        using step m(1) same_volume_header [OF sv] by (intro exI [of _ m]) simp
    qed
  qed
qed

lemma chain_data_drop:
  "q < n \<Longrightarrow> drop (q * cluster_bytes m) (chain_data m j n) = chain_data m (fat_chain m j n ! q) (n - q) \<and>
    set (fat_chain m (fat_chain m j n ! q) (n - q)) \<subseteq> set (fat_chain m j n)"
proof (induction q arbitrary: j n)
  case 0
  then show ?case by (cases n) simp_all
next
  case (Suc q)
  then obtain k where "n = Suc k" "q < k" by (cases n) auto
  then show ?case using Suc.IH [of k "next_cluster m j"] by (auto simp: chain_data_Suc)
qed

lemma load_bytes_sub:
  assumes "o0 + k \<le> n"
  shows "load_bytes m (a + of_nat o0) k = take k (drop o0 (load_bytes m a n))"
proof -
  obtain r where n: "n = o0 + (k + r)" using assms le_Suc_ex by (metis add.assoc)
  show ?thesis unfolding n load_bytes_append by simp
qed

lemma read_raw_data_run:
  fixes position sz :: u32
  assumes "buffer_ok cpu s v d (unat sz)" "0 < cluster_bytes (mem s)" "unat sz + cluster_bytes (mem s) < 2 ^ 32"
    and "\<forall>c \<in> set (fat_chain (mem s) (unat i) n). data_cluster (mem s) c"
    and "unat position < n * cluster_bytes (mem s)" "unat position + unat sz \<le> n * cluster_bytes (mem s)"
  shows "\<exists>m. read_raw_data cpu i v position sz s = Inr (sz, s\<lparr>mem := m\<rparr>) \<and>
    load_bytes m d (unat sz) = take (unat sz) (drop (unat position) (chain_data (mem s) (unat i) n)) \<and>
    (\<forall>x. \<not> in_range d (unat sz) x \<longrightarrow> m x = mem s x)"
proof -
  let ?m = "mem s" and ?C = "cluster_bytes (mem s)" and ?csz = "get_cluster_size (mem s)"
  define q where "q = unat position div ?C"
  define o0 where "o0 = unat position mod ?C"
  have P: "unat position = q * ?C + o0" "o0 < ?C" using assms(2) by (simp_all add: q_def o0_def)
  have q: "q < n" using assms(2,5) by (simp add: q_def less_mult_imp_div_less)
  have csz: "unat ?csz = ?C" by (rule get_cluster_size_eq)
  then have nz: "?csz \<noteq> 0" using assms(2) by auto
  have qo: "unat (position div ?csz) = q" "unat (position mod ?csz) = o0"
    using csz by (simp_all add: unat_div unat_mod q_def o0_def)
  obtain i' where i': "skip_clusters q ?m i = Inr i'" "unat i' = fat_chain ?m (unat i) n ! q"
    using skip_clusters_run [of q ?m "unat i" n i] q assms(4) by auto
  define c where "c = fat_chain ?m (unat i) n ! q"
  define k where "k = n - q"
  have cd: "drop (q * ?C) (chain_data ?m (unat i) n) = chain_data ?m c k"
    and ck: "\<forall>x \<in> set (fat_chain ?m c k). data_cluster ?m x"
    using chain_data_drop [OF q, of ?m "unat i"] assms(4) by (auto simp: c_def k_def)
  have k0: "0 < k" "o0 + unat sz \<le> k * ?C"
    using q assms(6) P(1) by (simp_all add: k_def algebra_simps)
  have data: "drop (unat position) (chain_data ?m (unat i) n) = drop o0 (chain_data ?m c k)"
    unfolding P(1) using cd by (metis add.commute drop_drop)
  have ps: "read_raw_data cpu i v position sz s =
      rbind (if o0 \<noteq> 0 then
          (let read_size = (if position mod ?csz + sz \<le> ?csz then sz else ?csz - position mod ?csz) in
           rbind (get_cluster_offset ?m i') (\<lambda>off.
           rbind (vmemcpy cpu v (ucast off + volume ?m + ucast (position mod ?csz)) (unat read_size) s) (\<lambda>s.
           Inr (read_size, v + ucast read_size, ucast (get_cluster_value (mem s) i') :: u32, s))))
         else Inr (0, v, i', s))
        (\<lambda>(r, v, i, s). case read_clusters cpu (volume ?m) ?csz sz v r i s of None \<Rightarrow> Inl Diverge | Some r \<Rightarrow> r)"
  proof -
    have "position mod ?csz = 0 \<longleftrightarrow> o0 = 0" using qo(2) by (simp add: word_unat_eq_iff)
    then show ?thesis using nz i'(1) qo(1) by (simp add: read_raw_data_def Let_def)
  qed
  show ?thesis
  proof (cases "o0 = 0")
    case True
    have "\<exists>m. read_clusters cpu (volume ?m) ?csz sz v 0 i' s = Some (Inr (sz, s\<lparr>mem := m\<rparr>)) \<and>
      load_bytes m d (unat sz - unat (0 :: u32)) = take (unat sz - unat (0 :: u32)) (chain_data ?m c k) \<and>
      (\<forall>x. \<not> in_range d (unat sz - unat (0 :: u32)) x \<longrightarrow> m x = ?m x)"
      using assms(1-3) ck i'(2) k0(2) by (intro read_clusters_run) (simp_all add: c_def True)
    then show ?thesis unfolding ps data using True by auto
  next
    case False
    obtain k' where k': "k = Suc k'" using k0(1) by (cases k) simp_all
    have dc: "data_cluster ?m c" using ck k' by simp
    obtain off where off: "get_cluster_offset ?m i' = Inr off" "unat off = cluster_pos ?m c"
      using get_cluster_offset_eq [OF dc] i'(2) by (auto simp: c_def)
    define rs where "rs = (if position mod ?csz + sz \<le> ?csz then sz else ?csz - position mod ?csz)"
    define R where "R = unat rs"
    have osz: "unat (position mod ?csz + sz) = o0 + unat sz"
      using unat_add_small [of "position mod ?csz" sz] qo(2) P(2) assms(3) by simp
    have "position mod ?csz \<le> ?csz" using qo(2) P(2) csz by (simp add: word_le_nat_alt)
    then have R: "R = min (unat sz) (?C - o0)"
      using osz csz qo(2) by (auto simp: R_def rs_def word_le_nat_alt unat_diff_le)
    have src: "ucast off + volume ?m + ucast (position mod ?csz) = volume ?m + of_nat (cluster_pos ?m c + o0)"
      by (simp flip: off(2) qo(2))
    have pos: "cluster_pos ?m c + ?C < 2 ^ 32" using dc by (simp add: data_cluster_def)
    have Rb: "R \<le> unat sz" "R < 2 ^ 40" "cluster_pos ?m c + o0 < 2 ^ 40"
      using R P(2) pos u32_bound [of sz] by simp_all
    obtain m1 where m1: "vmemcpy cpu v (volume ?m + of_nat (cluster_pos ?m c + o0)) R s = Inr (s\<lparr>mem := m1\<rparr>)"
      "load_bytes m1 d R = load_bytes ?m (volume ?m + of_nat (cluster_pos ?m c + o0)) R"
      "\<forall>x. \<not> in_range d R x \<longrightarrow> m1 x = ?m x"
      using copy_from_volume [OF buffer_shrink [OF assms(1) Rb(1)] Rb(3,2)] by blast
    let ?s = "s\<lparr>mem := m1\<rparr>" and ?i = "ucast (get_cluster_value m1 i') :: u32"
    have m1L: "\<forall>x. \<not> in_range d (unat sz) x \<longrightarrow> m1 x = ?m x" using m1(3) in_range_prefix [of d R _ "unat sz"] R by auto
    have sv: "same_volume ?m m1"
      using buffer_volume [OF _ m1L] assms(1) by (simp add: buffer_ok_def)
    have c32: "c < 2 ^ 32" using i'(2) u32_bound [of i'] by (simp add: c_def)
    have "unat ?i = next_cluster m1 c" using get_cluster_value_eq [of m1 i'] i'(2) by (simp add: c_def)
    then have ij: "unat ?i = next_cluster ?m c" using same_volume_next [OF sv c32] by simp
    have dcs: "\<forall>x \<in> set (fat_chain ?m (next_cluster ?m c) k'). data_cluster ?m x" using ck k' by simp
    have "buffer_ok cpu ?s (v + of_nat R) (d + of_nat R) (unat sz - unat rs)"
      unfolding R_def [symmetric] by (rule buffer_advance(1) [OF buffer_store [OF assms(1) m1L] Rb(1)])
    moreover have "rs \<le> sz" using R by (simp add: R_def word_le_nat_alt)
    moreover have "?csz = get_cluster_size m1"
      using get_cluster_size_eq [of m1] csz same_volume_fields(2) [OF sv] by (simp add: word_unat_eq_iff)
    moreover have "\<forall>x \<in> set (fat_chain m1 (next_cluster ?m c) k'). data_cluster m1 x"
      using dcs same_volume_cluster(2) [OF sv] same_volume_chain [OF sv next_cluster_bound] by simp
    moreover have "unat sz - R \<le> k' * ?C" using k0(2) R k' P(2) by auto
    ultimately obtain m where m: "read_clusters cpu (volume m1) ?csz sz (v + of_nat R) rs ?i ?s = Some (Inr (sz, ?s\<lparr>mem := m\<rparr>))"
      "load_bytes m (d + of_nat R) (unat sz - R) = take (unat sz - R) (chain_data m1 (next_cluster ?m c) k')"
      "\<forall>x. \<not> in_range (d + of_nat R) (unat sz - R) x \<longrightarrow> m x = m1 x"
      using read_clusters_run [where s = ?s and v = "v + of_nat R" and d = "d + of_nat R" and r = rs and i = ?i
          and j = "next_cluster ?m c" and n = k' and csz = ?csz and sz = sz and cpu = cpu] assms(2,3) ij
        same_volume_fields(2) [OF sv] unfolding R_def [symmetric] by auto
    have "chain_data m1 (next_cluster ?m c) k' = chain_data ?m (next_cluster ?m c) k'"
      by (rule same_volume_data [OF sv next_cluster_bound dcs])
    moreover have "load_bytes m d R = take R (drop o0 (cluster_data ?m c))"
      using load_bytes_apart_store [OF m(3)] m1(2) R assms(3) P(2)
        load_bytes_sub [of o0 R ?C ?m "volume ?m + of_nat (cluster_pos ?m c)"]
      by (simp add: cluster_data_def add.assoc)
    ultimately have "load_bytes m d (unat sz) = take (unat sz) (drop o0 (chain_data ?m c k))"
      using load_bytes_append [of m d R "unat sz - R"] m(2) R P(2) by (auto simp: chain_data_Suc k' min_def)
    moreover have "\<forall>x. \<not> in_range d (unat sz) x \<longrightarrow> m x = ?m x"
    proof (intro allI impI)
      fix x assume x: "\<not> in_range d (unat sz) x"
      then have "\<not> in_range (d + of_nat R) (unat sz - R) x"
        using in_range_split [of d R "unat sz - R" x "unat sz"] R u32_bound [of sz] by fastforce
      then show "m x = ?m x" using m(3) m1L x by metis
    qed
    moreover have "v + ucast rs = v + of_nat R" by (simp add: R_def)
    ultimately show ?thesis
      unfolding ps data using False off(1) m1(1) m(1) same_volume_header [OF sv]
      by (intro exI [of _ m]) (simp add: Let_def src rs_def [symmetric] R_def)
  qed
qed

section \<open>Reading an open file\<close>

text \<open>
  \<open>open_on s p fd f c\<close>: descriptor \<open>fd\<close> of process \<open>p\<close> is entry \<open>f\<close> of the descriptor table, which refers to
  control block \<open>c\<close>.
\<close>

definition open_on :: "'a sys_scheme \<Rightarrow> pref \<Rightarrow> i32 \<Rightarrow> nat \<Rightarrow> nat \<Rightarrow> bool" where
  "open_on s p fd f c \<longleftrightarrow> 0 \<le> sint fd \<and> sint fd < 100 \<and> pr_file (process_table s p) ! nat (sint fd) = Some f \<and>
     fd_fcb (file_desc_table s f) = Some c"

lemma open_on_at: "open_on s p fd f c \<Longrightarrow> file_at s p fd = Inr f" "open_on s p fd f c \<Longrightarrow> fcb_at s f = Inr c"
  by (simp_all add: open_on_def file_at_def fcb_at_def)

text \<open>The chain of \<open>n\<close> clusters of a control block holds the whole file.\<close>

definition file_stored :: "'a sys_scheme \<Rightarrow> nat \<Rightarrow> nat \<Rightarrow> bool" where
  "file_stored s c n \<longleftrightarrow> 0 < cluster_bytes (mem s) \<and>
     (\<forall>j \<in> set (fat_chain (mem s) (unat (fc_cluster_index (fcb_table s c))) n). data_cluster (mem s) j) \<and>
     unat (fc_file_size (fcb_table s c)) \<le> n * cluster_bytes (mem s) \<and>
     unat (fc_file_size (fcb_table s c)) + cluster_bytes (mem s) < 2 ^ 32"

definition file_contents :: "'a sys_scheme \<Rightarrow> nat \<Rightarrow> nat \<Rightarrow> u8 list" where
  "file_contents s c n =
     take (unat (fc_file_size (fcb_table s c))) (chain_data (mem s) (unat (fc_cluster_index (fcb_table s c))) n)"

lemma read_file_run:
  assumes "open_on s p fd f c" "file_stored s c n" "buffer_ok cpu s v d (unat sz)" "0 < sz"
    and "unat (fd_position (file_desc_table s f)) + unat sz \<le> unat (fc_file_size (fcb_table s c))"
  shows "\<exists>m. read_file cpu p fd v sz s = Inr (sz, upd_desc f (\<lambda>r. r\<lparr>fd_position := fd_position r + sz\<rparr>) (s\<lparr>mem := m\<rparr>)) \<and>
    load_bytes m d (unat sz) = take (unat sz) (drop (unat (fd_position (file_desc_table s f))) (file_contents s c n)) \<and>
    (\<forall>x. \<not> in_range d (unat sz) x \<longrightarrow> m x = mem s x)"
proof -
  let ?pos = "fd_position (file_desc_table s f)" and ?fsz = "fc_file_size (fcb_table s c)" and ?C = "cluster_bytes (mem s)"
  have st: "0 < ?C" "unat ?fsz \<le> n * ?C" "unat ?fsz + ?C < 2 ^ 32"
    "\<forall>j \<in> set (fat_chain (mem s) (unat (fc_cluster_index (fcb_table s c))) n). data_cluster (mem s) j"
    using assms(2) by (simp_all add: file_stored_def)
  have sz: "0 < unat sz" using assms(4) by (simp add: word_less_nat_alt)
  obtain m where m: "read_raw_data cpu (fc_cluster_index (fcb_table s c)) v ?pos sz s = Inr (sz, s\<lparr>mem := m\<rparr>)"
    "load_bytes m d (unat sz) = take (unat sz) (drop (unat ?pos) (chain_data (mem s) (unat (fc_cluster_index (fcb_table s c))) n))"
    "\<forall>x. \<not> in_range d (unat sz) x \<longrightarrow> m x = mem s x"
    using read_raw_data_run [OF assms(3) st(1) _ st(4), of ?pos] st(2,3) assms(5) sz by auto
  have "unat (?pos + sz) = unat ?pos + unat sz"
    using assms(5) u32_bound [of ?fsz] by (intro unat_add_small) simp
  then have "\<not> ?fsz < ?pos + sz" using assms(5) by (simp add: word_less_nat_alt)
  then have "read_file cpu p fd v sz s = Inr (sz, upd_desc f (\<lambda>r. r\<lparr>fd_position := fd_position r + sz\<rparr>) (s\<lparr>mem := m\<rparr>))"
    using open_on_at [OF assms(1)] m(1) by (simp add: read_file_def Let_def)
  moreover have "take (unat sz) (drop (unat ?pos) (file_contents s c n)) =
      take (unat sz) (drop (unat ?pos) (chain_data (mem s) (unat (fc_cluster_index (fcb_table s c))) n))"
    using assms(5) by (simp add: file_contents_def drop_take)
  ultimately show ?thesis using m(2,3) by auto
qed

section \<open>A concrete volume\<close>

text \<open>
  A volume of sixteen-byte sectors, one per cluster, with one file \<open>A.B\<close> of 32 bytes in clusters 2 and
  3, placed at \<open>FS_BASE\<close>.
\<close>

definition tiny_header :: "(nat \<times> u8) list" where
  "tiny_header = [(11, 16), (13, 1), (14, 2), (16, 1), (17, 1), (22, 1), (36, 3), (38, 255), (39, 255),
     (48, 0x41), (49, 0x20), (50, 0x20), (51, 0x20), (52, 0x20), (53, 0x20), (54, 0x20), (55, 0x20),
     (56, 0x42), (57, 0x20), (58, 0x20), (59, 0x20), (74, 2), (76, 32), (510, 0x55), (511, 0xaa)]"

definition tiny_volume :: memory where
  "tiny_volume x =
     (let k = unat (x - FS_BASE) in
      case map_of tiny_header k of Some b \<Rightarrow> b | None \<Rightarrow> if 80 \<le> k \<and> k < 112 then of_nat k else 0)"

lemma tiny_volume_base: "volume tiny_volume = FS_BASE"
  by code_simp

lemma tiny_volume_fields: "cluster_bytes tiny_volume = 16" "fat_start tiny_volume = 32" "data_start tiny_volume = 80"
  by code_simp+

lemma tiny_fat: "load16 tiny_volume (FS_BASE + 36) = 3" "load16 tiny_volume (FS_BASE + 38) = 65535"
  by code_simp+

lemma tiny_volume_facts:
  "next_cluster tiny_volume 2 = 3" "next_cluster tiny_volume 3 = 65535"
  "cluster_pos tiny_volume 2 = 80" "cluster_pos tiny_volume 3 = 96"
  by (simp_all add: next_cluster_def cluster_pos_def tiny_volume_base tiny_volume_fields tiny_fat)

lemma tiny_volume_chain: "fat_chain tiny_volume 2 2 = [2, 3]"
  by (simp add: numeral_2_eq_2 tiny_volume_facts [unfolded numeral_2_eq_2])

lemma tiny_at:
  "tiny_volume (FS_BASE + w) =
     (case map_of tiny_header (unat w) of Some b \<Rightarrow> b | None \<Rightarrow> if 80 \<le> unat w \<and> unat w < 112 then of_nat (unat w) else 0)"
  by (simp add: tiny_volume_def Let_def)

lemma tiny_cluster: "k \<in> {80, 96} \<Longrightarrow> load_bytes tiny_volume (FS_BASE + of_nat k) 16 = map of_nat [k..<k + 16]"
proof (rule nth_equalityI)
  fix i assume k: "k \<in> {80, 96}" and "i < length (load_bytes tiny_volume (FS_BASE + of_nat k) 16)"
  then have i: "i < 16" by simp
  have "unat (of_nat (k + i) :: u64) = k + i" using k i by (auto simp: unat_of_nat take_bit_nat_eq_self simp del: of_nat_add)
  then have "tiny_volume (FS_BASE + of_nat (k + i)) = of_nat (k + i)"
    using k i unfolding tiny_at by (auto simp: tiny_header_def simp del: of_nat_add)
  then show "load_bytes tiny_volume (FS_BASE + of_nat k) 16 ! i = map of_nat [k..<k + 16] ! i"
    using i by (simp add: add.assoc)
qed simp

lemma tiny_chain_data: "chain_data tiny_volume 2 2 = map of_nat [80..<112]"
proof -
  have "map of_nat [80..<112] = map of_nat [80..<80 + 16] @ (map of_nat [96..<96 + 16] :: u8 list)"
    using upt_add_eq_append [of 80 96 16] by (simp flip: map_append del: upt_rec_numeral)
  then show ?thesis
    using tiny_cluster [of 80] tiny_cluster [of 96]
    by (simp add: chain_data_def tiny_volume_chain cluster_data_def tiny_volume_base tiny_volume_fields tiny_volume_facts
        del: upt_rec_numeral fat_chain.simps)
qed

definition tiny_system :: sys where
  "tiny_system = \<lparr>mem = tiny_volume, console = [], locks = (\<lambda>_. False), sym_end = 0, sym_allocator = 0,
     process_table = (\<lambda>p. zero_process\<lparr>pr_file := (replicate 100 None)[3 := Some 0]\<rparr>),
     pid_num = 4, current_process = (\<lambda>_. None), head_lists = (\<lambda>_. \<lparr>h_next = None, h_tail = None\<rparr>),
     fcb_page = 0, fcb_table = (\<lambda>_. zero_fcb\<lparr>fc_cluster_index := 2, fc_file_size := 32, fc_count := 1\<rparr>),
     file_desc_page = 0, file_desc_table = (\<lambda>_. zero_file_desc\<lparr>fd_fcb := Some 0, fd_count := 1, fd_position := 10\<rparr>),
     ttbr0 = (\<lambda>_. 0), core_sp = (\<lambda>_. 0), core_regs = (\<lambda>_. []), sym_pstart = 0, sym_pgd_ttbr0 = 0,
     sym_after = (\<lambda>_ _. 0)\<rparr>"

lemma tiny_system_facts:
  "open_on tiny_system (0, 1) 3 0 0" "file_stored tiny_system 0 2" "file_contents tiny_system 0 2 = map of_nat [80..<112]"
  "fd_position (file_desc_table tiny_system 0) = 10" "fc_file_size (fcb_table tiny_system 0) = 32"
  "buffer_ok cpu tiny_system (KERNEL_BASE + 0x1000) (KERNEL_BASE + 0x1000) 20"
proof -
  show "open_on tiny_system (0, 1) 3 0 0" by (simp add: open_on_def tiny_system_def)
  have "data_cluster tiny_volume 2" "data_cluster tiny_volume 3"
    by (simp_all add: data_cluster_def tiny_volume_facts tiny_volume_fields)
  then show "file_stored tiny_system 0 2"
    by (simp add: file_stored_def tiny_system_def tiny_volume_chain tiny_volume_fields del: fat_chain.simps)
  show "file_contents tiny_system 0 2 = map of_nat [80..<112]"
    by (simp add: file_contents_def tiny_system_def tiny_chain_data del: upt_rec_numeral)
  show "fd_position (file_desc_table tiny_system 0) = 10" "fc_file_size (fcb_table tiny_system 0) = 32"
    by (simp_all add: tiny_system_def)
  have "linear cpu tiny_system (KERNEL_BASE + 0x1000) (KERNEL_BASE + 0x1000) 20"
    by (rule linear_kernel) (simp_all add: KERNEL_BASE_def)
  then show "buffer_ok cpu tiny_system (KERNEL_BASE + 0x1000) (KERNEL_BASE + 0x1000) 20"
    by (simp add: buffer_ok_def KERNEL_BASE_def FS_BASE_def P2V_def)
qed

section \<open>Properties\<close>

text \<open>
  C9: \<open>read_file\<close> returns the file's bytes.  For an open file whose cluster chain holds it, a request of
  \<open>sz\<close> bytes within the file puts exactly the \<open>sz\<close> bytes from the current position on into the buffer,
  whether that is kernel memory or a mapped user page, across any number of clusters, returns
  \<open>sz\<close>, advances the position by \<open>sz\<close>, and changes no other byte of memory.
\<close>

theorem read_file_correct:
  assumes "open_on s p fd f c" "file_stored s c n" "buffer_ok cpu s v d (unat sz)" "0 < sz"
    and "unat (fd_position (file_desc_table s f)) + unat sz \<le> unat (fc_file_size (fcb_table s c))"
  shows "\<exists>m. read_file cpu p fd v sz s = Inr (sz, upd_desc f (\<lambda>r. r\<lparr>fd_position := fd_position r + sz\<rparr>) (s\<lparr>mem := m\<rparr>)) \<and>
    load_bytes m d (unat sz) = take (unat sz) (drop (unat (fd_position (file_desc_table s f))) (file_contents s c n)) \<and>
    (\<forall>x. \<not> in_range d (unat sz) x \<longrightarrow> m x = mem s x)"
  using read_file_run [OF assms] .

theorem read_file_correct_witness:
  "\<exists>t. read_file 0 (0, 1) 3 (KERNEL_BASE + 0x1000) 20 tiny_system = Inr (20, t) \<and>
    load_bytes (mem t) (KERNEL_BASE + 0x1000) 20 = map of_nat [90..<110]"
proof -
  have "take 20 (drop 10 (map of_nat [80..<112])) = (map of_nat [90..<110] :: u8 list)" by code_simp
  then show ?thesis
    using read_file_correct [where cpu = 0 and sz = 20 and v = "KERNEL_BASE + 0x1000" and d = "KERNEL_BASE + 0x1000",
        OF tiny_system_facts(1,2)] tiny_system_facts(3-5) tiny_system_facts(6) [of 0]
    by (auto simp: upd_desc_def simp del: upt_rec_numeral)
qed

text \<open>
  C39: The size check of \<open>read_file\<close>.  A request past the end of the file is refused with -1 and changes
  nothing, provided position plus size does not exceed 32 bits.  When the 32-bit sum wraps around
  to a value within the file, the request is not refused: the call goes on to copy \<open>sz\<close> bytes.
\<close>

theorem read_file_bounds:
  fixes sz :: u32
  assumes "open_on s p fd f c"
  defines "want \<equiv> unat (fd_position (file_desc_table s f)) + unat sz"
  shows "(unat (fc_file_size (fcb_table s c)) < want \<and> want < 2 ^ 32 \<longrightarrow> read_file cpu p fd v sz s = Inr (- 1, s)) \<and>
    (2 ^ 32 \<le> want \<and> want - 2 ^ 32 \<le> unat (fc_file_size (fcb_table s c)) \<longrightarrow>
      read_file cpu p fd v sz s =
        rbind (read_raw_data cpu (fc_cluster_index (fcb_table s c)) v (fd_position (file_desc_table s f)) sz s) (\<lambda>(r, s).
        Inr (r, upd_desc f (\<lambda>d. d\<lparr>fd_position := fd_position d + r\<rparr>) s)))"
proof (intro conjI impI)
  let ?pos = "fd_position (file_desc_table s f)"
  note at = open_on_at [OF assms(1)]
  assume "unat (fc_file_size (fcb_table s c)) < want \<and> want < 2 ^ 32"
  then have "fc_file_size (fcb_table s c) < ?pos + sz"
    using unat_add_small [of ?pos sz] by (simp add: want_def word_less_nat_alt)
  then show "read_file cpu p fd v sz s = Inr (- 1, s)" using at by (simp add: read_file_def Let_def)
next
  let ?pos = "fd_position (file_desc_table s f)"
  note at = open_on_at [OF assms(1)]
  assume w: "2 ^ 32 \<le> want \<and> want - 2 ^ 32 \<le> unat (fc_file_size (fcb_table s c))"
  have "unat (?pos + sz) = want mod 2 ^ 32" by (simp add: want_def unat_word_ariths take_bit_nat_def)
  also have "\<dots> = want - 2 ^ 32"
    using w u32_bound [of ?pos] u32_bound [of sz] by (simp add: want_def mod_if)
  finally have "\<not> fc_file_size (fcb_table s c) < ?pos + sz" using w by (simp add: word_less_nat_alt)
  then show "read_file cpu p fd v sz s =
      rbind (read_raw_data cpu (fc_cluster_index (fcb_table s c)) v ?pos sz s) (\<lambda>(r, s).
      Inr (r, upd_desc f (\<lambda>d. d\<lparr>fd_position := fd_position d + r\<rparr>) s))"
    using at by (simp add: read_file_def Let_def)
qed

theorem read_file_bounds_witness: "read_file 0 (0, 1) 3 0x5000 23 tiny_system = Inr (- 1, tiny_system)"
  using read_file_bounds [OF tiny_system_facts(1), of 23 0 "0x5000"] by (simp add: tiny_system_def)

text \<open>
  Reading nothing at the end of a file that fills its clusters stops the kernel.  With the position at
  the end of the last cluster and the end mark in the allocation table, \<open>read_file\<close> with size 0 passes
  the size check and fails the assertion of line 156.
\<close>

theorem read_at_cluster_end_asserts:
  assumes "open_on s p fd f c" "file_stored s c n"
    and "unat (fd_position (file_desc_table s f)) = n * cluster_bytes (mem s)"
    and "unat (fc_file_size (fcb_table s c)) = n * cluster_bytes (mem s)" "0 < n"
    and "0xfff7 \<le> next_cluster (mem s) (last (fat_chain (mem s) (unat (fc_cluster_index (fcb_table s c))) n))"
  shows "read_file cpu p fd v 0 s = Inl (Assert_failed ''src/file.c'' 156)"
proof -
  have skip: "skip_clusters n m i = Inl (Assert_failed ''src/file.c'' 156)"
    if "0 < n" "\<forall>j \<in> set (fat_chain m (unat i) n). data_cluster m j" "0xfff7 \<le> next_cluster m (last (fat_chain m (unat i) n))"
    for n m i
    using that
  proof (induction n arbitrary: i)
    case (Suc n)
    define i' where "i' = (ucast (get_cluster_value m i) :: u32)"
    have i: "unat i' = next_cluster m (unat i)" using get_cluster_value_eq [of m i] by (simp add: i'_def)
    have step: "skip_clusters (Suc n) m i = kassert (i' < 0xfff7) ''src/file.c'' 156 (skip_clusters n m i')"
      by (simp add: i'_def Let_def)
    show ?case
    proof (cases "n = 0")
      case True
      then show ?thesis using Suc.prems(3) i unfolding step by (simp add: word_less_nat_alt kassert_def)
    next
      case False
      then obtain k where k: "n = Suc k" by (cases n) simp_all
      have "fat_chain m (unat i) (Suc n) = unat i # fat_chain m (unat i') n" using i by simp
      moreover have "fat_chain m (unat i') n \<noteq> []" using k by simp
      ultimately have "\<forall>j \<in> set (fat_chain m (unat i') n). data_cluster m j"
        "0xfff7 \<le> next_cluster m (last (fat_chain m (unat i') n))" using Suc.prems(2,3) by auto
      moreover have "i' < 0xfff7"
        using calculation(1) k by (simp add: word_less_nat_alt data_cluster_def)
      ultimately show ?thesis using Suc.IH [of i'] False unfolding step by simp
    qed
  qed simp
  have "unat (get_cluster_size (mem s)) = cluster_bytes (mem s)" "0 < cluster_bytes (mem s)"
    using get_cluster_size_eq assms(2) by (auto simp: file_stored_def)
  then have "get_cluster_size (mem s) \<noteq> 0" "unat (fd_position (file_desc_table s f) div get_cluster_size (mem s)) = n"
    using assms(3) by (auto simp: unat_div)
  then show ?thesis
    using open_on_at [OF assms(1)] assms(3,4,6) skip [OF assms(5)] assms(2)
    by (simp add: read_file_def read_raw_data_def Let_def word_less_nat_alt file_stored_def)
qed

theorem read_at_cluster_end_asserts_witness:
  "read_file 0 (0, 1) 3 0x5000 0 (upd_desc 0 (\<lambda>d. d\<lparr>fd_position := 32\<rparr>) tiny_system) = Inl (Assert_failed ''src/file.c'' 156)"
proof -
  let ?s = "upd_desc 0 (\<lambda>d. d\<lparr>fd_position := 32\<rparr>) tiny_system"
  have "open_on ?s (0, 1) 3 0 0" "file_stored ?s 0 2"
    using tiny_system_facts(1,2) by (simp_all add: open_on_def file_stored_def upd_desc_def)
  then show ?thesis
    by (rule read_at_cluster_end_asserts)
       (simp_all add: upd_desc_def tiny_system_def tiny_volume_fields tiny_volume_facts tiny_volume_chain del: fat_chain.simps)
qed

end
