(* ===== verification/Open_Files.thy ===== *)
theory Open_Files
  imports File_Read
begin

text \<open>
  The tables of open files of src/src/file.c: the count of every descriptor is the number of process
  handles that refer to it, the count of every control block the number of handles that reach it,
  descriptors without handles are free, and a control block in use describes its directory entry.
  \<open>open_file\<close> and \<open>close_file\<close> keep this.
\<close>

section \<open>Handles\<close>

type_synonym handle = "pref \<times> nat"

definition handles :: "handle set" where
  "handles = {(p, i). fst p < MAXCORES \<and> snd p < NUM_PROC \<and> i < 100}"

definition handle_at :: "'a sys_scheme \<Rightarrow> handle \<Rightarrow> nat option" where
  "handle_at s h = pr_file (process_table s (fst h)) ! snd h"

definition refs :: "'a sys_scheme \<Rightarrow> nat \<Rightarrow> nat" where
  "refs s f = card {h \<in> handles. handle_at s h = Some f}"

definition reaches :: "'a sys_scheme \<Rightarrow> nat \<Rightarrow> handle \<Rightarrow> bool" where
  "reaches s c h \<longleftrightarrow> (\<exists>f. handle_at s h = Some f \<and> fd_fcb (file_desc_table s f) = Some c)"

definition fcb_refs :: "'a sys_scheme \<Rightarrow> nat \<Rightarrow> nat" where
  "fcb_refs s c = card {h \<in> handles. reaches s c h}"

text \<open>A control block agrees with the directory entry whose index it has.\<close>

definition describes :: "memory \<Rightarrow> nat \<Rightarrow> fcb \<Rightarrow> bool" where
  "describes m c r \<longleftrightarrow> fc_dir_index r = of_nat c \<and> fc_file_size r = de_file_size m (dir_entry m c) \<and>
     fc_cluster_index r = ucast (de_cluster_index m (dir_entry m c)) \<and>
     fc_name r = de_name m (dir_entry m c) \<and> fc_ext r = de_ext m (dir_entry m c)"

definition files_inv :: "'a sys_scheme \<Rightarrow> bool" where
  "files_inv s \<longleftrightarrow>
     (\<forall>p. fst p < MAXCORES \<and> snd p < NUM_PROC \<longrightarrow> length (pr_file (process_table s p)) = 100) \<and>
     (\<forall>h \<in> handles. \<forall>f. handle_at s h = Some f \<longrightarrow> fd_fcb (file_desc_table s f) \<noteq> None) \<and>
     (\<forall>f c. fd_fcb (file_desc_table s f) = Some c \<longrightarrow>
        fd_count (file_desc_table s f) = of_nat (refs s f) \<and> 0 < refs s f \<and> c < FCB_COUNT) \<and>
     (\<forall>c. fc_count (fcb_table s c) = of_nat (fcb_refs s c)) \<and>
     (\<forall>c. 0 < fcb_refs s c \<longrightarrow> describes (mem s) c (fcb_table s c))"

lemma files_invD:
  assumes "files_inv s"
  shows "fst p < MAXCORES \<Longrightarrow> snd p < NUM_PROC \<Longrightarrow> length (pr_file (process_table s p)) = 100"
    "h \<in> handles \<Longrightarrow> handle_at s h = Some f \<Longrightarrow> fd_fcb (file_desc_table s f) \<noteq> None"
    "fd_fcb (file_desc_table s f) = Some c \<Longrightarrow> fd_count (file_desc_table s f) = of_nat (refs s f)"
    "fd_fcb (file_desc_table s f) = Some c \<Longrightarrow> 0 < refs s f"
    "fc_count (fcb_table s c) = of_nat (fcb_refs s c)"
    "0 < fcb_refs s c \<Longrightarrow> describes (mem s) c (fcb_table s c)"
    "fd_fcb (file_desc_table s f) = Some c \<Longrightarrow> c < FCB_COUNT"
  using assms unfolding files_inv_def by blast+

lemma finite_handles [simp]: "finite handles" and card_handles: "card handles = 12000"
proof -
  have h: "handles = ({..<MAXCORES} \<times> {..<NUM_PROC}) \<times> {..<100}"
    by (auto simp: handles_def)
  show "finite handles" unfolding h by simp
  show "card handles = 12000" unfolding h by (simp add: card_cartesian_product MAXCORES_def NUM_PROC_def)
qed

lemma refs_bound: "refs s f \<le> 12000" "fcb_refs s c \<le> 12000"
  unfolding refs_def fcb_refs_def card_handles [symmetric] by (rule card_mono; auto)+

lemma of_nat_count:
  assumes "n \<le> 12000"
  shows "(of_nat n :: i32) = 0 \<longleftrightarrow> n = 0" "0 < sint (of_nat n :: i32) \<longleftrightarrow> 0 < n"
proof -
  have u: "unat (of_nat n :: i32) = n" using assms by (simp add: unat_of_nat take_bit_nat_eq_self)
  then show "(of_nat n :: i32) = 0 \<longleftrightarrow> n = 0" by (metis unat_0 unat_eq_zero)
  have "sint (of_nat n :: i32) = int n"
    using assms by (simp add: signed_of_nat signed_take_bit_int_eq_self)
  then show "0 < sint (of_nat n :: i32) \<longleftrightarrow> 0 < n" by simp
qed

text \<open>Counting with one handle set apart.\<close>

lemma count_split:
  assumes "h0 \<in> handles"
  shows "card {h \<in> handles. P h} = card {h \<in> handles. h \<noteq> h0 \<and> P h} + (if P h0 then 1 else 0)"
proof (cases "P h0")
  case True
  then have "{h \<in> handles. P h} = insert h0 {h \<in> handles. h \<noteq> h0 \<and> P h}" using assms by auto
  then show ?thesis using True by simp
next
  case False
  then have "{h \<in> handles. P h} = {h \<in> handles. h \<noteq> h0 \<and> P h}" by auto
  then show ?thesis using False by simp
qed

lemma no_refs: "refs s f = 0 \<longleftrightarrow> (\<forall>h \<in> handles. handle_at s h \<noteq> Some f)"
  by (auto simp: refs_def)

section \<open>Changing one handle\<close>

text \<open>
  State \<open>t\<close> differs from \<open>s\<close> in handle \<open>h0\<close> and in the entries it refers to before or after.
\<close>

lemma refs_update:
  assumes "h0 \<in> handles" "\<And>h. h \<noteq> h0 \<Longrightarrow> h \<in> handles \<Longrightarrow> handle_at t h = handle_at s h"
  shows "refs t f + (if handle_at s h0 = Some f then 1 else 0) = refs s f + (if handle_at t h0 = Some f then 1 else 0)"
proof -
  have "{h \<in> handles. h \<noteq> h0 \<and> handle_at t h = Some f} = {h \<in> handles. h \<noteq> h0 \<and> handle_at s h = Some f}"
    using assms(2) by auto
  then show ?thesis
    using count_split [OF assms(1), of "\<lambda>h. handle_at t h = Some f"] count_split [OF assms(1), of "\<lambda>h. handle_at s h = Some f"]
    unfolding refs_def by simp
qed

lemma fcb_refs_update:
  assumes "h0 \<in> handles" "\<And>h. h \<noteq> h0 \<Longrightarrow> h \<in> handles \<Longrightarrow> reaches t c h = reaches s c h"
  shows "fcb_refs t c + (if reaches s c h0 then 1 else 0) = fcb_refs s c + (if reaches t c h0 then 1 else 0)"
proof -
  have "{h \<in> handles. h \<noteq> h0 \<and> reaches t c h} = {h \<in> handles. h \<noteq> h0 \<and> reaches s c h}"
    using assms(2) by auto
  then show ?thesis
    using count_split [OF assms(1), of "reaches t c"] count_split [OF assms(1), of "reaches s c"]
    unfolding fcb_refs_def by simp
qed

section \<open>Opening\<close>

lemma find_upt_Some: "find P [0..<n] = Some i \<Longrightarrow> i < n \<and> P i"
  by (auto simp: find_Some_iff)

lemma search_file_bound:
  assumes "search_file m path = Inr i" "i \<noteq> 0xffffffff"
  shows "unat i < 65536" "\<exists>name ext. split_path path (replicate 8 0x20) (replicate 3 0x20) = Inr (Some (name, ext)) \<and>
    de_name m (dir_entry m (unat i)) = name \<and> de_ext m (dir_entry m (unat i)) = ext \<and>
    m (dir_entry m (unat i)) \<notin> {ENTRY_EMPTY, ENTRY_DELETED} \<and> unat i < unat (get_root_directory_count m)"
proof -
  obtain name ext j where sp: "split_path path (replicate 8 0x20) (replicate 3 0x20) = Inr (Some (name, ext))"
    and f: "find (\<lambda>i. \<not> (m (dir_entry m i) = ENTRY_EMPTY \<or> m (dir_entry m i) = ENTRY_DELETED) \<and>
        de_attributes m (dir_entry m i) \<noteq> 0xf \<and> is_file_name_equal m (dir_entry m i) name ext)
        [0..<unat (get_root_directory_count m)] = Some j" and i: "i = of_nat j"
    using assms by (auto simp: search_file_def rbind_elims split: option.splits)
  have "unat (get_root_directory_count m) < 65536"
    using u16_bound by (simp add: get_root_directory_count_def)
  then have j: "unat i = j" "j < 65536" "j < unat (get_root_directory_count m)"
    using find_upt_Some [OF f] i by (simp_all add: unat_of_nat take_bit_nat_eq_self)
  then show "unat i < 65536" by simp
  show "\<exists>name ext. split_path path (replicate 8 0x20) (replicate 3 0x20) = Inr (Some (name, ext)) \<and>
    de_name m (dir_entry m (unat i)) = name \<and> de_ext m (dir_entry m (unat i)) = ext \<and>
    m (dir_entry m (unat i)) \<notin> {ENTRY_EMPTY, ENTRY_DELETED} \<and> unat i < unat (get_root_directory_count m)"
    using sp j find_upt_Some [OF f] by (auto simp: is_file_name_equal_def)
qed

lemma FCB_COUNT_eq: "FCB_COUNT = 65536" and FILE_DESC_COUNT_eq: "FILE_DESC_COUNT = 131072"
  by (simp_all add: FCB_COUNT_def FILE_DESC_COUNT_def PAGE_SIZE_def)

text \<open>What a successful \<open>open_file\<close> leaves: the new handle, descriptor and control block.\<close>

definition opened :: "'a sys_scheme \<Rightarrow> handle \<Rightarrow> nat \<Rightarrow> nat \<Rightarrow> 'a sys_scheme" where
  "opened s h f c =
     (let s = upd_fcb c (\<lambda>r. (if fc_count r = 0
                then r\<lparr>fc_dir_index := of_nat c, fc_file_size := de_file_size (mem s) (dir_entry (mem s) c),
                  fc_cluster_index := ucast (de_cluster_index (mem s) (dir_entry (mem s) c)),
                  fc_name := de_name (mem s) (dir_entry (mem s) c), fc_ext := de_ext (mem s) (dir_entry (mem s) c)\<rparr>
                else r)\<lparr>fc_count := fc_count r + 1\<rparr>) s;
          s = upd_desc f (\<lambda>_. zero_file_desc\<lparr>fd_fcb := Some c, fd_count := 1\<rparr>) s
      in set_file (fst h) (snd h) (Some f) s)"

lemma open_file_run:
  "open_file p path s =
     (case free_slot (process_table s p) of
       None \<Rightarrow> Inr (- 1, s)
     | Some fd \<Rightarrow>
         (case free_desc (file_desc_table s) of
           None \<Rightarrow> Inr (- 1, s)
         | Some f \<Rightarrow>
             rbind (search_file (mem s) path) (\<lambda>i.
             if i = 0xffffffff then Inr (- 1, s) else Inr (of_nat fd, opened s (p, fd) f (unat i)))))"
proof -
  have "(if i = 0xffffffff then Inr (- 1, s)
      else rbind (get_fcb i s) (\<lambda>(c, s). let s = upd_desc f (\<lambda>_. zero_file_desc\<lparr>fd_fcb := Some c, fd_count := 1\<rparr>) s;
        s = set_file p fd (Some f) s in Inr (of_nat fd :: i32, s))) =
      (if i = 0xffffffff then Inr (- 1, s) else Inr (of_nat fd, opened s (p, fd) f (unat i)))"
    if "search_file (mem s) path = Inr i" for i f fd
    using search_file_bound(1) [OF that]
    by (cases "i = 0xffffffff") (simp_all add: get_fcb_def opened_def FCB_COUNT_eq upd_fcb_def Let_def)
  then have key: "rbind (search_file (mem s) path) (\<lambda>i. if i = 0xffffffff then Inr (- 1, s)
      else rbind (get_fcb i s) (\<lambda>(c, s). let s = upd_desc f (\<lambda>_. zero_file_desc\<lparr>fd_fcb := Some c, fd_count := 1\<rparr>) s;
        s = set_file p fd (Some f) s in Inr (of_nat fd :: i32, s))) =
      rbind (search_file (mem s) path) (\<lambda>i.
      if i = 0xffffffff then Inr (- 1, s) else Inr (of_nat fd, opened s (p, fd) f (unat i)))" for f fd
    by (rule rbind_cong [OF refl])
  show ?thesis unfolding open_file_def key ..
qed

lemma handle_opened:
  assumes "files_inv s" "(p, fd) \<in> handles" "h \<in> handles"
  shows "handle_at (opened s (p, fd) f c) h = (if h = (p, fd) then Some f else handle_at s h)"
proof -
  have "length (pr_file (process_table s p)) = 100" "fd < 100"
    using files_invD(1) [OF assms(1)] assms(2) by (auto simp: handles_def)
  then show ?thesis
    by (cases h) (auto simp: handle_at_def opened_def set_file_def upd_process_def upd_desc_def upd_fcb_def Let_def nth_list_update)
qed

lemma opened_sel [simp]:
  "file_desc_table (opened s h f c) = (file_desc_table s)(f := zero_file_desc\<lparr>fd_fcb := Some c, fd_count := 1\<rparr>)"
  "mem (opened s h f c) = mem s" "locks (opened s h f c) = locks s"
  by (simp_all add: opened_def set_file_def upd_process_def upd_desc_def upd_fcb_def Let_def)

lemma opened_fcb:
  "fc_count (fcb_table (opened s h f c) c') = (if c' = c then fc_count (fcb_table s c) + 1 else fc_count (fcb_table s c'))"
  "c' \<noteq> c \<Longrightarrow> fcb_table (opened s h f c) c' = fcb_table s c'"
  "fc_count (fcb_table s c) = 0 \<or> describes (mem s) c (fcb_table s c) \<Longrightarrow> describes (mem s) c (fcb_table (opened s h f c) c)"
  by (auto simp: opened_def set_file_def upd_process_def upd_desc_def upd_fcb_def Let_def describes_def)

lemma opened_files:
  "pr_file (process_table (opened s (p, fd) f c) q) =
     (if q = p then (pr_file (process_table s p))[fd := Some f] else pr_file (process_table s q))"
  by (simp add: opened_def set_file_def upd_process_def upd_desc_def upd_fcb_def Let_def)

lemma opened_inv:
  assumes inv: "files_inv s" and h0: "(p, fd) \<in> handles" and free: "handle_at s (p, fd) = None"
    and nof: "fd_fcb (file_desc_table s f) = None" and c: "c < FCB_COUNT"
  shows "files_inv (opened s (p, fd) f c)"
proof -
  let ?t = "opened s (p, fd) f c"
  have f0: "handle_at s h \<noteq> Some f" if "h \<in> handles" for h using files_invD(2) [OF inv that, of f] nof by auto
  have hat: "handle_at ?t h = (if h = (p, fd) then Some f else handle_at s h)" if "h \<in> handles" for h
    by (rule handle_opened [OF inv h0 that])
  have refs: "refs ?t g = (if g = f then 1 else refs s g)" for g
  proof -
    have "refs s f = 0" using f0 by (auto simp: no_refs)
    then show ?thesis using refs_update [OF h0, of ?t s g] hat free h0 by (auto split: if_splits)
  qed
  have rch: "reaches ?t c' h = (if h = (p, fd) then c' = c else reaches s c' h)" if "h \<in> handles" for h c'
    using hat [OF that] f0 [OF that] by (auto simp: reaches_def)
  have frefs: "fcb_refs ?t c' = fcb_refs s c' + (if c' = c then 1 else 0)" for c'
    using fcb_refs_update [OF h0, of ?t c' s] rch h0 free by (simp add: reaches_def)
  show ?thesis
    unfolding files_inv_def
  proof (intro conjI allI ballI impI)
    fix q assume "fst q < MAXCORES \<and> snd q < NUM_PROC"
    then show "length (pr_file (process_table ?t q)) = 100"
      using files_invD(1) [OF inv, of q] by (auto simp: opened_files)
  next
    fix h g assume "h \<in> handles" "handle_at ?t h = Some g"
    then show "fd_fcb (file_desc_table ?t g) \<noteq> None"
      using hat files_invD(2) [OF inv] by (auto split: if_splits)
  next
    fix g c' assume g: "fd_fcb (file_desc_table ?t g) = Some c'"
    show "fd_count (file_desc_table ?t g) = of_nat (refs ?t g)" "0 < refs ?t g" "c' < FCB_COUNT"
      using g c files_invD(3,4,7) [OF inv, of g c'] by (simp_all add: refs split: if_splits)
  next
    fix c'
    show "fc_count (fcb_table ?t c') = of_nat (fcb_refs ?t c')"
      using files_invD(5) [OF inv] by (simp add: opened_fcb frefs)
  next
    fix c' assume pos: "0 < fcb_refs ?t c'"
    show "describes (mem ?t) c' (fcb_table ?t c')"
    proof (cases "c' = c")
      case True
      have "fc_count (fcb_table s c) = 0 \<or> describes (mem s) c (fcb_table s c)"
        using files_invD(5,6) [OF inv, of c] of_nat_count(1) [OF refs_bound(2), of s c] by auto
      then show ?thesis using True opened_fcb(3) by simp
    next
      case False
      then show ?thesis using pos frefs files_invD(6) [OF inv] by (simp add: opened_fcb(2))
    qed
  qed
qed

text \<open>A successful \<open>open_file\<close>.\<close>

lemma open_success:
  assumes "files_inv s" "fst p < MAXCORES" "snd p < NUM_PROC" "search_file (mem s) path = Inr i" "i \<noteq> 0xffffffff"
    and fd: "free_slot (process_table s p) = Some fd" and f: "free_desc (file_desc_table s) = Some f"
  defines "t \<equiv> opened s (p, fd) f (unat i)"
  shows "open_file p path s = Inr (of_nat fd, t)" "files_inv t" "open_on t p (of_nat fd) f (unat i)"
    "describes (mem t) (unat i) (fcb_table t (unat i))" "(p, fd) \<in> handles" "handle_at s (p, fd) = None"
    "nat (sint (of_nat fd :: i32)) = fd"
proof -
  have "fd < 100 \<and> pr_file (process_table s p) ! fd = None"
    using fd unfolding free_slot_def by (rule find_upt_Some)
  then have fdP: "fd < 100" "pr_file (process_table s p) ! fd = None" by simp_all
  then show h: "(p, fd) \<in> handles" "handle_at s (p, fd) = None"
    using assms(2,3) by (simp_all add: handles_def handle_at_def)
  have f0: "fd_fcb (file_desc_table s f) = None"
    using f find_upt_Some [of "\<lambda>i. fd_fcb (file_desc_table s i) = None" FILE_DESC_COUNT f] by (simp add: free_desc_def)
  show "open_file p path s = Inr (of_nat fd, t)"
    unfolding open_file_run using fd f assms(4,5) by (simp add: t_def)
  show inv: "files_inv t"
    unfolding t_def by (rule opened_inv [OF assms(1) h f0]) (use search_file_bound(1) [OF assms(4,5)] in \<open>simp add: FCB_COUNT_eq\<close>)
  have at: "handle_at t (p, fd) = Some f" using handle_opened [OF assms(1) h(1) h(1)] by (simp add: t_def)
  have sf: "sint (of_nat fd :: i32) = int fd"
    using fdP(1) by (simp add: signed_of_nat signed_take_bit_int_eq_self)
  then show "nat (sint (of_nat fd :: i32)) = fd" by simp
  show "open_on t p (of_nat fd) f (unat i)"
    using fdP(1) at sf by (simp add: open_on_def handle_at_def t_def)
  show "describes (mem t) (unat i) (fcb_table t (unat i))"
  proof (rule files_invD(6) [OF inv])
    have "reaches t (unat i) (p, fd)" using at by (simp add: reaches_def t_def)
    then have "(p, fd) \<in> {h \<in> handles. reaches t (unat i) h}" using h(1) by simp
    then have "{h \<in> handles. reaches t (unat i) h} \<noteq> {}" by (rule ex_in_conv [THEN iffD1, OF exI])
    then show "0 < fcb_refs t (unat i)" by (simp add: fcb_refs_def card_gt_0_iff)
  qed
qed

text \<open>The invariant depends on memory only through the volume, which lies above the managed memory.\<close>

lemma fcb_refs_bound:
  assumes "files_inv s" "0 < fcb_refs s c"
  shows "c < FCB_COUNT"
proof -
  have "{h \<in> handles. reaches s c h} \<noteq> {}" using assms(2) unfolding fcb_refs_def by (metis card.empty less_irrefl)
  then show ?thesis using files_invD(7) [OF assms(1)] by (auto simp: reaches_def)
qed

lemma same_volume_directory:
  assumes "same_volume m m'"
  shows "dir_entry m' c = dir_entry m c" "\<exists>k < 2 ^ 33. dir_entry m c = volume m + of_nat (k + 32 * c)"
proof -
  note v = same_volume_header [OF assms]
  have 2: "load16 m' (volume m + of_nat k) = load16 m (volume m + of_nat k)" if "k < 2 ^ 40" for k
    using load_volume [OF assms that, of 2] by (simp add: load16_def)
  have 1: "m' (volume m + of_nat k) = m (volume m + of_nat k)" if "k < 2 ^ 40" for k
    using load_volume [OF assms that, of 1] by simp
  show "dir_entry m' c = dir_entry m c"
    using 2 [of 14] 1 [of 16] 2 [of 22] 2 [of 11]
    by (simp add: dir_entry_def get_root_directory_def v reserved_sector_count_def fat_count_def sectors_per_fat_def
        bytes_per_sector_def)
  define o0 :: u32 where "o0 = ((ucast (reserved_sector_count m (volume m)) :: u32) + ucast (fat_count m (volume m)) *
    ucast (sectors_per_fat m (volume m))) * ucast (bytes_per_sector m (volume m))"
  have "unat o0 < 2 ^ 33" using u32_bound [of o0] by simp
  moreover have "dir_entry m c = volume m + of_nat (unat o0 + 32 * c)"
    by (simp add: dir_entry_def get_root_directory_def o0_def Let_def)
  ultimately show "\<exists>k < 2 ^ 33. dir_entry m c = volume m + of_nat (k + 32 * c)" by blast
qed

lemma entry_volume:
  assumes "same_volume m m'" "c < 65536" "j < 32" "n < 32"
  shows "load_bytes m' (dir_entry m c + of_nat j) n = load_bytes m (dir_entry m c + of_nat j) n"
proof -
  obtain k where k: "k < 2 ^ 33" "dir_entry m c = volume m + of_nat (k + 32 * c)"
    using same_volume_directory(2) [OF assms(1)] by blast
  have "dir_entry m c + of_nat j = volume m + of_nat (k + 32 * c + j)" by (simp add: k(2))
  moreover have "load_bytes m' (volume m + of_nat (k + 32 * c + j)) n = load_bytes m (volume m + of_nat (k + 32 * c + j)) n"
    by (rule load_volume [OF assms(1)]) (use k(1) assms(2-4) in simp_all)
  ultimately show ?thesis by metis
qed

lemma search_file_volume:
  assumes "same_volume m m'"
  shows "search_file m' path = search_file m path"
proof -
  note v = same_volume_header [OF assms] and e = same_volume_directory(1) [OF assms]
  have "root_entry_count m' (volume m) = root_entry_count m (volume m)"
    using load_volume [OF assms, of 17 2] by (simp add: root_entry_count_def load16_def)
  then have n: "get_root_directory_count m' = get_root_directory_count m" by (simp add: get_root_directory_count_def v)
  have b: "unat (get_root_directory_count m) < 65536" using u16_bound by (simp add: get_root_directory_count_def)
  have eq: "m' (dir_entry m i) = m (dir_entry m i)" "de_attributes m' (dir_entry m i) = de_attributes m (dir_entry m i)"
      "is_file_name_equal m' (dir_entry m i) = is_file_name_equal m (dir_entry m i)" if "i < unat (get_root_directory_count m)" for i
  proof -
    have i: "i < 65536" using that b by simp
    show "m' (dir_entry m i) = m (dir_entry m i)" "de_attributes m' (dir_entry m i) = de_attributes m (dir_entry m i)"
      "is_file_name_equal m' (dir_entry m i) = is_file_name_equal m (dir_entry m i)"
      using entry_volume [OF assms i, of 0 1] entry_volume [OF assms i, of 11 1] entry_volume [OF assms i, of 0 8]
        entry_volume [OF assms i, of 8 3]
      by (simp_all add: de_attributes_def is_file_name_equal_def de_name_def de_ext_def fun_eq_iff)
  qed
  have "find (\<lambda>i. \<not> (m' (dir_entry m i) = ENTRY_EMPTY \<or> m' (dir_entry m i) = ENTRY_DELETED) \<and>
        de_attributes m' (dir_entry m i) \<noteq> 0xf \<and> is_file_name_equal m' (dir_entry m i) name ext) [0..<unat (get_root_directory_count m)] =
      find (\<lambda>i. \<not> (m (dir_entry m i) = ENTRY_EMPTY \<or> m (dir_entry m i) = ENTRY_DELETED) \<and>
        de_attributes m (dir_entry m i) \<noteq> 0xf \<and> is_file_name_equal m (dir_entry m i) name ext) [0..<unat (get_root_directory_count m)]"
    for name ext
    by (rule find_cong) (simp_all add: eq)
  then show ?thesis unfolding search_file_def e n by (simp only:)
qed

lemma describes_volume:
  assumes "same_volume m m'" "c < FCB_COUNT"
  shows "describes m' c r \<longleftrightarrow> describes m c r"
proof -
  have c: "c < 65536" using assms(2) by (simp add: FCB_COUNT_eq)
  note ld = entry_volume [OF assms(1) c]
  show ?thesis
    using ld [of 0 8] ld [of 8 3] ld [of 26 2] ld [of 28 4]
    by (simp add: describes_def same_volume_directory(1) [OF assms(1)] de_name_def de_ext_def de_cluster_index_def
        de_file_size_def load16_def load32_def)
qed

lemma files_inv_cong:
  assumes "files_inv s" "same_volume (mem s) (mem t)" "fcb_table t = fcb_table s" "file_desc_table t = file_desc_table s"
    and "\<And>p. pr_file (process_table t p) = pr_file (process_table s p)"
  shows "files_inv t"
proof -
  have h: "handle_at t h = handle_at s h" for h by (simp add: handle_at_def assms(5))
  then have r: "refs t f = refs s f" "fcb_refs t c = fcb_refs s c" for f c
    by (simp_all add: refs_def fcb_refs_def reaches_def assms(4))
  show ?thesis
    using assms(1) describes_volume [OF assms(2) fcb_refs_bound [OF assms(1)]]
    unfolding files_inv_def h r assms(3-5) by blast
qed

section \<open>Closing\<close>

text \<open>
  Dropping one handle, as \<open>close_file\<close> does for one and \<open>wait\<close> for all of a process: both counts go down
  and a descriptor without handles is freed.
\<close>

definition dropped :: "'a sys_scheme \<Rightarrow> handle \<Rightarrow> nat \<Rightarrow> nat \<Rightarrow> 'a sys_scheme" where
  "dropped s h f c =
     (let s = upd_fcb c (\<lambda>r. r\<lparr>fc_count := fc_count r - 1\<rparr>) s;
          s = upd_desc f (\<lambda>d. d\<lparr>fd_count := fd_count d - 1\<rparr>) s;
          s = (if fd_count (file_desc_table s f) = 0 then upd_desc f (\<lambda>d. d\<lparr>fd_fcb := None\<rparr>) s else s)
      in set_file (fst h) (snd h) None s)"

lemma dropped_sel [simp]:
  "mem (dropped s h f c) = mem s"
  "fd_fcb (file_desc_table (dropped s h f c) g) =
     (if g = f \<and> fd_count (file_desc_table s f) = 1 then None else fd_fcb (file_desc_table s g))"
  "fd_count (file_desc_table (dropped s h f c) g) =
     (if g = f then fd_count (file_desc_table s f) - 1 else fd_count (file_desc_table s g))"
  "fd_position (file_desc_table (dropped s h f c) g) = fd_position (file_desc_table s g)"
  "fc_count (fcb_table (dropped s h f c) c') = (if c' = c then fc_count (fcb_table s c) - 1 else fc_count (fcb_table s c'))"
  "describes m c' (fcb_table (dropped s h f c) c') \<longleftrightarrow> describes m c' (fcb_table s c')"
  "pr_file (process_table (dropped s h f c) q) =
     (if q = fst h then (pr_file (process_table s q))[snd h := None] else pr_file (process_table s q))"
  by (auto simp: dropped_def set_file_def upd_process_def upd_desc_def upd_fcb_def Let_def describes_def)

lemma handle_dropped:
  assumes "files_inv s" "h0 \<in> handles" "h \<in> handles"
  shows "handle_at (dropped s h0 f c) h = (if h = h0 then None else handle_at s h)"
proof -
  have "length (pr_file (process_table s (fst h0))) = 100" "snd h0 < 100"
    using files_invD(1) [OF assms(1)] assms(2) by (auto simp: handles_def)
  then show ?thesis by (cases h; cases h0) (auto simp: handle_at_def nth_list_update)
qed

lemma dropped_inv:
  assumes inv: "files_inv s" and h0: "h0 \<in> handles" and at: "handle_at s h0 = Some f"
    and c: "fd_fcb (file_desc_table s f) = Some c"
  shows "files_inv (dropped s h0 f c)" "0 < fcb_refs s c"
    "fd_fcb (file_desc_table (dropped s h0 f c) f) = (if refs s f = 1 then None else Some c)"
proof -
  let ?t = "dropped s h0 f c"
  have hat: "handle_at ?t h = (if h = h0 then None else handle_at s h)" if "h \<in> handles" for h
    by (rule handle_dropped [OF inv h0 that])
  have cnt: "fd_count (file_desc_table s f) = of_nat (refs s f)" "0 < refs s f"
    using files_invD(3,4) [OF inv c] by simp_all
  have "(of_nat (refs s f) :: i32) = of_nat 1 \<longleftrightarrow> refs s f = 1"
    using refs_bound(1) [of s f] of_nat_count(1) [of "refs s f - 1"] cnt(2) by (auto simp: of_nat_diff)
  then have one: "fd_count (file_desc_table s f) = 1 \<longleftrightarrow> refs s f = 1" using cnt(1) by simp
  then show fr: "fd_fcb (file_desc_table ?t f) = (if refs s f = 1 then None else Some c)" using c by simp
  have refs: "refs ?t g + (if g = f then 1 else 0) = refs s g" for g
    using refs_update [OF h0, of ?t s g] hat h0 at by (auto split: if_splits)
  have alone: "refs s f = 1 \<Longrightarrow> h \<in> handles \<Longrightarrow> handle_at s h = Some f \<Longrightarrow> h = h0" for h
    using refs [of f] no_refs [of ?t f] hat by (metis add_cancel_left_left)
  have rch: "reaches ?t c' h = (h \<noteq> h0 \<and> reaches s c' h)" if "h \<in> handles" for h c'
    using hat [OF that] alone [OF _ that] one by (cases "handle_at s h") (auto simp: reaches_def split: if_splits)
  have r0: "reaches s c' h0 \<longleftrightarrow> c' = c" for c' using at c by (auto simp: reaches_def)
  have frefs: "fcb_refs ?t c' + (if c' = c then 1 else 0) = fcb_refs s c'" for c'
    using fcb_refs_update [OF h0, of ?t c' s] rch h0 r0 by simp
  then show "0 < fcb_refs s c" by (metis add_gr_0 zero_less_one)
  show "files_inv ?t"
    unfolding files_inv_def
  proof (intro conjI allI ballI impI)
    fix q assume "fst q < MAXCORES \<and> snd q < NUM_PROC"
    then show "length (pr_file (process_table ?t q)) = 100" using files_invD(1) [OF inv, of q] by auto
  next
    fix h g assume h: "h \<in> handles" "handle_at ?t h = Some g"
    then have "h \<noteq> h0" "handle_at s h = Some g" using hat [OF h(1)] by (auto split: if_splits)
    then show "fd_fcb (file_desc_table ?t g) \<noteq> None"
      using files_invD(2) [OF inv h(1)] alone [OF _ h(1)] one by auto
  next
    fix g c' assume g: "fd_fcb (file_desc_table ?t g) = Some c'"
    then have s: "fd_fcb (file_desc_table s g) = Some c'" "g = f \<Longrightarrow> refs s f \<noteq> 1" using one by (auto split: if_splits)
    have "refs s g = refs ?t g + (if g = f then 1 else 0)" using refs [of g] by simp
    then show "fd_count (file_desc_table ?t g) = of_nat (refs ?t g)" "0 < refs ?t g" "c' < FCB_COUNT"
      using files_invD(3,4,7) [OF inv s(1)] s(2) by (cases "g = f"; simp)+
  next
    fix c' show "fc_count (fcb_table ?t c') = of_nat (fcb_refs ?t c')"
    proof -
      have "fcb_refs s c' = fcb_refs ?t c' + (if c' = c then 1 else 0)" using frefs [of c'] by simp
      then show ?thesis using files_invD(5) [OF inv, of c'] by (cases "c' = c") simp_all
    qed
  next
    fix c' assume "0 < fcb_refs ?t c'"
    then show "describes (mem ?t) c' (fcb_table ?t c')" using files_invD(6) [OF inv, of c'] frefs [of c'] by simp
  qed
qed

lemma close_file_run:
  assumes "files_inv s" "(p, nat (sint fd)) \<in> handles" "open_on s p fd f c"
  shows "close_file p fd s = Inr (dropped s (p, nat (sint fd)) f c)"
proof -
  have at: "handle_at s (p, nat (sint fd)) = Some f" "fd_fcb (file_desc_table s f) = Some c"
    using assms(3) by (simp_all add: open_on_def handle_at_def)
  have "0 < sint (fc_count (fcb_table s c))"
    using dropped_inv(2) [OF assms(1,2) at] files_invD(5) [OF assms(1), of c] of_nat_count(2) [OF refs_bound(2), of s c] by simp
  then show ?thesis
    using open_on_at [OF assms(3)]
    by (simp add: close_file_def put_fcb_def dropped_def Let_def)
qed

section \<open>A concrete system\<close>

text \<open>The volume of theory \<open>File_Read\<close> with no file open.\<close>

definition closed_system :: sys where
  "closed_system = tiny_system\<lparr>process_table := (\<lambda>_. zero_process), fcb_table := (\<lambda>_. zero_fcb),
     file_desc_table := (\<lambda>_. zero_file_desc)\<rparr>"

lemma closed_inv: "files_inv closed_system"
proof -
  have h: "h \<in> handles \<Longrightarrow> handle_at closed_system h = None" for h
    by (auto simp: handles_def handle_at_def closed_system_def zero_process_def)
  then have "fcb_refs closed_system c = 0" for c
    by (auto simp: fcb_refs_def reaches_def)
  then show ?thesis
    using h by (auto simp: files_inv_def closed_system_def zero_process_def zero_file_desc_def zero_fcb_def)
qed

lemma closed_search: "search_file (mem closed_system) (lit_path ''A.B'') = Inr 0"
proof -
  have "search_file tiny_volume (lit_path ''A.B'') = Inr 0" by code_simp
  then show ?thesis by (simp add: closed_system_def tiny_system_def)
qed

lemma closed_free: "free_slot (process_table closed_system p) = Some 0" "free_desc (file_desc_table closed_system) = Some 0"
proof -
  have "[0..<100] = 0 # [Suc 0..<100]" "[0..<131072] = 0 # [Suc 0..<131072]" by (rule upt_conv_Cons, simp)+
  then show "free_slot (process_table closed_system p) = Some 0" "free_desc (file_desc_table closed_system) = Some 0"
    by (simp_all add: free_slot_def free_desc_def FILE_DESC_COUNT_eq closed_system_def zero_process_def zero_file_desc_def
        del: upt_rec_numeral)
qed

section \<open>Properties\<close>


text \<open>
  C26: \<open>close_file\<close> releases exactly one handle.  On an open handle it returns, without failing the count
  assertion; the handle is empty, the descriptor is free again exactly when this was its last
  handle, all other handles are unchanged, and the reference counts stay exact.
\<close>

theorem close_file_correct:
  assumes "files_inv s" "(p, nat (sint fd)) \<in> handles" "open_on s p fd f c"
  shows "\<exists>t. close_file p fd s = Inr t \<and> files_inv t \<and>
    (\<forall>h \<in> handles. handle_at t h = (if h = (p, nat (sint fd)) then None else handle_at s h)) \<and>
    fd_fcb (file_desc_table t f) = (if refs s f = 1 then None else Some c)"
proof -
  have at: "handle_at s (p, nat (sint fd)) = Some f" "fd_fcb (file_desc_table s f) = Some c"
    using assms(3) by (simp_all add: open_on_def handle_at_def)
  show ?thesis
    using close_file_run [OF assms] dropped_inv(1,3) [OF assms(1,2) at] handle_dropped [OF assms(1,2)] by auto
qed


theorem close_file_correct_witness:
  "\<exists>t u. open_file (0, 1) (lit_path ''A.B'') closed_system = Inr (0, t) \<and> close_file (0, 1) 0 t = Inr u \<and> files_inv u"
proof -
  have h: "((0, 1), 0) \<in> handles" by (simp add: handles_def MAXCORES_def NUM_PROC_def)
  have c: "0 < FCB_COUNT" by (simp add: FCB_COUNT_eq)
  have n: "handle_at closed_system ((0, 1), 0) = None" "fd_fcb (file_desc_table closed_system 0) = None"
    by (simp_all add: handle_at_def closed_system_def zero_process_def zero_file_desc_def)
  let ?t = "opened closed_system ((0, 1), 0) 0 0"
  have o: "open_file (0, 1) (lit_path ''A.B'') closed_system = Inr (0, ?t)"
    unfolding open_file_run by (simp add: closed_free closed_search)
  have "open_on ?t (0, 1) 0 0 0"
    using handle_opened [OF closed_inv h h] by (simp add: open_on_def handle_at_def)
  then show ?thesis
    using close_file_correct [OF opened_inv [OF closed_inv h n c], of "(0, 1)" 0 0 0] h o by auto
qed

end
