(* ===== verification/Process_Life.thy ===== *)
theory Process_Life
  imports Scheduler_Traces Open_Files
begin

text \<open>
  The life of a process: creation (\<open>alloc_new_process\<close>, the \<open>init\<close> functions and \<open>fork\<close> of
  src/src/process.c, with \<open>setup_uvm\<close> of src/src/memory.c), replacement of its program (\<open>exec\<close>), and its
  removal (\<open>wait\<close>), with the process listing \<open>getProcessState\<close>.

  The trap frame and the first context of a process lie at the top of its kernel stack, which is a
  page; they are written as bytes of memory at the offsets of \<open>struct TrapFrame\<close>.
\<close>

section \<open>Creation\<close>

text \<open>\<open>memcpy(process->name, "literal", 8)\<close> copies eight bytes, whatever the length of the literal.\<close>

definition literal_bytes :: "'a sys_scheme \<Rightarrow> string \<Rightarrow> nat \<Rightarrow> u8 list" where
  "literal_bytes s str n =
     map (\<lambda>i. if i < length str then byte_of_char (str ! i) else if i = length str then 0 else sym_after s str i) [0..<n]"

definition TRAP_FRAME_SIZE :: u64 where "TRAP_FRAME_SIZE = 36 * 8"

text \<open>The loop below the \<open>return 0\<close> of this function is never reached.\<close>

definition find_least_busy_core :: "'a sys_scheme \<Rightarrow> nat" where
  "find_least_busy_core s = 0"

definition find_unused_process :: "nat \<Rightarrow> 'a sys_scheme \<Rightarrow> pref option" where
  "find_unused_process cpu_id s =
     map_option (Pair cpu_id) (find (\<lambda>i. pr_state (process_table s (cpu_id, i)) = PROC_UNUSED) [1..<NUM_PROC])"

definition init_idle_process :: "'a sys_scheme \<Rightarrow> 'a sys_scheme" where
  "init_idle_process s =
     fold (\<lambda>i s.
        (upd_process (i, 0) (\<lambda>r. r\<lparr>pr_state := PROC_RUNNING, pr_pid := of_nat i, pr_name := literal_bytes s ''idle'' 8,
            pr_page_map := V2P (sym_pgd_ttbr0 s)\<rparr>) s)
        \<lparr>current_process := (current_process s)(i := Some (i, 0))\<rparr>)
       [0..<MAXCORES] s"

definition alloc_message :: string where
  "alloc_message = ''alloc_new_process [Core %d] Fork: PID %d cloning PageMap: 0x%x Stack: 0x%x'' @ [CHR 0x0A]"

text \<open>The writes that set up the stack page of a new process.\<close>

definition new_stack :: "pref \<Rightarrow> u64 \<Rightarrow> 'a sys_scheme \<Rightarrow> 'a sys_scheme" where
  "new_stack process stk s =
     (let s = s\<lparr>mem := memset (mem s) stk 0 (unat PAGE_SIZE)\<rparr>;
          s = upd_process process (\<lambda>r. r\<lparr>pr_state := PROC_INIT\<rparr>) s;
          s = upd_process process (\<lambda>r. r\<lparr>pr_pid := pid_num s\<rparr>) s;
          s = s\<lparr>pid_num := pid_num s + 1\<rparr>;
          ctx = stk + PAGE_SIZE - TRAP_FRAME_SIZE - 12 * 8;
          s = upd_process process (\<lambda>r. r\<lparr>pr_context := ctx\<rparr>) s;
          s = s\<lparr>mem := store64 (mem s) (ctx + 11 * 8) (sym_pstart s)\<rparr>;
          tf = stk + PAGE_SIZE - TRAP_FRAME_SIZE;
          s = upd_process process (\<lambda>r. r\<lparr>pr_tf := tf\<rparr>) s
      in s\<lparr>mem := store64 (store64 (store64 (mem s) (tf + 34 * 8) 0x400000) (tf + 31 * 8) (0x400000 + PAGE_SIZE))
             (tf + 35 * 8) 0\<rparr>)"

definition alloc_new_process :: "nat \<Rightarrow> int \<Rightarrow> 'a sys_scheme \<Rightarrow> (pref option \<times> 'a sys_scheme) res" where
  "alloc_new_process cpu cur_id s =
     (case find_unused_process (if cur_id = - 1 then cpu else nat cur_id) s of
       None \<Rightarrow> Inr (None, s)
     | Some process \<Rightarrow>
         rbind (spin_lock Pid_lock s) (\<lambda>s.
         rbind (kalloc s) (\<lambda>(stk, s).
         let s = upd_process process (\<lambda>r. r\<lparr>pr_stack := stk\<rparr>) s in
         kassert (stk \<noteq> 0) ''src/process.c'' 118
         (let s = new_stack process stk s in
          rbind (kalloc s) (\<lambda>(pgmap, s).
          let s = upd_process process (\<lambda>r. r\<lparr>pr_page_map := pgmap\<rparr>) s in
          rbind (printk alloc_message [Int_arg (of_nat cpu), Int_arg (scast (pr_pid (process_table s process))),
                   Int_arg pgmap, Int_arg stk] s) (\<lambda>(_, s).
          kassert (pgmap \<noteq> 0) ''src/process.c'' 143
          (let s = s\<lparr>mem := memset (mem s) pgmap 0 (unat PAGE_SIZE)\<rparr>
           in Inr (Some process, spin_unlock Pid_lock s))))))))"

definition setup_uvm :: "nat \<Rightarrow> pref \<Rightarrow> path \<Rightarrow> 'a sys_scheme \<Rightarrow> (bool \<times> 'a sys_scheme) res" where
  "setup_uvm cpu process file_name s =
     (let pgmap = pr_page_map (process_table s process) in
      rbind (kalloc s) (\<lambda>(page, s).
      if page = 0 then Inr (False, s)
      else
        (let s = s\<lparr>mem := memset (mem s) page 0 (unat PAGE_SIZE)\<rparr> in
         rbind (map_page pgmap 0x400000 (V2P page) user_attribute s) (\<lambda>(status, s).
         if status then
           rbind (open_file process file_name s) (\<lambda>(fd, s).
           if fd = - 1 then rbind (free_vm pgmap s) (\<lambda>s. Inr (False, s))
           else
             rbind (get_file_size process fd s) (\<lambda>size0.
             rbind (read_file cpu process fd page size0 s) (\<lambda>(r, s).
             if r \<noteq> size0 then rbind (free_vm pgmap s) (\<lambda>s. Inr (False, s))
             else rbind (close_file process fd s) (\<lambda>s. Inr (True, s)))))
         else
           rbind (kfree page s) (\<lambda>s.
           rbind (free_vm pgmap s) (\<lambda>s. Inr (False, s)))))))"

text \<open>
  The bodies of \<open>init_user_process\<close>, \<open>init_test_process\<close>, \<open>init_test3_process\<close> and \<open>init_test4_process\<close>, which
  differ in file, name and the lines of their assertions.
\<close>

definition start_process :: "nat \<Rightarrow> string \<Rightarrow> string \<Rightarrow> nat \<Rightarrow> 'a sys_scheme \<Rightarrow> 'a sys_scheme res" where
  "start_process cpu file name line s =
     rbind (alloc_new_process cpu (- 1) s) (\<lambda>(q, s).
     case q of
       None \<Rightarrow> Inl (Assert_failed ''src/process.c'' line)
     | Some process \<Rightarrow>
         rbind (setup_uvm cpu process (lit_path file) s) (\<lambda>(ok, s).
         kassert ok ''src/process.c'' (line + 2)
         (let s = upd_process process (\<lambda>r. r\<lparr>pr_name := literal_bytes s name 8\<rparr>) s;
              s = upd_process process (\<lambda>r. r\<lparr>pr_state := PROC_READY\<rparr>) s
          in append_list_tail (Ready cpu) process s)))"

definition init_user_process :: "nat \<Rightarrow> 'a sys_scheme \<Rightarrow> 'a sys_scheme res" where
  "init_user_process cpu s = start_process cpu ''INIT.BIN'' ''init'' 155 s"

definition init_test_process :: "nat \<Rightarrow> 'a sys_scheme \<Rightarrow> 'a sys_scheme res" where
  "init_test_process cpu s = start_process cpu ''TEST2.BIN'' ''test2'' 173 s"

definition init_test3_process :: "nat \<Rightarrow> 'a sys_scheme \<Rightarrow> 'a sys_scheme res" where
  "init_test3_process cpu s = start_process cpu ''TEST3.BIN'' ''test3'' 190 s"

definition init_test4_process :: "nat \<Rightarrow> 'a sys_scheme \<Rightarrow> 'a sys_scheme res" where
  "init_test4_process cpu s = start_process cpu ''TEST4.BIN'' ''test4'' 206 s"

definition init_process :: "nat \<Rightarrow> 'a sys_scheme \<Rightarrow> 'a sys_scheme res" where
  "init_process cpu s =
     (if cpu = 0 then
        rbind (init_test4_process cpu (init_idle_process s)) (\<lambda>s.
        rbind (init_user_process cpu s) (\<lambda>s.
        rbind (printk (''Core %d initialized process successfully!'' @ [CHR 0x0A]) [Int_arg (of_nat cpu)] s) (\<lambda>(_, s). Inr s)))
      else init_test4_process cpu s)"

section \<open>Removal\<close>

text \<open>The loop of \<open>wait\<close> over the handles of the removed process.\<close>

fun drop_files :: "nat list \<Rightarrow> pref \<Rightarrow> 'a sys_scheme \<Rightarrow> 'a sys_scheme res" where
  "drop_files [] process s = Inr s"
| "drop_files (i # is) process s =
     rbind
       (case pr_file (process_table s process) ! i of
          None \<Rightarrow> Inr s
        | Some f \<Rightarrow>
            rbind (fcb_at s f) (\<lambda>c.
            let s = upd_fcb c (\<lambda>r. r\<lparr>fc_count := fc_count r - 1\<rparr>) s;
                s = upd_desc f (\<lambda>d. d\<lparr>fd_count := fd_count d - 1\<rparr>) s
            in Inr (if fd_count (file_desc_table s f) = 0 then upd_desc f (\<lambda>d. d\<lparr>fd_fcb := None\<rparr>) s else s)))
       (\<lambda>s. drop_files is process s)"

text \<open>The work of \<open>wait\<close> on a process taken from the killed list.\<close>

definition reap :: "pref \<Rightarrow> 'a sys_scheme \<Rightarrow> 'a sys_scheme res" where
  "reap process s =
     kassert (pr_state (process_table s process) = PROC_KILLED) ''src/process.c'' 403
     (rbind (kfree (pr_stack (process_table s process)) s) (\<lambda>s.
      rbind (free_vm (pr_page_map (process_table s process)) s) (\<lambda>s.
      rbind (drop_files [0..<100] process s) (\<lambda>s.
      Inr (upd_process process (\<lambda>_. zero_process) s)))))"

text \<open>
  One round of the loop of \<open>wait\<close>: the process is reaped and the call returns, or the caller sleeps, and
  the loop starts again when it runs the next time.
\<close>

datatype 's waited = Reaped 's | Blocked "'s flow"

definition wait_round :: "nat \<Rightarrow> i32 \<Rightarrow> 'a sys_scheme \<Rightarrow> 'a sys_scheme waited res" where
  "wait_round cpu pid s =
     rbind (spin_lock Process_lock s) (\<lambda>s.
     rbind
       (if is_list_empty (Killed cpu) s then Inr (False, s)
        else
          rbind (remove_list (Killed cpu) pid s) (\<lambda>(q, s).
          case q of
            None \<Rightarrow> Inr (False, s)
          | Some process \<Rightarrow> rbind (reap process s) (\<lambda>s. Inr (True, s))))
       (\<lambda>(found, s).
        let s = spin_unlock Process_lock s in
        if found then Inr (Reaped s) else rbind (sleep cpu (- 3) s) (\<lambda>f. Inr (Blocked f))))"

section \<open>Listing\<close>

definition ps_entry :: "'a sys_scheme \<Rightarrow> pref \<Rightarrow> u8 list" where
  "ps_entry s p = le_bytes 4 (pr_pid (process_table s p)) @ le_bytes 4 (of_nat (fst p) :: i32) @ pr_name (process_table s p)"

fun list_processes :: "pref list \<Rightarrow> nat \<Rightarrow> u64 \<Rightarrow> nat \<Rightarrow> 'a sys_scheme \<Rightarrow> (nat \<times> 'a sys_scheme) res" where
  "list_processes [] cpu ps cnt s = Inr (cnt, s)"
| "list_processes (p # qs) cpu ps cnt s =
     (if pr_state (process_table s p) \<noteq> PROC_UNUSED
      then rbind (vstore_bytes cpu (ps + 16 * of_nat cnt) (ps_entry s p) s) (\<lambda>s. list_processes qs cpu ps (cnt + 1) s)
      else list_processes qs cpu ps cnt s)"

definition all_slots :: "pref list" where
  "all_slots = List.product [0..<MAXCORES] [0..<NUM_PROC]"

definition getProcessState :: "nat \<Rightarrow> u64 \<Rightarrow> 'a sys_scheme \<Rightarrow> (nat \<times> 'a sys_scheme) res" where
  "getProcessState cpu ps s =
     rbind (spin_lock Process_lock s) (\<lambda>s.
     rbind (list_processes all_slots cpu ps 0 s) (\<lambda>(cnt, s).
     Inr (cnt, spin_unlock Process_lock s)))"

section \<open>fork and exec\<close>

text \<open>The loop of \<open>fork\<close> that counts the inherited handles.\<close>

fun share_files :: "nat list \<Rightarrow> pref \<Rightarrow> 'a sys_scheme \<Rightarrow> 'a sys_scheme res" where
  "share_files [] process s = Inr s"
| "share_files (i # is) process s =
     rbind
       (case pr_file (process_table s process) ! i of
          None \<Rightarrow> Inr s
        | Some f \<Rightarrow>
            (let s = upd_desc f (\<lambda>d. d\<lparr>fd_count := fd_count d + 1\<rparr>) s in
             rbind (fcb_at s f) (\<lambda>c. Inr (upd_fcb c (\<lambda>r. r\<lparr>fc_count := fc_count r + 1\<rparr>) s))))
       (\<lambda>s. share_files is process s)"

definition fork :: "nat \<Rightarrow> 'a sys_scheme \<Rightarrow> (i32 \<times> 'a sys_scheme) res" where
  "fork cpu s =
     rbind (debug_spinlock ''src/process.c'' 455 s) (\<lambda>s.
     rbind (spin_lock Process_lock s) (\<lambda>s.
     let target_core = find_least_busy_core s in
     let current = current_process s target_core in
     rbind (alloc_new_process cpu (int target_core) s) (\<lambda>(q, s).
     case q of
       None \<Rightarrow> Inl (Assert_failed ''src/process.c'' 467)
     | Some process \<Rightarrow>
         (case current of
           None \<Rightarrow> Inl Null_deref
         | Some parent \<Rightarrow>
             rbind (printk (''[Core %d] Fork: PID %d cloning PageMap: 0x%x'' @ [CHR 0x0A])
                      [Int_arg (of_nat cpu), Int_arg (scast (pr_pid (process_table s parent))),
                       Int_arg (pr_page_map (process_table s parent))] s) (\<lambda>(_, s).
             rbind (copy_uvm (pr_page_map (process_table s process)) (pr_page_map (process_table s parent))
                      (unat PAGE_SIZE) s) (\<lambda>(res, s).
             kassert res ''src/process.c'' 479
             (let s = upd_process process (\<lambda>r. r\<lparr>pr_file := pr_file (process_table s parent)\<rparr>) s in
              rbind
                (case pr_file (process_table s process) ! 0 of
                   None \<Rightarrow> Inr (literal_bytes s ''unknown'' 8)
                 | Some f \<Rightarrow> rbind (fcb_at s f) (\<lambda>c. Inr (fc_name (fcb_table s c))))
                (\<lambda>name.
                 let s = upd_process process (\<lambda>r. r\<lparr>pr_name := name\<rparr>) s in
                 rbind (share_files [0..<100] process s) (\<lambda>s.
                 let tf = pr_tf (process_table s process);
                     s = s\<lparr>mem := memcpy (mem s) tf (pr_tf (process_table s parent)) (unat TRAP_FRAME_SIZE)\<rparr>;
                     s = s\<lparr>mem := store64 (mem s) tf 0\<rparr>;
                     s = upd_process process (\<lambda>r. r\<lparr>pr_state := PROC_READY\<rparr>) s
                 in
                 rbind (append_list_tail (Ready target_core) process s) (\<lambda>s.
                 rbind (debug_spinunlock ''src/process.c'' 509 s) (\<lambda>s.
                 let s = spin_unlock Process_lock s
                 in Inr (pr_pid (process_table s process), s))))))))))))"

text \<open>
  A call that returns to its caller with a value, or that leaves the processor to another process:
  \<open>Left s\<close> is the state in which that process continues.
\<close>

datatype 's outcome = Returned i32 's | Left 's

text \<open>After the call of \<open>exit\<close> in \<open>exec\<close> the code goes on where \<open>exit\<close> returns.\<close>

definition after_exit :: "nat \<Rightarrow> ('a sys_scheme \<Rightarrow> 'a sys_scheme outcome res) \<Rightarrow> 'a sys_scheme \<Rightarrow> 'a sys_scheme outcome res" where
  "after_exit cpu k s =
     rbind (exit_process cpu s) (\<lambda>f. case f of Switch s \<Rightarrow> Inr (Left s) | Stay s \<Rightarrow> k s)"

definition exec_finish :: "pref \<Rightarrow> i32 \<Rightarrow> 'a sys_scheme \<Rightarrow> 'a sys_scheme outcome res" where
  "exec_finish process fd s =
     rbind (close_file process fd s) (\<lambda>s.
     let tf = pr_tf (process_table s process);
         m = memset (mem s) tf 0 (unat TRAP_FRAME_SIZE);
         m = store64 (store64 (store64 m (tf + 34 * 8) 0x400000) (tf + 31 * 8) (0x400000 + PAGE_SIZE)) (tf + 35 * 8) 0
     in Inr (Returned 0 (s\<lparr>mem := m\<rparr>)))"

definition exec_load :: "nat \<Rightarrow> pref \<Rightarrow> i32 \<Rightarrow> 'a sys_scheme \<Rightarrow> 'a sys_scheme outcome res" where
  "exec_load cpu process fd s =
     rbind (vmemset cpu 0x400000 0 (unat PAGE_SIZE) s) (\<lambda>s.
     rbind (get_file_size process fd s) (\<lambda>size0.
     rbind (read_file cpu process fd 0x400000 size0 s) (\<lambda>(size1, s).
     if size1 = 0xffffffff then after_exit cpu (exec_finish process fd) s else exec_finish process fd s)))"

definition exec :: "nat \<Rightarrow> pref \<Rightarrow> path \<Rightarrow> 'a sys_scheme \<Rightarrow> 'a sys_scheme outcome res" where
  "exec cpu process name s =
     rbind (open_file process name s) (\<lambda>(fd, s).
     if fd = - 1 then after_exit cpu (exec_load cpu process fd) s else exec_load cpu process fd s)"

end
