(* ===== verification/Process_Files.thy ===== *)
theory Process_Files
  imports Process_Life
begin

text \<open>
  The handles of a process at its birth and death.  \<open>fork\<close> copies the handle table of the parent and
  then counts the new references one by one; \<open>wait\<close> uncounts the references of the dead process and
  then clears its slot.  In between, counts and handles disagree; the lemmas show that at the end
  the counts are exact again.
\<close>

definition with_files :: "pref \<Rightarrow> nat option list \<Rightarrow> 'a sys_scheme \<Rightarrow> 'a sys_scheme" where
  "with_files p F s = upd_process p (\<lambda>r. r\<lparr>pr_file := F\<rparr>) s"

definition with_tables :: "(nat \<Rightarrow> file_desc) \<Rightarrow> (nat \<Rightarrow> fcb) \<Rightarrow> 'a sys_scheme \<Rightarrow> 'a sys_scheme" where
  "with_tables D C s = s\<lparr>file_desc_table := D, fcb_table := C\<rparr>"

lemma with_files_sel [simp]:
  "file_desc_table (with_files p F s) = file_desc_table s" "fcb_table (with_files p F s) = fcb_table s"
  "mem (with_files p F s) = mem s"
  "pr_file (process_table (with_files p F s) q) = (if q = p then F else pr_file (process_table s q))"
  by (simp_all add: with_files_def upd_process_def)

lemma with_files_commute:
  "upd_desc f g (with_files p F s) = with_files p F (upd_desc f g s)"
  "upd_fcb c k (with_files p F s) = with_files p F (upd_fcb c k s)"
  "with_files p F (set_file p i v s) = with_files p F s"
  "with_files p F (with_files p G s) = with_files p F s"
  by (simp_all add: with_files_def upd_process_def upd_desc_def upd_fcb_def set_file_def)

lemma with_files_same: "with_files p (pr_file (process_table s p)) s = s"
  by (simp add: with_files_def upd_process_def)

lemma with_tables_same: "with_tables (file_desc_table s) (fcb_table s) s = s"
  by (simp add: with_tables_def)

lemma with_files_if: "(if b then with_files p F s else with_files p F t) = with_files p F (if b then s else t)"
  by simp

section \<open>Dropping the handles of a dead process\<close>

lemma dropped_tables:
  "dropped s (p, i) f c =
     with_files p ((pr_file (process_table s p))[i := None])
       (with_tables (file_desc_table (dropped s (p, i) f c)) (fcb_table (dropped s (p, i) f c)) s)"
  by (simp add: dropped_def with_files_def with_tables_def upd_process_def set_file_def upd_desc_def upd_fcb_def Let_def)

lemma drop_files_Some:
  assumes "F ! i = Some f" "fd_fcb (file_desc_table s f) = Some c"
  shows "drop_files (i # is) p (with_files p F s) = drop_files is p (with_files p F (dropped s (p, i) f c))"
  using assms by (simp add: fcb_at_def dropped_def with_files_commute Let_def)

lemma drop_files_law:
  assumes "files_inv s" "fst p < MAXCORES" "snd p < NUM_PROC" "distinct is" "set is \<subseteq> {..<100}"
    and "\<forall>i \<in> set is. F ! i = pr_file (process_table s p) ! i"
  shows "\<exists>D C G. drop_files is p (with_files p F s) = Inr (with_files p F (with_tables D C s)) \<and>
    files_inv (with_files p G (with_tables D C s)) \<and>
    (\<forall>i < 100. G ! i = (if i \<in> set is then None else pr_file (process_table s p) ! i))"
  using assms
proof (induction "is" arbitrary: s)
  case Nil
  then show ?case
    by (intro exI [of _ "file_desc_table s"] exI [of _ "fcb_table s"] exI [of _ "pr_file (process_table s p)"])
      (simp add: with_tables_same with_files_same)
next
  case (Cons i js)
  let ?L = "pr_file (process_table s p)"
  have i: "i < 100" "(p, i) \<in> handles" "i \<notin> set js" using Cons.prems by (auto simp: handles_def)
  have len: "length ?L = 100" using files_invD(1) [OF Cons.prems(1-3)] .
  show ?case
  proof (cases "?L ! i")
    case None
    then have "drop_files (i # js) p (with_files p F s) = drop_files js p (with_files p F s)"
      using Cons.prems(6) by simp
    moreover obtain D C G where "drop_files js p (with_files p F s) = Inr (with_files p F (with_tables D C s))"
        "files_inv (with_files p G (with_tables D C s))"
        "\<forall>j < 100. G ! j = (if j \<in> set js then None else ?L ! j)"
      using Cons.IH [OF Cons.prems(1-3)] Cons.prems(4-6) by auto
    moreover from this(3) have "\<forall>j < 100. G ! j = (if j \<in> set (i # js) then None else ?L ! j)" using None by auto
    ultimately show ?thesis by metis
  next
    case (Some f)
    then have at: "handle_at s (p, i) = Some f" by (simp add: handle_at_def)
    then obtain c where c: "fd_fcb (file_desc_table s f) = Some c" using files_invD(2) [OF Cons.prems(1) i(2)] by auto
    let ?t = "dropped s (p, i) f c"
    have F: "\<forall>j \<in> set js. F ! j = pr_file (process_table ?t p) ! j"
      using Cons.prems(6) i(3) by (auto intro: nth_list_update_neq [symmetric])
    obtain D C G where t: "drop_files js p (with_files p F ?t) = Inr (with_files p F (with_tables D C ?t))"
        "files_inv (with_files p G (with_tables D C ?t))"
        "\<forall>j < 100. G ! j = (if j \<in> set js then None else pr_file (process_table ?t p) ! j)"
      using Cons.IH [OF dropped_inv(1) [OF Cons.prems(1) i(2) at c] Cons.prems(2,3) _ _ F] Cons.prems(4,5) by auto
    have eq: "with_files p H (with_tables D C ?t) = with_files p H (with_tables D C s)" for H
      by (subst dropped_tables) (simp add: with_files_def with_tables_def upd_process_def)
    have "G ! j = (if j \<in> set (i # js) then None else ?L ! j)" if "j < 100" for j
      using t(3) that len by (auto simp: nth_list_update)
    moreover have "F ! i = Some f" using Some Cons.prems(6) by simp
    ultimately show ?thesis using t(1,2) drop_files_Some [of F i f s c js p] c unfolding eq by metis
  qed
qed

lemma drop_all_files:
  assumes "files_inv s" "fst p < MAXCORES" "snd p < NUM_PROC"
  shows "\<exists>D C. drop_files [0..<100] p s = Inr (with_tables D C s) \<and> files_inv (with_files p (replicate 100 None) (with_tables D C s))"
proof -
  have r: "set [0..<100 :: nat] \<subseteq> {..<100}" by auto
  obtain D C G where t: "drop_files [0..<100] p s = Inr (with_tables D C s)"
      "files_inv (with_files p G (with_tables D C s))" "\<forall>i < 100. G ! i = None"
    using drop_files_law [OF assms distinct_upt r, of "pr_file (process_table s p)"]
    by (auto simp: with_files_same with_tables_def with_files_def upd_process_def)
  have "length G = 100" using files_invD(1) [OF t(2) assms(2,3)] by simp
  then have "G = replicate 100 None" using t(3) by (auto simp: list_eq_iff_nth_eq)
  then show ?thesis using t by auto
qed

section \<open>Sharing the handles with a child\<close>

text \<open>One more handle on a descriptor in use, as \<open>fork\<close> counts it.\<close>

definition shared :: "'a sys_scheme \<Rightarrow> handle \<Rightarrow> nat \<Rightarrow> nat \<Rightarrow> 'a sys_scheme" where
  "shared s h f c =
     set_file (fst h) (snd h) (Some f)
       (upd_fcb c (\<lambda>r. r\<lparr>fc_count := fc_count r + 1\<rparr>) (upd_desc f (\<lambda>d. d\<lparr>fd_count := fd_count d + 1\<rparr>) s))"

lemma shared_sel [simp]:
  "mem (shared s h f c) = mem s"
  "fd_fcb (file_desc_table (shared s h f c) g) = fd_fcb (file_desc_table s g)"
  "fd_count (file_desc_table (shared s h f c) g) =
     (if g = f then fd_count (file_desc_table s f) + 1 else fd_count (file_desc_table s g))"
  "fc_count (fcb_table (shared s h f c) c') = (if c' = c then fc_count (fcb_table s c) + 1 else fc_count (fcb_table s c'))"
  "describes m c' (fcb_table (shared s h f c) c') \<longleftrightarrow> describes m c' (fcb_table s c')"
  "pr_file (process_table (shared s h f c) q) =
     (if q = fst h then (pr_file (process_table s q))[snd h := Some f] else pr_file (process_table s q))"
  by (auto simp: shared_def set_file_def upd_process_def upd_desc_def upd_fcb_def describes_def)

lemma shared_tables:
  "shared s (p, i) f c =
     with_files p ((pr_file (process_table s p))[i := Some f])
       (with_tables (file_desc_table (shared s (p, i) f c)) (fcb_table (shared s (p, i) f c)) s)"
  by (simp add: shared_def with_files_def with_tables_def upd_process_def set_file_def upd_desc_def upd_fcb_def)

lemma shared_inv:
  assumes inv: "files_inv s" and h0: "h0 \<in> handles" and free: "handle_at s h0 = None"
    and c: "fd_fcb (file_desc_table s f) = Some c"
  shows "files_inv (shared s h0 f c)"
proof -
  let ?t = "shared s h0 f c"
  have len: "length (pr_file (process_table s (fst h0))) = 100" "snd h0 < 100"
    using files_invD(1) [OF inv] h0 by (auto simp: handles_def)
  have hat: "handle_at ?t h = (if h = h0 then Some f else handle_at s h)" if "h \<in> handles" for h
    using len by (cases h; cases h0) (auto simp: handle_at_def nth_list_update)
  have refs: "refs ?t g = refs s g + (if g = f then 1 else 0)" for g
    using refs_update [OF h0, of ?t s g] hat h0 free by (auto split: if_splits)
  have rch: "reaches ?t c' h = (if h = h0 then c' = c else reaches s c' h)" if "h \<in> handles" for h c'
    using hat [OF that] c by (auto simp: reaches_def)
  have frefs: "fcb_refs ?t c' = fcb_refs s c' + (if c' = c then 1 else 0)" for c'
    using fcb_refs_update [OF h0, of ?t c' s] rch h0 free by (simp add: reaches_def)
  have used: "0 < fcb_refs s c"
  proof -
    have "0 < refs s f" using files_invD(4) [OF inv c] .
    then obtain h where "h \<in> handles" "handle_at s h = Some f" using no_refs by (metis less_irrefl)
    then have "h \<in> {h \<in> handles. reaches s c h}" using c by (auto simp: reaches_def)
    then show ?thesis by (auto simp: fcb_refs_def card_gt_0_iff)
  qed
  show ?thesis
    unfolding files_inv_def
  proof (intro conjI allI ballI impI)
    fix q assume "fst q < MAXCORES \<and> snd q < NUM_PROC"
    then show "length (pr_file (process_table ?t q)) = 100" using files_invD(1) [OF inv, of q] by auto
  next
    fix h g assume "h \<in> handles" "handle_at ?t h = Some g"
    then show "fd_fcb (file_desc_table ?t g) \<noteq> None" using hat c files_invD(2) [OF inv] by (auto split: if_splits)
  next
    fix g c' assume "fd_fcb (file_desc_table ?t g) = Some c'"
    then show "fd_count (file_desc_table ?t g) = of_nat (refs ?t g)" "0 < refs ?t g" "c' < FCB_COUNT"
      using files_invD(3,4,7) [OF inv, of g c'] by (auto simp: refs)
  next
    fix c' show "fc_count (fcb_table ?t c') = of_nat (fcb_refs ?t c')"
      using files_invD(5) [OF inv, of c'] by (auto simp: frefs)
  next
    fix c' assume "0 < fcb_refs ?t c'"
    then have "0 < fcb_refs s c'" using used by (auto simp: frefs split: if_splits)
    then show "describes (mem ?t) c' (fcb_table ?t c')" using files_invD(6) [OF inv, of c'] by simp
  qed
qed

lemma share_files_Some:
  assumes "F ! i = Some f" "fd_fcb (file_desc_table s f) = Some c"
  shows "share_files (i # is) p (with_files p F s) = share_files is p (with_files p F (shared s (p, i) f c))"
proof -
  have "file_desc_table (upd_desc f g s) f = g (file_desc_table s f)" for g by (simp add: upd_desc_def)
  then show ?thesis using assms by (simp add: fcb_at_def shared_def with_files_commute)
qed

lemma share_files_law:
  assumes "files_inv s" "fst p < MAXCORES" "snd p < NUM_PROC" "distinct is" "set is \<subseteq> {..<100}"
    and "\<forall>i \<in> set is. pr_file (process_table s p) ! i = None"
    and "\<forall>i \<in> set is. \<forall>f. F ! i = Some f \<longrightarrow> fd_fcb (file_desc_table s f) \<noteq> None"
  shows "\<exists>D C G. share_files is p (with_files p F s) = Inr (with_files p F (with_tables D C s)) \<and>
    files_inv (with_files p G (with_tables D C s)) \<and> (\<forall>f. fd_fcb (D f) = fd_fcb (file_desc_table s f)) \<and>
    (\<forall>i < 100. G ! i = (if i \<in> set is then F ! i else pr_file (process_table s p) ! i))"
  using assms
proof (induction "is" arbitrary: s)
  case Nil
  then show ?case
    by (intro exI [of _ "file_desc_table s"] exI [of _ "fcb_table s"] exI [of _ "pr_file (process_table s p)"])
      (simp add: with_tables_same with_files_same)
next
  case (Cons i js)
  let ?L = "pr_file (process_table s p)"
  have i: "i < 100" "(p, i) \<in> handles" "i \<notin> set js" using Cons.prems by (auto simp: handles_def)
  have len: "length ?L = 100" using files_invD(1) [OF Cons.prems(1-3)] .
  have free: "handle_at s (p, i) = None" using Cons.prems(6) by (simp add: handle_at_def)
  show ?case
  proof (cases "F ! i")
    case None
    then have "share_files (i # js) p (with_files p F s) = share_files js p (with_files p F s)" by simp
    moreover obtain D C G where "share_files js p (with_files p F s) = Inr (with_files p F (with_tables D C s))"
        "files_inv (with_files p G (with_tables D C s))" "\<forall>f. fd_fcb (D f) = fd_fcb (file_desc_table s f)"
        "\<forall>j < 100. G ! j = (if j \<in> set js then F ! j else ?L ! j)"
      using Cons.IH [OF Cons.prems(1-3)] Cons.prems(4-7) by auto
    moreover from this(4) have "\<forall>j < 100. G ! j = (if j \<in> set (i # js) then F ! j else ?L ! j)"
      using None Cons.prems(6) by auto
    ultimately show ?thesis by metis
  next
    case (Some f)
    then obtain c where c: "fd_fcb (file_desc_table s f) = Some c" using Cons.prems(7) by auto
    let ?t = "shared s (p, i) f c"
    have L: "\<forall>j \<in> set js. pr_file (process_table ?t p) ! j = None"
      using Cons.prems(6) i(3) by (metis fst_conv list.set_intros(2) nth_list_update_neq shared_sel(6) snd_conv)
    obtain D C G where t: "share_files js p (with_files p F ?t) = Inr (with_files p F (with_tables D C ?t))"
        "files_inv (with_files p G (with_tables D C ?t))" "\<forall>f. fd_fcb (D f) = fd_fcb (file_desc_table s f)"
        "\<forall>j < 100. G ! j = (if j \<in> set js then F ! j else pr_file (process_table ?t p) ! j)"
      using Cons.IH [OF shared_inv [OF Cons.prems(1) i(2) free c] Cons.prems(2,3) _ _ L] Cons.prems(4,5,7) by auto
    have eq: "with_files p H (with_tables D C ?t) = with_files p H (with_tables D C s)" for H
      by (subst shared_tables) (simp add: with_files_def with_tables_def upd_process_def)
    have "G ! j = (if j \<in> set (i # js) then F ! j else ?L ! j)" if "j < 100" for j
      using t(4) that len Some i(3) by (auto simp: nth_list_update)
    then show ?thesis using t(1-3) share_files_Some [of F i f s c js p] Some c unfolding eq by metis
  qed
qed

lemma share_all_files:
  assumes "files_inv s" "fst p < MAXCORES" "snd p < NUM_PROC" "pr_file (process_table s p) = replicate 100 None"
    and "fst q < MAXCORES" "snd q < NUM_PROC"
  defines "u \<equiv> with_files p (pr_file (process_table s q)) s"
  shows "\<exists>D C. share_files [0..<100] p u = Inr (with_tables D C u) \<and> files_inv (with_tables D C u)"
proof -
  let ?F = "pr_file (process_table s q)"
  have r: "set [0..<100 :: nat] \<subseteq> {..<100}" by auto
  have use: "\<forall>i \<in> set [0..<100]. \<forall>f. ?F ! i = Some f \<longrightarrow> fd_fcb (file_desc_table s f) \<noteq> None"
    using files_invD(2) [OF assms(1), of "(q, _)"] assms(5,6) by (auto simp: handles_def handle_at_def)
  have none: "\<forall>i \<in> set [0..<100]. pr_file (process_table s p) ! i = None" using assms(4) by simp
  obtain D C G where t: "share_files [0..<100] p u = Inr (with_files p ?F (with_tables D C s))"
      "files_inv (with_files p G (with_tables D C s))" "\<forall>i < 100. G ! i = ?F ! i"
    using share_files_law [OF assms(1-3) distinct_upt r none use] unfolding u_def by auto
  have "length G = 100" using files_invD(1) [OF t(2) assms(2,3)] by simp
  then have "G = ?F" using t(3) files_invD(1) [OF assms(1,5,6)] by (auto simp: list_eq_iff_nth_eq)
  moreover have "with_files p ?F (with_tables D C s) = with_tables D C u"
    by (simp add: u_def with_files_def with_tables_def upd_process_def)
  ultimately show ?thesis using t by auto
qed

end
