(* ===== verification/Process_Memory.thy ===== *)
theory Process_Memory
  imports Process_Files
begin

text \<open>
  The memory of the processes.  A live process holds a page as kernel stack and the pages of its
  address space; the pages of different processes are disjoint.  The lemmas carry this invariant,
  and with it what a process sees of its memory, through allocations and releases made for another
  process.
\<close>

section \<open>What the memory predicates depend on\<close>

definition same_kernel :: "'a kernel_scheme \<Rightarrow> 'b kernel_scheme \<Rightarrow> bool" where
  "same_kernel s t \<longleftrightarrow> mem t = mem s \<and> locks t Allocator_lock = locks s Allocator_lock \<and>
     sym_end t = sym_end s \<and> sym_allocator t = sym_allocator s"

lemma same_kernel_eqs:
  assumes "same_kernel s t"
  shows "kalloc_inv t = kalloc_inv s" "kavail t = kavail s" "start_of t = start_of s" "kowned t = kowned s"
    "vm_full r t = vm_full r s" "user_byte t r v = user_byte s r v"
proof -
  have "kmem_inv t L = kmem_inv s L" for L using assms by (simp add: kmem_inv_def same_kernel_def)
  then have k: "kmem_inv t = kmem_inv s" by (rule ext)
  show a: "kalloc_inv t = kalloc_inv s" "kavail t = kavail s" "start_of t = start_of s"
    using k assms by (simp_all add: kalloc_inv_def kavail_def same_kernel_def)
  then show "kowned t = kowned s" by simp
  show "vm_full r t = vm_full r s" "user_byte t r v = user_byte s r v"
    using a assms by (simp_all add: vm_full_def vm_ok_def user_byte_def same_kernel_def)
qed

lemma same_kernel_simps [simp]:
  "same_kernel s s" "same_kernel s (upd_process p f u) \<longleftrightarrow> same_kernel s u" "same_kernel s (with_files p F u) \<longleftrightarrow> same_kernel s u"
  "same_kernel s (with_tables D C u) \<longleftrightarrow> same_kernel s u" "same_kernel s (u\<lparr>pid_num := n\<rparr>) \<longleftrightarrow> same_kernel s u"
  "same_kernel s (u\<lparr>console := o0\<rparr>) \<longleftrightarrow> same_kernel s u"
  "l \<noteq> Allocator_lock \<Longrightarrow> same_kernel s (u\<lparr>locks := (locks u)(l := b)\<rparr>) \<longleftrightarrow> same_kernel s u"
  "l \<noteq> Allocator_lock \<Longrightarrow> same_kernel s (spin_unlock l u) \<longleftrightarrow> same_kernel s u"
  by (simp_all add: same_kernel_def with_files_def with_tables_def spin_unlock_def)

lemma same_kernel_links: "links_only s t \<Longrightarrow> same_kernel s t"
  by (auto simp: same_kernel_def elim!: links_onlyE)

section \<open>Pages left alone\<close>

definition left_alone :: "u64 set \<Rightarrow> 'a kernel_scheme \<Rightarrow> 'a kernel_scheme \<Rightarrow> bool" where
  "left_alone A s t \<longleftrightarrow> kalloc_inv t \<and> start_of t = start_of s \<and>
     (\<forall>a \<in> A. kowned t a \<and> (\<forall>x. in_range a (2 ^ 21) x \<longrightarrow> mem t x = mem s x))"

lemma left_alone_keeps:
  assumes "keeps_pages P s t" "\<And>a. a \<in> A \<Longrightarrow> kowned s a" "A \<inter> P = {}"
  shows "left_alone A s t"
  using assms keeps_owned [OF assms(1)] unfolding left_alone_def keeps_pages_def by blast

lemma left_alone_released:
  assumes "released F W s t" "\<And>a. a \<in> A \<Longrightarrow> kowned s a" "A \<inter> (F \<union> W) = {}" "\<And>p. p \<in> F \<Longrightarrow> kowned s p"
  shows "left_alone A s t"
  using assms released_owned [OF assms(1)] unfolding left_alone_def released_def by blast

lemma left_alone_space:
  assumes full: "vm_full r s" and same: "left_alone (vm_pages (mem s) r) s t"
  shows "vm_full r t" "vm_pages (mem t) r = vm_pages (mem s) r" "user_byte t r v = user_byte s r v"
    "data_page (mem t) r = data_page (mem s) r"
proof -
  let ?V = "vm_pages (mem s) r"
  have t: "kalloc_inv t" "start_of t = start_of s" and own: "\<And>a. a \<in> ?V \<Longrightarrow> kowned t a"
    and eq: "\<And>a x. a \<in> ?V \<Longrightarrow> in_range a (2 ^ 21) x \<Longrightarrow> mem t x = mem s x"
    using same by (auto simp: left_alone_def)
  have tv: "\<And>q. q \<in> tables (mem s) r \<Longrightarrow> q \<in> ?V" using tables_pages by blast
  have ent: "entry_at (mem t) q (of_nat k) = entry_at (mem s) q (of_nat k)" if q: "q \<in> tables (mem s) r" and k: "k < 512" for q k
    unfolding entry_at_def
  proof (rule load64_cong)
    fix x assume "in_range (q + 8 * of_nat k) 8 x"
    then have "in_range q (2 ^ 21) x"
      using page_of_word(2) [OF region_bound(3) [OF kowned_region [OF tables_owned [OF vm_fullD(1) [OF full] q]]], of k x] k by simp
    then show "mem t x = mem s x" using eq tv [OF q] by blast
  qed
  have K: "vm_ok r t" "tab (mem t) r = tab (mem s) r" "vm_entry (mem t) r = vm_entry (mem s) r"
    by (rule vm_ok_same [OF vm_fullD(1) [OF full] t]; use own tv ent in blast)+
  have tb: "tables (mem t) r = tables (mem s) r" by (simp add: tables_def K(2))
  show dp: "data_page (mem t) r = data_page (mem s) r" by (simp add: data_page_def K(3) fun_eq_iff)
  show vp: "vm_pages (mem t) r = ?V" by (simp add: vm_pages_eq tb dp)
  show ft: "vm_full r t"
  proof -
    have "kowned t a" if "data_page (mem s) r x = Some a" for x a using own [OF data_pages [OF that]] .
    then show ?thesis using full K(1) unfolding vm_full_def tb dp blocks_only_def K(3) by auto
  qed
  show "user_byte t r v = user_byte s r v"
  proof (cases "data_page (mem s) r (vm_index v)")
    case None
    then show ?thesis using user_byte_none [OF full] user_byte_none [OF ft] dp by simp
  next
    case (Some d)
    then have "mem t (d + (v AND mask 21)) = mem s (d + (v AND mask 21))"
      using eq [OF data_pages] in_page_offset by blast
    then show ?thesis using user_byte_data [OF full Some] user_byte_data [OF ft] dp Some by simp
  qed
qed

section \<open>The pages of the processes\<close>

definition live :: "'a sys_scheme \<Rightarrow> pref \<Rightarrow> bool" where
  "live s p \<longleftrightarrow> slot p \<and> state_of s p \<noteq> PROC_UNUSED"

abbreviation stack_of :: "'a sys_scheme \<Rightarrow> pref \<Rightarrow> u64" where
  "stack_of s p \<equiv> pr_stack (process_table s p)"

abbreviation map_of_process :: "'a sys_scheme \<Rightarrow> pref \<Rightarrow> u64" where
  "map_of_process s p \<equiv> pr_page_map (process_table s p)"

definition proc_pages :: "'a sys_scheme \<Rightarrow> pref \<Rightarrow> u64 set" where
  "proc_pages s p = insert (stack_of s p) (vm_pages (mem s) (map_of_process s p))"

definition space_ok :: "'a sys_scheme \<Rightarrow> pref \<Rightarrow> bool" where
  "space_ok s p \<longleftrightarrow> kowned s (stack_of s p) \<and> vm_full (map_of_process s p) s \<and>
     stack_of s p \<notin> vm_pages (mem s) (map_of_process s p) \<and>
     pr_tf (process_table s p) = stack_of s p + PAGE_SIZE - TRAP_FRAME_SIZE"

definition spaces_ok :: "'a sys_scheme \<Rightarrow> bool" where
  "spaces_ok s \<longleftrightarrow> kalloc_inv s \<and> KERNEL_BASE \<le> start_of s \<and> (\<forall>p. live s p \<longrightarrow> space_ok s p) \<and>
     (\<forall>p q. live s p \<longrightarrow> live s q \<longrightarrow> p \<noteq> q \<longrightarrow> proc_pages s p \<inter> proc_pages s q = {})"

lemma spaces_okD:
  assumes "spaces_ok s"
  shows "kalloc_inv s" "KERNEL_BASE \<le> start_of s" "live s p \<Longrightarrow> space_ok s p"
    "live s p \<Longrightarrow> live s q \<Longrightarrow> p \<noteq> q \<Longrightarrow> proc_pages s p \<inter> proc_pages s q = {}"
  using assms by (simp_all add: spaces_ok_def)

lemma space_okD:
  assumes "space_ok s p"
  shows "kowned s (stack_of s p)" "vm_full (map_of_process s p) s" "stack_of s p \<notin> vm_pages (mem s) (map_of_process s p)"
    "pr_tf (process_table s p) = stack_of s p + PAGE_SIZE - TRAP_FRAME_SIZE" "a \<in> proc_pages s p \<Longrightarrow> kowned s a"
  using assms vm_pages_owned [of "map_of_process s p" s] by (auto simp: space_ok_def proc_pages_def)

text \<open>A process whose pages and fields an operation leaves alone keeps its memory.\<close>

definition undisturbed :: "'a sys_scheme \<Rightarrow> 'a sys_scheme \<Rightarrow> pref \<Rightarrow> bool" where
  "undisturbed s t p \<longleftrightarrow> stack_of t p = stack_of s p \<and> map_of_process t p = map_of_process s p \<and>
     pr_tf (process_table t p) = pr_tf (process_table s p) \<and> left_alone (proc_pages s p) s t"

lemma undisturbed_space:
  assumes "space_ok s p" "undisturbed s t p"
  shows "space_ok t p" "proc_pages t p = proc_pages s p" "user_byte t (map_of_process t p) v = user_byte s (map_of_process s p) v"
proof -
  have u: "stack_of t p = stack_of s p" "map_of_process t p = map_of_process s p"
      "pr_tf (process_table t p) = pr_tf (process_table s p)" "left_alone (proc_pages s p) s t"
    using assms(2) by (simp_all add: undisturbed_def)
  have "left_alone (vm_pages (mem s) (map_of_process s p)) s t" using u(4) by (auto simp: left_alone_def proc_pages_def)
  note L = left_alone_space [OF space_okD(2) [OF assms(1)] this]
  have "kowned t (stack_of t p)" using u(4) unfolding u(1) by (auto simp: left_alone_def proc_pages_def)
  then show "space_ok t p" using L(1,2) assms(1) u by (simp add: space_ok_def)
  show "proc_pages t p = proc_pages s p" "user_byte t (map_of_process t p) v = user_byte s (map_of_process s p) v"
    using L(2,3) u by (simp_all add: proc_pages_def)
qed

lemma spaces_update:
  assumes "spaces_ok s" "kalloc_inv t" "start_of t = start_of s"
    and old: "\<And>p. live t p \<Longrightarrow> p \<noteq> q \<Longrightarrow> live s p \<and> undisturbed s t p"
    and new: "live t q \<Longrightarrow> space_ok t q \<and> (\<forall>p. live s p \<longrightarrow> p \<noteq> q \<longrightarrow> proc_pages t q \<inter> proc_pages s p = {})"
  shows "spaces_ok t"
  unfolding spaces_ok_def
proof (intro conjI allI impI)
  have o: "space_ok t p" "proc_pages t p = proc_pages s p" "live s p" if "live t p" "p \<noteq> q" for p
    using undisturbed_space [OF spaces_okD(3) [OF assms(1)]] old [OF that] by blast+
  show "space_ok t p" if "live t p" for p using o(1) new that by blast
  show "proc_pages t p \<inter> proc_pages t p' = {}" if "live t p" "live t p'" "p \<noteq> p'" for p p'
    using o [OF that(1)] o [OF that(2)] new spaces_okD(4) [OF assms(1), of p p'] that by (cases "p = q"; cases "p' = q") blast+
qed (use assms(1-3) spaces_okD(2) in auto)

end
