(* ===== verification/Process_Correct.thy ===== *)
theory Process_Correct
  imports Process_Memory
begin

text \<open>
  Birth and death of processes.  \<open>wait\<close> takes a dead process apart and \<open>fork\<close> puts a new one
  together; both leave the scheduler's lists, the counts of open files and the memory of all other
  processes consistent.  The lemmas follow the code: memory first, then handles, then the slot and
  its place in the lists.
\<close>

section \<open>Shared steps\<close>

lemma slotD: "slot p \<Longrightarrow> fst p < MAXCORES" "slot p \<Longrightarrow> snd p < NUM_PROC" "slot p \<Longrightarrow> snd p \<noteq> 0"
  by (simp_all add: slot_def)

lemma list_state_used: "list_state l \<noteq> PROC_UNUSED" "PROC_UNUSED \<noteq> list_state l"
  by (cases l; simp)+

text \<open>A process slot outside the lists gets new contents.\<close>

lemma sched_rep_slot:
  assumes "sched_rep s Q R" and "lists_rep t Q'" and "slot q"
    and "\<And>p. p \<noteq> q \<Longrightarrow> pid_of t p = pid_of s p \<and> state_of t p = state_of s p"
    and "\<And>p l. p \<noteq> q \<Longrightarrow> p \<in> set (Q' l) \<longleftrightarrow> p \<in> set (Q l)"
    and "\<And>l. q \<in> set (Q' l) \<Longrightarrow> fst q = core_of l"
    and "placed t Q' R q"
  shows "sched_rep t Q' R"
proof -
  have "slot p \<and> fst p = core_of l" if "p \<in> set (Q' l)" for p l
    using sched_repD(2,3) [OF assms(1), of p l] assms(3,5,6) that by (cases "p = q") blast+
  moreover have "placed t Q' R p" if "slot p" for p
    using sched_repD(4) [OF assms(1) that] assms(4,5,7) that unfolding placed_def by (cases "p = q") simp_all
  moreover have "sint (pid_of t (c, 0)) < 4" if "c < MAXCORES" for c
    using sched_repD(7) [OF assms(1) that] assms(3) assms(4) [of "(c, 0)"] by (cases "(c, 0) = q") (auto simp: slot_def)
  ultimately show ?thesis
    using assms(2) sched_repD(5,6) [OF assms(1)] unfolding sched_rep_def by simp
qed

text \<open>The volume lies above the managed memory.\<close>

lemma volume_above:
  assumes "kowned s p" "FS_BASE \<le> x"
  shows "start_of s \<le> x" "MEMORY_END \<le> x"
proof -
  have "start_of s \<le> p" "p \<le> MEMORY_END"
    using kowned_region [OF assms(1)] by (auto simp: region_def)
  moreover have "MEMORY_END = FS_BASE" by (simp add: MEMORY_END_def FS_BASE_def)
  ultimately show "start_of s \<le> x" "MEMORY_END \<le> x" using assms(2) by auto
qed

lemma released_volume: "released F W s t \<Longrightarrow> kowned s p \<Longrightarrow> same_volume (mem s) (mem t)"
  using volume_above [of s p] unfolding same_volume_def released_def by blast

lemma keeps_volume: "keeps_pages P s t \<Longrightarrow> kowned s p \<Longrightarrow> same_volume (mem s) (mem t)"
  using volume_above [of s p] unfolding same_volume_def keeps_pages_def by blast

section \<open>Taking a process apart\<close>

text \<open>The pages of a dead process are freed, and nothing else.\<close>

lemma free_process_pages:
  assumes "space_ok s p"
  shows "\<exists>t u. kfree (stack_of s p) s = Inr t \<and> t = s\<lparr>mem := mem t\<rparr> \<and>
    free_vm (map_of_process s p) t = Inr u \<and> u = s\<lparr>mem := mem u\<rparr> \<and> released (proc_pages s p) {} s u"
proof -
  note D = space_okD [OF assms]
  have inv: "kalloc_inv s" using vm_okD(1) [OF vm_fullD(1) [OF D(2)]] .
  obtain t where t: "kfree (stack_of s p) s = Inr t" "released {stack_of s p} {} s t"
    using kfree_released [OF inv D(1)] by blast
  have "left_alone (vm_pages (mem s) (map_of_process s p)) s t"
    using D(1,3) vm_pages_owned [OF D(2)] by (intro left_alone_released [OF t(2)]) auto
  note L = left_alone_space [OF D(2) this]
  obtain u where u: "free_vm (map_of_process s p) t = Inr u" "released (vm_pages (mem s) (map_of_process s p)) {} t u"
    using free_vm_released [OF L(1)] L(2) by auto
  have "released ({stack_of s p} \<union> vm_pages (mem s) (map_of_process s p)) ({} \<union> {}) s u"
    using D(1) by (intro released_trans [OF t(2) u(2)]) simp
  then have r: "released (proc_pages s p) {} s u" by (simp add: proc_pages_def)
  have "t = s\<lparr>mem := mem t\<rparr>" using t(2) unfolding released_def by (elim conjE)
  moreover have "u = s\<lparr>mem := mem u\<rparr>" using r unfolding released_def by (elim conjE)
  ultimately show ?thesis using t(1) u(1) r by blast
qed

lemma reap_run:
  assumes "spaces_ok s" "files_inv s" "slot p" "state_of s p = PROC_KILLED"
  obtains D C m where "reap p s = Inr (upd_process p (\<lambda>_. zero_process) (with_tables D C (s\<lparr>mem := m\<rparr>)))"
    "files_inv (upd_process p (\<lambda>_. zero_process) (with_tables D C (s\<lparr>mem := m\<rparr>)))"
    "released (proc_pages s p) {} s (s\<lparr>mem := m\<rparr>)"
proof -
  have sp: "space_ok s p" using spaces_okD(3) [OF assms(1)] assms(3,4) by (simp add: live_def)
  obtain t m where k: "kfree (stack_of s p) s = Inr t" "t = s\<lparr>mem := mem t\<rparr>"
      "free_vm (map_of_process s p) t = Inr (s\<lparr>mem := m\<rparr>)" "released (proc_pages s p) {} s (s\<lparr>mem := m\<rparr>)"
    using free_process_pages [OF sp] by metis
  have pt: "process_table t = process_table s" using arg_cong [OF k(2), of process_table] by simp
  have f: "files_inv (s\<lparr>mem := m\<rparr>)"
    by (rule files_inv_cong [OF assms(2)]) (use released_volume [OF k(4) space_okD(1) [OF sp]] in simp_all)
  obtain D C where d: "drop_files [0..<100] p (s\<lparr>mem := m\<rparr>) = Inr (with_tables D C (s\<lparr>mem := m\<rparr>))"
      "files_inv (with_files p (replicate 100 None) (with_tables D C (s\<lparr>mem := m\<rparr>)))"
    using drop_all_files [OF f slotD(1,2) [OF assms(3)]] by blast
  have "files_inv (upd_process p (\<lambda>_. zero_process) (with_tables D C (s\<lparr>mem := m\<rparr>)))"
    by (rule files_inv_cong [OF d(2)]) (simp_all add: same_volume_def with_tables_def zero_process_def with_files_def)
  moreover have "reap p s = Inr (upd_process p (\<lambda>_. zero_process) (with_tables D C (s\<lparr>mem := m\<rparr>)))"
    using assms(4) k(1,3) d(1) pt by (simp add: reap_def del: drop_files.simps)
  ultimately show ?thesis using that k(4) by blast
qed

lemma left_alone_same:
  assumes "same_kernel s s'" "same_kernel t t'"
  shows "left_alone A s' t' \<longleftrightarrow> left_alone A s t"
proof -
  have "mem s' = mem s" "mem t' = mem t" using assms by (simp_all add: same_kernel_def)
  then show ?thesis using same_kernel_eqs(1-4) [OF assms(1)] same_kernel_eqs(1-4) [OF assms(2)]
    by (simp add: left_alone_def)
qed

text \<open>The memory invariant ignores what is neither memory nor a field it mentions.\<close>

lemma spaces_same:
  assumes "spaces_ok s" "same_kernel s t"
    and "\<And>p. state_of t p = state_of s p \<and> stack_of t p = stack_of s p \<and> map_of_process t p = map_of_process s p \<and>
      pr_tf (process_table t p) = pr_tf (process_table s p)"
  shows "spaces_ok t" "proc_pages t p = proc_pages s p" "live t p = live s p"
proof -
  have m: "mem t = mem s" using assms(2) by (simp add: same_kernel_def)
  show pp: "proc_pages t p = proc_pages s p" for p using assms(3) m by (simp add: proc_pages_def)
  show lv: "live t p = live s p" for p using assms(3) by (simp add: live_def)
  have "space_ok t p = space_ok s p" for p
    using assms(3) m same_kernel_eqs(4,5) [OF assms(2)] by (simp add: space_ok_def)
  then show "spaces_ok t"
    using assms(1) pp lv same_kernel_eqs(1,3) [OF assms(2)] by (simp add: spaces_ok_def)
qed

lemma links_only_fields:
  assumes "links_only s t"
  shows "stack_of t p = stack_of s p" "map_of_process t p = map_of_process s p"
    "pr_tf (process_table t p) = pr_tf (process_table s p)" "pr_file (process_table t p) = pr_file (process_table s p)"
    "pr_context (process_table t p) = pr_context (process_table s p)"
    "fcb_table t = fcb_table s" "file_desc_table t = file_desc_table s"
  using assms by (auto elim!: links_onlyE) (metis process.ext_inject process.surjective process.update_convs(1))+

section \<open>wait\<close>

lemma undisturbed_by_release:
  assumes "spaces_ok s" "live s p" "live s q" "q \<noteq> p" "released (proc_pages s p) {} s u"
    and "stack_of t q = stack_of s q" "map_of_process t q = map_of_process s q"
      "pr_tf (process_table t q) = pr_tf (process_table s q)" "same_kernel u t"
  shows "undisturbed s t q"
proof -
  have "left_alone (proc_pages s q) s u"
    using space_okD(5) [OF spaces_okD(3) [OF assms(1)]] assms(2,3) spaces_okD(4) [OF assms(1,3,2,4)]
    by (intro left_alone_released [OF assms(5)]) auto
  then have "left_alone (proc_pages s q) s t"
    using left_alone_same [OF same_kernel_simps(1) assms(9)] by blast
  then show ?thesis using assms(6-8) by (simp add: undisturbed_def)
qed

lemma reap_law:
  assumes "spaces_ok s" "files_inv s" "slot p" "state_of s p = PROC_KILLED" "lists_rep s Q'" "sched_rep s0 Q R"
    and "\<And>l. p \<notin> set (Q' l)" "\<And>q l. q \<noteq> p \<Longrightarrow> q \<in> set (Q' l) \<longleftrightarrow> q \<in> set (Q l)"
    and "\<And>q. pid_of s q = pid_of s0 q \<and> state_of s q = state_of s0 q"
  shows "\<exists>t. reap p s = Inr t \<and> sched_rep t Q' R \<and> files_inv t \<and> spaces_ok t \<and> process_table t p = zero_process \<and>
    current_process t = current_process s \<and> locks t = locks s \<and> (\<forall>q. live s q \<longrightarrow> q \<noteq> p \<longrightarrow> undisturbed s t q)"
proof -
  have lp: "live s p" using assms(3,4) by (simp add: live_def)
  obtain D C m where r: "reap p s = Inr (upd_process p (\<lambda>_. zero_process) (with_tables D C (s\<lparr>mem := m\<rparr>)))"
    "files_inv (upd_process p (\<lambda>_. zero_process) (with_tables D C (s\<lparr>mem := m\<rparr>)))"
    "released (proc_pages s p) {} s (s\<lparr>mem := m\<rparr>)"
    by (rule reap_run [OF assms(1-4)])
  define t where "t = upd_process p (\<lambda>_. zero_process) (with_tables D C (s\<lparr>mem := m\<rparr>))"
  have pt: "process_table t = (process_table s)(p := zero_process)" and cp: "current_process t = current_process s" "locks t = locks s"
    and hl: "head_lists t = head_lists s" and sk: "same_kernel (s\<lparr>mem := m\<rparr>) t"
    by (simp_all add: t_def with_tables_def same_kernel_def)
  have und: "undisturbed s t q" if "live s q" "q \<noteq> p" for q
    by (rule undisturbed_by_release [OF assms(1) lp that r(3)]) (use that sk pt in simp_all)
  have "lists_rep t Q'"
  proof -
    have "queue_rep (process_table t) (head_lists t l) (Q' l)" for l
      using queue_rep_cong [of "Q' l" "process_table t" "process_table s"] lists_repD(2) [OF assms(5), of l] assms(7) [of l] pt hl
      by (metis fun_upd_other)
    then show ?thesis using assms(5) cp by (simp add: lists_rep_def)
  qed
  moreover have "placed t Q' R p"
    using assms(7) sched_repD(4) [OF assms(6,3)] assms(4,9) pt list_state_used
    unfolding placed_def zero_process_def by auto
  ultimately have "sched_rep t Q' R"
    using assms(7-9) pt by (intro sched_rep_slot [OF assms(6) _ assms(3)]) auto
  moreover have "spaces_ok t"
  proof (rule spaces_update [OF assms(1), where q = p])
    show "kalloc_inv t" "start_of t = start_of s"
      using r(3) same_kernel_eqs(1,3) [OF sk] unfolding released_def by simp_all
    show "live s q \<and> undisturbed s t q" if "live t q" "q \<noteq> p" for q
      using that pt und [of q] by (simp add: live_def)
    show "space_ok t p \<and> (\<forall>q. live s q \<longrightarrow> q \<noteq> p \<longrightarrow> proc_pages t p \<inter> proc_pages s q = {})" if "live t p"
      using that pt by (simp add: live_def zero_process_def)
  qed
  ultimately show ?thesis using r(1,2) und pt cp unfolding t_def by auto
qed

lemma links_only_spaces:
  assumes "links_only s t" "spaces_ok s"
  shows "spaces_ok t" "proc_pages t p = proc_pages s p" "live t p = live s p"
  using spaces_same [OF assms(2) same_kernel_links [OF assms(1)]] links_only_fields(1-3) [OF assms(1)]
    links_onlyD(2) [OF assms(1)] by simp_all

lemma links_only_files: "links_only s t \<Longrightarrow> files_inv s \<Longrightarrow> files_inv t"
  using files_inv_cong [of s t] links_only_fields(4,6,7) [of s t] links_onlyD(6) [of s t] by (simp add: same_volume_def)

lemma undisturbed_same:
  assumes "same_kernel s s'" "process_table s' = process_table s"
  shows "undisturbed s' t q = undisturbed s t q" "undisturbed t s' q = undisturbed t s q"
proof -
  have "proc_pages s' q = proc_pages s q" using assms by (simp add: proc_pages_def same_kernel_def)
  then show "undisturbed s' t q = undisturbed s t q" "undisturbed t s' q = undisturbed t s q"
    using left_alone_same [OF assms(1) same_kernel_simps(1)] left_alone_same [OF same_kernel_simps(1) assms(1)] assms(2)
    by (simp_all add: undisturbed_def)
qed

lemma undisturbed_links:
  assumes "links_only s s'" "undisturbed s' t q" "spaces_ok s"
  shows "undisturbed s t q"
  using assms(2) links_only_fields(1-3) [OF assms(1)] links_only_spaces(2) [OF assms(1,3)]
    left_alone_same [OF same_kernel_links [OF assms(1)] same_kernel_simps(1)]
  by (simp add: undisturbed_def)

lemma list_empty_rep: "lists_rep s Q \<Longrightarrow> is_list_empty l s \<longleftrightarrow> Q l = []"
  using lists_repD(2) [of s Q l] by (cases "Q l") (simp_all add: is_list_empty_def queue_rep_def)

text \<open>The state in which \<open>wait\<close> holds the process lock.\<close>

lemma locked_state:
  assumes "sched_inv s Q R" "files_inv s" "spaces_ok s"
  defines "u \<equiv> s\<lparr>locks := (locks s)(Process_lock := True)\<rparr>"
  shows "spin_lock Process_lock s = Inr u" "sched_rep u Q R" "files_inv u" "spaces_ok u" "same_kernel s u" "same_kernel u s"
proof -
  show "same_kernel s u" "same_kernel u s" by (simp_all add: u_def same_kernel_def)
  show "spaces_ok u" by (rule spaces_same(1) [OF assms(3)]) (simp_all add: u_def)
  show "files_inv u" by (rule files_inv_cong [OF assms(2)]) (simp_all add: u_def same_volume_def)
qed (use sched_invD(1,3) [OF assms(1)] in \<open>simp_all add: u_def sched_rep_locks\<close>)

lemma wait_found:
  assumes "sched_inv s Q R" "files_inv s" "spaces_ok s"
    and "find (\<lambda>x. wait_of s x = pid) (Q (Killed c)) = Some p"
  shows "\<exists>t. wait_round c pid s = Inr (Reaped t) \<and> sched_inv t (Q(Killed c := remove1 p (Q (Killed c)))) R \<and>
    files_inv t \<and> spaces_ok t \<and> process_table t p = zero_process \<and> (\<forall>q. live s q \<longrightarrow> q \<noteq> p \<longrightarrow> undisturbed s t q)"
proof -
  define u where "u = s\<lparr>locks := (locks s)(Process_lock := True)\<rparr>"
  note U = locked_state [OF assms(1-3), folded u_def]
  let ?Q = "Q(Killed c := remove1 p (Q (Killed c)))"
  have pt: "process_table u = process_table s" "current_process u = current_process s"
    and lu: "locks u = (locks s)(Process_lock := True)" by (simp_all add: u_def)
  have p: "p \<in> set (Q (Killed c))" using assms(4) by (auto simp: find_Some_iff)
  have sl: "slot p" "fst p = c" using sched_repD(2,3) [OF U(2) p] by simp_all
  have st: "state_of u p = PROC_KILLED" using listed_state [OF U(2) p] by simp
  obtain v where v: "remove_list (Killed c) pid u = Inr (Some p, v)" "lists_rep v ?Q" "links_only u v"
    using remove_list_law [OF sched_repD(1) [OF U(2)], of "Killed c" pid] assms(4) pt by auto
  note V = links_onlyD [OF v(3)]
  have dis: "distinct (Q (Killed c))" using lists_repD [OF sched_repD(1) [OF U(2)]] by (auto simp: queue_rep_def)
  have only: "p \<notin> set (Q l)" if "l \<noteq> Killed c" for l
    using sched_repD(1) [OF U(2)] p that unfolding lists_rep_def by blast
  have "p \<notin> set (?Q l)" for l using only dis by (cases "l = Killed c") auto
  moreover have "q \<in> set (?Q l) \<longleftrightarrow> q \<in> set (Q l)" if "q \<noteq> p" for q l using that by (auto simp: in_set_remove1)
  ultimately obtain t where t: "reap p v = Inr t" "sched_rep t ?Q R" "files_inv t" "spaces_ok t" "process_table t p = zero_process"
      "current_process t = current_process v" "locks t = locks v" "\<forall>q. live v q \<longrightarrow> q \<noteq> p \<longrightarrow> undisturbed v t q"
    using reap_law [OF links_only_spaces(1) [OF v(3) U(4)] links_only_files [OF v(3) U(3)] sl(1) _ v(2) U(2)] V(2,3) st by auto
  let ?t = "spin_unlock Process_lock t"
  have ne: "\<not> is_list_empty (Killed c) u" 
    using p list_empty_rep [OF sched_repD(1) [OF U(2)]] by auto
  have run: "wait_round c pid s = Inr (Reaped ?t)"
    using U(1) v(1) t(1) ne by (simp add: wait_round_def)
  have sk: "same_kernel t ?t" by simp
  have "sched_inv ?t ?Q R"
    using t(2,6) V(4) pt(2) sched_invD(2) [OF assms(1)] by (simp add: sched_inv_def sched_rep_locks spin_unlock_def)
  moreover have "files_inv ?t" by (rule files_inv_cong [OF t(3)]) (simp_all add: same_volume_def spin_unlock_def)
  moreover have "spaces_ok ?t" by (rule spaces_same(1) [OF t(4)]) simp_all
  moreover have "undisturbed s ?t q" if "live s q" "q \<noteq> p" for q
  proof -
    have "live v q" using that(1) V(2) pt(1) by (simp add: live_def)
    then have "undisturbed v t q" using t(8) that(2) by blast
    then have "undisturbed u ?t q" using undisturbed_links [OF v(3) _ U(4)] undisturbed_same(2) [OF sk] by simp
    then show ?thesis using undisturbed_same [OF U(5) pt(1)] by simp
  qed
  ultimately show ?thesis using run t(5) by auto
qed

lemma wait_absent:
  assumes "sched_inv s Q R" "c < MAXCORES" "slot (R c)" "find (\<lambda>x. wait_of s x = pid) (Q (Killed c)) = None"
  shows "\<exists>f Q'. wait_round c pid s = Inr (Blocked f) \<and> sched_inv (settle f) Q' (R(c := pick_next c Q)) \<and>
    Q' (Waiting c) = Q (Waiting c) @ [R c] \<and> wait_of (settle f) (R c) = - 3 \<and> sched_frame s (settle f)"
proof -
  note D = sched_invD [OF assms(1)]
  define u where "u = s\<lparr>locks := (locks s)(Process_lock := True)\<rparr>"
  have U: "spin_lock Process_lock s = Inr u" "sched_rep u Q R" "process_table u = process_table s"
    using D(1,3) by (simp_all add: u_def sched_rep_locks)
  have unlock: "spin_unlock Process_lock u = s" using D(3) by (simp add: u_def)
  have "(if is_list_empty (Killed c) u then Inr (False, u)
      else rbind (remove_list (Killed c) pid u) (\<lambda>(q, s). case q of None \<Rightarrow> Inr (False, s)
        | Some process \<Rightarrow> rbind (reap process s) (\<lambda>s. Inr (True, s)))) = Inr (False, u)"
  proof (cases "Q (Killed c)")
    case Nil
    then show ?thesis using list_empty_rep [OF sched_repD(1) [OF U(2)]] by simp
  next
    case (Cons a list)
    have q: "queue_rep (process_table u) (head_lists u (Killed c)) (Q (Killed c))" 
      using lists_repD(2) [OF sched_repD(1) [OF U(2)]] .
    then have "chain (process_table u) (h_next (head_lists u (Killed c))) (Q (Killed c))" by (simp add: queue_rep_def)
    then have "remove_list (Killed c) pid u = Inr (None, u)"
      using scan_list_chain [of "process_table u" "h_next (head_lists u (Killed c))" "Q (Killed c)" pid None] assms(4) U(3)
      by (simp add: remove_list_def)
    then show ?thesis by simp
  qed
  then have run: "wait_round c pid s = rbind (sleep c (- 3) s) (\<lambda>f. Inr (Blocked f))"
    unfolding wait_round_def U(1) rbind_Inr using unlock by simp
  obtain f where f: "sleep c (- 3) s = Inr f" "sched_frame s (settle f)"
    "\<forall>p. wait_of (settle f) p = (if p = R c then - 3 else wait_of s p)"
    "sched_inv (settle f) (Q(Waiting c := Q (Waiting c) @ [R c], Ready c := tl (Q (Ready c)))) (R(c := pick_next c Q))"
    using sleep_law [OF assms(1-3), of "- 3"] by blast
  show ?thesis
    using run f by (intro exI [of _ f] exI conjI, simp) (assumption | simp)+
qed

end
