(* ===== verification/Process_Birth.thy ===== *)
theory Process_Birth
  imports Process_Correct
begin

text \<open>
  The memory side of a new process: \<open>alloc_new_process\<close> takes two pages, prepares the first as kernel
  stack with a trap frame and a first context, and clears the second as the root of its page
  tables.  All pages held before keep their contents.
\<close>

section \<open>Allocation on the kernel part of the state\<close>

lemma keeps_same:
  assumes "keeps_pages P s t" "same_kernel s s'"
  shows "keeps_pages P s' (s'\<lparr>mem := mem t\<rparr>)"
proof -
  have "t = s\<lparr>mem := mem t\<rparr>" using assms(1) unfolding keeps_pages_def by (elim conjE)
  then have sel: "locks t = locks s" "sym_end t = sym_end s" "sym_allocator t = sym_allocator s"
    by (metis kernel.select_convs kernel.surjective kernel.update_convs(1))+
  then have k: "same_kernel t (s'\<lparr>mem := mem t\<rparr>)" using assms(2) by (simp add: same_kernel_def)
  note e = same_kernel_eqs(1-4) [OF assms(2)] and f = same_kernel_eqs(1-4) [OF k]
  have "mem s' = mem s" using assms(2) by (simp add: same_kernel_def)
  then show ?thesis using assms(1) e f unfolding keeps_pages_def by simp
qed

lemma kalloc_run:
  assumes "kalloc_inv s" "0 < card (kavail s)"
  obtains p m where "kalloc s = Inr (p, s\<lparr>mem := m\<rparr>)" "p \<noteq> 0" "keeps_pages {} s (s\<lparr>mem := m\<rparr>)" "\<not> kowned s p"
    "kowned (s\<lparr>mem := m\<rparr>) p" "card (kavail s) \<le> card (kavail (s\<lparr>mem := m\<rparr>)) + 1"
    "\<And>x. in_range p (2 ^ 21) x \<Longrightarrow> m x = 0"
proof (cases rule: kalloc_keeps [OF assms(1)])
  case 1
  then show ?thesis using assms(2) by simp
next
  case (2 p t)
  have "t = s\<lparr>mem := mem t\<rparr>" using 2(3) unfolding keeps_pages_def by (elim conjE)
  moreover have "finite (kavail s)" using assms(2) card_gt_0_iff by blast
  ultimately show ?thesis
    using 2 card_remove_le [of "kavail s" "pn p"] by (intro that [of p "mem t"]) auto
qed

section \<open>The stack page\<close>

text \<open>The 64-bit words of a page.\<close>

definition page_word :: "u64 \<Rightarrow> nat \<Rightarrow> u64" where
  "page_word a k = a + 8 * of_nat k"

lemma page_word_in: "page_aligned a \<Longrightarrow> k < 2 ^ 18 \<Longrightarrow> in_range (page_word a k) 8 x \<Longrightarrow> in_range a (2 ^ 21) x"
  unfolding page_word_def by (rule page_of_word(2))

lemma page_words_apart:
  assumes "i < 2 ^ 18" "j < 2 ^ 18" "i \<noteq> j"
  shows "apart (page_word a i) 8 (page_word a j) 8"
proof -
  have up: "apart (page_word a i) 8 (page_word a j) 8" if "i < j" "j < 2 ^ 18" for i j
    using that by (subst apart_of_nat [where x = "8 * (j - i)"]) (auto simp: page_word_def of_nat_diff algebra_simps)
  show ?thesis using up assms by (metis linorder_neqE_nat apart_sym)
qed

lemma frame_words:
  "stk + PAGE_SIZE - TRAP_FRAME_SIZE - 12 * 8 + 11 * 8 = page_word stk (2 ^ 18 - 37)"
  "stk + PAGE_SIZE - TRAP_FRAME_SIZE + 31 * 8 = page_word stk (2 ^ 18 - 5)"
  "stk + PAGE_SIZE - TRAP_FRAME_SIZE + 34 * 8 = page_word stk (2 ^ 18 - 2)"
  "stk + PAGE_SIZE - TRAP_FRAME_SIZE + 35 * 8 = page_word stk (2 ^ 18 - 1)"
  "stk + PAGE_SIZE - TRAP_FRAME_SIZE + 8 * of_nat i = page_word stk (2 ^ 18 - 36 + i)"
  by (simp_all add: PAGE_SIZE_def TRAP_FRAME_SIZE_def page_word_def)

definition stack_mem :: "u64 \<Rightarrow> u64 \<Rightarrow> memory \<Rightarrow> memory" where
  "stack_mem stk entry m =
     store64 (store64 (store64 (store64 (memset m stk 0 (unat PAGE_SIZE)) (page_word stk (2 ^ 18 - 37)) entry)
       (page_word stk (2 ^ 18 - 2)) 0x400000) (page_word stk (2 ^ 18 - 5)) (0x400000 + PAGE_SIZE))
       (page_word stk (2 ^ 18 - 1)) 0"

lemma new_stack_eq:
  "new_stack p stk s =
     upd_process p (\<lambda>r. r\<lparr>pr_state := PROC_INIT, pr_pid := pid_num s,
         pr_context := stk + PAGE_SIZE - TRAP_FRAME_SIZE - 12 * 8, pr_tf := stk + PAGE_SIZE - TRAP_FRAME_SIZE\<rparr>)
       (s\<lparr>mem := stack_mem stk (sym_pstart s) (mem s), pid_num := pid_num s + 1\<rparr>)"
  unfolding new_stack_def stack_mem_def Let_def frame_words
  by (simp add: upd_process_def)

lemma stack_mem_outside:
  assumes "page_aligned stk" "\<not> in_range stk (2 ^ 21) x"
  shows "stack_mem stk entry m x = m x"
proof -
  have "\<not> in_range (page_word stk k) 8 x" if "k < 2 ^ 18" for k
    using page_word_in [OF assms(1) that] assms(2) by blast
  then show ?thesis
    using assms(2) unfolding stack_mem_def by (simp add: store64_outside memset_apply PAGE_SIZE_def)
qed

lemma stack_mem_words:
  "load64 (stack_mem stk entry m) (page_word stk (2 ^ 18 - 37)) = entry"
  "load64 (stack_mem stk entry m) (page_word stk (2 ^ 18 - 2)) = 0x400000"
  "load64 (stack_mem stk entry m) (page_word stk (2 ^ 18 - 5)) = 0x400000 + PAGE_SIZE"
  "load64 (stack_mem stk entry m) (page_word stk (2 ^ 18 - 1)) = 0"
  unfolding stack_mem_def by (simp_all add: load64_store64_apart page_words_apart)

lemma stack_mem_frame:
  assumes i: "i < 36"
  shows "load64 (stack_mem stk entry m) (stk + PAGE_SIZE - TRAP_FRAME_SIZE + 8 * of_nat i) =
    (if i = 34 then 0x400000 else if i = 31 then 0x600000 else 0)"
proof -
  let ?k = "2 ^ 18 - 36 + i"
  have "load64 (memset m stk 0 (unat PAGE_SIZE)) (page_word stk ?k) = 0"
  proof (rule load64_memset_inside)
    have "page_word stk ?k - stk = of_nat (8 * ?k)" by (simp add: page_word_def)
    moreover have "unat (of_nat (8 * ?k) :: u64) = 8 * ?k" using i by (intro unat_small) simp
    ultimately have "unat (page_word stk ?k - stk) = 8 * ?k" by metis
    then show "unat (page_word stk ?k - stk) + 8 \<le> unat PAGE_SIZE" using i by (simp add: PAGE_SIZE_def)
  qed (simp add: PAGE_SIZE_def)
  moreover have "apart (page_word stk (2 ^ 18 - 37)) 8 (page_word stk ?k) 8"
    "i \<noteq> 31 \<Longrightarrow> apart (page_word stk (2 ^ 18 - 5)) 8 (page_word stk ?k) 8"
    "i \<noteq> 34 \<Longrightarrow> apart (page_word stk (2 ^ 18 - 2)) 8 (page_word stk ?k) 8"
    "i \<noteq> 35 \<Longrightarrow> apart (page_word stk (2 ^ 18 - 1)) 8 (page_word stk ?k) 8"
    using i by (intro page_words_apart; simp)+
  moreover have "i = 31 \<or> i = 34 \<or> i = 35 \<or> i \<notin> {31, 34, 35}" by blast
  ultimately show ?thesis
    using i stack_mem_words [of stk entry m] unfolding frame_words(5)
    by (elim disjE) (simp_all add: stack_mem_def load64_store64_apart PAGE_SIZE_def)
qed

section \<open>alloc_new_process\<close>

text \<open>The new process, its two pages taken from \<open>s\<close>, with memory \<open>m\<close>.\<close>

definition born :: "pref \<Rightarrow> u64 \<Rightarrow> u64 \<Rightarrow> memory \<Rightarrow> string \<Rightarrow> 'a sys_scheme \<Rightarrow> 'a sys_scheme" where
  "born p stk pg m out s =
     upd_process p (\<lambda>r. r\<lparr>pr_stack := stk, pr_state := PROC_INIT, pr_pid := pid_num s,
         pr_context := stk + PAGE_SIZE - TRAP_FRAME_SIZE - 12 * 8, pr_tf := stk + PAGE_SIZE - TRAP_FRAME_SIZE,
         pr_page_map := pg\<rparr>)
       (s\<lparr>mem := m, console := out, pid_num := pid_num s + 1\<rparr>)"

lemma alloc_message_fits:
  "\<exists>out. format_spec alloc_message [Int_arg a, Int_arg b, Int_arg c, Int_arg d] = Some out \<and> length out \<le> 1024"
  using hex_length [of c] hex_length [of d] decimal_length [of a] decimal_length [of b]
  by (simp add: alloc_message_def conv_spec_def)

lemma printk_alloc_message:
  assumes "\<not> locks s Print_lock"
  shows "\<exists>n out. printk alloc_message [Int_arg a, Int_arg b, Int_arg c, Int_arg d] s = Inr (n, s\<lparr>console := console s @ out\<rparr>)"
  using alloc_message_fits [of a b c d] printk_fits [OF _ _ assms] by blast

lemma alloc_new_process_run:
  assumes "kalloc_inv s" "2 \<le> card (kavail s)" "\<not> locks s Pid_lock" "\<not> locks s Print_lock"
    and "find_unused_process (if cur = - 1 then cpu else nat cur) s = Some p"
  obtains stk pg m out where "alloc_new_process cpu cur s = Inr (Some p, born p stk pg m out s)"
    "keeps_pages {} s (s\<lparr>mem := m\<rparr>)" "\<not> kowned s stk" "\<not> kowned s pg" "stk \<noteq> pg"
    "kowned (s\<lparr>mem := m\<rparr>) stk" "kowned (s\<lparr>mem := m\<rparr>) pg"
    "card (kavail s) \<le> card (kavail (s\<lparr>mem := m\<rparr>)) + 2" "\<And>x. in_range pg (2 ^ 21) x \<Longrightarrow> m x = 0"
    "load64 m (page_word stk (2 ^ 18 - 37)) = sym_pstart s"
    "\<And>i. i < 36 \<Longrightarrow> load64 m (stk + PAGE_SIZE - TRAP_FRAME_SIZE + 8 * of_nat i) = (if i = 34 then 0x400000 else if i = 31 then 0x600000 else 0)"
proof -
  let ?l = "\<lambda>u. u\<lparr>locks := (locks s)(Pid_lock := True)\<rparr>"
  have sl: "same_kernel s (?l s)" by (simp add: same_kernel_def)
  note el = same_kernel_eqs(1-4) [OF sl]
  have pre: "kalloc_inv (?l s)" "0 < card (kavail (?l s))" using assms(1,2) el(1,2) by simp_all
  obtain stk m1 where a: "kalloc (?l s) = Inr (stk, ?l s\<lparr>mem := m1\<rparr>)" "stk \<noteq> 0" "keeps_pages {} (?l s) (?l s\<lparr>mem := m1\<rparr>)"
      "\<not> kowned (?l s) stk" "kowned (?l s\<lparr>mem := m1\<rparr>) stk" "card (kavail (?l s)) \<le> card (kavail (?l s\<lparr>mem := m1\<rparr>)) + 1"
      "\<And>x. in_range stk (2 ^ 21) x \<Longrightarrow> m1 x = 0"
    by (rule kalloc_run [OF pre]) (rule that)
  have sa: "same_kernel (s\<lparr>mem := m1\<rparr>) (?l s\<lparr>mem := m1\<rparr>)" by (simp add: same_kernel_def)
  note ea = same_kernel_eqs(1-4) [OF sa]
  have K1: "keeps_pages {} s (s\<lparr>mem := m1\<rparr>)"
    using keeps_same [OF a(3), of s] sl by (simp add: same_kernel_def)
  define m2 where "m2 = stack_mem stk (sym_pstart s) m1"
  have i1: "kalloc_inv (s\<lparr>mem := m1\<rparr>)" and o1: "kowned (s\<lparr>mem := m1\<rparr>) stk"
    using K1 a(5) ea by (simp_all add: keeps_pages_def)
  have al: "page_aligned stk" using region_bound(3) [OF kowned_region [OF o1]] .
  have K2: "keeps_pages {stk} (s\<lparr>mem := m1\<rparr>) (s\<lparr>mem := m2\<rparr>)" "kavail (s\<lparr>mem := m2\<rparr>) = kavail (s\<lparr>mem := m1\<rparr>)"
    using write_keeps [OF i1 o1, of m2] stack_mem_outside [OF al] by (simp_all add: m2_def)
  define b where "b = new_stack p stk (upd_process p (\<lambda>r. r\<lparr>pr_stack := stk\<rparr>) (?l s\<lparr>mem := m1\<rparr>))"
  have b: "b = upd_process p (\<lambda>r. r\<lparr>pr_stack := stk, pr_state := PROC_INIT, pr_pid := pid_num s,
         pr_context := stk + PAGE_SIZE - TRAP_FRAME_SIZE - 12 * 8, pr_tf := stk + PAGE_SIZE - TRAP_FRAME_SIZE\<rparr>)
       (?l s\<lparr>mem := m2, pid_num := pid_num s + 1\<rparr>)"
    by (simp add: b_def new_stack_eq m2_def upd_process_def)
  have sb: "same_kernel (s\<lparr>mem := m2\<rparr>) b" by (simp add: b same_kernel_def)
  note eb = same_kernel_eqs(1-4) [OF sb]
  have i2: "kalloc_inv (s\<lparr>mem := m2\<rparr>)" using K2(1) by (simp add: keeps_pages_def)
  have pre2: "kalloc_inv b" "0 < card (kavail b)" using i2 assms(2) a(6) eb(1,2) ea(2) el(2) K2(2) by simp_all
  obtain pg m3 where c: "kalloc b = Inr (pg, b\<lparr>mem := m3\<rparr>)" "pg \<noteq> 0" "keeps_pages {} b (b\<lparr>mem := m3\<rparr>)"
      "\<not> kowned b pg" "kowned (b\<lparr>mem := m3\<rparr>) pg" "card (kavail b) \<le> card (kavail (b\<lparr>mem := m3\<rparr>)) + 1"
      "\<And>x. in_range pg (2 ^ 21) x \<Longrightarrow> m3 x = 0"
    by (rule kalloc_run [OF pre2]) (rule that)
  have sc: "same_kernel (s\<lparr>mem := m3\<rparr>) (b\<lparr>mem := m3\<rparr>)" by (simp add: b same_kernel_def)
  note ec = same_kernel_eqs(1-4) [OF sc]
  have K3: "keeps_pages {} (s\<lparr>mem := m2\<rparr>) (s\<lparr>mem := m3\<rparr>)"
    using keeps_same [OF c(3), of "s\<lparr>mem := m2\<rparr>"] sb by (simp add: same_kernel_def)
  have "memset m3 pg 0 (unat PAGE_SIZE) = m3"
    using c(7) by (intro ext) (simp add: memset_apply PAGE_SIZE_def)
  obtain n out where p: "printk alloc_message [Int_arg (of_nat cpu), Int_arg (scast (pid_num s)), Int_arg pg, Int_arg stk]
      (upd_process p (\<lambda>r. r\<lparr>pr_page_map := pg\<rparr>) (b\<lparr>mem := m3\<rparr>)) =
      Inr (n, (upd_process p (\<lambda>r. r\<lparr>pr_page_map := pg\<rparr>) (b\<lparr>mem := m3\<rparr>))\<lparr>console := out\<rparr>)"
    using printk_alloc_message [of "upd_process p (\<lambda>r. r\<lparr>pr_page_map := pg\<rparr>) (b\<lparr>mem := m3\<rparr>)"] assms(4)
    by (fastforce simp: b)
  show ?thesis
  proof (rule that)
    show "alloc_new_process cpu cur s = Inr (Some p, born p stk pg m3 out s)"
      using assms(3,5) a(1,2) c(1,2) p \<open>memset m3 pg 0 _ = m3\<close>
      by (simp add: alloc_new_process_def born_def b_def [symmetric] Let_def) (simp add: b upd_process_def spin_unlock_def fun_upd_idem)
    have K12: "keeps_pages {} s (s\<lparr>mem := m2\<rparr>)"
      by (rule keeps_trans [OF K1 K2(1)]) (use a(4) el in auto)
    show K: "keeps_pages {} s (s\<lparr>mem := m3\<rparr>)" by (rule keeps_trans [OF K12 K3]) auto
    show "\<not> kowned s stk" using a(4) el by simp
    show "\<not> kowned s pg" using c(4) eb keeps_owned [OF K12] by auto
    have o2: "kowned (s\<lparr>mem := m2\<rparr>) stk" using keeps_owned [OF K2(1) o1] .
    then show "stk \<noteq> pg" using c(4) eb by auto
    show "kowned (s\<lparr>mem := m3\<rparr>) stk" using keeps_owned [OF K3 o2] .
    show "kowned (s\<lparr>mem := m3\<rparr>) pg" using c(5) ec by simp
    show "card (kavail s) \<le> card (kavail (s\<lparr>mem := m3\<rparr>)) + 2" using a(6) c(6) el(2) ea(2) eb(2) ec(2) K2(2) by simp
    show "m3 x = 0" if "in_range pg (2 ^ 21) x" for x using c(7) that .
    have same: "m3 x = m2 x" if "in_range stk (2 ^ 21) x" for x using K3 o2 that by (simp add: keeps_pages_def)
    then have "load64 m3 (page_word stk (2 ^ 18 - 37)) = load64 m2 (page_word stk (2 ^ 18 - 37))"
      using page_word_in [OF al, of "2 ^ 18 - 37"] by (intro load64_cong) auto
    then show "load64 m3 (page_word stk (2 ^ 18 - 37)) = sym_pstart s"
      unfolding m2_def stack_mem_words .
    show "load64 m3 (stk + PAGE_SIZE - TRAP_FRAME_SIZE + 8 * of_nat i) = (if i = 34 then 0x400000 else if i = 31 then 0x600000 else 0)"
      if "i < 36" for i
    proof -
      have "load64 m3 (page_word stk (2 ^ 18 - 36 + i)) = load64 m2 (page_word stk (2 ^ 18 - 36 + i))"
        using same page_word_in [OF al, of "2 ^ 18 - 36 + i"] that by (intro load64_cong) auto
      then show ?thesis using stack_mem_frame [OF that] unfolding frame_words(5) m2_def by simp
    qed
  qed
qed

end
