(* ===== verification/Process_Fork.thy ===== *)
theory Process_Fork
  imports Process_Birth
begin

text \<open>
  \<open>fork\<close> as a whole: the memory of the child, its handles, its slot and its place on the ready list,
  and what all other processes keep.
\<close>

section \<open>The memory\<close>

text \<open>
  Memory \<open>m\<close> after \<open>alloc_new_process\<close>, \<open>m1\<close> after \<open>copy_uvm\<close>, \<open>m2\<close> after the trap frame is copied.
\<close>

definition child_frame :: "u64 \<Rightarrow> u64 \<Rightarrow> memory \<Rightarrow> memory" where
  "child_frame tf ptf m = store64 (memcpy m tf ptf (unat TRAP_FRAME_SIZE)) tf 0"

lemma page_end: "kowned s a \<Longrightarrow> unat a + 2 ^ 21 \<le> unat MEMORY_END"
  using region_bound(1) kowned_region by blast

lemma frame_in_page:
  assumes "page_aligned a"
  shows "in_range (a + PAGE_SIZE - TRAP_FRAME_SIZE) 288 x \<Longrightarrow> in_range a (2 ^ 21) x"
proof -
  assume x: "in_range (a + PAGE_SIZE - TRAP_FRAME_SIZE) 288 x"
  have "x - a = (x - (a + PAGE_SIZE - TRAP_FRAME_SIZE)) + of_nat (2 ^ 21 - 288)"
    by (simp add: PAGE_SIZE_def TRAP_FRAME_SIZE_def)
  moreover have "unat ((x - (a + PAGE_SIZE - TRAP_FRAME_SIZE)) + of_nat (2 ^ 21 - 288)) =
      unat (x - (a + PAGE_SIZE - TRAP_FRAME_SIZE)) + (2 ^ 21 - 288)"
    using x by (intro unat_plus_of_nat) (simp add: in_range_def)
  ultimately show ?thesis using x by (simp only: in_range_def) simp
qed

lemma frame_word_in: "i < 36 \<Longrightarrow> in_range (tf + 8 * of_nat i) 8 x \<Longrightarrow> in_range tf 288 x"
proof -
  assume a: "i < 36" "in_range (tf + 8 * of_nat i) 8 x"
  have "x - tf = (x - (tf + 8 * of_nat i)) + of_nat (8 * i)" by simp
  moreover have "unat ((x - (tf + 8 * of_nat i)) + of_nat (8 * i)) = unat (x - (tf + 8 * of_nat i)) + 8 * i"
    using a by (intro unat_plus_of_nat) (simp add: in_range_def)
  ultimately show ?thesis using a by (simp only: in_range_def)
qed

lemma frame_addr:
  assumes "kowned s a"
  shows "unat (a + PAGE_SIZE - TRAP_FRAME_SIZE) + 288 \<le> 2 ^ 64"
proof -
  have e: "a + PAGE_SIZE - TRAP_FRAME_SIZE = a + of_nat (2 ^ 21 - 288)" by (simp add: PAGE_SIZE_def TRAP_FRAME_SIZE_def)
  have "unat (a + of_nat (2 ^ 21 - 288)) = unat a + (2 ^ 21 - 288)"
    using page_end [OF assms] by (intro unat_plus_of_nat) (simp add: MEMORY_END_def P2V_def KERNEL_BASE_def)
  then show ?thesis unfolding e using page_end [OF assms] by (simp add: MEMORY_END_def P2V_def KERNEL_BASE_def)
qed

lemma child_frame_spec:
  assumes "kowned s a" "kowned s b"
  defines "tf \<equiv> a + PAGE_SIZE - TRAP_FRAME_SIZE" and "ptf \<equiv> b + PAGE_SIZE - TRAP_FRAME_SIZE"
  shows "\<not> in_range tf 288 x \<Longrightarrow> child_frame tf ptf m x = m x"
    "i < 36 \<Longrightarrow> load64 (child_frame tf ptf m) (tf + 8 * of_nat i) = (if i = 0 then 0 else load64 m (ptf + 8 * of_nat i))"
proof -
  have n: "unat TRAP_FRAME_SIZE = 288" by (simp add: TRAP_FRAME_SIZE_def)
  have bd: "unat ptf + 288 \<le> 2 ^ 64" "unat tf + 288 \<le> 2 ^ 64"
    using frame_addr [OF assms(1)] frame_addr [OF assms(2)] by (simp_all add: tf_def ptf_def)
  have cp: "memcpy m tf ptf 288 x = (if in_range tf 288 x then m (ptf + (x - tf)) else m x)" for x
    by (rule memcpy_apply [OF bd]) simp
  have st: "\<not> in_range tf 8 x" if "\<not> in_range tf 288 x" for x using that by (simp add: in_range_def)
  show "child_frame tf ptf m x = m x" if "\<not> in_range tf 288 x"
    using cp [of x] that st [OF that] by (simp add: child_frame_def n store64_outside)
  show "load64 (child_frame tf ptf m) (tf + 8 * of_nat i) = (if i = 0 then 0 else load64 m (ptf + 8 * of_nat i))" if i: "i < 36"
  proof (cases "i = 0")
    case True
    then show ?thesis by (simp add: child_frame_def)
  next
    case False
    have "apart tf 8 (tf + 8 * of_nat i) 8"
      using False i by (subst apart_of_nat [where x = "8 * i"]) simp_all
    then have "load64 (child_frame tf ptf m) (tf + 8 * of_nat i) = load64 (memcpy m tf ptf 288) (tf + 8 * of_nat i)"
      by (simp add: child_frame_def n load64_store64_apart)
    also have "\<dots> = load64 m (ptf + 8 * of_nat i)"
      unfolding load64_def
    proof (rule arg_cong [where f = le_word], rule nth_equalityI)
      fix j assume "j < length (load_bytes (memcpy m tf ptf 288) (tf + 8 * of_nat i) 8)"
      then have j: "j < 8" by simp
      have "in_range tf 288 (tf + of_nat (8 * i + j))"
        using i j by (simp add: in_range_def unat_of_nat take_bit_nat_eq_self del: of_nat_add of_nat_mult)
      then have "memcpy m tf ptf 288 (tf + of_nat (8 * i + j)) = m (ptf + of_nat (8 * i + j))"
        using cp [of "tf + of_nat (8 * i + j)"] by simp
      then show "load_bytes (memcpy m tf ptf 288) (tf + 8 * of_nat i) 8 ! j = load_bytes m (ptf + 8 * of_nat i) 8 ! j"
        using j by (simp add: add.assoc)
    qed simp
    finally show ?thesis using False by simp
  qed
qed

lemma copy_uvm_on:
  assumes "same_kernel s u" "vm_full pg s" "data_page (mem s) pg = Map.empty" "tables (mem s) pg = {pg}"
    and "vm_full r s" "data_page (mem s) r (vm_index 0x400000) = Some d" "3 \<le> card (kavail s)"
  obtains m1 p where "copy_uvm pg r (unat PAGE_SIZE) u = Inr (True, u\<lparr>mem := m1\<rparr>)" "vm_full pg (s\<lparr>mem := m1\<rparr>)"
    "keeps_pages {pg} s (s\<lparr>mem := m1\<rparr>)" "\<forall>q \<in> tables m1 pg. kowned s q \<longrightarrow> q = pg"
    "\<not> kowned s p" "data_page m1 pg = [vm_index 0x400000 \<mapsto> p]"
    "\<And>x. in_range p (2 ^ 21) x \<Longrightarrow> m1 x = mem s (d + (x - p))"
proof -
  have mu: "mem u = mem s" using assms(1) by (simp add: same_kernel_def)
  note e = same_kernel_eqs [OF assms(1)]
  have ps: "unat PAGE_SIZE = 2 ^ 21" by (simp add: PAGE_SIZE_def)
  have pre: "vm_full pg u" "vm_full r u" "data_page (mem u) r (vm_index 0x400000) = Some d"
    "data_page (mem u) pg (vm_index 0x400000) = None" "unat PAGE_SIZE \<le> 2 ^ 21"
    using assms(2,3,5,6) e(5) mu ps by simp_all
  obtain b t where t: "copy_uvm pg r (unat PAGE_SIZE) u = Inr (b, t)" "vm_full pg t" "keeps_pages (tables (mem u) pg) u t"
      "\<forall>q \<in> tables (mem t) pg. kowned u q \<longrightarrow> q \<in> tables (mem u) pg" "b \<or> card (kavail u) \<le> 2"
      "b \<longrightarrow> (\<exists>p. \<not> kowned u p \<and> kowned t p \<and> data_page (mem t) pg = (data_page (mem u) pg)(vm_index 0x400000 \<mapsto> p) \<and>
        vm_entry (mem t) pg (vm_index 0x400000) = V2P p OR user_attribute \<and>
        (\<forall>x. in_range p (2 ^ 21) x \<longrightarrow> mem t x = (if in_range p (unat PAGE_SIZE) x then mem u (d + (x - p)) else 0)))"
    using copy_uvm_full [OF pre] by metis
  have b: "b" using t(5) assms(7) e(2) by simp
  have run: "copy_uvm pg r (unat PAGE_SIZE) u = Inr (True, t)" using t(1) b by simp
  have tu: "t = u\<lparr>mem := mem t\<rparr>" using t(3) unfolding keeps_pages_def by (elim conjE)
  have run': "copy_uvm pg r (unat PAGE_SIZE) u = Inr (True, u\<lparr>mem := mem t\<rparr>)"
    by (rule trans [OF run arg_cong [OF tu, of "\<lambda>t. Inr (True, t)"]])
  have su: "same_kernel u s" using assms(1) by (simp add: same_kernel_def)
  have K: "keeps_pages {pg} s (s\<lparr>mem := mem t\<rparr>)"
    using keeps_same [OF t(3) su] mu assms(4) by simp
  have "same_kernel (s\<lparr>mem := mem t\<rparr>) (u\<lparr>mem := mem t\<rparr>)" using assms(1) by (simp add: same_kernel_def)
  from same_kernel_eqs(5) [OF this, of pg] have V: "vm_full pg (s\<lparr>mem := mem t\<rparr>)"
    using t(2) unfolding tu [symmetric] by simp
  obtain p where p: "\<not> kowned u p" "data_page (mem t) pg = (data_page (mem u) pg)(vm_index 0x400000 \<mapsto> p)"
      "\<And>x. in_range p (2 ^ 21) x \<Longrightarrow> mem t x = mem u (d + (x - p))"
    using t(6) b unfolding ps by auto
  show ?thesis
  proof (rule that [of "mem t" p, OF _ V K])
    show "copy_uvm pg r (unat PAGE_SIZE) u = Inr (True, u\<lparr>mem := mem t\<rparr>)"
      by (rule run')
    show "\<forall>q \<in> tables (mem t) pg. kowned s q \<longrightarrow> q = pg"
    proof (intro ballI impI)
      fix q assume q: "q \<in> tables (mem t) pg" "kowned s q"
      then have "kowned u q" using fun_cong [OF e(4), of q] by simp
      then have "q \<in> tables (mem u) pg" using t(4) q(1) by blast
      then show "q = pg" using assms(4) mu by simp
    qed
    show "\<not> kowned s p" using p(1) e(4) by simp
    show "data_page (mem t) pg = [vm_index 0x400000 \<mapsto> p]" using p(2) assms(3) mu by simp
    show "mem t x = mem s (d + (x - p))" if "in_range p (2 ^ 21) x" for x using p(3) [OF that] mu by simp
  qed
qed

lemma fork_memory:
  assumes sp: "space_ok s P" "kalloc_inv s" "KERNEL_BASE \<le> start_of s"
    and d: "data_page (mem s) (map_of_process s P) (vm_index 0x400000) = Some d"
    and K: "keeps_pages {} s (s\<lparr>mem := m\<rparr>)" and new: "\<not> kowned s stk" "\<not> kowned s pg" "stk \<noteq> pg"
    and own: "kowned (s\<lparr>mem := m\<rparr>) stk" "kowned (s\<lparr>mem := m\<rparr>) pg" and z: "\<And>x. in_range pg (2 ^ 21) x \<Longrightarrow> m x = 0"
    and card: "3 \<le> card (kavail (s\<lparr>mem := m\<rparr>))" and u: "same_kernel (s\<lparr>mem := m\<rparr>) u"
  obtains m1 where "copy_uvm pg (map_of_process s P) (unat PAGE_SIZE) u = Inr (True, u\<lparr>mem := m1\<rparr>)"
    "keeps_pages {} s (s\<lparr>mem := m1\<rparr>)" "kowned (s\<lparr>mem := m1\<rparr>) stk" "\<And>x. in_range stk (2 ^ 21) x \<Longrightarrow> m1 x = m x"
    "vm_full pg (s\<lparr>mem := m1\<rparr>)" "\<And>a. a \<in> vm_pages m1 pg \<Longrightarrow> \<not> kowned s a \<and> a \<noteq> stk"
    "\<And>v. vm_index v = vm_index 0x400000 \<Longrightarrow> user_byte (s\<lparr>mem := m1\<rparr>) pg v = user_byte s (map_of_process s P) v"
proof -
  let ?r = "map_of_process s P" and ?s = "s\<lparr>mem := m\<rparr>"
  note D = space_okD [OF sp(1)]
  have i: "kalloc_inv ?s" "start_of ?s = start_of s" using K by (simp_all add: keeps_pages_def)
  have pg: "vm_full pg ?s" "data_page (mem ?s) pg = Map.empty" "tables (mem ?s) pg = {pg}"
    using vm_full_fresh [of ?s pg] i sp(3) own(2) z by simp_all
  have "left_alone (vm_pages (mem s) ?r) s ?s" by (rule left_alone_keeps [OF K]) (use vm_pages_owned [OF D(2)] in auto)
  note L = left_alone_space [OF D(2) this]
  have d': "data_page (mem ?s) ?r (vm_index 0x400000) = Some d" using L(4) d by simp
  obtain m1 p where c: "copy_uvm pg ?r (unat PAGE_SIZE) u = Inr (True, u\<lparr>mem := m1\<rparr>)" "vm_full pg (?s\<lparr>mem := m1\<rparr>)"
    "keeps_pages {pg} ?s (?s\<lparr>mem := m1\<rparr>)" "\<forall>q \<in> tables m1 pg. kowned ?s q \<longrightarrow> q = pg"
    "\<not> kowned ?s p" "data_page m1 pg = [vm_index 0x400000 \<mapsto> p]"
    "\<And>x. in_range p (2 ^ 21) x \<Longrightarrow> m1 x = mem ?s (d + (x - p))"
    by (rule copy_uvm_on [OF u pg L(1) d' card]) (rule that)
  have e: "?s\<lparr>mem := m1\<rparr> = s\<lparr>mem := m1\<rparr>" by simp
  have V: "vm_full pg (s\<lparr>mem := m1\<rparr>)" using c(2) by simp
  have c3: "keeps_pages {pg} ?s (s\<lparr>mem := m1\<rparr>)" using c(3) by simp
  have pages: "a = pg \<or> \<not> kowned ?s a" if "a \<in> vm_pages m1 pg" for a
    using that c(4,5,6) by (auto simp: vm_pages_eq split: if_splits)
  show ?thesis
  proof (rule that [OF c(1) _ _ _ V])
    show "keeps_pages {} s (s\<lparr>mem := m1\<rparr>)" by (rule keeps_trans [OF K c3]) (use new(2) in auto)
    show "kowned (s\<lparr>mem := m1\<rparr>) stk" using keeps_owned [OF c3 own(1)] .
    show "m1 x = m x" if "in_range stk (2 ^ 21) x" for x
      using c3 own(1) new(3) that unfolding keeps_pages_def by auto
    show "\<not> kowned s a \<and> a \<noteq> stk" if "a \<in> vm_pages m1 pg" for a
      using pages [OF that] keeps_owned [OF K, of a] own(1) new(2,3) by auto
    fix v assume v: "vm_index v = vm_index 0x400000"
    have "user_byte (s\<lparr>mem := m1\<rparr>) pg v = Some (m1 (p + (v AND mask 21)))"
      using user_byte_data [OF V, of v p] c(6) v by simp
    also have "\<dots> = Some (mem ?s (d + (v AND mask 21)))" using c(7) [OF in_page_offset] by simp
    also have "\<dots> = user_byte ?s ?r v" using user_byte_data [OF L(1), of v d] d' v by simp
    also have "\<dots> = user_byte s ?r v" by (rule L(3))
    finally show "user_byte (s\<lparr>mem := m1\<rparr>) pg v = user_byte s ?r v" .
  qed
qed

text \<open>The same memory after the trap frame has been copied onto the child's stack.\<close>

lemma fork_frame:
  assumes K: "keeps_pages {} s (s\<lparr>mem := m1\<rparr>)" and st: "\<not> kowned s stk" "kowned (s\<lparr>mem := m1\<rparr>) stk" and P: "kowned s b"
    and V: "vm_full pg (s\<lparr>mem := m1\<rparr>)" "\<forall>a \<in> vm_pages m1 pg. \<not> kowned s a \<and> a \<noteq> stk"
  defines "tf \<equiv> stk + PAGE_SIZE - TRAP_FRAME_SIZE" and "ptf \<equiv> b + PAGE_SIZE - TRAP_FRAME_SIZE"
  defines "m2 \<equiv> child_frame tf ptf m1"
  shows "keeps_pages {} s (s\<lparr>mem := m2\<rparr>)" "kowned (s\<lparr>mem := m2\<rparr>) stk" "vm_full pg (s\<lparr>mem := m2\<rparr>)"
    "vm_pages m2 pg = vm_pages m1 pg" "user_byte (s\<lparr>mem := m2\<rparr>) pg v = user_byte (s\<lparr>mem := m1\<rparr>) pg v"
    "i < 36 \<Longrightarrow> load64 m2 (tf + 8 * of_nat i) = (if i = 0 then 0 else load64 (mem s) (ptf + 8 * of_nat i))"
    "load64 m2 (page_word stk (2 ^ 18 - 37)) = load64 m1 (page_word stk (2 ^ 18 - 37))"
proof -
  let ?s = "s\<lparr>mem := m1\<rparr>"
  have al: "page_aligned stk" "page_aligned b" using region_bound(3) kowned_region st(2) P by blast+
  note F = child_frame_spec [OF st(2), where b = b, folded tf_def ptf_def]
  have b: "kowned ?s b" using keeps_owned [OF K P] .
  have out: "m2 x = m1 x" if "\<not> in_range stk (2 ^ 21) x" for x
    unfolding m2_def using F(1) [OF b] frame_in_page [OF al(1)] that unfolding tf_def by blast
  have ki: "kalloc_inv ?s" using K by (simp add: keeps_pages_def)
  have W: "keeps_pages {stk} ?s (s\<lparr>mem := m2\<rparr>)" using write_keeps(1) [OF ki st(2), of m2] out by simp
  show "keeps_pages {} s (s\<lparr>mem := m2\<rparr>)" by (rule keeps_trans [OF K W]) (use st(1) in auto)
  show "kowned (s\<lparr>mem := m2\<rparr>) stk" using keeps_owned [OF W st(2)] .
  have "left_alone (vm_pages (mem ?s) pg) ?s (s\<lparr>mem := m2\<rparr>)"
    by (rule left_alone_keeps [OF W]) (use vm_pages_owned [OF V(1)] V(2) in auto)
  note L = left_alone_space [OF V(1) this]
  show "vm_full pg (s\<lparr>mem := m2\<rparr>)" "vm_pages m2 pg = vm_pages m1 pg"
    "user_byte (s\<lparr>mem := m2\<rparr>) pg v = user_byte ?s pg v" using L(1-3) by simp_all
  show "load64 m2 (tf + 8 * of_nat i) = (if i = 0 then 0 else load64 (mem s) (ptf + 8 * of_nat i))" if i: "i < 36"
  proof -
    have "m1 x = mem s x" if "in_range (ptf + 8 * of_nat i) 8 x" for x
      using K P frame_in_page [OF al(2), of x] frame_word_in [OF i that] unfolding keeps_pages_def ptf_def by auto
    then have "load64 m1 (ptf + 8 * of_nat i) = load64 (mem s) (ptf + 8 * of_nat i)" by (rule load64_cong)
    then show ?thesis using F(2) [OF b i] by (simp add: m2_def)
  qed
  show "load64 m2 (page_word stk (2 ^ 18 - 37)) = load64 m1 (page_word stk (2 ^ 18 - 37))"
  proof (rule load64_cong)
    fix x assume x: "in_range (page_word stk (2 ^ 18 - 37)) 8 x"
    have "tf = page_word stk (2 ^ 18 - 37) + of_nat 8" by (simp add: tf_def page_word_def PAGE_SIZE_def TRAP_FRAME_SIZE_def)
    then have "apart (page_word stk (2 ^ 18 - 37)) 8 tf 288" by (subst apart_of_nat [where x = 8]) simp_all
    then have "\<not> in_range tf 288 x" using apart_disjoint apart_sym x by blast
    then show "m2 x = m1 x" unfolding m2_def by (rule F(1) [OF b])
  qed
qed

section \<open>The steps of the code\<close>

lemma debug_messages:
  assumes "\<not> locks s Print_lock"
  shows "\<exists>out. debug_spinlock ''src/process.c'' k s = Inr (s\<lparr>console := out\<rparr>)"
    "\<exists>out. debug_spinunlock ''src/process.c'' k s = Inr (s\<lparr>console := out\<rparr>)"
proof -
  have "\<exists>out. format_spec (''debug_spinlock[%s:  %u]'' @ crlf) [Str_arg ''src/process.c'', Int_arg k] = Some out \<and> length out \<le> 1024"
    "\<exists>out. format_spec (''debug_spinunlock[%s: %u]'' @ crlf) [Str_arg ''src/process.c'', Int_arg k] = Some out \<and> length out \<le> 1024"
    using udecimal_length [of k] by (simp_all add: conv_spec_def crlf_def)
  then show "\<exists>out. debug_spinlock ''src/process.c'' k s = Inr (s\<lparr>console := out\<rparr>)"
    "\<exists>out. debug_spinunlock ''src/process.c'' k s = Inr (s\<lparr>console := out\<rparr>)"
    using printk_fits [OF _ _ assms] unfolding debug_spinlock_def debug_spinunlock_def by fastforce+
qed

lemma fork_message:
  assumes "\<not> locks s Print_lock"
  shows "\<exists>n out. printk (''[Core %d] Fork: PID %d cloning PageMap: 0x%x'' @ [CHR 0x0A]) [Int_arg a, Int_arg b, Int_arg c] s =
    Inr (n, s\<lparr>console := out\<rparr>)"
proof -
  have "\<exists>out. format_spec (''[Core %d] Fork: PID %d cloning PageMap: 0x%x'' @ [CHR 0x0A]) [Int_arg a, Int_arg b, Int_arg c] = Some out \<and>
      length out \<le> 1024"
    using hex_length [of c] decimal_length [of a] decimal_length [of b] by (simp add: conv_spec_def)
  then show ?thesis using printk_fits [OF _ _ assms] by blast
qed

lemma unused_slot:
  assumes "find_unused_process c s = Some p" "c < MAXCORES"
  shows "slot p" "fst p = c" "state_of s p = PROC_UNUSED"
  using assms by (auto simp: find_unused_process_def find_Some_iff slot_def)

lemma first_file_name:
  assumes "files_inv s" "fst P < MAXCORES" "snd P < NUM_PROC" "F = pr_file (process_table s P)"
    and "pr_file (process_table v p) = F" "file_desc_table v = file_desc_table s"
  shows "\<exists>name. (case pr_file (process_table v p) ! 0 of None \<Rightarrow> Inr (literal_bytes v ''unknown'' 8)
      | Some f \<Rightarrow> rbind (fcb_at v f) (\<lambda>c. Inr (fc_name (fcb_table v c)))) = Inr name"
proof (cases "F ! 0")
  case None
  then show ?thesis using assms(5) by simp
next
  case (Some f)
  then have "fd_fcb (file_desc_table s f) \<noteq> None"
    using files_invD(2) [OF assms(1), of "(P, 0)" f] assms(2-4) by (simp add: handles_def handle_at_def)
  then show ?thesis using Some assms(5,6) by (auto simp: fcb_at_def)
qed

text \<open>What \<open>fork\<close> leaves: the child \<open>p\<close> of \<open>P\<close>.\<close>

definition forked :: "'a sys_scheme \<Rightarrow> 'a sys_scheme \<Rightarrow> pref \<Rightarrow> pref \<Rightarrow> bool" where
  "forked s t P p \<longleftrightarrow>
     pid_of t p = pid_num s \<and> pid_num t = pid_num s + 1 \<and>
     pr_file (process_table t p) = pr_file (process_table s P) \<and>
     (\<forall>v. vm_index v = vm_index 0x400000 \<longrightarrow> user_byte t (map_of_process t p) v = user_byte s (map_of_process s P) v) \<and>
     (\<forall>i < 36. load64 (mem t) (pr_tf (process_table t p) + 8 * of_nat i) =
        (if i = 0 then 0 else load64 (mem s) (pr_tf (process_table s P) + 8 * of_nat i))) \<and>
     load64 (mem t) (pr_context (process_table t p) + 88) = sym_pstart s"

text \<open>The child before it is put on the ready list.\<close>

definition made :: "pref \<Rightarrow> nat option list \<Rightarrow> u8 list \<Rightarrow> (nat \<Rightarrow> file_desc) \<Rightarrow> (nat \<Rightarrow> fcb) \<Rightarrow> memory \<Rightarrow>
    'a sys_scheme \<Rightarrow> 'a sys_scheme" where
  "made p F name D C m2 v =
     upd_process p (\<lambda>r. r\<lparr>pr_state := PROC_READY\<rparr>)
       ((with_tables D C (upd_process p (\<lambda>r. r\<lparr>pr_name := name\<rparr>) (with_files p F v)))\<lparr>mem := m2\<rparr>)"

lemma fork_run:
  assumes "debug_spinlock ''src/process.c'' 455 s = Inr c1" "spin_lock Process_lock c1 = Inr c2"
    and "current_process c2 0 = Some P" "alloc_new_process cpu 0 c2 = Inr (Some p, b)"
    and "printk (''[Core %d] Fork: PID %d cloning PageMap: 0x%x'' @ [CHR 0x0A])
      [Int_arg (of_nat cpu), Int_arg (scast (pid_of b P)), Int_arg (map_of_process b P)] b = Inr (n, u)"
    and "copy_uvm (map_of_process u p) (map_of_process u P) (unat PAGE_SIZE) u = Inr (True, v)"
    and "F = pr_file (process_table v P)"
    and "(case pr_file (process_table (with_files p F v) p) ! 0 of None \<Rightarrow> Inr (literal_bytes (with_files p F v) ''unknown'' 8)
      | Some f \<Rightarrow> rbind (fcb_at (with_files p F v) f) (\<lambda>c. Inr (fc_name (fcb_table (with_files p F v) c)))) = Inr name"
    and "w = upd_process p (\<lambda>r. r\<lparr>pr_name := name\<rparr>) (with_files p F v)"
    and "share_files [0..<100] p w = Inr (with_tables D C w)"
    and "m2 = child_frame (pr_tf (process_table w p)) (pr_tf (process_table w P)) (mem w)"
    and "append_list_tail (Ready 0) p (made p F name D C m2 v) = Inr z" "debug_spinunlock ''src/process.c'' 509 z = Inr z1"
  shows "fork cpu s = Inr (pid_of (spin_unlock Process_lock z1) p, spin_unlock Process_lock z1)"
proof -
  define x where "x = with_tables D C w"
  have sel: "process_table x = process_table w" "mem x = mem w" by (simp_all add: x_def with_tables_def)
  have y: "upd_process p (\<lambda>r. r\<lparr>pr_state := PROC_READY\<rparr>) (x\<lparr>mem := memcpy (mem x) (pr_tf (process_table x p))
      (pr_tf (process_table x P)) (unat TRAP_FRAME_SIZE), mem := store64 (mem (x\<lparr>mem := memcpy (mem x) (pr_tf (process_table x p))
      (pr_tf (process_table x P)) (unat TRAP_FRAME_SIZE)\<rparr>)) (pr_tf (process_table x p)) 0\<rparr>) = made p F name D C m2 v"
    by (simp add: made_def assms(11) child_frame_def sel) (simp add: x_def assms(9))
  note wf = with_files_def [of p F v, unfolded assms(7), folded assms(7), symmetric]
  note steps = assms(1-6) find_least_busy_core_def Let_def rbind_Inr prod.case option.case kassert_True int_ops(1)
    assms(7) [symmetric] wf assms(8) assms(9) [symmetric] assms(10) x_def [symmetric] y assms(12,13)
  show ?thesis unfolding fork_def by (simp only: steps)
qed

section \<open>The state fork leaves\<close>

text \<open>
  The fields of a child \<open>p\<close> of \<open>P\<close> with stack \<open>stk\<close> and page map \<open>pg\<close>; all other slots differ from \<open>s\<close> in
  their list links only.
\<close>

definition child_of :: "'a sys_scheme \<Rightarrow> 'a sys_scheme \<Rightarrow> pref \<Rightarrow> pref \<Rightarrow> u64 \<Rightarrow> u64 \<Rightarrow> memory \<Rightarrow> bool" where
  "child_of s t P p stk pg m \<longleftrightarrow>
     same_kernel (s\<lparr>mem := m\<rparr>) t \<and> locks t = locks s \<and> current_process t = current_process s \<and> pid_num t = pid_num s + 1 \<and>
     (\<forall>q. q \<noteq> p \<longrightarrow> (\<exists>n. process_table t q = (process_table s q)\<lparr>pr_next := n\<rparr>)) \<and>
     state_of t p = PROC_READY \<and> pid_of t p = pid_num s \<and> stack_of t p = stk \<and> map_of_process t p = pg \<and>
     pr_tf (process_table t p) = stk + PAGE_SIZE - TRAP_FRAME_SIZE \<and>
     pr_context (process_table t p) = stk + PAGE_SIZE - TRAP_FRAME_SIZE - 12 * 8 \<and>
     pr_file (process_table t p) = pr_file (process_table s P)"

lemma child_ofD:
  assumes "child_of s t P p stk pg m" "q \<noteq> p"
  shows "state_of t q = state_of s q" "pid_of t q = pid_of s q" "stack_of t q = stack_of s q"
    "map_of_process t q = map_of_process s q" "pr_tf (process_table t q) = pr_tf (process_table s q)"
    "pr_file (process_table t q) = pr_file (process_table s q)"
proof -
  obtain n where "process_table t q = (process_table s q)\<lparr>pr_next := n\<rparr>" using assms by (auto simp: child_of_def)
  then show "state_of t q = state_of s q" "pid_of t q = pid_of s q" "stack_of t q = stack_of s q"
    "map_of_process t q = map_of_process s q" "pr_tf (process_table t q) = pr_tf (process_table s q)"
    "pr_file (process_table t q) = pr_file (process_table s q)" by simp_all
qed

lemma made_born:
  fixes s :: "'a sys_scheme"
  assumes "p \<noteq> P" "\<not> locks s Process_lock" "F = pr_file (process_table s P)"
    and v: "v = (born p stk pg m out (s\<lparr>console := o1, locks := (locks s)(Process_lock := True)\<rparr>))\<lparr>console := o2, mem := m1\<rparr>"
    and links: "links_only (made p F name D C m2 v) z"
  shows "child_of s (spin_unlock Process_lock (z\<lparr>console := o3\<rparr>)) P p stk pg m2"
    "fcb_table (spin_unlock Process_lock (z\<lparr>console := o3\<rparr>)) = C"
    "file_desc_table (spin_unlock Process_lock (z\<lparr>console := o3\<rparr>)) = D"
proof -
  let ?y = "made p F name D C m2 v" and ?t = "spin_unlock Process_lock (z\<lparr>console := o3\<rparr>)"
  obtain pt hl where z: "z = ?y\<lparr>process_table := pt, head_lists := hl\<rparr>"
    "\<And>q. \<exists>n. pt q = (process_table ?y q)\<lparr>pr_next := n\<rparr>"
    using links by (elim links_onlyE) blast
  have old: "process_table ?y q = process_table s q" if "q \<noteq> p" for q
    using that by (simp add: made_def v born_def with_files_def with_tables_def upd_process_def)
  have new: "process_table ?y p = (process_table s p)\<lparr>pr_stack := stk, pr_state := PROC_READY, pr_pid := pid_num s,
      pr_context := stk + PAGE_SIZE - TRAP_FRAME_SIZE - 12 * 8, pr_tf := stk + PAGE_SIZE - TRAP_FRAME_SIZE,
      pr_page_map := pg, pr_file := F, pr_name := name\<rparr>"
    by (simp add: made_def v born_def with_files_def with_tables_def upd_process_def)
  have pt: "process_table ?t = pt" by (simp add: z(1) spin_unlock_def)
  obtain n where "pt p = (process_table ?y p)\<lparr>pr_next := n\<rparr>" using z(2) by blast
  then have "pt p = (process_table s p)\<lparr>pr_stack := stk, pr_state := PROC_READY, pr_pid := pid_num s,
      pr_context := stk + PAGE_SIZE - TRAP_FRAME_SIZE - 12 * 8, pr_tf := stk + PAGE_SIZE - TRAP_FRAME_SIZE,
      pr_page_map := pg, pr_file := F, pr_name := name, pr_next := n\<rparr>" unfolding new by simp
  moreover have "same_kernel (s\<lparr>mem := m2\<rparr>) ?t" "locks ?t = locks s" "current_process ?t = current_process s"
    "pid_num ?t = pid_num s + 1"
    using assms(2)
    by (simp_all add: z(1) made_def v born_def with_files_def with_tables_def upd_process_def spin_unlock_def
        same_kernel_def fun_upd_idem)
  moreover have "\<exists>n. process_table ?t q = (process_table s q)\<lparr>pr_next := n\<rparr>" if "q \<noteq> p" for q
    using z(2) [of q] old [OF that] pt by simp
  ultimately show "child_of s ?t P p stk pg m2" using assms(3) pt by (simp add: child_of_def)
  show "fcb_table ?t = C" "file_desc_table ?t = D" by (simp_all add: z(1) made_def with_tables_def upd_process_def)
qed

lemma with_files_name:
  "upd_process p (\<lambda>r. r\<lparr>pr_name := n\<rparr>) (with_files p F s) = with_files p F (upd_process p (\<lambda>r. r\<lparr>pr_name := n\<rparr>) s)"
  by (cases "process_table s p") (simp add: upd_process_def with_files_def)

text \<open>The calls up to the message: two locks taken, the child allocated.\<close>

lemma fork_begin:
  fixes s :: "'a sys_scheme"
  assumes inv: "kalloc_inv s" "\<not> locks s Process_lock" "\<not> locks s Pid_lock" "\<not> locks s Print_lock"
    and card: "5 \<le> card (kavail s)" and child: "find_unused_process 0 s = Some p"
  obtains o1 stk pg m out n o2 where "debug_spinlock ''src/process.c'' 455 s = Inr (s\<lparr>console := o1\<rparr>)"
    "alloc_new_process cpu 0 (s\<lparr>console := o1, locks := (locks s)(Process_lock := True)\<rparr>) =
      Inr (Some p, born p stk pg m out (s\<lparr>console := o1, locks := (locks s)(Process_lock := True)\<rparr>))"
    "printk (''[Core %d] Fork: PID %d cloning PageMap: 0x%x'' @ [CHR 0x0A]) [Int_arg (of_nat cpu), Int_arg j, Int_arg k]
      (born p stk pg m out (s\<lparr>console := o1, locks := (locks s)(Process_lock := True)\<rparr>)) =
      Inr (n, (born p stk pg m out (s\<lparr>console := o1, locks := (locks s)(Process_lock := True)\<rparr>))\<lparr>console := o2\<rparr>)"
    "keeps_pages {} s (s\<lparr>mem := m\<rparr>)" "\<not> kowned s stk" "\<not> kowned s pg" "stk \<noteq> pg" "kowned (s\<lparr>mem := m\<rparr>) stk"
    "kowned (s\<lparr>mem := m\<rparr>) pg" "3 \<le> card (kavail (s\<lparr>mem := m\<rparr>))" "\<And>x. in_range pg (2 ^ 21) x \<Longrightarrow> m x = 0"
    "load64 m (page_word stk (2 ^ 18 - 37)) = sym_pstart s"
proof -
  obtain o1 where o1: "debug_spinlock ''src/process.c'' 455 s = Inr (s\<lparr>console := o1\<rparr>)" using debug_messages(1) [OF inv(4)] by blast
  define c2 where "c2 = s\<lparr>console := o1, locks := (locks s)(Process_lock := True)\<rparr>"
  have sc: "same_kernel s c2" "same_kernel c2 s" by (simp_all add: c2_def same_kernel_def)
  note e = same_kernel_eqs(1-4) [OF sc(1)]
  have pre: "kalloc_inv c2" "2 \<le> card (kavail c2)" "\<not> locks c2 Pid_lock" "\<not> locks c2 Print_lock"
    "find_unused_process (if (0 :: int) = - 1 then cpu else nat 0) c2 = Some p"
    using inv card child e(1,2) by (simp_all add: c2_def find_unused_process_def)
  obtain stk pg m out where a: "alloc_new_process cpu 0 c2 = Inr (Some p, born p stk pg m out c2)"
    "keeps_pages {} c2 (c2\<lparr>mem := m\<rparr>)" "\<not> kowned c2 stk" "\<not> kowned c2 pg" "stk \<noteq> pg"
    "kowned (c2\<lparr>mem := m\<rparr>) stk" "kowned (c2\<lparr>mem := m\<rparr>) pg"
    "card (kavail c2) \<le> card (kavail (c2\<lparr>mem := m\<rparr>)) + 2" "\<And>x. in_range pg (2 ^ 21) x \<Longrightarrow> m x = 0"
    "load64 m (page_word stk (2 ^ 18 - 37)) = sym_pstart c2"
    "\<And>i. i < 36 \<Longrightarrow> load64 m (stk + PAGE_SIZE - TRAP_FRAME_SIZE + 8 * of_nat i) = (if i = 34 then 0x400000 else if i = 31 then 0x600000 else 0)"
    by (rule alloc_new_process_run [OF pre]) (rule that)
  have sm: "same_kernel (s\<lparr>mem := m\<rparr>) (c2\<lparr>mem := m\<rparr>)" using sc(1) by (simp add: same_kernel_def)
  note em = same_kernel_eqs(1-4) [OF sm]
  have A: "keeps_pages {} s (s\<lparr>mem := m\<rparr>)" "\<not> kowned s stk" "\<not> kowned s pg" "kowned (s\<lparr>mem := m\<rparr>) stk"
    "kowned (s\<lparr>mem := m\<rparr>) pg" "3 \<le> card (kavail (s\<lparr>mem := m\<rparr>))" "load64 m (page_word stk (2 ^ 18 - 37)) = sym_pstart s"
    using keeps_same [OF a(2) sc(2)] a(3,4,6-8,10) fun_cong [OF e(4)] fun_cong [OF em(4)] e(2) em(2) card
    by (simp_all add: c2_def)
  have "\<not> locks (born p stk pg m out c2) Print_lock" using inv(4) by (simp add: born_def c2_def)
  then obtain n o2 where pm: "printk (''[Core %d] Fork: PID %d cloning PageMap: 0x%x'' @ [CHR 0x0A])
      [Int_arg (of_nat cpu), Int_arg j, Int_arg k] (born p stk pg m out c2) = Inr (n, (born p stk pg m out c2)\<lparr>console := o2\<rparr>)"
    using fork_message by blast
  show ?thesis
    by (rule that [OF o1 a(1) [unfolded c2_def] pm [unfolded c2_def] A(1-3) a(5) A(4-6) a(9) A(7)]) 
qed

text \<open>The calls on the handles.\<close>

lemma fork_files:
  fixes s :: "'a sys_scheme"
  assumes inv: "files_inv s" and sl: "slot p" "slot P" "p \<noteq> P" and F: "F = pr_file (process_table s P)"
    and none: "pr_file (process_table s p) = replicate 100 None"
    and v: "\<And>q. pr_file (process_table v q) = pr_file (process_table s q)" "file_desc_table v = file_desc_table s"
      "fcb_table v = fcb_table s" "same_volume (mem s) (mem v)"
  obtains name D C where "(case pr_file (process_table (with_files p F v) p) ! 0 of None \<Rightarrow> Inr (literal_bytes (with_files p F v) ''unknown'' 8)
      | Some f \<Rightarrow> rbind (fcb_at (with_files p F v) f) (\<lambda>c. Inr (fc_name (fcb_table (with_files p F v) c)))) = Inr name"
    "share_files [0..<100] p (upd_process p (\<lambda>r. r\<lparr>pr_name := name\<rparr>) (with_files p F v)) =
      Inr (with_tables D C (upd_process p (\<lambda>r. r\<lparr>pr_name := name\<rparr>) (with_files p F v)))"
    "files_inv (with_tables D C (upd_process p (\<lambda>r. r\<lparr>pr_name := name\<rparr>) (with_files p F v)))"
proof -
  note slP = slotD(1,2) [OF sl(2)] and slp = slotD(1,2) [OF sl(1)]
  obtain name where nm: "(case pr_file (process_table (with_files p F v) p) ! 0 of None \<Rightarrow> Inr (literal_bytes (with_files p F v) ''unknown'' 8)
      | Some f \<Rightarrow> rbind (fcb_at (with_files p F v) f) (\<lambda>c. Inr (fc_name (fcb_table (with_files p F v) c)))) = Inr name"
    using first_file_name [OF inv slP F, of "with_files p F v" p] v(2) by auto
  define w0 where "w0 = upd_process p (\<lambda>r. r\<lparr>pr_name := name\<rparr>) v"
  have f0: "pr_file (process_table w0 q) = pr_file (process_table s q)" for q using v(1) by (simp add: w0_def)
  have w: "upd_process p (\<lambda>r. r\<lparr>pr_name := name\<rparr>) (with_files p F v) = with_files p (pr_file (process_table w0 P)) w0"
    unfolding with_files_name f0 F by (simp add: w0_def)
  have "files_inv w0" by (rule files_inv_cong [OF inv]) (use v in \<open>simp_all add: w0_def\<close>)
  then obtain D C where "share_files [0..<100] p (with_files p (pr_file (process_table w0 P)) w0) =
      Inr (with_tables D C (with_files p (pr_file (process_table w0 P)) w0))"
    "files_inv (with_tables D C (with_files p (pr_file (process_table w0 P)) w0))"
    using share_all_files [of w0 p P] slp slP none f0 by metis
  then show ?thesis using that [OF nm] unfolding w by blast
qed

lemma fork_steps:
  fixes s :: "'a sys_scheme"
  assumes inv: "sched_inv s Q R" "files_inv s" "spaces_ok s"
    and lk: "\<not> locks s Pid_lock" "\<not> locks s Print_lock" and card: "5 \<le> card (kavail s)"
    and child: "find_unused_process 0 s = Some p" "pr_file (process_table s p) = replicate 100 None"
    and par: "slot (R 0)" "data_page (mem s) (map_of_process s (R 0)) (vm_index 0x400000) = Some d"
  obtains stk pg m t where "fork cpu s = Inr (pid_num s, t)" "child_of s t (R 0) p stk pg m"
    "keeps_pages {} s (s\<lparr>mem := m\<rparr>)" "\<not> kowned s stk" "kowned (s\<lparr>mem := m\<rparr>) stk" "vm_full pg (s\<lparr>mem := m\<rparr>)"
    "\<And>a. a \<in> vm_pages m pg \<Longrightarrow> \<not> kowned s a \<and> a \<noteq> stk"
    "\<And>v. vm_index v = vm_index 0x400000 \<Longrightarrow> user_byte (s\<lparr>mem := m\<rparr>) pg v = user_byte s (map_of_process s (R 0)) v"
    "\<And>i. i < 36 \<Longrightarrow> load64 m (stk + PAGE_SIZE - TRAP_FRAME_SIZE + 8 * of_nat i) =
      (if i = 0 then 0 else load64 (mem s) (pr_tf (process_table s (R 0)) + 8 * of_nat i))"
    "load64 m (page_word stk (2 ^ 18 - 37)) = sym_pstart s"
    "lists_rep t (Q(Ready 0 := Q (Ready 0) @ [p]))" "files_inv t"
proof -
  let ?P = "R 0"
  note rep = sched_invD(1) [OF inv(1)]
  have c0: "(0 :: nat) < MAXCORES" by (simp add: MAXCORES_def)
  note P0 = sched_invD(2) [OF inv(1) c0] and ul = sched_invD(3) [OF inv(1)] and un = unused_slot [OF child(1) c0]
  have st: "state_of s ?P = PROC_RUNNING" using running_state [OF rep par(1) c0] .
  then have pP: "p \<noteq> ?P" using un(3) by auto
  have sp: "space_ok s ?P" using spaces_okD(3) [OF inv(3)] par(1) st by (simp add: live_def)
  note k0 = spaces_okD(1,2) [OF inv(3)] and own = space_okD(1) [OF sp]
  obtain o1 stk pg m out n o2 where o1: "debug_spinlock ''src/process.c'' 455 s = Inr (s\<lparr>console := o1\<rparr>)"
    and al: "alloc_new_process cpu 0 (s\<lparr>console := o1, locks := (locks s)(Process_lock := True)\<rparr>) =
      Inr (Some p, born p stk pg m out (s\<lparr>console := o1, locks := (locks s)(Process_lock := True)\<rparr>))"
    and pm: "printk (''[Core %d] Fork: PID %d cloning PageMap: 0x%x'' @ [CHR 0x0A])
      [Int_arg (of_nat cpu), Int_arg (scast (pid_of s ?P)), Int_arg (map_of_process s ?P)]
      (born p stk pg m out (s\<lparr>console := o1, locks := (locks s)(Process_lock := True)\<rparr>)) =
      Inr (n, (born p stk pg m out (s\<lparr>console := o1, locks := (locks s)(Process_lock := True)\<rparr>))\<lparr>console := o2\<rparr>)"
    and A: "keeps_pages {} s (s\<lparr>mem := m\<rparr>)" "\<not> kowned s stk" "\<not> kowned s pg" "stk \<noteq> pg" "kowned (s\<lparr>mem := m\<rparr>) stk"
      "kowned (s\<lparr>mem := m\<rparr>) pg" "3 \<le> card (kavail (s\<lparr>mem := m\<rparr>))" "\<And>x. in_range pg (2 ^ 21) x \<Longrightarrow> m x = 0"
      "load64 m (page_word stk (2 ^ 18 - 37)) = sym_pstart s"
    by (rule fork_begin [OF k0(1) ul lk card child(1)]) (rule that)
  define c2 where "c2 = s\<lparr>console := o1, locks := (locks s)(Process_lock := True)\<rparr>"
  define b where "b = born p stk pg m out c2"
  define u where "u = b\<lparr>console := o2\<rparr>"
  have l2: "spin_lock Process_lock (s\<lparr>console := o1\<rparr>) = Inr c2" and P2: "current_process c2 0 = Some ?P"
    using ul P0 by (simp_all add: c2_def)
  have su: "same_kernel (s\<lparr>mem := m\<rparr>) u" by (simp add: u_def b_def born_def c2_def same_kernel_def)
  have mu: "map_of_process u p = pg" "map_of_process u ?P = map_of_process s ?P" "process_table b ?P = process_table s ?P"
    using pP by (simp_all add: u_def b_def born_def c2_def)
  obtain m1 where c: "copy_uvm pg (map_of_process s ?P) (unat PAGE_SIZE) u = Inr (True, u\<lparr>mem := m1\<rparr>)"
    "keeps_pages {} s (s\<lparr>mem := m1\<rparr>)" "kowned (s\<lparr>mem := m1\<rparr>) stk" "\<And>x. in_range stk (2 ^ 21) x \<Longrightarrow> m1 x = m x"
    "vm_full pg (s\<lparr>mem := m1\<rparr>)" "\<And>a. a \<in> vm_pages m1 pg \<Longrightarrow> \<not> kowned s a \<and> a \<noteq> stk"
    "\<And>v. vm_index v = vm_index 0x400000 \<Longrightarrow> user_byte (s\<lparr>mem := m1\<rparr>) pg v = user_byte s (map_of_process s ?P) v"
    by (rule fork_memory [OF sp k0 par(2) A(1-6) A(8) A(7) su], assumption) (rule that)
  define v where "v = u\<lparr>mem := m1\<rparr>"
  define F where "F = pr_file (process_table v ?P)"
  have v: "v = (born p stk pg m out (s\<lparr>console := o1, locks := (locks s)(Process_lock := True)\<rparr>))\<lparr>console := o2, mem := m1\<rparr>"
    by (simp add: v_def u_def b_def c2_def)
  have F: "F = pr_file (process_table s ?P)" using pP by (simp add: F_def v born_def)
  have tb: "pr_file (process_table v q) = pr_file (process_table s q)" "file_desc_table v = file_desc_table s"
    "fcb_table v = fcb_table s" "same_volume (mem s) (mem v)" for q
    using keeps_volume [OF c(2) own] by (simp_all add: v born_def)
  obtain name D C where nm: "(case pr_file (process_table (with_files p F v) p) ! 0 of None \<Rightarrow> Inr (literal_bytes (with_files p F v) ''unknown'' 8)
      | Some f \<Rightarrow> rbind (fcb_at (with_files p F v) f) (\<lambda>c. Inr (fc_name (fcb_table (with_files p F v) c)))) = Inr name"
    and sh: "share_files [0..<100] p (upd_process p (\<lambda>r. r\<lparr>pr_name := name\<rparr>) (with_files p F v)) =
      Inr (with_tables D C (upd_process p (\<lambda>r. r\<lparr>pr_name := name\<rparr>) (with_files p F v)))"
      "files_inv (with_tables D C (upd_process p (\<lambda>r. r\<lparr>pr_name := name\<rparr>) (with_files p F v)))"
    by (rule fork_files [OF inv(2) un(1) par(1) pP F child(2) tb]) (rule that)
  define w where "w = upd_process p (\<lambda>r. r\<lparr>pr_name := name\<rparr>) (with_files p F v)"
  define m2 where "m2 = child_frame (pr_tf (process_table w p)) (pr_tf (process_table w ?P)) (mem w)"
  have tf: "pr_tf (process_table w p) = stk + PAGE_SIZE - TRAP_FRAME_SIZE"
    "pr_tf (process_table w ?P) = stack_of s ?P + PAGE_SIZE - TRAP_FRAME_SIZE" "mem w = m1"
    using pP space_okD(4) [OF sp] by (simp_all add: w_def v born_def with_files_def)
  have m2: "m2 = child_frame (stk + PAGE_SIZE - TRAP_FRAME_SIZE) (stack_of s ?P + PAGE_SIZE - TRAP_FRAME_SIZE) m1"
    by (simp add: m2_def tf)
  have fresh: "\<forall>a \<in> vm_pages m1 pg. \<not> kowned s a \<and> a \<noteq> stk" using c(6) by blast
  note G = fork_frame [OF c(2) A(2) c(3) own c(5) fresh, folded m2]
  define y where "y = made p F name D C m2 v"
  have y: "head_lists y = head_lists s" "locks y = (locks s)(Process_lock := True)"
    "pr_next (process_table y q) = pr_next (process_table s q)" for q
    by (simp_all add: y_def made_def with_tables_def with_files_def v born_def)
  have "lists_rep y Q \<longleftrightarrow> lists_rep s Q" by (rule lists_rep_cong) (simp_all add: y)
  then have ly: "lists_rep y Q" using sched_repD(1) [OF rep] by simp
  have np: "\<forall>l. p \<notin> set (Q l)" using not_listed [OF rep] un(3) list_state_used by simp
  obtain z where z: "append_list_tail (Ready 0) p y = Inr z" "lists_rep z (Q(Ready 0 := Q (Ready 0) @ [p]))" "links_only y z"
    using append_list_tail_law [OF ly np] by blast
  have "\<not> locks z Print_lock" using links_onlyD(5) [OF z(3)] y(2) lk(2) by simp
  then obtain o3 where o3: "debug_spinunlock ''src/process.c'' 509 z = Inr (z\<lparr>console := o3\<rparr>)" using debug_messages(2) by blast
  define t where "t = spin_unlock Process_lock (z\<lparr>console := o3\<rparr>)"
  note T = made_born [OF pP ul F v z(3) [unfolded y_def], of o3, folded t_def]
  have cp: "copy_uvm (map_of_process u p) (map_of_process u ?P) (unat PAGE_SIZE) u = Inr (True, v)"
    unfolding mu v_def by (rule c(1))
  have pm': "printk (''[Core %d] Fork: PID %d cloning PageMap: 0x%x'' @ [CHR 0x0A])
      [Int_arg (of_nat cpu), Int_arg (scast (pid_of b ?P)), Int_arg (map_of_process b ?P)] b = Inr (n, u)"
    unfolding mu(3) unfolding u_def b_def c2_def by (rule pm)
  have run: "fork cpu s = Inr (pid_of t p, t)"
    unfolding t_def
    by (rule fork_run [OF o1 l2 P2 al [folded c2_def, folded b_def] pm' cp F_def nm w_def sh(1) [folded w_def] m2_def z(1) [unfolded y_def] o3])
  show ?thesis
  proof (rule that [OF _ T(1) G(1) A(2) G(2) G(3)])
    show "fork cpu s = Inr (pid_num s, t)" using run T(1) by (simp add: child_of_def)
    show "\<not> kowned s a \<and> a \<noteq> stk" if "a \<in> vm_pages m2 pg" for a using c(6) that G(4) by simp
    show "user_byte (s\<lparr>mem := m2\<rparr>) pg x = user_byte s (map_of_process s ?P) x" if "vm_index x = vm_index 0x400000" for x
      using c(7) [OF that] G(5) by simp
    show "load64 m2 (stk + PAGE_SIZE - TRAP_FRAME_SIZE + 8 * of_nat i) =
        (if i = 0 then 0 else load64 (mem s) (pr_tf (process_table s ?P) + 8 * of_nat i))" if "i < 36" for i
      using G(6) [OF that] space_okD(4) [OF sp] by simp
    have "load64 m1 (page_word stk (2 ^ 18 - 37)) = load64 m (page_word stk (2 ^ 18 - 37))"
      using c(4) page_word_in [OF region_bound(3) [OF kowned_region [OF A(5)]], of "2 ^ 18 - 37"]
      by (intro load64_cong) auto
    then show "load64 m2 (page_word stk (2 ^ 18 - 37)) = sym_pstart s" using G(7) A(9) by simp
    have "lists_rep t (Q(Ready 0 := Q (Ready 0) @ [p])) \<longleftrightarrow> lists_rep z (Q(Ready 0 := Q (Ready 0) @ [p]))"
      by (rule lists_rep_cong) (simp_all add: t_def spin_unlock_def)
    then show "lists_rep t (Q(Ready 0 := Q (Ready 0) @ [p]))" using z(2) by simp
    show "files_inv t"
    proof (rule files_inv_cong [OF sh(2) [folded w_def]])
      have "same_volume (mem s) m1" "same_volume (mem s) m2" using keeps_volume [OF c(2) own] keeps_volume [OF G(1) own] by simp_all
      then show "same_volume (mem (with_tables D C w)) (mem t)"
        using T(1) tf(3) by (simp add: same_volume_def child_of_def same_kernel_def with_tables_def)
      show "fcb_table t = fcb_table (with_tables D C w)" "file_desc_table t = file_desc_table (with_tables D C w)"
        using T(2,3) by (simp_all add: with_tables_def)
      show "pr_file (process_table t q) = pr_file (process_table (with_tables D C w) q)" for q
        using T(1) child_ofD(6) [OF T(1), of q] F tb(1) [of q]
        by (cases "q = p") (simp_all add: child_of_def with_tables_def w_def)
    qed
  qed
qed

section \<open>A new process keeps the invariants\<close>

lemma new_process_law:
  fixes s :: "'a sys_scheme"
  assumes inv: "sched_inv s Q R" "spaces_ok s" and c: "c < MAXCORES" and child: "find_unused_process c s = Some p"
    and ch: "child_of s t P p stk pg m" and K: "keeps_pages {} s (s\<lparr>mem := m\<rparr>)"
    and stk: "\<not> kowned s stk" "kowned (s\<lparr>mem := m\<rparr>) stk"
    and pg: "vm_full pg (s\<lparr>mem := m\<rparr>)" "\<And>a. a \<in> vm_pages m pg \<Longrightarrow> \<not> kowned s a \<and> a \<noteq> stk"
    and lists: "lists_rep t (Q(Ready c := Q (Ready c) @ [p]))" and pid: "4 \<le> sint (pid_num s)"
  shows "sched_inv t (Q(Ready c := Q (Ready c) @ [p])) R" "spaces_ok t" "\<And>q. live s q \<Longrightarrow> undisturbed s t q"
proof -
  let ?Q = "Q(Ready c := Q (Ready c) @ [p])"
  note rep = sched_invD(1) [OF inv(1)] and un = unused_slot [OF child c] and old = child_ofD [OF ch]
  have sk: "same_kernel (s\<lparr>mem := m\<rparr>) t" and st: "state_of t p = PROC_READY" "pid_of t p = pid_num s" "stack_of t p = stk"
    "map_of_process t p = pg" "pr_tf (process_table t p) = stk + PAGE_SIZE - TRAP_FRAME_SIZE"
    using ch by (simp_all add: child_of_def)
  note e = same_kernel_eqs [OF sk]
  have mt: "mem t = m" using sk by (simp add: same_kernel_def)
  have np: "p \<notin> set (Q l)" for l using not_listed [OF rep] un(3) list_state_used by simp
  have rp: "R c \<noteq> p" using running_state [OF rep _ c] un(1,3) by auto
  have ready: "PROC_READY = list_state l \<longleftrightarrow> l = Ready (core_of l)" for l by (cases l) simp_all
  have "placed t ?Q R p"
    unfolding placed_def using st(1,2) un(2) np rp pid ready by auto
  then have "sched_rep t ?Q R"
    using old(1,2) np un(2) by (intro sched_rep_slot [OF rep lists un(1)]) (auto split: if_splits)
  then show "sched_inv t ?Q R" using ch sched_invD(2,3) [OF inv(1)] by (simp add: sched_inv_def child_of_def)
  show und: "undisturbed s t q" if "live s q" for q
  proof -
    have q: "q \<noteq> p" using that un(3) by (auto simp: live_def)
    have "left_alone (proc_pages s q) s (s\<lparr>mem := m\<rparr>)"
      by (rule left_alone_keeps [OF K]) (use space_okD(5) [OF spaces_okD(3) [OF inv(2) that]] in auto)
    then show ?thesis using left_alone_same [OF same_kernel_simps(1) sk] old(3-5) [OF q] by (simp add: undisturbed_def)
  qed
  show "spaces_ok t"
  proof (rule spaces_update [OF inv(2), where q = p])
    show "kalloc_inv t" "start_of t = start_of s" using K e(1,3) by (simp_all add: keeps_pages_def)
    show "live s q \<and> undisturbed s t q" if "live t q" "q \<noteq> p" for q
      using that old(1) [OF that(2)] und by (simp add: live_def)
    have "space_ok t p" using stk(2) pg e(4,5) st mt by (simp add: space_ok_def) blast
    moreover have "proc_pages t p \<inter> proc_pages s q = {}" if "live s q" for q
      using space_okD(5) [OF spaces_okD(3) [OF inv(2) that]] stk(1) pg(2) st(3,4) mt by (auto simp: proc_pages_def)
    ultimately show "space_ok t p \<and> (\<forall>q. live s q \<longrightarrow> q \<noteq> p \<longrightarrow> proc_pages t p \<inter> proc_pages s q = {})" by blast
  qed
qed

section \<open>fork keeps the invariants\<close>

lemma fork_law:
  fixes s :: "'a sys_scheme"
  assumes inv: "sched_inv s Q R" "files_inv s" "spaces_ok s"
    and lk: "\<not> locks s Pid_lock" "\<not> locks s Print_lock" and card: "5 \<le> card (kavail s)"
    and child: "find_unused_process 0 s = Some p" "pr_file (process_table s p) = replicate 100 None"
    and par: "slot (R 0)" "data_page (mem s) (map_of_process s (R 0)) (vm_index 0x400000) = Some d"
    and pid: "4 \<le> sint (pid_num s)"
  shows "\<exists>t. fork cpu s = Inr (pid_num s, t) \<and> sched_inv t (Q(Ready 0 := Q (Ready 0) @ [p])) R \<and> files_inv t \<and>
    spaces_ok t \<and> forked s t (R 0) p \<and> (\<forall>q. live s q \<longrightarrow> undisturbed s t q)"
proof -
  let ?Q = "Q(Ready 0 := Q (Ready 0) @ [p])"
  have c0: "(0 :: nat) < MAXCORES" by (simp add: MAXCORES_def)
  obtain stk pg m t where run: "fork cpu s = Inr (pid_num s, t)" and ch: "child_of s t (R 0) p stk pg m"
    and K: "keeps_pages {} s (s\<lparr>mem := m\<rparr>)" and stk: "\<not> kowned s stk" "kowned (s\<lparr>mem := m\<rparr>) stk"
    and pg: "vm_full pg (s\<lparr>mem := m\<rparr>)" "\<And>a. a \<in> vm_pages m pg \<Longrightarrow> \<not> kowned s a \<and> a \<noteq> stk"
    and ub: "\<And>v. vm_index v = vm_index 0x400000 \<Longrightarrow> user_byte (s\<lparr>mem := m\<rparr>) pg v = user_byte s (map_of_process s (R 0)) v"
    and fr: "\<And>i. i < 36 \<Longrightarrow> load64 m (stk + PAGE_SIZE - TRAP_FRAME_SIZE + 8 * of_nat i) =
      (if i = 0 then 0 else load64 (mem s) (pr_tf (process_table s (R 0)) + 8 * of_nat i))"
    and ent: "load64 m (page_word stk (2 ^ 18 - 37)) = sym_pstart s"
    and lists: "lists_rep t ?Q" and files: "files_inv t"
    by (rule fork_steps [OF assms(1-10)]) (rule that)
  note N = new_process_law [OF inv(1,3) c0 child(1) ch K stk pg lists pid]
  have sk: "same_kernel (s\<lparr>mem := m\<rparr>) t" and st: "map_of_process t p = pg" "pr_tf (process_table t p) = stk + PAGE_SIZE - TRAP_FRAME_SIZE"
    using ch by (simp_all add: child_of_def)
  have mt: "mem t = m" using sk by (simp add: same_kernel_def)
  have "pr_context (process_table t p) + 88 = page_word stk (2 ^ 18 - 37)"
    using ch by (simp add: child_of_def page_word_def PAGE_SIZE_def TRAP_FRAME_SIZE_def)
  then have "forked s t (R 0) p" using ch ub fr ent same_kernel_eqs(6) [OF sk] st mt by (simp add: forked_def child_of_def)
  then show ?thesis using run files N by blast
qed

end
