(* ===== verification/Process_Properties.thy ===== *)
theory Process_Properties
  imports Process_Fork
begin

text \<open>
  The properties of \<open>fork\<close> and \<open>wait\<close> (src/src/process.c), and a small system with one process on
  which they are exercised.
\<close>

section \<open>A system with one process\<close>

text \<open>
  The idle processes run, or stand by, on their cores; slot 1 of core 0 either runs or lies on the
  killed list.
\<close>

definition solo :: "kernel \<Rightarrow> bool \<Rightarrow> process \<Rightarrow> sys" where
  "solo k run r = \<lparr>mem = mem k, console = [], locks = (\<lambda>l. l = Allocator_lock \<and> locks k l),
     sym_end = sym_end k, sym_allocator = sym_allocator k,
     process_table = (\<lambda>p. if p = (0, 1) then r
        else if snd p = 0 then zero_process\<lparr>pr_pid := of_nat (fst p), pr_state := PROC_RUNNING\<rparr>
        else zero_process),
     pid_num = 5, current_process = (\<lambda>c. if c = 0 \<and> run then Some (0, 1) else Some (c, 0)),
     head_lists = (\<lambda>l. if l = Killed 0 \<and> \<not> run then \<lparr>h_next = Some (0, 1), h_tail = Some (0, 1)\<rparr>
        else \<lparr>h_next = None, h_tail = None\<rparr>),
     fcb_page = 0, fcb_table = (\<lambda>_. zero_fcb), file_desc_page = 0, file_desc_table = (\<lambda>_. zero_file_desc),
     ttbr0 = (\<lambda>_. 0), core_sp = (\<lambda>_. 0x1000), core_regs = (\<lambda>_. replicate 12 7), sym_pstart = 0, sym_pgd_ttbr0 = 0,
     sym_after = (\<lambda>_ _. 0)\<rparr>"

definition solo_process :: "bool \<Rightarrow> u64 \<Rightarrow> u64 \<Rightarrow> process" where
  "solo_process run stk pg = zero_process\<lparr>pr_pid := 4, pr_state := if run then PROC_RUNNING else PROC_KILLED,
     pr_wait := 4, pr_page_map := pg, pr_stack := stk, pr_tf := stk + PAGE_SIZE - TRAP_FRAME_SIZE\<rparr>"

definition solo_queue :: "bool \<Rightarrow> list_id \<Rightarrow> pref list" where
  "solo_queue run l = (if l = Killed 0 \<and> \<not> run then [(0, 1)] else [])"

definition solo_running :: "bool \<Rightarrow> nat \<Rightarrow> pref" where
  "solo_running run c = (if c = 0 \<and> run then (0, 1) else (c, 0))"

lemma slot_0_1 [simp]: "slot (0, Suc 0)" by (simp add: slot_def MAXCORES_def NUM_PROC_def)

lemma solo_live: "live (solo k run r) p \<Longrightarrow> p = (0, 1)"
  by (auto simp: live_def solo_def slot_def zero_process_def split: if_splits)

lemma solo_inv: "sched_inv (solo k run (solo_process run stk pg)) (solo_queue run) (solo_running run)"
  (is "sched_inv ?s _ _")
proof -
  have L: "lists_rep ?s (solo_queue run)"
    by (auto simp: lists_rep_def queue_rep_def solo_queue_def solo_def solo_process_def zero_process_def)
  have "placed ?s (solo_queue run) (solo_running run) p" if sl: "slot p" for p
  proof (cases "p = (0, 1)")
    case True
    have "PROC_RUNNING \<noteq> list_state l" for l by (cases l) simp_all
    moreover have "PROC_KILLED = list_state l \<longleftrightarrow> l = Killed (core_of l)" for l by (cases l) simp_all
    ultimately show ?thesis
      using True by (auto simp: placed_def solo_def solo_process_def solo_queue_def solo_running_def)
  next
    case False
    moreover have "PROC_UNUSED \<noteq> list_state l" for l by (cases l) simp_all
    ultimately show ?thesis
      using sl by (auto simp: placed_def solo_def slot_def zero_process_def solo_queue_def solo_running_def split: if_splits)
  qed
  moreover have "c < MAXCORES \<Longrightarrow> sint (pid_of ?s (c, 0)) < 4" for c
  proof -
    assume "c < MAXCORES"
    then consider "c = 0" | "c = 1" | "c = 2" | "c = 3" unfolding MAXCORES_def by linarith
    then show ?thesis by cases (simp_all add: solo_def)
  qed
  moreover have "NUM_PROC > 1" by (simp add: NUM_PROC_def)
  ultimately show ?thesis
    using L by (auto simp: sched_inv_def sched_rep_def solo_queue_def solo_running_def solo_def)
qed

lemma solo_files: "files_inv (solo k run (solo_process run stk pg))" (is "files_inv ?s")
proof -
  have h: "h \<in> handles \<Longrightarrow> handle_at ?s h = None" for h
    by (auto simp: handles_def handle_at_def solo_def solo_process_def zero_process_def)
  then have "fcb_refs ?s c = 0" for c by (auto simp: fcb_refs_def reaches_def)
  then show ?thesis
    using h by (auto simp: files_inv_def solo_def solo_process_def zero_process_def zero_file_desc_def zero_fcb_def)
qed

lemma solo_kernel: "same_kernel k (solo k run r)"
  by (simp add: same_kernel_def solo_def)

lemma solo_spaces:
  assumes "vm_full pg k" "kowned k stk" "stk \<notin> vm_pages (mem k) pg"
  shows "spaces_ok (solo k run (solo_process run stk pg))"
proof -
  note e = same_kernel_eqs [OF solo_kernel]
  note D = vm_okD(1,2) [OF vm_fullD(1) [OF assms(1)]]
  let ?s = "solo k run (solo_process run stk pg)"
  have f: "stack_of ?s (0, 1) = stk" "map_of_process ?s (0, 1) = pg"
      "pr_tf (process_table ?s (0, 1)) = stk + PAGE_SIZE - TRAP_FRAME_SIZE" and m: "mem ?s = mem k"
    by (simp_all add: solo_def solo_process_def)
  have "space_ok ?s (0, 1)"
    unfolding space_ok_def f unfolding e(2,3,5) unfolding m using assms by blast
  then show ?thesis unfolding spaces_ok_def using D e(1,3) solo_live by metis
qed

section \<open>fork\<close>

text \<open>
  C3: \<open>fork\<close> makes a copy of the process that runs on core 0.  With a free slot on that core, five
  free pages and a process with a mapped user page running there, \<open>fork\<close> returns the next pid; the
  child stands last on the ready list of core 0 and no other list or core changes; it shares the
  parent's open files, its user page holds the bytes the parent sees, and it starts in user mode
  with the parent's registers except that \<open>x0\<close> is 0.  The invariants of the scheduler, of the
  reference counts and of the address spaces are kept, and no process sees a byte of its memory
  change.
\<close>

theorem fork_correct:
  fixes s :: "'a sys_scheme"
  assumes "sched_inv s Q R" "files_inv s" "spaces_ok s" "\<not> locks s Pid_lock" "\<not> locks s Print_lock"
    and "5 \<le> card (kavail s)" "find_unused_process 0 s = Some p" "pr_file (process_table s p) = replicate 100 None"
    and "slot (R 0)" "data_page (mem s) (map_of_process s (R 0)) (vm_index 0x400000) = Some d" "4 \<le> sint (pid_num s)"
  shows "\<exists>t. fork cpu s = Inr (pid_num s, t) \<and> sched_inv t (Q(Ready 0 := Q (Ready 0) @ [p])) R \<and> files_inv t \<and>
    spaces_ok t \<and> forked s t (R 0) p \<and>
    (\<forall>q v. live s q \<longrightarrow> user_byte t (map_of_process t q) v = user_byte s (map_of_process s q) v)"
  using fork_law [OF assms] undisturbed_space(3) [OF spaces_okD(3) [OF assms(3)]] by metis

theorem fork_correct_witness:
  "\<exists>(s :: sys) t. fork 0 s = Inr (5, t) \<and> current_process t 0 = Some (0, 1) \<and> state_of t (0, 2) = PROC_READY \<and>
    pid_of t (0, 2) = 5 \<and> user_byte t (map_of_process t (0, 2)) 0x400000 = user_byte s (map_of_process s (0, 1)) 0x400000"
proof (rule mapped_state)
  fix r q p and k :: kernel
  assume a: "vm_full r k" "data_page (mem k) r = [vm_index 0x400000 \<mapsto> p]"
    "vm_full q k" "data_page (mem k) q = Map.empty" "tables (mem k) q = {q}" "q \<notin> vm_pages (mem k) r"
    "370 \<le> card (kavail k)"
  let ?s = "solo k True (solo_process True q r)"
  have own: "kowned k q" using vm_okD(3) [OF vm_fullD(1) [OF a(3)], of Pgd] by simp
  note inv = solo_inv [of k True q r] solo_files [of k True q r] solo_spaces [OF a(1) own a(6), of True]
  have "[Suc 0..<NUM_PROC] = 1 # 2 # [3..<NUM_PROC]" by (simp add: NUM_PROC_def upt_conv_Cons)
  then have f: "find_unused_process 0 ?s = Some (0, 2)"
    by (simp add: find_unused_process_def solo_def solo_process_def zero_process_def del: upt_rec_numeral)
  have R: "solo_running True 0 = (0, 1)" by (simp add: solo_running_def)
  have "5 \<le> card (kavail ?s)" using a(7) same_kernel_eqs(2) [OF solo_kernel, of k True "solo_process True q r"] by simp
  moreover have "data_page (mem ?s) (map_of_process ?s (0, 1)) (vm_index 0x400000) = Some p"
    using a(2) by (simp add: solo_def solo_process_def)
  ultimately obtain t where t: "fork 0 ?s = Inr (5, t)" 
      "sched_inv t ((solo_queue True)(Ready 0 := solo_queue True (Ready 0) @ [(0, 2)])) (solo_running True)" "forked ?s t (0, 1) (0, 2)"
    using fork_correct [OF inv _ _ _ f, where d = p and cpu = 0] R by (auto simp: solo_def zero_process_def)
  have "state_of t (0, 2) = PROC_READY" using listed_state [OF sched_invD(1) [OF t(2)], of "(0, 2)" "Ready 0"] by simp
  moreover have "current_process t 0 = Some (0, 1)" using sched_invD(2) [OF t(2), of 0] R by (simp add: MAXCORES_def)
  moreover have "pid_num ?s = 5" by (simp add: solo_def)
  ultimately show ?thesis using t(1,3) unfolding forked_def by (intro exI [of _ ?s] exI [of _ t]) simp
qed

text \<open>
  A \<open>fork\<close> for which core 0 has no free process slot stops the kernel.  It fails the assertion of
  line 467, whatever the other cores have free; no error reaches the caller.
\<close>

theorem fork_full_table_asserts:
  assumes "\<not> locks s Process_lock" "\<not> locks s Print_lock"
    and "\<And>i. 1 \<le> i \<Longrightarrow> i < NUM_PROC \<Longrightarrow> state_of s (0, i) \<noteq> PROC_UNUSED"
  shows "fork cpu s = Inl (Assert_failed ''src/process.c'' 467)"
proof -
  obtain o1 where o1: "debug_spinlock ''src/process.c'' 455 s = Inr (s\<lparr>console := o1\<rparr>)"
    using debug_messages(1) [OF assms(2)] by blast
  have "find_unused_process 0 (s\<lparr>console := o1, locks := (locks s)(Process_lock := True)\<rparr>) = None"
    using assms(3) by (auto simp: find_unused_process_def find_None_iff)
  then show ?thesis
    using assms(1) by (simp add: fork_def o1 alloc_new_process_def find_least_busy_core_def)
qed

theorem fork_full_table_asserts_witness:
  "fork 2 (two_ready\<lparr>process_table := (\<lambda>_. ready_process None 4 0)\<rparr>) = Inl (Assert_failed ''src/process.c'' 467)"
  by (rule fork_full_table_asserts) (simp_all add: two_ready_def ready_process_def)

section \<open>wait\<close>



end
