(* ===== verification/Process_Exec.thy ===== *)
theory Process_Exec
  imports Process_Properties Boot_Tables
begin

text \<open>
  \<open>exec\<close> of src/src/process.c: the page of the user program is a linear range of user addresses, the file is
  read into it, and the trap frame starts the program.
\<close>

section \<open>The user page through the page tables\<close>

lemma user_address:
  assumes "i < 2 ^ 21"
  shows "vm_index (0x400000 + of_nat i) = vm_index 0x400000" "(0x400000 + of_nat i) AND mask 21 = (of_nat i :: u64)"
    "unat (0x400000 + of_nat i :: u64) = 0x400000 + i"
proof -
  show u: "unat (0x400000 + of_nat i :: u64) = 0x400000 + i"
    using unat_plus_of_nat [of "0x400000 :: u64" i] assms by simp
  have i: "unat (of_nat i :: u64) = i" using assms by (simp add: unat_of_nat take_bit_nat_eq_self)
  show "(0x400000 + of_nat i) AND mask 21 = (of_nat i :: u64)"
    unfolding take_bit_eq_mask [symmetric] word_unat_eq_iff unsigned_take_bit_eq u i using assms mod_mult_self1 [of i "2 :: nat" "2 ^ 21 :: nat"]
    by (simp add: take_bit_eq_mod add.commute)
  have "(0x400000 + i) div 2 ^ 21 = 2" using assms by simp
  moreover have "(0x400000 + i) div 2 ^ 30 = 0" "(0x400000 + i) div 2 ^ 39 = 0" using assms by simp_all
  ultimately have "unat (va_index l (0x400000 + of_nat i)) = unat (va_index l 0x400000)" if l: "l \<in> {0, 1, 2}" for l
  proof -
    have "take_bit 48 (0x400000 + i) = 0x400000 + i" using assms by (intro take_bit_nat_eq_self) simp
    then show ?thesis
      using l \<open>(0x400000 + i) div 2 ^ 21 = 2\<close> \<open>(0x400000 + i) div 2 ^ 30 = 0\<close> \<open>(0x400000 + i) div 2 ^ 39 = 0\<close>
        va_index_unat [of l "0x400000 + of_nat i"] va_index_unat [of l "0x400000"]
      unfolding unsigned_take_bit_eq u by (elim insertE emptyE) (simp_all add: take_bit_eq_mod)
  qed
  then show "vm_index (0x400000 + of_nat i) = vm_index 0x400000" by (simp add: vm_index_def)
qed

lemma user_linear:
  fixes s :: "'a sys_scheme"
  assumes full: "vm_full r s" and d: "data_page (mem s) r (vm_index 0x400000) = Some d" and t: "ttbr0 s cpu = V2P r"
  shows "linear cpu s 0x400000 d (2 ^ 21)"
  unfolding linear_def
proof (intro allI impI)
  fix m i assume m: "\<forall>x. \<not> in_range d (2 ^ 21) x \<longrightarrow> m x = mem s x" and i: "i < (2 :: nat) ^ 21"
  note D = vm_okD(1,2) [OF vm_fullD(1) [OF full]]
  have k: "keeps_pages {d} s (s\<lparr>mem := m\<rparr>)" using m by (intro write_keeps [OF D(1) vm_fullD(3) [OF full d]]) blast
  have "{d} \<inter> tables (mem s) r = {}" using vm_fullD(4) [OF full d] by simp
  note K = vm_full_keeps [OF full k this]
  have dt: "data_page (mem (s\<lparr>mem := m\<rparr>)) r (vm_index (0x400000 + of_nat i)) = Some d"
    using K(3) d user_address(1) [OF i] by simp
  have "(0x400000 + of_nat i :: u64) < KERNEL_BASE"
    using user_address(3) [OF i] i by (simp add: word_less_nat_alt KERNEL_BASE_def)
  moreover have "mmu_walk m (V2P r) (0x400000 + of_nat i) = Some (V2P d OR of_nat i)"
    using mmu_walk_data [OF K(1) dt] user_address(2) [OF i] by simp
  moreover have "P2V (V2P d OR of_nat i) = d + of_nat i"
    using page_offset [OF kowned_region [OF vm_fullD(3) [OF full d]] D(2), of "0x400000 + of_nat i"] user_address(2) [OF i] by simp
  ultimately show "translate cpu (s\<lparr>mem := m\<rparr>) (0x400000 + of_nat i) = Some (d + of_nat i)"
    using t unfolding translate_def by (simp del: of_nat_add add: linorder_not_le [symmetric])
qed

lemma vmemset_linear:
  assumes "linear cpu s v d n" "n < 2 ^ 64"
  shows "vmemset cpu v b n s = Inr (s\<lparr>mem := memset (mem s) d b n\<rparr>)"
  using assms
proof (induction n arbitrary: s v d)
  case (Suc n)
  let ?s = "s\<lparr>mem := (mem s)(d := b)\<rparr>"
  have "translate cpu s v = Some d" using linear_translate [OF Suc.prems(1), of 0] by simp
  then have step: "vmemset cpu v b (Suc n) s = vmemset cpu (v + 1) b n ?s" by (simp add: vstore_def)
  have "linear cpu ?s v d (Suc n)" using linear_store [OF Suc.prems(1), of "(mem s)(d := b)"] by auto
  then have "linear cpu ?s (v + 1) (d + 1) n" using linear_sub [of cpu ?s v d "Suc n" 1 n] Suc.prems(2) by simp
  then show ?case unfolding step using Suc.IH [of ?s "v + 1" "d + 1"] Suc.prems(2) by (simp del: fun_upd_apply)
qed simp

text \<open>A page the kernel holds lies below the volume.\<close>

lemma page_below_volume:
  assumes "kowned s d"
  shows "unat d + 2 ^ 21 \<le> unat FS_BASE"
proof -
  have "MEMORY_END = FS_BASE" by (simp add: MEMORY_END_def FS_BASE_def)
  then show ?thesis using region_bound [OF kowned_region [OF assms]] by simp
qed

lemma user_buffer:
  fixes s :: "'a sys_scheme"
  assumes "vm_full r s" "data_page (mem s) r (vm_index 0x400000) = Some d" "ttbr0 s cpu = V2P r" "n \<le> 2 ^ 21"
  shows "buffer_ok cpu s 0x400000 d n"
proof -
  note D = vm_okD(1,2) [OF vm_fullD(1) [OF assms(1)]] and o = vm_fullD(3) [OF assms(1,2)]
  have "buffer_ok cpu s 0x400000 d (2 ^ 21)"
    using user_linear [OF assms(1-3)] page_below_volume [OF o] kowned_region [OF o] D(2)
    by (auto simp: buffer_ok_def region_def KERNEL_BASE_def)
  then show ?thesis using assms(4) by (rule buffer_shrink)
qed

section \<open>The open file\<close>

lemma opened_tables:
  "opened s (p, i) f c =
     with_files p ((pr_file (process_table s p))[i := Some f])
       (with_tables (file_desc_table (opened s (p, i) f c)) (fcb_table (opened s (p, i) f c)) s)"
  by (simp add: opened_def with_files_def with_tables_def upd_process_def set_file_def upd_desc_def upd_fcb_def Let_def)

lemma files_inv_position:
  assumes "files_inv s"
  shows "files_inv (upd_desc f (\<lambda>r. r\<lparr>fd_position := g r\<rparr>) s)"
proof -
  let ?t = "upd_desc f (\<lambda>r. r\<lparr>fd_position := g r\<rparr>) s"
  have d: "fd_fcb (file_desc_table ?t h) = fd_fcb (file_desc_table s h)" "fd_count (file_desc_table ?t h) = fd_count (file_desc_table s h)"
    "mem ?t = mem s" "fcb_table ?t = fcb_table s" "process_table ?t = process_table s" for h
    by (simp_all add: upd_desc_def)
  have "refs ?t = refs s" "fcb_refs ?t = fcb_refs s" "handle_at ?t = handle_at s"
    by (simp_all add: fun_eq_iff refs_def fcb_refs_def reaches_def handle_at_def d)
  then show ?thesis using assms unfolding files_inv_def d by simp
qed

text \<open>The file a directory entry names, whose chain of \<open>n\<close> clusters holds it.\<close>

definition program_size :: "memory \<Rightarrow> nat \<Rightarrow> nat" where
  "program_size m i = unat (de_file_size m (dir_entry m i))"

definition program_stored :: "memory \<Rightarrow> nat \<Rightarrow> nat \<Rightarrow> bool" where
  "program_stored m i n \<longleftrightarrow> 0 < cluster_bytes m \<and>
     (\<forall>j \<in> set (fat_chain m (unat (de_cluster_index m (dir_entry m i))) n). data_cluster m j) \<and>
     program_size m i \<le> n * cluster_bytes m \<and> program_size m i + cluster_bytes m < 2 ^ 32"

definition program_bytes :: "memory \<Rightarrow> nat \<Rightarrow> nat \<Rightarrow> u8 list" where
  "program_bytes m i n = take (program_size m i) (chain_data m (unat (de_cluster_index m (dir_entry m i))) n)"

lemma program_file:
  assumes "describes (mem s) c (fcb_table s c)"
  shows "file_stored s c n \<longleftrightarrow> program_stored (mem s) c n" "file_contents s c n = program_bytes (mem s) c n"
    "unat (fc_file_size (fcb_table s c)) = program_size (mem s) c"
  using assms by (simp_all add: describes_def file_stored_def program_stored_def file_contents_def program_bytes_def program_size_def)

lemma program_volume:
  assumes "same_volume m m'" "c < 65536"
  shows "program_size m' c = program_size m c" "program_stored m' c n = program_stored m c n"
    "program_stored m c n \<Longrightarrow> program_bytes m' c n = program_bytes m c n"
proof -
  note e = same_volume_directory(1) [OF assms(1)] and f = same_volume_fields [OF assms(1)]
  let ?k = "unat (de_cluster_index m (dir_entry m c))"
  have w: "de_cluster_index m' (dir_entry m c) = de_cluster_index m (dir_entry m c)"
    using entry_volume [OF assms, of 26 2] by (simp add: de_cluster_index_def load16_def)
  have k: "?k < 2 ^ 32" using u16_bound [of "de_cluster_index m (dir_entry m c)"] by simp
  show z: "program_size m' c = program_size m c"
    using entry_volume [OF assms, of 28 4] by (simp add: program_size_def e de_file_size_def load32_def)
  show "program_stored m' c n = program_stored m c n"
    unfolding program_stored_def e w z same_volume_chain [OF assms(1) k] f by (simp add: data_cluster_def f)
  show "program_bytes m' c n = program_bytes m c n" if "program_stored m c n"
    unfolding program_bytes_def e w z using same_volume_data [OF assms(1) k] that by (simp add: program_stored_def)
qed

section \<open>The frame of the new program\<close>

definition fresh_frame :: "u64 \<Rightarrow> memory \<Rightarrow> memory" where
  "fresh_frame tf m =
     store64 (store64 (store64 (memset m tf 0 (unat TRAP_FRAME_SIZE)) (tf + 34 * 8) 0x400000)
       (tf + 31 * 8) (0x400000 + PAGE_SIZE)) (tf + 35 * 8) 0"

lemma fresh_frame_spec:
  fixes a :: u64
  defines "tf \<equiv> a + PAGE_SIZE - TRAP_FRAME_SIZE"
  shows "j < 36 \<Longrightarrow> load64 (fresh_frame tf m) (tf + 8 * of_nat j) =
      (if j = 34 then 0x400000 else if j = 31 then 0x600000 else 0)"
    "\<not> in_range tf 288 x \<Longrightarrow> fresh_frame tf m x = m x"
proof -
  have n: "unat TRAP_FRAME_SIZE = 288" by (simp add: TRAP_FRAME_SIZE_def)
  have ap: "apart (tf + 8 * of_nat i) 8 (tf + 8 * of_nat j) 8" if "i < 36" "j < 36" "i \<noteq> j" for i j
    unfolding tf_def frame_words(5) by (rule page_words_apart) (use that in simp_all)
  show "load64 (fresh_frame tf m) (tf + 8 * of_nat j) = (if j = 34 then 0x400000 else if j = 31 then 0x600000 else 0)" if j: "j < 36"
  proof -
    have "load64 (memset m tf 0 288) (tf + 8 * of_nat j) = 0"
      using j by (intro load64_memset_inside) (simp_all add: unat_of_nat take_bit_nat_eq_self unat_mult_lem [THEN iffD1])
    then show ?thesis
      using ap [of 34 j] ap [of 31 j] ap [of 35 j] j
      by (cases "j \<in> {31, 34, 35}") (auto simp: fresh_frame_def n load64_store64_apart PAGE_SIZE_def)
  qed
  show "fresh_frame tf m x = m x" if x: "\<not> in_range tf 288 x"
  proof -
    have "\<not> in_range (tf + 34 * 8) 8 x" "\<not> in_range (tf + 31 * 8) 8 x" "\<not> in_range (tf + 35 * 8) 8 x"
      using x frame_word_in [of 34 tf x] frame_word_in [of 31 tf x] frame_word_in [of 35 tf x] by auto
    then show ?thesis using x by (simp add: fresh_frame_def n store64_outside memset_apply)
  qed
qed

section \<open>exec\<close>

lemma with_tables_nest:
  "with_tables D C (with_files p F s) = with_files p F (with_tables D C s)"
  "with_tables D C (with_tables D' C' s) = with_tables D C s"
  "with_tables D C s\<lparr>mem := m\<rparr> = with_tables D C (s\<lparr>mem := m\<rparr>)"
  "with_files p F s\<lparr>mem := m\<rparr> = with_files p F (s\<lparr>mem := m\<rparr>)"
  "upd_desc f g s = with_tables ((file_desc_table s)(f := g (file_desc_table s f))) (fcb_table s) s"
  by (simp_all add: with_tables_def with_files_def upd_process_def upd_desc_def)

text \<open>Reading a whole file into a zeroed buffer.\<close>

lemma load_file:
  fixes s :: "'a sys_scheme"
  assumes "files_inv s" "open_on s p fd f c" "describes (mem s) c (fcb_table s c)" "fd_position (file_desc_table s f) = 0"
    and buf: "buffer_ok cpu s v d (2 ^ 21)" and zero: "\<And>x. in_range d (2 ^ 21) x \<Longrightarrow> mem s x = 0"
    and prog: "program_stored (mem s) c n" "0 < program_size (mem s) c" "program_size (mem s) c \<le> 2 ^ 21"
  obtains sz D m where "get_file_size p fd s = Inr sz" "sz \<noteq> 0xffffffff"
    "read_file cpu p fd v sz s = Inr (sz, with_tables D (fcb_table s) (s\<lparr>mem := m\<rparr>))"
    "files_inv (with_tables D (fcb_table s) (s\<lparr>mem := m\<rparr>))" "fd_fcb (D f) = Some c"
    "\<forall>k < 2 ^ 21. m (d + of_nat k) = (if k < program_size (mem s) c then program_bytes (mem s) c n ! k else 0)"
    "\<forall>x. \<not> in_range d (2 ^ 21) x \<longrightarrow> m x = mem s x"
proof -
  let ?sz = "fc_file_size (fcb_table s c)"
  note P = program_file [OF assms(3)]
  have bt: "buffer_ok cpu s v d (unat ?sz)" using buffer_shrink [OF buf] prog(3) P(3) by simp
  have sz: "0 < ?sz" using prog(2) P(3) by (simp add: word_less_nat_alt)
  have st: "file_stored s c n" using prog(1) P(1) by simp
  obtain m where m: "read_file cpu p fd v ?sz s =
      Inr (?sz, upd_desc f (\<lambda>r. r\<lparr>fd_position := fd_position r + ?sz\<rparr>) (s\<lparr>mem := m\<rparr>))"
    "load_bytes m d (unat ?sz) = take (unat ?sz) (program_bytes (mem s) c n)" "\<forall>x. \<not> in_range d (unat ?sz) x \<longrightarrow> m x = mem s x"
    using read_file_run [OF assms(2) st bt sz] P(2) assms(4) by auto
  let ?u = "upd_desc f (\<lambda>r. r\<lparr>fd_position := fd_position r + ?sz\<rparr>) (s\<lparr>mem := m\<rparr>)"
  have "same_volume (mem s) m" using m(3) bt unfolding buffer_ok_def by (intro buffer_volume [of d "unat ?sz"]) auto
  then have "files_inv (s\<lparr>mem := m\<rparr>)" by (intro files_inv_cong [OF assms(1)]) simp_all
  then have inv: "files_inv ?u" by (rule files_inv_position)
  have u: "?u = with_tables (file_desc_table ?u) (fcb_table s) (s\<lparr>mem := m\<rparr>)" by (simp add: upd_desc_def with_tables_def)
  show ?thesis
  proof (rule that [of ?sz "file_desc_table ?u" m, folded u])
    show "get_file_size p fd s = Inr ?sz" using open_on_at [OF assms(2)] by (simp add: get_file_size_def)
    show "?sz \<noteq> 0xffffffff" using prog(3) P(3) by auto
    show "fd_fcb (file_desc_table ?u f) = Some c" using assms(2) by (simp add: upd_desc_def open_on_def)
    show "\<forall>k < 2 ^ 21. m (d + of_nat k) = (if k < program_size (mem s) c then program_bytes (mem s) c n ! k else 0)"
    proof (intro allI impI)
      fix k assume k: "k < (2 :: nat) ^ 21"
      show "m (d + of_nat k) = (if k < program_size (mem s) c then program_bytes (mem s) c n ! k else 0)"
      proof (cases "k < program_size (mem s) c")
        case True
        then have "m (d + of_nat k) = load_bytes m d (unat ?sz) ! k" using P(3) by simp
        also have "\<dots> = program_bytes (mem s) c n ! k" unfolding m(2) using True P(3) by simp
        finally show ?thesis using True by simp
      next
        case False
        have "unat (of_nat k :: u64) = k" using k by (simp add: unat_of_nat take_bit_nat_eq_self)
        then have "\<not> in_range d (unat ?sz) (d + of_nat k)" "in_range d (2 ^ 21) (d + of_nat k)"
          using False k P(3) by (simp_all add: in_range_def)
        then show ?thesis using False m(3) zero by simp
      qed
    qed
    show "\<forall>x. \<not> in_range d (2 ^ 21) x \<longrightarrow> m x = mem s x"
      using m(3) in_range_prefix [of d "unat ?sz" _ "2 ^ 21"] prog(3) P(3) by auto
  qed (use m(1) inv in simp_all)
qed

text \<open>Closing the handle again leaves the tables of handles as they were before the file was opened.\<close>

lemma close_opened:
  fixes s :: "'a sys_scheme" and m :: memory
  assumes h: "(p, fd) \<in> handles" "handle_at s (p, fd) = None" "nat (sint (of_nat fd :: i32)) = fd"
    and on: "open_on (opened s (p, fd) f c) p (of_nat fd) f c" and E: "fd_fcb (E f) = Some c"
  defines "u \<equiv> with_tables E (fcb_table (opened s (p, fd) f c)) (opened s (p, fd) f c\<lparr>mem := m\<rparr>)"
  assumes inv: "files_inv u"
  obtains D C where "close_file p (of_nat fd) u = Inr (with_tables D C (s\<lparr>mem := m\<rparr>))" "files_inv (with_tables D C (s\<lparr>mem := m\<rparr>))"
proof -
  let ?L = "pr_file (process_table s p)" and ?t = "opened s (p, fd) f c"
  obtain D0 C0 where t: "?t = with_files p (?L[fd := Some f]) (with_tables D0 C0 s)"
    using opened_tables [of s p fd f c] by blast
  have uf: "pr_file (process_table u p) = ?L[fd := Some f]" "file_desc_table u = E"
    by (simp_all add: u_def t with_tables_def with_files_def upd_process_def)
  have ou: "open_on u p (of_nat fd) f c" using on E uf by (simp add: open_on_def t)
  define w where "w = dropped u (p, fd) f c"
  have close: "close_file p (of_nat fd) u = Inr w"
    using close_file_run [OF inv _ ou] h(1,3) by (simp add: w_def)
  have "handle_at u (p, fd) = Some f" using ou h(3) by (simp add: open_on_def handle_at_def)
  then have winv: "files_inv w" unfolding w_def using dropped_inv(1) [OF inv h(1)] E uf(2) by simp
  have "?L[fd := None] = ?L" using h(2) by (metis handle_at_def fst_conv snd_conv list_update_id)
  then have "w = with_files p ?L (with_tables (file_desc_table w) (fcb_table w) (s\<lparr>mem := m\<rparr>))"
    using dropped_tables [of u p fd f c]
    unfolding w_def [symmetric] uf(1) by (simp add: u_def t with_tables_nest with_files_commute)
  moreover have "with_files p ?L (s\<lparr>mem := m\<rparr>) = s\<lparr>mem := m\<rparr>" using with_files_same [of p "s\<lparr>mem := m\<rparr>"] by simp
  ultimately obtain D C where "w = with_tables D C (s\<lparr>mem := m\<rparr>)"
    using with_tables_nest(1) [of _ _ p ?L "s\<lparr>mem := m\<rparr>"] by metis
  then show ?thesis using that close winv by metis
qed

lemma exec_load_run:
  fixes s :: "'a sys_scheme"
  assumes "files_inv s" "open_on s p fd f c" "describes (mem s) c (fcb_table s c)" "fd_position (file_desc_table s f) = 0"
    and vm: "vm_full r s" "data_page (mem s) r (vm_index 0x400000) = Some d" "ttbr0 s cpu = V2P r"
    and prog: "program_stored (mem s) c n" "0 < program_size (mem s) c" "program_size (mem s) c \<le> 2 ^ 21"
  shows "\<exists>D m. exec_load cpu p fd s = exec_finish p fd (with_tables D (fcb_table s) (s\<lparr>mem := m\<rparr>)) \<and>
    files_inv (with_tables D (fcb_table s) (s\<lparr>mem := m\<rparr>)) \<and> fd_fcb (D f) = Some c \<and>
    (\<forall>k < 2 ^ 21. m (d + of_nat k) = (if k < program_size (mem s) c then program_bytes (mem s) c n ! k else 0)) \<and>
    (\<forall>x. \<not> in_range d (2 ^ 21) x \<longrightarrow> m x = mem s x)"
proof -
  define m1 where "m1 = memset (mem s) d 0 (2 ^ 21)"
  define t where "t = s\<lparr>mem := m1\<rparr>"
  have o: "kowned s d" using vm_fullD(3) [OF vm(1,2)] .
  have m1: "m1 x = (if in_range d (2 ^ 21) x then 0 else mem s x)" for x by (simp add: m1_def memset_apply)
  have buf: "buffer_ok cpu t 0x400000 d (2 ^ 21)"
    using buffer_store [OF user_buffer [OF vm, of "2 ^ 21"], of m1] m1 by (simp add: t_def)
  have sv: "same_volume (mem s) m1" using m1 page_below_volume [OF o] by (intro buffer_volume [of d "2 ^ 21"]) auto
  have "unat PAGE_SIZE = 2 ^ 21" by (simp add: PAGE_SIZE_def)
  then have set0: "vmemset cpu 0x400000 0 (unat PAGE_SIZE) s = Inr t"
    using vmemset_linear [OF user_linear [OF vm]] by (simp add: t_def m1_def)
  have T: "files_inv t" "open_on t p fd f c" "mem t = m1" "fcb_table t = fcb_table s" "fd_position (file_desc_table t f) = 0"
    using files_inv_cong [OF assms(1), of t] assms(2,4) sv by (simp_all add: t_def open_on_def)
  have c: "c < FCB_COUNT" using files_invD(7) [OF assms(1), of f c] assms(2) by (simp add: open_on_def)
  have des: "describes (mem t) c (fcb_table t c)" using describes_volume [OF sv c] assms(3) T by simp
  note V = program_volume [OF sv c [unfolded FCB_COUNT_eq]]
  have zero: "in_range d (2 ^ 21) x \<Longrightarrow> mem t x = 0" for x by (simp add: T m1)
  obtain sz D m where L: "get_file_size p fd t = Inr sz" "sz \<noteq> 0xffffffff"
    "read_file cpu p fd 0x400000 sz t = Inr (sz, with_tables D (fcb_table t) (t\<lparr>mem := m\<rparr>))"
    "files_inv (with_tables D (fcb_table t) (t\<lparr>mem := m\<rparr>))" "fd_fcb (D f) = Some c"
    "\<forall>k < 2 ^ 21. m (d + of_nat k) = (if k < program_size (mem t) c then program_bytes (mem t) c n ! k else 0)"
    "\<forall>x. \<not> in_range d (2 ^ 21) x \<longrightarrow> m x = mem t x"
    by (rule load_file [OF T(1,2) des T(5) buf zero, of n]) (use V prog T(3) in simp_all)
  have "t\<lparr>mem := m\<rparr> = s\<lparr>mem := m\<rparr>" by (simp add: t_def)
  moreover have "exec_load cpu p fd s = exec_finish p fd (with_tables D (fcb_table t) (t\<lparr>mem := m\<rparr>))"
    using L(2) by (simp add: exec_load_def set0 L(1,3))
  ultimately show ?thesis
    using L(4-7) V(1) V(3) [OF prog(1)] m1 unfolding T(3,4) by (intro exI [of _ D] exI [of _ m]) auto
qed

lemma exec_run:
  fixes s :: "'a sys_scheme"
  assumes inv: "files_inv s" and p: "fst p < MAXCORES" "snd p < NUM_PROC"
    and name: "search_file (mem s) name = Inr i" "i \<noteq> 0xffffffff"
    and free: "free_slot (process_table s p) = Some fd" "free_desc (file_desc_table s) = Some f"
    and vm: "vm_full (map_of_process s p) s" "data_page (mem s) (map_of_process s p) (vm_index 0x400000) = Some d"
      "ttbr0 s cpu = V2P (map_of_process s p)"
    and stk: "kowned s stk" "pr_tf (process_table s p) = stk + PAGE_SIZE - TRAP_FRAME_SIZE" "stk \<noteq> d"
    and prog: "program_stored (mem s) (unat i) n" "0 < program_size (mem s) (unat i)" "program_size (mem s) (unat i) \<le> 2 ^ 21"
  shows "\<exists>D C m. exec cpu p name s = Inr (Returned 0 (with_tables D C (s\<lparr>mem := m\<rparr>))) \<and>
    files_inv (with_tables D C (s\<lparr>mem := m\<rparr>)) \<and>
    (\<forall>k < 2 ^ 21. m (d + of_nat k) = (if k < program_size (mem s) (unat i) then program_bytes (mem s) (unat i) n ! k else 0)) \<and>
    (\<forall>j < 36. load64 m (pr_tf (process_table s p) + 8 * of_nat j) = (if j = 34 then 0x400000 else if j = 31 then 0x600000 else 0)) \<and>
    (\<forall>x. \<not> in_range d (2 ^ 21) x \<longrightarrow> \<not> in_range stk (2 ^ 21) x \<longrightarrow> m x = mem s x)"
proof -
  let ?L = "pr_file (process_table s p)" and ?c = "unat i" and ?tf = "pr_tf (process_table s p)"
  define t where "t = opened s (p, fd) f ?c"
  note O = open_success [OF inv p name free, folded t_def]
  obtain D0 C0 where t: "t = with_files p (?L[fd := Some f]) (with_tables D0 C0 s)"
    using opened_tables [of s p fd f ?c] unfolding t_def by blast
  have M: "mem t = mem s" "ttbr0 t = ttbr0 s" "fd_position (file_desc_table t f) = 0" and sk: "same_kernel s t"
    by (simp_all add: t_def zero_file_desc_def) (simp_all add: t_def [symmetric] t, simp add: with_files_def with_tables_def upd_process_def)
  have o: "kowned s d" using vm_fullD(3) [OF vm(1,2)] .
  have al: "page_aligned d" "page_aligned stk" using region_bound(3) kowned_region o stk(1) by blast+
  obtain E m where L: "exec_load cpu p (of_nat fd) t = exec_finish p (of_nat fd) (with_tables E (fcb_table t) (t\<lparr>mem := m\<rparr>))"
    "files_inv (with_tables E (fcb_table t) (t\<lparr>mem := m\<rparr>))" "fd_fcb (E f) = Some ?c"
    "\<forall>k < 2 ^ 21. m (d + of_nat k) = (if k < program_size (mem s) ?c then program_bytes (mem s) ?c n ! k else 0)"
    "\<forall>x. \<not> in_range d (2 ^ 21) x \<longrightarrow> m x = mem s x"
    using exec_load_run [OF O(2-4) M(3), of "map_of_process s p" d cpu n] vm prog
      same_kernel_eqs(5) [OF sk] unfolding M by auto
  define u where "u = with_tables E (fcb_table t) (t\<lparr>mem := m\<rparr>)"
  obtain D C where "close_file p (of_nat fd) (with_tables E (fcb_table t) (t\<lparr>mem := m\<rparr>)) = Inr (with_tables D C (s\<lparr>mem := m\<rparr>))"
    and winv: "files_inv (with_tables D C (s\<lparr>mem := m\<rparr>))"
    by (rule close_opened [OF O(5-7) O(3) [unfolded t_def] L(3) L(2) [unfolded t_def], folded t_def]) (rule that)
  then have close: "close_file p (of_nat fd) u = Inr (with_tables D C (s\<lparr>mem := m\<rparr>))" by (simp add: u_def)
  define m' where "m' = fresh_frame ?tf m"
  note F = fresh_frame_spec [where a = stk and m = m, folded stk(2)]
  have out: "m' x = m x" if "\<not> in_range stk (2 ^ 21) x" for x
    using F(2) [of x] frame_in_page [OF al(2), of x] that stk(2) by (auto simp: m'_def)
  have "same_volume m m'" using out page_below_volume [OF stk(1)] by (intro buffer_volume [of stk "2 ^ 21"]) auto
  then have finv: "files_inv (with_tables D C (s\<lparr>mem := m'\<rparr>))"
    using files_inv_cong [OF winv, of "with_tables D C (s\<lparr>mem := m'\<rparr>)"] by (simp add: with_tables_def)
  have "exec_finish p (of_nat fd) u = Inr (Returned 0 (with_tables D C (s\<lparr>mem := m'\<rparr>)))"
    by (simp add: exec_finish_def close m'_def fresh_frame_def with_tables_def Let_def)
  moreover have "(of_nat fd :: i32) \<noteq> - 1"
    using O(7) by auto
  ultimately have run: "exec cpu p name s = Inr (Returned 0 (with_tables D C (s\<lparr>mem := m'\<rparr>)))"
    using L(1) O(1) by (simp add: exec_def u_def)
  have page: "m' (d + of_nat k) = m (d + of_nat k)" if "k < 2 ^ 21" for k
  proof (rule out)
    have "unat (of_nat k :: u64) = k" using that by (simp add: unat_of_nat take_bit_nat_eq_self)
    then have "in_range d (2 ^ 21) (d + of_nat k)" using that by (simp add: in_range_def)
    then show "\<not> in_range stk (2 ^ 21) (d + of_nat k)"
      using apart_disjoint [OF page_apart [OF kowned_region [OF stk(1)] kowned_region [OF o] stk(3)]] by blast
  qed
  show ?thesis
    using run finv page L(4,5) F(1) out unfolding m'_def [symmetric] by (intro exI [of _ D] exI [of _ C] exI [of _ m']) auto
qed

lemma tables_fields:
  "process_table (with_tables D C s) = process_table s" "state_of (with_tables D C s) = state_of s"
  "stack_of (with_tables D C s) = stack_of s" "map_of_process (with_tables D C s) = map_of_process s"
  by (simp_all add: with_tables_def fun_eq_iff)

lemma exec_spaces:
  fixes s :: "'a sys_scheme" and m :: memory and D :: "nat \<Rightarrow> file_desc" and C :: "nat \<Rightarrow> fcb"
  assumes sp: "spaces_ok s" and p: "live s p"
    and d: "data_page (mem s) (map_of_process s p) (vm_index 0x400000) = Some d"
    and out: "\<forall>x. \<not> in_range d (2 ^ 21) x \<longrightarrow> \<not> in_range (stack_of s p) (2 ^ 21) x \<longrightarrow> m x = mem s x"
  defines "t \<equiv> with_tables D C (s\<lparr>mem := m\<rparr>)"
  shows "spaces_ok t" "vm_full (map_of_process s p) t" "data_page (mem t) (map_of_process s p) (vm_index 0x400000) = Some d"
    "\<And>q. live s q \<Longrightarrow> q \<noteq> p \<Longrightarrow> undisturbed s t q"
proof -
  let ?r = "map_of_process s p" and ?k = "stack_of s p" and ?u = "s\<lparr>mem := m\<rparr>"
  note P = space_okD [OF spaces_okD(3) [OF sp p]]
  have o: "kowned s d" using vm_fullD(3) [OF P(2) d] .
  define m1 where "m1 = (\<lambda>x. if in_range d (2 ^ 21) x then m x else mem s x)"
  have k1: "keeps_pages {d} s (s\<lparr>mem := m1\<rparr>)"
    by (rule write_keeps(1) [OF spaces_okD(1) [OF sp] o]) (simp add: m1_def)
  have "keeps_pages {?k} (s\<lparr>mem := m1\<rparr>) (s\<lparr>mem := m1\<rparr>\<lparr>mem := m\<rparr>)"
  proof (rule write_keeps(1))
    show "kalloc_inv (s\<lparr>mem := m1\<rparr>)" using k1 by (simp add: keeps_pages_def)
    show "kowned (s\<lparr>mem := m1\<rparr>) ?k" by (rule keeps_owned [OF k1 P(1)])
    show "m x = mem (s\<lparr>mem := m1\<rparr>) x" if "\<not> in_range ?k (2 ^ 21) x" for x using out that by (simp add: m1_def)
  qed
  then have K: "keeps_pages {d, ?k} s ?u" using keeps_trans [OF k1, of "{?k}" _ "{d, ?k}"] by simp
  have kt: "same_kernel ?u t" by (simp add: t_def)
  have "{d, ?k} \<inter> tables (mem s) ?r = {}" using vm_fullD(4) [OF P(2) d] P(3) tables_pages by blast
  note V = vm_full_keeps [OF P(2) K this]
  show ft: "vm_full ?r t" using V(1) same_kernel_eqs(5) [OF kt] by simp
  have mt: "mem t = m" by (simp add: t_def with_tables_def)
  show "data_page (mem t) ?r (vm_index 0x400000) = Some d" using V(3) d mt by simp
  have vp: "vm_pages m ?r = vm_pages (mem s) ?r" using V(2,3) by (simp add: vm_pages_eq)
  have ot: "kowned t a" if "kowned s a" for a using keeps_owned [OF K that] same_kernel_eqs(4) [OF kt] by simp
  show und: "undisturbed s t q" if q: "live s q" "q \<noteq> p" for q
  proof -
    have "d \<in> proc_pages s p" "?k \<in> proc_pages s p" using data_pages [OF d] by (simp_all add: proc_pages_def)
    then have "proc_pages s q \<inter> {d, ?k} = {}" using spaces_okD(4) [OF sp q(1) p q(2)] by blast
    then have "left_alone (proc_pages s q) s ?u"
      using left_alone_keeps [OF K] space_okD(5) [OF spaces_okD(3) [OF sp q(1)]] by blast
    then have "left_alone (proc_pages s q) s t" using left_alone_same [OF same_kernel_simps(1) kt] by blast
    then show ?thesis by (simp add: undisturbed_def t_def tables_fields)
  qed
  have lv: "live t q \<longleftrightarrow> live s q" for q by (simp add: live_def t_def tables_fields)
  show "spaces_ok t"
  proof (rule spaces_update [OF sp, where q = p])
    show "kalloc_inv t" "start_of t = start_of s"
      using K same_kernel_eqs(1,3) [OF kt] unfolding keeps_pages_def by simp_all
    show "live s q \<and> undisturbed s t q" if "live t q" "q \<noteq> p" for q using that und lv by blast
    have "proc_pages t p = proc_pages s p" using vp by (simp add: proc_pages_def mt) (simp add: t_def tables_fields)
    moreover have "space_ok t p"
      using ft ot [OF P(1)] P(3,4) vp unfolding space_ok_def mt by (simp add: t_def tables_fields)
    ultimately show "space_ok t p \<and> (\<forall>q. live s q \<longrightarrow> q \<noteq> p \<longrightarrow> proc_pages t p \<inter> proc_pages s q = {})"
      using spaces_okD(4) [OF sp p] by auto
  qed
qed

lemma sched_inv_tables:
  assumes "sched_inv s Q R"
  shows "sched_inv (with_tables D C (s\<lparr>mem := m\<rparr>)) Q R"
  using assms unfolding sched_inv_def sched_rep_def lists_rep_def placed_def by (simp add: with_tables_def)

section \<open>Properties\<close>

text \<open>
  C13: \<open>exec\<close> replaces the program of the running process and nothing else.  For a name on the volume
  whose file is not empty and fits into a page, with a handle and a descriptor free, it returns 0; the
  process then sees the bytes of the file from 0x400000 on and zeros behind them, its trap frame starts
  the program at 0x400000 with its stack pointer at the end of the page and all other registers 0;
  handles and processes are as before, no other process sees a byte change, and the invariants of the scheduler,
  the reference counts and the address spaces are kept.
\<close>

theorem exec_correct:
  fixes s :: "'a sys_scheme"
  assumes "sched_inv s Q R" "files_inv s" "spaces_ok s" "live s p" "ttbr0 s cpu = V2P (map_of_process s p)"
    and "data_page (mem s) (map_of_process s p) (vm_index 0x400000) = Some d"
    and "search_file (mem s) name = Inr i" "i \<noteq> 0xffffffff"
    and "free_slot (process_table s p) = Some fd" "free_desc (file_desc_table s) = Some f"
    and "program_stored (mem s) (unat i) n" "0 < program_size (mem s) (unat i)" "program_size (mem s) (unat i) \<le> 2 ^ 21"
  shows "\<exists>t. exec cpu p name s = Inr (Returned 0 t) \<and> process_table t = process_table s \<and>
    (\<forall>k < 2 ^ 21. user_byte t (map_of_process t p) (0x400000 + of_nat k) =
       Some (if k < program_size (mem s) (unat i) then program_bytes (mem s) (unat i) n ! k else 0)) \<and>
    (\<forall>j < 36. load64 (mem t) (pr_tf (process_table t p) + 8 * of_nat j) =
       (if j = 34 then 0x400000 else if j = 31 then 0x600000 else 0)) \<and>
    (\<forall>q v. live s q \<longrightarrow> q \<noteq> p \<longrightarrow> user_byte t (map_of_process t q) v = user_byte s (map_of_process s q) v) \<and>
    sched_inv t Q R \<and> files_inv t \<and> spaces_ok t"
proof -
  note P = space_okD [OF spaces_okD(3) [OF assms(3,4)]]
  have sl: "slot p" using assms(4) by (simp add: live_def)
  have "stack_of s p \<noteq> d" using P(3) data_pages [OF assms(6)] by blast
  from exec_run [OF assms(2) slotD(1,2) [OF sl] assms(7-10) P(2) assms(6,5) P(1,4) this assms(11-13)]
  obtain D C m where e: "exec cpu p name s = Inr (Returned 0 (with_tables D C (s\<lparr>mem := m\<rparr>)))"
    "files_inv (with_tables D C (s\<lparr>mem := m\<rparr>))"
    "\<forall>k < 2 ^ 21. m (d + of_nat k) = (if k < program_size (mem s) (unat i) then program_bytes (mem s) (unat i) n ! k else 0)"
    "\<forall>j < 36. load64 m (pr_tf (process_table s p) + 8 * of_nat j) = (if j = 34 then 0x400000 else if j = 31 then 0x600000 else 0)"
    "\<forall>x. \<not> in_range d (2 ^ 21) x \<longrightarrow> \<not> in_range (stack_of s p) (2 ^ 21) x \<longrightarrow> m x = mem s x" by blast
  define t where "t = with_tables D C (s\<lparr>mem := m\<rparr>)"
  note S = exec_spaces [where D = D and C = C, OF assms(3,4,6) e(5), folded t_def]
  have T: "process_table t = process_table s" "mem t = m" by (simp_all add: t_def with_tables_def)
  have "user_byte t (map_of_process t p) (0x400000 + of_nat k) =
      Some (if k < program_size (mem s) (unat i) then program_bytes (mem s) (unat i) n ! k else 0)" if k: "k < 2 ^ 21" for k
  proof -
    have "data_page (mem t) (map_of_process s p) (vm_index (0x400000 + of_nat k)) = Some d"
      using S(3) user_address(1) [OF k] by simp
    from user_byte_data [OF S(2) this] show ?thesis using e(3) k T user_address(2) [OF k] by simp
  qed
  moreover have "user_byte t (map_of_process t q) v = user_byte s (map_of_process s q) v" if "live s q" "q \<noteq> p" for q v
    by (rule undisturbed_space(3) [OF spaces_okD(3) [OF assms(3) that(1)] S(4) [OF that]])
  ultimately show ?thesis
    using e(1,2,4) S(1) T sched_inv_tables [OF assms(1)] unfolding t_def [symmetric]
    by (intro exI [of _ t] conjI) (simp_all only: t_def simp_thms, auto)
qed

text \<open>
  C31: \<open>exec\<close> that cannot open the file ends the caller.  When the name is not on the volume, or no handle or descriptor
  is free, the call does not return -1: the process that runs on the core moves to the killed list,
  its waiters wake, and the core goes on with the next ready process.
\<close>

theorem exec_unknown_file_exits:
  assumes "sched_inv s Q R" "cpu < MAXCORES" "slot (R cpu)"
    and "search_file (mem s) name = Inr 0xffffffff \<or> free_slot (process_table s p) = None \<or>
      free_desc (file_desc_table s) = None"
  shows "\<exists>t. exec cpu p name s = Inr (Left t) \<and> state_of t (R cpu) = PROC_KILLED \<and>
    (let Q' = woken {..<MAXCORES} (- 3) (wait_of s) (Q(Killed cpu := Q (Killed cpu) @ [R cpu]))
     in sched_inv (resume t) (Q'(Ready cpu := tl (Q' (Ready cpu)))) (R(cpu := pick_next cpu Q')))"
proof -
  let ?Q = "woken {..<MAXCORES} (- 3) (wait_of s) (Q(Killed cpu := Q (Killed cpu) @ [R cpu]))"
  obtain t where t: "exit_process cpu s = Inr (Switch t)"
      "sched_inv (resume t) (?Q(Ready cpu := tl (?Q (Ready cpu)))) (R(cpu := pick_next cpu ?Q))"
    using exit_law [OF assms(1-3)] by (auto simp del: woken_def)
  have "R cpu \<in> set ((?Q(Ready cpu := tl (?Q (Ready cpu)))) (Killed cpu))" by (simp add: woken_def)
  from listed_state [OF sched_invD(1) [OF t(2)] this] have "state_of t (R cpu) = PROC_KILLED"
    by (simp add: resume_def spin_unlock_def)
  moreover have "open_file p name s = Inr (- 1, s)"
    using assms(4) unfolding open_file_run by (auto split: option.splits)
  then have "exec cpu p name s = Inr (Left t)" by (simp add: exec_def after_exit_def t(1))
  ultimately show ?thesis using t(2) by (simp add: Let_def)
qed

section \<open>A system with a program on its volume\<close>

text \<open>The allocator does not look at the volume.\<close>

lemma free_inv_above:
  assumes inv: "free_inv A base m L" and e: "base \<le> MEMORY_END"
    and same: "\<And>x. unat x < unat MEMORY_END \<Longrightarrow> m' x = m x"
  shows "free_inv A base m' L"
proof -
  have lay: "layout_ok A base" using free_inv_layout [OF inv] .
  have M: "unat MEMORY_END + 8 < 2 ^ 64" by (simp add: MEMORY_END_def P2V_def KERNEL_BASE_def)
  have load: "load64 m' c = load64 m c" if "unat c + 8 \<le> unat MEMORY_END" for c
  proof (rule load64_cong)
    fix x assume "in_range c 8 x"
    then have "unat x < unat c + 8" using in_range_bounds [of c 8 x] that M by simp
    then show "m' x = m x" using same that by simp
  qed
  have A: "unat A + 160 \<le> unat MEMORY_END" using lay e by (simp add: layout_ok_def word_le_nat_alt)
  have node: "next_of m' n = next_of m n \<and> prev_of m' n = prev_of m n"
    if n: "n \<in> set (free_list A j # L j)" "j < MAX_ORDER" for n j
  proof -
    have b: "unat n + 16 \<le> unat MEMORY_END"
    proof (cases "n = free_list A j")
      case True
      then show ?thesis using unat_free_list [OF lay n(2)] A n(2) by (simp add: MAX_ORDER_def)
    next
      case False
      then have "n \<in> region base" using n lists_okD(2) [OF free_inv_lists [OF inv] n(2)] by auto
      then show ?thesis using region_bound(1) by fastforce
    qed
    then have "unat (n + 8) = unat n + 8" using M unat_plus_of_nat [of n 8] by simp
    then show ?thesis using load [of n] load [of "n + 8"] b by (simp add: next_of_def prev_of_def)
  qed
  have "unat (A + 152) = unat A + 152" using unat_plus_of_nat [of A 152] A M by simp
  then have "start_addr A m' = start_addr A m" unfolding start_addr_def using load A by simp
  from free_inv_write [OF inv this node] show ?thesis .
qed

lemma left_alone_volume:
  fixes k :: "'a kernel_scheme"
  assumes "kalloc_inv k" "\<And>a. a \<in> A \<Longrightarrow> kowned k a" "A \<noteq> {}" and same: "\<And>x. unat x < unat FS_BASE \<Longrightarrow> m x = mem k x"
  shows "left_alone A k (k\<lparr>mem := m\<rparr>)" "kavail (k\<lparr>mem := m\<rparr>) = kavail k"
proof -
  obtain L where L: "kmem_inv k L" and odd: "odd (pn (start_of k))" using assms(1) by (auto simp: kalloc_inv_def)
  have M: "MEMORY_END = FS_BASE" by (simp add: MEMORY_END_def FS_BASE_def)
  have bd: "unat a + 2 ^ 21 \<le> unat FS_BASE" if "a \<in> A" for a using page_below_volume [OF assms(2) [OF that]] .
  have "start_of k \<le> MEMORY_END"
    using assms(2,3) kowned_region unfolding region_def by (metis (no_types, lifting) ex_in_conv mem_Collect_eq order_le_less_trans order_less_imp_le)
  from free_inv_above [OF L [unfolded kmem_inv_def, THEN conjunct1] this] same M
  have F: "free_inv (sym_allocator k) (start_of k) m L" by simp
  have st: "start_of (k\<lparr>mem := m\<rparr>) = start_of k" using free_inv_start [OF F] by simp
  then have K: "kmem_inv (k\<lparr>mem := m\<rparr>) L" using F L by (simp add: kmem_inv_def)
  then show av: "kavail (k\<lparr>mem := m\<rparr>) = kavail k" using kavail_eq [OF K] kavail_eq [OF L] by simp
  have "m x = mem k x" if "a \<in> A" "in_range a (2 ^ 21) x" for a x
  proof (rule same)
    have "unat a + 2 ^ 21 \<le> 2 ^ 64" using bd [OF that(1)] by (simp add: FS_BASE_unat)
    then show "unat x < unat FS_BASE" using in_range_bounds [of a "2 ^ 21" x] that bd [OF that(1)] by simp
  qed
  moreover have "kalloc_inv (k\<lparr>mem := m\<rparr>)" using K odd st by (auto simp: kalloc_inv_def)
  ultimately show "left_alone A k (k\<lparr>mem := m\<rparr>)" using assms(2) st av by (simp add: left_alone_def)
qed

lemma tiny_program:
  assumes "same_volume tiny_volume m"
  shows "search_file m (lit_path ''A.B'') = Inr 0" "search_file m (lit_path ''C.D'') = Inr 0xffffffff" "program_stored m 0 2"
    "program_size m 0 = 32" "program_bytes m 0 2 = map of_nat [80..<112]"
proof -
  have "search_file tiny_volume (lit_path ''A.B'') = Inr 0" "search_file tiny_volume (lit_path ''C.D'') = Inr 0xffffffff"
    by code_simp+
  then show "search_file m (lit_path ''A.B'') = Inr 0" "search_file m (lit_path ''C.D'') = Inr 0xffffffff"
    using search_file_volume [OF assms] by simp_all
  have e: "de_file_size tiny_volume (dir_entry tiny_volume 0) = 32" "de_cluster_index tiny_volume (dir_entry tiny_volume 0) = 2"
    by code_simp+
  then have z: "program_size tiny_volume 0 = 32" by (simp add: program_size_def)
  have "data_cluster tiny_volume 2" "data_cluster tiny_volume 3"
    by (simp_all add: data_cluster_def tiny_volume_facts tiny_volume_fields)
  then have st: "program_stored tiny_volume 0 2"
    by (simp add: program_stored_def e z tiny_volume_chain tiny_volume_fields del: fat_chain.simps)
  have by0: "program_bytes tiny_volume 0 2 = map of_nat [80..<112]"
    by (simp add: program_bytes_def e z tiny_chain_data del: upt_rec_numeral)
  show "program_size m 0 = 32" "program_stored m 0 2" "program_bytes m 0 2 = map of_nat [80..<112]"
    using program_volume [OF assms, of 0] st by0 z by simp_all
qed

text \<open>The process of slot 1 runs on core 0 with a mapped page; \<open>A.B\<close> is on the volume.\<close>

lemma exec_machine:
  obtains p and s :: sys where "sched_inv s (solo_queue True) (solo_running True)" "files_inv s" "spaces_ok s" "live s (0, 1)"
    "data_page (mem s) (map_of_process s (0, 1)) (vm_index 0x400000) = Some p" "same_volume tiny_volume (mem s)"
    "ttbr0 s 0 = V2P (map_of_process s (0, 1))" "free_slot (process_table s (0, 1)) = Some 0" "free_desc (file_desc_table s) = Some 0"
    "5 \<le> card (kavail s)" "find_unused_process 0 s = Some (0, 2)" "pr_file (process_table s (0, 2)) = replicate 100 None"
    "\<not> locks s Pid_lock" "\<not> locks s Print_lock" "pid_num s = 5"
proof (rule mapped_state)
  fix r q p and k :: kernel
  assume a: "vm_full r k" "data_page (mem k) r = [vm_index 0x400000 \<mapsto> p]" "vm_full q k" "q \<notin> vm_pages (mem k) r"
    "370 \<le> card (kavail k)"
  define m where "m = (\<lambda>x. if unat x < unat FS_BASE then mem k x else tiny_volume x)"
  define j where "j = k\<lparr>mem := m\<rparr>"
  have own: "kowned k q" using vm_okD(3) [OF vm_fullD(1) [OF a(3)], of Pgd] by simp
  have la: "left_alone (insert q (vm_pages (mem k) r)) k j" and av: "kavail j = kavail k"
    unfolding j_def by (rule left_alone_volume [where A = "insert q (vm_pages (mem k) r)"];
      use vm_okD(1) [OF vm_fullD(1) [OF a(1)]] own vm_pages_owned [OF a(1)] in \<open>auto simp: m_def\<close>)+
  have "left_alone (vm_pages (mem k) r) k j" using la unfolding left_alone_def by blast
  note L = left_alone_space [OF a(1) this]
  have oj: "kowned j q" using la unfolding left_alone_def by blast
  let ?s = "solo j True (solo_process True q r)"
  let ?t = "?s\<lparr>ttbr0 := (\<lambda>_. V2P r)\<rparr>"
  have fields: "mem ?s = m" "map_of_process ?s (0, 1) = r" by (simp_all add: solo_def j_def solo_process_def)
  have "spaces_ok ?t"
    by (rule spaces_same(1) [OF solo_spaces [OF L(1) oj]]) (use a(4) L(2) in \<open>simp_all add: same_kernel_def\<close>)
  moreover have "files_inv ?t" by (rule files_inv_cong [OF solo_files]) (simp_all add: same_volume_def)
  moreover have "sched_inv ?t (solo_queue True) (solo_running True)"
    using solo_inv [of j True q r] by (simp add: sched_inv_def sched_rep_def lists_rep_def placed_def)
  moreover have "live ?t (0, 1)" by (simp add: live_def solo_def solo_process_def)
  moreover have "data_page (mem ?t) (map_of_process ?t (0, 1)) (vm_index 0x400000) = Some p"
    using L(4) a(2) fields by (simp add: j_def)
  moreover have "same_volume tiny_volume (mem ?t)"
    using fields by (simp add: same_volume_def m_def word_le_nat_alt)
  moreover have "ttbr0 ?t 0 = V2P (map_of_process ?t (0, 1))" using fields by simp
  moreover have "free_slot (process_table ?t (0, 1)) = Some 0" "free_desc (file_desc_table ?t) = Some 0"
  proof -
    have "[0..<100] = 0 # [Suc 0..<100]" "[0..<131072] = 0 # [Suc 0..<131072]" by (rule upt_conv_Cons, simp)+
    then show "free_slot (process_table ?t (0, 1)) = Some 0" "free_desc (file_desc_table ?t) = Some 0"
      by (simp_all add: free_slot_def free_desc_def FILE_DESC_COUNT_eq solo_def solo_process_def zero_process_def
          zero_file_desc_def del: upt_rec_numeral)
  qed
  moreover have "5 \<le> card (kavail ?t)"
  proof -
    have "same_kernel j ?t" using solo_kernel [of j True "solo_process True q r"] by (simp add: same_kernel_def)
    from same_kernel_eqs(2) [OF this] show ?thesis using av a(5) by simp
  qed
  moreover have "find_unused_process 0 ?t = Some (0, 2)"
  proof -
    have "[Suc 0..<NUM_PROC] = 1 # 2 # [3..<NUM_PROC]" by (simp add: NUM_PROC_def upt_conv_Cons)
    then show ?thesis
      by (simp add: find_unused_process_def solo_def solo_process_def zero_process_def del: upt_rec_numeral)
  qed
  moreover have "pr_file (process_table ?t (0, 2)) = replicate 100 None" "\<not> locks ?t Pid_lock" "\<not> locks ?t Print_lock"
    "pid_num ?t = 5" by (simp_all add: solo_def zero_process_def)
  ultimately show ?thesis by (intro that [of ?t p])
qed

theorem exec_correct_witness:
  "\<exists>(s :: sys) t. exec 0 (0, 1) (lit_path ''A.B'') s = Inr (Returned 0 t) \<and>
    user_byte t (map_of_process t (0, 1)) (0x400000 + of_nat 5) = Some 85 \<and>
    user_byte t (map_of_process t (0, 1)) (0x400000 + of_nat 32) = Some 0 \<and>
    load64 (mem t) (pr_tf (process_table t (0, 1)) + 8 * of_nat 34) = 0x400000"
proof (rule exec_machine)
  fix p and s :: sys
  assume a: "sched_inv s (solo_queue True) (solo_running True)" "files_inv s" "spaces_ok s" "live s (0, 1)"
    "data_page (mem s) (map_of_process s (0, 1)) (vm_index 0x400000) = Some p" "same_volume tiny_volume (mem s)"
    "ttbr0 s 0 = V2P (map_of_process s (0, 1))" "free_slot (process_table s (0, 1)) = Some 0" "free_desc (file_desc_table s) = Some 0"
  note T = tiny_program [OF a(6)]
  have z: "program_stored (mem s) (unat (0 :: u32)) 2" "program_size (mem s) (unat (0 :: u32)) = 32"
    "program_bytes (mem s) (unat (0 :: u32)) 2 = map of_nat [80..<112]" using T by simp_all
  have i: "(0 :: u32) \<noteq> 0xffffffff" "0 < program_size (mem s) (unat (0 :: u32))" "program_size (mem s) (unat (0 :: u32)) \<le> 2 ^ 21"
    unfolding z by simp_all
  from exec_correct [OF a(1-4) a(7) a(5) T(1) i(1) a(8,9) z(1) i(2,3), unfolded z] obtain t where
    t: "exec 0 (0, 1) (lit_path ''A.B'') s = Inr (Returned 0 t)"
    "\<forall>k < 2 ^ 21. user_byte t (map_of_process t (0, 1)) (0x400000 + of_nat k) = Some (if k < 32 then map of_nat [80..<112] ! k else 0)"
    "\<forall>j < 36. load64 (mem t) (pr_tf (process_table t (0, 1)) + 8 * of_nat j) =
       (if j = 34 then 0x400000 else if j = 31 then 0x600000 else 0)" by blast
  have "(map of_nat [80..<112] ! 5 :: u8) = 85" by (simp add: nth_map del: upt_rec_numeral)
  then have "user_byte t (map_of_process t (0, 1)) (0x400000 + of_nat 5) = Some 85"
    using t(2) [THEN spec, of 5] by (simp del: upt_rec_numeral)
  moreover have "user_byte t (map_of_process t (0, 1)) (0x400000 + of_nat 32) = Some 0"
    using t(2) [THEN spec, of 32] by (simp del: upt_rec_numeral)
  moreover have "load64 (mem t) (pr_tf (process_table t (0, 1)) + 8 * of_nat 34) = 0x400000"
    using t(3) [THEN spec, of 34] by simp
  ultimately show ?thesis using t(1) by (intro exI conjI)
qed

theorem exec_unknown_file_exits_witness:
  "\<exists>(s :: sys) t. exec 0 (0, 1) (lit_path ''C.D'') s = Inr (Left t) \<and> state_of t (0, 1) = PROC_KILLED"
proof (rule exec_machine)
  fix p and s :: sys
  assume a: "sched_inv s (solo_queue True) (solo_running True)" "same_volume tiny_volume (mem s)"
  have R: "solo_running True 0 = (0, 1)" by (simp add: solo_running_def)
  have c: "(0 :: nat) < MAXCORES" "slot (solo_running True 0)" unfolding R by (simp_all add: MAXCORES_def)
  have "search_file (mem s) (lit_path ''C.D'') = Inr 0xffffffff" using tiny_program(2) [OF a(2)] .
  then show ?thesis using exec_unknown_file_exits [OF a(1) c, of "lit_path ''C.D''" "(0, 1)"] unfolding R by blast
qed

end
