(* ===== verification/Process_Start.thy ===== *)
theory Process_Start
  imports Process_Exec
begin

text \<open>
  The first user processes: \<open>setup_uvm\<close> of src/src/memory.c gives a new process a page with a program
  from the volume, and the \<open>init\<close> functions of src/src/process.c put it on the ready list.
\<close>

section \<open>The program on the volume\<close>

text \<open>\<open>program_on m str i n\<close>: the file of that name is entry \<open>i\<close> of the directory, has \<open>n\<close> clusters, and fits into a page.\<close>

definition program_on :: "memory \<Rightarrow> string \<Rightarrow> u32 \<Rightarrow> nat \<Rightarrow> bool" where
  "program_on m str i n \<longleftrightarrow> search_file m (lit_path str) = Inr i \<and> i \<noteq> 0xffffffff \<and> program_stored m (unat i) n \<and>
     0 < program_size m (unat i) \<and> program_size m (unat i) \<le> 2 ^ 21"

text \<open>The bytes a program finds at 0x400000.\<close>

definition program_byte :: "memory \<Rightarrow> u32 \<Rightarrow> nat \<Rightarrow> nat \<Rightarrow> u8" where
  "program_byte m i n k = (if k < program_size m (unat i) then program_bytes m (unat i) n ! k else 0)"

section \<open>setup_uvm\<close>

lemma kernel_buffer:
  assumes "kowned s d" "KERNEL_BASE \<le> start_of s"
  shows "buffer_ok cpu t d d (2 ^ 21)"
proof -
  have d: "KERNEL_BASE \<le> d" using kowned_region [OF assms(1)] assms(2) by (auto simp: region_def)
  have b: "unat d + 2 ^ 21 \<le> unat FS_BASE" using page_below_volume [OF assms(1)] .
  have "linear cpu t d d (2 ^ 21)" by (rule linear_kernel [OF d]) (use b FS_BASE_unat in simp)
  then show ?thesis using d b by (simp add: buffer_ok_def)
qed

lemma setup_uvm_run:
  fixes s :: "'a sys_scheme"
  assumes inv: "files_inv s" and p: "fst p < MAXCORES" "snd p < NUM_PROC"
    and vm: "vm_full (map_of_process s p) s" "data_page (mem s) (map_of_process s p) = Map.empty"
    and card: "3 \<le> card (kavail s)"
    and name: "search_file (mem s) name = Inr i" "i \<noteq> 0xffffffff"
    and free: "free_slot (process_table s p) = Some fd" "free_desc (file_desc_table s) = Some f"
    and prog: "program_stored (mem s) (unat i) n" "0 < program_size (mem s) (unat i)" "program_size (mem s) (unat i) \<le> 2 ^ 21"
  obtains D C m d where "setup_uvm cpu p name s = Inr (True, with_tables D C (s\<lparr>mem := m\<rparr>))"
    "files_inv (with_tables D C (s\<lparr>mem := m\<rparr>))" "keeps_pages (tables (mem s) (map_of_process s p)) s (s\<lparr>mem := m\<rparr>)"
    "vm_full (map_of_process s p) (s\<lparr>mem := m\<rparr>)" "data_page m (map_of_process s p) = [vm_index 0x400000 \<mapsto> d]" "\<not> kowned s d"
    "\<And>q. q \<in> tables m (map_of_process s p) \<Longrightarrow> kowned s q \<Longrightarrow> q \<in> tables (mem s) (map_of_process s p)"
    "\<And>k. k < 2 ^ 21 \<Longrightarrow> m (d + of_nat k) = (if k < program_size (mem s) (unat i) then program_bytes (mem s) (unat i) n ! k else 0)"
    "card (kavail s) \<le> card (kavail (s\<lparr>mem := m\<rparr>)) + 3"
proof -
  let ?r = "map_of_process s p" and ?c = "unat i"
  note S = vm_okD(1,2) [OF vm_fullD(1) [OF vm(1)]]
  have rk: "kowned s ?r" using vm_okD(3) [OF vm_fullD(1) [OF vm(1)], of Pgd] by simp
  have "0 < card (kavail s)" using card by simp
  then obtain d m1 where k: "kalloc s = Inr (d, s\<lparr>mem := m1\<rparr>)" "d \<noteq> 0" "keeps_pages {} s (s\<lparr>mem := m1\<rparr>)" "\<not> kowned s d"
    "kowned (s\<lparr>mem := m1\<rparr>) d" "card (kavail s) \<le> card (kavail (s\<lparr>mem := m1\<rparr>)) + 1" "\<And>x. in_range d (2 ^ 21) x \<Longrightarrow> m1 x = 0"
    by (rule kalloc_run [OF S(1)]) (rule that)
  let ?u = "s\<lparr>mem := m1\<rparr>"
  note V1 = vm_full_keeps [OF vm(1) k(3), unfolded kernel.simps, OF Int_empty_left]
  have nd: "d \<notin> vm_pages (mem ?u) ?r" using V1(2,3) vm_pages_owned [OF vm(1)] k(4) by (auto simp: vm_pages_eq)
  have "PA_DOWN 0x400000 + PAGE_SIZE < MEMORY_END" by code_simp
  then obtain b t where t: "map_page ?r 0x400000 (V2P d) user_attribute ?u = Inr (b, t)" "vm_full ?r t"
      "keeps_pages (tables (mem ?u) ?r) ?u t" "\<forall>q \<in> tables (mem t) ?r. kowned ?u q \<longrightarrow> q \<in> tables (mem ?u) ?r"
      "b \<or> card (kavail ?u) \<le> 1"
      "data_page (mem t) ?r = (if b then (data_page (mem ?u) ?r)(vm_index 0x400000 \<mapsto> d) else data_page (mem ?u) ?r)"
      "b \<longrightarrow> card (kavail ?u) \<le> card (kavail t) + 2"
    using map_page_full [OF V1(1) k(5) nd user_attribute_ok, of "0x400000"] V1(3) vm(2) by auto
  have b: b using t(5) k(6) card by simp
  have dt: "data_page (mem t) ?r = [vm_index 0x400000 \<mapsto> d]" using t(6) b V1(3) vm(2) by simp
  have tt: "t = s\<lparr>mem := mem t\<rparr>" using t(3) unfolding keeps_pages_def by (metis kernel.update_convs(1) kernel.select_convs(1) kernel.surjective)
  have K: "keeps_pages (tables (mem s) ?r) s t"
    by (rule keeps_trans [OF k(3) t(3)]) (use V1(2) in auto)
  have sv: "same_volume (mem s) (mem t)" using keeps_volume [OF K rk] .
  have zero: "mem t x = 0" if "in_range d (2 ^ 21) x" for x
  proof -
    have "d \<notin> tables (mem ?u) ?r" using nd tables_pages by blast
    then have "mem t x = mem ?u x" using t(3) k(5) that unfolding keeps_pages_def by blast
    then show ?thesis using k(7) [OF that] by simp
  qed
  have T: "process_table t = process_table s" "file_desc_table t = file_desc_table s" "fcb_table t = fcb_table s"
    by (subst tt, simp)+
  have ti: "files_inv t" by (rule files_inv_cong [OF inv sv]) (simp_all add: T)
  have tn: "search_file (mem t) name = Inr i" using search_file_volume [OF sv] name(1) by simp
  note O = open_success [OF ti p tn name(2) free [folded T]]
  let ?o = "opened t (p, fd) f ?c"
  have M: "mem ?o = mem t" "fd_position (file_desc_table ?o f) = 0" by (simp_all add: zero_file_desc_def)
  have td: "kowned t d" using keeps_owned [OF t(3) k(5)] .
  have st: "KERNEL_BASE \<le> start_of t" "kalloc_inv t" using S(2) K by (simp_all add: keeps_pages_def)
  note V = program_volume [OF sv search_file_bound(1) [OF name]]
  have z: "in_range d (2 ^ 21) x \<Longrightarrow> mem ?o x = 0" for x using zero M(1) by simp
  have pr: "program_stored (mem ?o) ?c n" "0 < program_size (mem ?o) ?c" "program_size (mem ?o) ?c \<le> 2 ^ 21"
    using prog V(1,2) M(1) by simp_all
  obtain sz E m where L: "get_file_size p (of_nat fd) ?o = Inr sz" "sz \<noteq> 0xffffffff"
    "read_file cpu p (of_nat fd) d sz ?o = Inr (sz, with_tables E (fcb_table ?o) (?o\<lparr>mem := m\<rparr>))"
    "files_inv (with_tables E (fcb_table ?o) (?o\<lparr>mem := m\<rparr>))" "fd_fcb (E f) = Some ?c"
    "\<forall>k < 2 ^ 21. m (d + of_nat k) = (if k < program_size (mem ?o) ?c then program_bytes (mem ?o) ?c n ! k else 0)"
    "\<forall>x. \<not> in_range d (2 ^ 21) x \<longrightarrow> m x = mem ?o x"
    by (rule load_file [OF O(2-4) M(2) kernel_buffer [OF td st(1)] z pr], assumption) (rule that)
  obtain D C where C: "close_file p (of_nat fd) (with_tables E (fcb_table ?o) (?o\<lparr>mem := m\<rparr>)) = Inr (with_tables D C (t\<lparr>mem := m\<rparr>))"
    "files_inv (with_tables D C (t\<lparr>mem := m\<rparr>))"
    by (rule close_opened [OF O(5-7,3) L(5,4)]) (rule that)
  have tm: "t\<lparr>mem := m\<rparr> = s\<lparr>mem := m\<rparr>" by (subst tt) simp
  have K2: "keeps_pages {d} t (s\<lparr>mem := m\<rparr>)" "kavail (s\<lparr>mem := m\<rparr>) = kavail t"
    unfolding tm [symmetric] by (rule write_keeps [OF st(2) td]; use L(7) M(1) in simp)+
  have dd: "{d} \<inter> tables (mem t) ?r = {}" using vm_fullD(4) [OF t(2), of "vm_index 0x400000" d] dt by simp
  note V2 = vm_full_keeps [OF t(2) K2(1) dd]
  have "memset m1 d 0 (unat PAGE_SIZE) = m1" by (rule memset_zero_id) (use k(7) in \<open>simp_all add: PAGE_SIZE_def\<close>)
  then have run: "setup_uvm cpu p name s = Inr (True, with_tables D C (s\<lparr>mem := m\<rparr>))"
    using k(1,2) t(1) b O(1,7) L(1,3) C(1) tm by (auto simp: setup_uvm_def Let_def)
  show ?thesis
  proof (rule that [OF run])
    show "files_inv (with_tables D C (s\<lparr>mem := m\<rparr>))" using C(2) tm by simp
    show "keeps_pages (tables (mem s) ?r) s (s\<lparr>mem := m\<rparr>)" by (rule keeps_trans [OF K K2(1)]) (use k(4) in auto)
    show "vm_full ?r (s\<lparr>mem := m\<rparr>)" "data_page m ?r = [vm_index 0x400000 \<mapsto> d]" using V2 dt by simp_all
    show "\<not> kowned s d" by (rule k(4))
    show "q \<in> tables (mem s) ?r" if "q \<in> tables m ?r" "kowned s q" for q
      using that t(4) V1(2) V2(2) keeps_owned [OF k(3)] by auto
    show "m (d + of_nat j) = (if j < program_size (mem s) ?c then program_bytes (mem s) ?c n ! j else 0)" if "j < 2 ^ 21" for j
      using L(6) that V(1) V(3) [OF prog(1)] M(1) by simp
    show "card (kavail s) \<le> card (kavail (s\<lparr>mem := m\<rparr>)) + 3" using k(6) t(7) b K2(2) by simp
  qed
qed

section \<open>The new process\<close>

lemma born_child:
  fixes s :: "'a sys_scheme"
  assumes links: "links_only (upd_process p (\<lambda>r. r\<lparr>pr_state := PROC_READY\<rparr>) (upd_process p (\<lambda>r. r\<lparr>pr_name := name\<rparr>)
      (with_tables D C (born p stk pg m out s\<lparr>mem := m1\<rparr>)))) z"
  shows "child_of s z p p stk pg m1" "fcb_table z = C" "file_desc_table z = D" "sys.more z = sys.more s"
proof -
  let ?y = "upd_process p (\<lambda>r. r\<lparr>pr_state := PROC_READY\<rparr>) (upd_process p (\<lambda>r. r\<lparr>pr_name := name\<rparr>)
      (with_tables D C (born p stk pg m out s\<lparr>mem := m1\<rparr>)))"
  obtain pt hl where z: "z = ?y\<lparr>process_table := pt, head_lists := hl\<rparr>"
    "\<And>q. \<exists>n. pt q = (process_table ?y q)\<lparr>pr_next := n\<rparr>"
    using links by (elim links_onlyE) blast
  have old: "process_table ?y q = process_table s q" if "q \<noteq> p" for q
    using that by (simp add: born_def with_tables_def upd_process_def)
  have new: "process_table ?y p = (process_table s p)\<lparr>pr_stack := stk, pr_state := PROC_READY, pr_pid := pid_num s,
      pr_context := stk + PAGE_SIZE - TRAP_FRAME_SIZE - 12 * 8, pr_tf := stk + PAGE_SIZE - TRAP_FRAME_SIZE,
      pr_page_map := pg, pr_name := name\<rparr>"
    by (simp add: born_def with_tables_def upd_process_def)
  have pt: "process_table z = pt" by (simp add: z(1))
  obtain n where "pt p = (process_table ?y p)\<lparr>pr_next := n\<rparr>" using z(2) by blast
  then have "pt p = (process_table s p)\<lparr>pr_stack := stk, pr_state := PROC_READY, pr_pid := pid_num s,
      pr_context := stk + PAGE_SIZE - TRAP_FRAME_SIZE - 12 * 8, pr_tf := stk + PAGE_SIZE - TRAP_FRAME_SIZE,
      pr_page_map := pg, pr_name := name, pr_next := n\<rparr>" unfolding new by simp
  moreover have "same_kernel (s\<lparr>mem := m1\<rparr>) z" "locks z = locks s" "current_process z = current_process s"
    "pid_num z = pid_num s + 1"
    by (simp_all add: z(1) born_def with_tables_def upd_process_def same_kernel_def)
  moreover have "\<exists>n. process_table z q = (process_table s q)\<lparr>pr_next := n\<rparr>" if "q \<noteq> p" for q
    using z(2) [of q] old [OF that] pt by simp
  ultimately show "child_of s z p p stk pg m1" using pt by (simp add: child_of_def)
  show "fcb_table z = C" "file_desc_table z = D" "sys.more z = sys.more s"
    by (simp_all add: z(1) born_def with_tables_def upd_process_def)
qed

lemma start_steps:
  fixes s :: "'a sys_scheme"
  assumes inv: "sched_inv s Q R" "files_inv s" "spaces_ok s"
    and lk: "\<not> locks s Pid_lock" "\<not> locks s Print_lock" and card: "5 \<le> card (kavail s)" and c: "cpu < MAXCORES"
    and child: "find_unused_process cpu s = Some p" "pr_file (process_table s p) = replicate 100 None"
    and f: "free_desc (file_desc_table s) = Some f"
    and name: "search_file (mem s) (lit_path file) = Inr i" "i \<noteq> 0xffffffff"
    and prog: "program_stored (mem s) (unat i) n" "0 < program_size (mem s) (unat i)" "program_size (mem s) (unat i) \<le> 2 ^ 21"
  obtains stk pg m d t where "start_process cpu file nm line s = Inr t" "child_of s t p p stk pg m"
    "keeps_pages {} s (s\<lparr>mem := m\<rparr>)" "\<not> kowned s stk" "kowned (s\<lparr>mem := m\<rparr>) stk" "vm_full pg (s\<lparr>mem := m\<rparr>)"
    "\<And>a. a \<in> vm_pages m pg \<Longrightarrow> \<not> kowned s a \<and> a \<noteq> stk" "data_page m pg (vm_index 0x400000) = Some d"
    "\<And>k. k < 2 ^ 21 \<Longrightarrow> m (d + of_nat k) = (if k < program_size (mem s) (unat i) then program_bytes (mem s) (unat i) n ! k else 0)"
    "\<And>j. j < 36 \<Longrightarrow> load64 m (stk + PAGE_SIZE - TRAP_FRAME_SIZE + 8 * of_nat j) = (if j = 34 then 0x400000 else if j = 31 then 0x600000 else 0)"
    "load64 m (page_word stk (2 ^ 18 - 37)) = sym_pstart s"
    "lists_rep t (Q(Ready cpu := Q (Ready cpu) @ [p]))" "files_inv t"
    "card (kavail s) \<le> card (kavail (s\<lparr>mem := m\<rparr>)) + 5" "same_volume (mem s) m" "sys.more t = sys.more s"
proof -
  note rep = sched_invD(1) [OF inv(1)] and un = unused_slot [OF child(1) c] and k0 = spaces_okD(1,2) [OF inv(3)]
  have pre: "kalloc_inv s" "2 \<le> card (kavail s)" "find_unused_process (if (- 1 :: int) = - 1 then cpu else nat (- 1)) s = Some p"
    using k0 card child(1) by simp_all
  obtain stk pg m out where A: "alloc_new_process cpu (- 1) s = Inr (Some p, born p stk pg m out s)"
    "keeps_pages {} s (s\<lparr>mem := m\<rparr>)" "\<not> kowned s stk" "\<not> kowned s pg" "stk \<noteq> pg"
    "kowned (s\<lparr>mem := m\<rparr>) stk" "kowned (s\<lparr>mem := m\<rparr>) pg"
    "card (kavail s) \<le> card (kavail (s\<lparr>mem := m\<rparr>)) + 2" "\<And>x. in_range pg (2 ^ 21) x \<Longrightarrow> m x = 0"
    "load64 m (page_word stk (2 ^ 18 - 37)) = sym_pstart s"
    "\<And>i. i < 36 \<Longrightarrow> load64 m (stk + PAGE_SIZE - TRAP_FRAME_SIZE + 8 * of_nat i) = (if i = 34 then 0x400000 else if i = 31 then 0x600000 else 0)"
    by (rule alloc_new_process_run [OF pre(1,2) lk pre(3)]) (rule that)
  let ?u = "s\<lparr>mem := m\<rparr>"
  define b where "b = born p stk pg m out s"
  have sb: "same_kernel ?u b" by (simp add: b_def born_def same_kernel_def)
  note e = same_kernel_eqs [OF sb]
  have B: "mem b = m" "map_of_process b p = pg" "pr_file (process_table b p) = replicate 100 None"
    "file_desc_table b = file_desc_table s" "fcb_table b = fcb_table s" "\<And>q. pr_file (process_table b q) = pr_file (process_table s q)"
    using child(2) by (simp_all add: b_def born_def)
  have ku: "kalloc_inv ?u" "KERNEL_BASE \<le> start_of ?u" using A(2) k0(2) by (simp_all add: keeps_pages_def)
  have zu: "in_range pg (2 ^ 21) x \<Longrightarrow> mem ?u x = 0" for x using A(9) by simp
  note F = vm_full_fresh [OF ku A(7) zu]
  have sv: "same_volume (mem s) m"
    using A(2) volume_above [OF A(6)] unfolding same_volume_def keeps_pages_def by auto
  have bi: "files_inv b" by (rule files_inv_cong [OF inv(2)]) (simp_all add: B sv)
  note V = program_volume [OF sv search_file_bound(1) [OF name]]
  have "[0..<100] = 0 # [Suc 0..<100]" by (rule upt_conv_Cons) simp
  then have fs: "free_slot (process_table b p) = Some 0" by (simp add: free_slot_def B(3) del: upt_rec_numeral)
  have pr: "vm_full (map_of_process b p) b" "data_page (mem b) (map_of_process b p) = Map.empty" "3 \<le> card (kavail b)"
    "search_file (mem b) (lit_path file) = Inr i" "program_stored (mem b) (unat i) n" "0 < program_size (mem b) (unat i)"
    "program_size (mem b) (unat i) \<le> 2 ^ 21"
    using F(1,2) A(8) card name(1) search_file_volume [OF sv] prog V(1,2) e(2,5) by (simp_all add: B)
  obtain D C m1 d where U: "setup_uvm cpu p (lit_path file) b = Inr (True, with_tables D C (b\<lparr>mem := m1\<rparr>))"
    "files_inv (with_tables D C (b\<lparr>mem := m1\<rparr>))" "keeps_pages (tables (mem b) (map_of_process b p)) b (b\<lparr>mem := m1\<rparr>)"
    "vm_full (map_of_process b p) (b\<lparr>mem := m1\<rparr>)" "data_page m1 (map_of_process b p) = [vm_index 0x400000 \<mapsto> d]" "\<not> kowned b d"
    "\<And>q. q \<in> tables m1 (map_of_process b p) \<Longrightarrow> kowned b q \<Longrightarrow> q \<in> tables (mem b) (map_of_process b p)"
    "\<And>k. k < 2 ^ 21 \<Longrightarrow> m1 (d + of_nat k) = (if k < program_size (mem b) (unat i) then program_bytes (mem b) (unat i) n ! k else 0)"
    "card (kavail b) \<le> card (kavail (b\<lparr>mem := m1\<rparr>)) + 3"
    by (rule setup_uvm_run [OF bi slotD(1,2) [OF un(1)] pr(1-4) name(2) fs f [folded B(4)] pr(5-7)]) (rule that)
  have tb: "tables (mem b) (map_of_process b p) = {pg}" using F(3) by (simp add: B)
  have us: "same_kernel b ?u" using sb by (simp add: same_kernel_def)
  have s1: "same_kernel (s\<lparr>mem := m1\<rparr>) (b\<lparr>mem := m1\<rparr>)" by (simp add: b_def born_def same_kernel_def)
  have K1: "keeps_pages {pg} ?u (s\<lparr>mem := m1\<rparr>)" using keeps_same [OF U(3) us] tb by simp
  have K: "keeps_pages {} s (s\<lparr>mem := m1\<rparr>)" by (rule keeps_trans [OF A(2) K1]) (use A(4) in auto)
  have same: "m1 x = m x" if "in_range stk (2 ^ 21) x" for x using K1 A(5,6) that unfolding keeps_pages_def by simp
  have al: "page_aligned stk" using region_bound(3) kowned_region A(6) by blast
  have wd: "load64 m1 (page_word stk k) = load64 m (page_word stk k)" if "k < 2 ^ 18" for k
    using same page_word_in [OF al that] by (intro load64_cong) auto
  have pages: "\<not> kowned s a \<and> a \<noteq> stk" if "a \<in> vm_pages m1 pg" for a
  proof -
    have "a = d \<or> a \<in> tables m1 pg" using that U(5) by (auto simp: vm_pages_eq B)
    then have a: "a = d \<or> \<not> kowned ?u a \<or> a = pg" using U(7) tb e(4) by (auto simp: B)
    have "\<not> kowned ?u d" using U(6) e(4) by simp
    then show ?thesis using a A(4-6) keeps_owned [OF A(2), of a] by auto
  qed
  define y where "y = upd_process p (\<lambda>r. r\<lparr>pr_state := PROC_READY\<rparr>) (upd_process p (\<lambda>r. r\<lparr>pr_name :=
      literal_bytes (with_tables D C (b\<lparr>mem := m1\<rparr>)) nm 8\<rparr>) (with_tables D C (b\<lparr>mem := m1\<rparr>)))"
  have y: "head_lists y = head_lists s" "locks y = locks s" "pr_next (process_table y q) = pr_next (process_table s q)" for q
    by (simp_all add: y_def with_tables_def b_def born_def)
  have "lists_rep y Q \<longleftrightarrow> lists_rep s Q" by (rule lists_rep_cong) (simp_all add: y)
  then have ly: "lists_rep y Q" using sched_repD(1) [OF rep] by simp
  have np: "\<forall>l. p \<notin> set (Q l)" using not_listed [OF rep] un(3) list_state_used by simp
  obtain z where z: "append_list_tail (Ready cpu) p y = Inr z" "lists_rep z (Q(Ready cpu := Q (Ready cpu) @ [p]))" "links_only y z"
    using append_list_tail_law [OF ly np] by blast
  note T = born_child [OF z(3) [unfolded y_def b_def]]
  have run: "start_process cpu file nm line s = Inr z"
    using A(1) U(1) z(1) by (simp add: start_process_def b_def [symmetric] y_def Let_def)
  show ?thesis
  proof (rule that [OF run T(1) K A(3)])
    show "kowned (s\<lparr>mem := m1\<rparr>) stk" using keeps_owned [OF K1 A(6)] .
    show "vm_full pg (s\<lparr>mem := m1\<rparr>)" using U(4) same_kernel_eqs(5) [OF s1] by (simp add: B)
    show "\<not> kowned s a \<and> a \<noteq> stk" if "a \<in> vm_pages m1 pg" for a using pages [OF that] .
    show "data_page m1 pg (vm_index 0x400000) = Some d" using U(5) by (simp add: B)
    show "m1 (d + of_nat k) = (if k < program_size (mem s) (unat i) then program_bytes (mem s) (unat i) n ! k else 0)"
      if "k < 2 ^ 21" for k using U(8) [OF that] V(1) V(3) [OF prog(1)] by (simp add: B)
    show "load64 m1 (stk + PAGE_SIZE - TRAP_FRAME_SIZE + 8 * of_nat j) = (if j = 34 then 0x400000 else if j = 31 then 0x600000 else 0)"
      if "j < 36" for j using A(11) [OF that] wd [of "2 ^ 18 - 36 + j"] that unfolding frame_words(5) by simp
    show "load64 m1 (page_word stk (2 ^ 18 - 37)) = sym_pstart s" using A(10) wd [of "2 ^ 18 - 37"] by simp
    show "lists_rep z (Q(Ready cpu := Q (Ready cpu) @ [p]))" by (rule z(2))
    show "files_inv z"
      by (rule files_inv_cong [OF U(2)]) (use T child_ofD(6) [OF T(1)] in
        \<open>simp_all add: child_of_def same_kernel_def same_volume_def with_tables_def B\<close>, metis)
    show "card (kavail s) \<le> card (kavail (s\<lparr>mem := m1\<rparr>)) + 5"
      using U(9) A(8) e(2) same_kernel_eqs(2) [OF s1] by simp
    show "same_volume (mem s) m1" using keeps_volume [OF K1 A(6)] sv unfolding same_volume_def by simp
    show "sys.more z = sys.more s" by (rule T(4))
  qed
qed

lemma start_process_run:
  fixes s :: "'a sys_scheme"
  assumes "sched_inv s Q R" "files_inv s" "spaces_ok s" "\<not> locks s Pid_lock" "\<not> locks s Print_lock"
    and "5 \<le> card (kavail s)" "cpu < MAXCORES" "find_unused_process cpu s = Some p"
    and "pr_file (process_table s p) = replicate 100 None" "free_desc (file_desc_table s) = Some f"
    and prog: "program_on (mem s) file i n" and "4 \<le> sint (pid_num s)"
  obtains t where "start_process cpu file nm line s = Inr t" "sched_inv t (Q(Ready cpu := Q (Ready cpu) @ [p])) R"
    "files_inv t" "spaces_ok t" "pid_of t p = pid_num s" "pr_file (process_table t p) = replicate 100 None"
    "\<And>k. k < 2 ^ 21 \<Longrightarrow> user_byte t (map_of_process t p) (0x400000 + of_nat k) = Some (program_byte (mem s) i n k)"
    "\<And>j. j < 36 \<Longrightarrow> load64 (mem t) (pr_tf (process_table t p) + 8 * of_nat j) =
       (if j = 34 then 0x400000 else if j = 31 then 0x600000 else 0)"
    "load64 (mem t) (pr_context (process_table t p) + 88) = sym_pstart s"
    "\<And>q v. live s q \<Longrightarrow> user_byte t (map_of_process t q) v = user_byte s (map_of_process s q) v"
    "\<And>q. q \<noteq> p \<Longrightarrow> state_of t q = state_of s q \<and> pid_of t q = pid_of s q \<and>
       pr_file (process_table t q) = pr_file (process_table s q)"
    "locks t = locks s" "pid_num t = pid_num s + 1" "same_volume (mem s) (mem t)"
    "card (kavail s) \<le> card (kavail t) + 5" "sys.more t = sys.more s"
proof -
  have P: "search_file (mem s) (lit_path file) = Inr i" "i \<noteq> 0xffffffff" "program_stored (mem s) (unat i) n"
    "0 < program_size (mem s) (unat i)" "program_size (mem s) (unat i) \<le> 2 ^ 21"
    using prog by (simp_all add: program_on_def)
  obtain stk pg m d t where run: "start_process cpu file nm line s = Inr t" and ch: "child_of s t p p stk pg m"
    and K: "keeps_pages {} s (s\<lparr>mem := m\<rparr>)" and stk: "\<not> kowned s stk" "kowned (s\<lparr>mem := m\<rparr>) stk"
    and pg: "vm_full pg (s\<lparr>mem := m\<rparr>)" "\<And>a. a \<in> vm_pages m pg \<Longrightarrow> \<not> kowned s a \<and> a \<noteq> stk"
    and d: "data_page m pg (vm_index 0x400000) = Some d"
    and b: "\<And>k. k < 2 ^ 21 \<Longrightarrow> m (d + of_nat k) = (if k < program_size (mem s) (unat i) then program_bytes (mem s) (unat i) n ! k else 0)"
    and fr: "\<And>j. j < 36 \<Longrightarrow> load64 m (stk + PAGE_SIZE - TRAP_FRAME_SIZE + 8 * of_nat j) =
      (if j = 34 then 0x400000 else if j = 31 then 0x600000 else 0)"
    and en: "load64 m (page_word stk (2 ^ 18 - 37)) = sym_pstart s"
    and lists: "lists_rep t (Q(Ready cpu := Q (Ready cpu) @ [p]))" and files: "files_inv t"
    and out: "card (kavail s) \<le> card (kavail (s\<lparr>mem := m\<rparr>)) + 5" "same_volume (mem s) m" "sys.more t = sys.more s"
    by (rule start_steps [OF assms(1-10) P]) (rule that)
  note N = new_process_law [OF assms(1,3,7,8) ch K stk pg lists assms(12)]
  have sk: "same_kernel (s\<lparr>mem := m\<rparr>) t" and st: "map_of_process t p = pg" "pr_tf (process_table t p) = stk + PAGE_SIZE - TRAP_FRAME_SIZE"
    "pid_of t p = pid_num s" "pr_file (process_table t p) = replicate 100 None"
    using ch assms(9) by (simp_all add: child_of_def)
  have mt: "mem t = m" using sk by (simp add: same_kernel_def)
  show ?thesis
  proof (rule that [OF run N(1) files N(2) st(3,4)])
    show "user_byte t (map_of_process t p) (0x400000 + of_nat k) = Some (program_byte (mem s) i n k)" if k: "k < 2 ^ 21" for k
    proof -
      have "data_page (mem (s\<lparr>mem := m\<rparr>)) pg (vm_index (0x400000 + of_nat k)) = Some d" using d user_address(1) [OF k] by simp
      from user_byte_data [OF pg(1) this] show ?thesis
        using b [OF k] user_address(2) [OF k] same_kernel_eqs(6) [OF sk] st(1) by (simp add: program_byte_def)
    qed
    show "user_byte t (map_of_process t q) v = user_byte s (map_of_process s q) v" if "live s q" for q v
    proof -
      have "undisturbed s t q" using N(3) that by blast
      from undisturbed_space(3) [OF spaces_okD(3) [OF assms(3) that] this] show ?thesis .
    qed
    show "load64 (mem t) (pr_tf (process_table t p) + 8 * of_nat j) = (if j = 34 then 0x400000 else if j = 31 then 0x600000 else 0)"
      if "j < 36" for j using fr [OF that] st(2) mt by simp
    have "pr_context (process_table t p) + 88 = page_word stk (2 ^ 18 - 37)"
      using ch by (simp add: child_of_def page_word_def PAGE_SIZE_def TRAP_FRAME_SIZE_def)
    then show "load64 (mem t) (pr_context (process_table t p) + 88) = sym_pstart s" using en mt by simp
    show "state_of t q = state_of s q \<and> pid_of t q = pid_of s q \<and> pr_file (process_table t q) = pr_file (process_table s q)"
      if "q \<noteq> p" for q using child_ofD(1,2,6) [OF ch that] by simp
    show "locks t = locks s" "pid_num t = pid_num s + 1" using ch by (simp_all add: child_of_def)
    show "same_volume (mem s) (mem t)" "card (kavail s) \<le> card (kavail t) + 5" "sys.more t = sys.more s"
      using out mt same_kernel_eqs(2) [OF sk] by simp_all
  qed
qed

section \<open>Properties\<close>

text \<open>
  C14: The first user processes.  With a free slot on the core, five free pages, a free descriptor and a non-empty
  file of that name that fits into a page, an \<open>init\<close> function returns without failing an assertion; the new
  process has the next pid and stands last on the ready list of its core; it sees the bytes of the file from
  0x400000 on and zeros behind them, its context resumes at \<open>pstart\<close>, and its trap frame enters user mode at
  0x400000 with the stack pointer at the end of the page; no file stays open, no other process sees a
  byte change, and every invariant is kept.
\<close>

theorem start_process_correct:
  fixes s :: "'a sys_scheme"
  assumes "sched_inv s Q R" "files_inv s" "spaces_ok s" "\<not> locks s Pid_lock" "\<not> locks s Print_lock"
    and "5 \<le> card (kavail s)" "cpu < MAXCORES" "find_unused_process cpu s = Some p"
    and "pr_file (process_table s p) = replicate 100 None" "free_desc (file_desc_table s) = Some f"
    and "program_on (mem s) file i n" "4 \<le> sint (pid_num s)"
  shows "\<exists>t. start_process cpu file nm line s = Inr t \<and> sched_inv t (Q(Ready cpu := Q (Ready cpu) @ [p])) R \<and>
    files_inv t \<and> spaces_ok t \<and> pid_of t p = pid_num s \<and> pr_file (process_table t p) = replicate 100 None \<and>
    (\<forall>k < 2 ^ 21. user_byte t (map_of_process t p) (0x400000 + of_nat k) =
       Some (program_byte (mem s) i n k)) \<and>
    (\<forall>j < 36. load64 (mem t) (pr_tf (process_table t p) + 8 * of_nat j) =
       (if j = 34 then 0x400000 else if j = 31 then 0x600000 else 0)) \<and>
    load64 (mem t) (pr_context (process_table t p) + 88) = sym_pstart s \<and>
    (\<forall>q v. live s q \<longrightarrow> user_byte t (map_of_process t q) v = user_byte s (map_of_process s q) v)"
proof (rule start_process_run [OF assms])
  fix t
  assume "start_process cpu file nm line s = Inr t" "sched_inv t (Q(Ready cpu := Q (Ready cpu) @ [p])) R" "files_inv t"
    "spaces_ok t" "pid_of t p = pid_num s" "pr_file (process_table t p) = replicate 100 None"
    "\<And>k. k < 2 ^ 21 \<Longrightarrow> user_byte t (map_of_process t p) (0x400000 + of_nat k) = Some (program_byte (mem s) i n k)"
    "\<And>j. j < 36 \<Longrightarrow> load64 (mem t) (pr_tf (process_table t p) + 8 * of_nat j) =
       (if j = 34 then 0x400000 else if j = 31 then 0x600000 else 0)"
    "load64 (mem t) (pr_context (process_table t p) + 88) = sym_pstart s"
    "\<And>q v. live s q \<Longrightarrow> user_byte t (map_of_process t q) v = user_byte s (map_of_process s q) v"
  then show ?thesis by (intro exI [of _ t] conjI) blast+
qed

theorem start_process_correct_witness:
  "\<exists>(s :: sys) t. start_process 0 ''A.B'' ''init'' 155 s = Inr t \<and> state_of t (0, 2) = PROC_READY \<and> pid_of t (0, 2) = 5 \<and>
    user_byte t (map_of_process t (0, 2)) (0x400000 + of_nat 5) = Some 85"
proof (rule exec_machine)
  fix p and s :: sys
  assume a: "sched_inv s (solo_queue True) (solo_running True)" "files_inv s" "spaces_ok s" "same_volume tiny_volume (mem s)"
    "free_desc (file_desc_table s) = Some 0" "5 \<le> card (kavail s)" "find_unused_process 0 s = Some (0, 2)"
    "pr_file (process_table s (0, 2)) = replicate 100 None" "\<not> locks s Pid_lock" "\<not> locks s Print_lock" "pid_num s = 5"
  note T = tiny_program [OF a(4)]
  have c: "(0 :: nat) < MAXCORES" by (simp add: MAXCORES_def)
  have P: "program_on (mem s) ''A.B'' 0 2" using T by (simp add: program_on_def)
  have B: "program_byte (mem s) 0 2 k = (if k < 32 then map of_nat [80..<112] ! k else 0)" for k
    using T by (simp add: program_byte_def del: upt_rec_numeral)
  have i: "4 \<le> sint (pid_num s)" unfolding a(11) by simp
  from start_process_correct [OF a(1-3,9,10,6) c a(7,8,5) P i, of "''init''" 155, unfolded B]
  obtain t where t: "start_process 0 ''A.B'' ''init'' 155 s = Inr t"
    "sched_inv t ((solo_queue True)(Ready 0 := solo_queue True (Ready 0) @ [(0, 2)])) (solo_running True)" "pid_of t (0, 2) = pid_num s"
    "\<forall>k < 2 ^ 21. user_byte t (map_of_process t (0, 2)) (0x400000 + of_nat k) = Some (if k < 32 then map of_nat [80..<112] ! k else 0)"
    by blast
  have "(map of_nat [80..<112] ! 5 :: u8) = 85" by (simp add: nth_map del: upt_rec_numeral)
  then have "user_byte t (map_of_process t (0, 2)) (0x400000 + of_nat 5) = Some 85"
    using t(4) [THEN spec, of 5] by (simp del: upt_rec_numeral)
  moreover have "state_of t (0, 2) = PROC_READY" using listed_state [OF sched_invD(1) [OF t(2)], of "(0, 2)" "Ready 0"] by simp
  moreover have "pid_of t (0, 2) = 5" using t(3) a(11) by simp
  ultimately show ?thesis using t(1) by (intro exI conjI)
qed

end
