(* ===== verification/Process_Boot.thy ===== *)
theory Process_Boot
  imports Process_Start
begin

text \<open>
  How the invariants of the process code come about: \<open>init_fs\<close> and \<open>init_idle_process\<close> on the zeroed
  objects of the kernel image establish them, and every first user process keeps them.  \<open>boot_inv v k n s\<close>
  says that \<open>k c\<close> processes have been started on core \<open>c\<close>, \<open>n\<close> in all, with the volume of memory \<open>v\<close>.
  The theory also holds \<open>k_strcpy\<close> of src/src/process.c, which stands before these functions and is not called.
\<close>

declare split_paired_All [simp del] split_paired_Ex [simp del]

section \<open>Copying a string\<close>

text \<open>\<open>k_strcpy\<close> ends when it meets a zero byte; it copies the string and its terminator.\<close>

partial_function (option) k_strcpy :: "u64 \<Rightarrow> u64 \<Rightarrow> memory \<Rightarrow> memory option" where
  "k_strcpy dest src m =
     (if m src \<noteq> 0 then k_strcpy (dest + 1) (src + 1) (m(dest := m src)) else Some (m(dest := 0)))"

lemma k_strcpy_copies:
  assumes "\<And>i. i < n \<Longrightarrow> m (src + of_nat i) \<noteq> 0" "m (src + of_nat n) = 0"
    and "\<And>i j. i \<le> n \<Longrightarrow> j \<le> n \<Longrightarrow> dest + of_nat i \<noteq> src + of_nat j"
  shows "k_strcpy dest src m = Some (copy_loop m dest src 1 (Suc n))"
  using assms
proof (induction n arbitrary: m dest src)
  case 0
  then show ?case by (auto simp: k_strcpy.simps [of dest src])
next
  case (Suc n)
  let ?m = "m(dest := m src)"
  have k: "?m (src + 1 + of_nat i) = m (src + of_nat (Suc i))" if "i \<le> n" for i
    using Suc.prems(3) [of 0 "Suc i"] that by (simp add: add.assoc)
  have "k_strcpy (dest + 1) (src + 1) ?m = Some (copy_loop ?m (dest + 1) (src + 1) 1 (Suc n))"
  proof (rule Suc.IH)
    show "?m (src + 1 + of_nat i) \<noteq> 0" if "i < n" for i using k [of i] Suc.prems(1) [of "Suc i"] that by simp
    show "?m (src + 1 + of_nat n) = 0" using k [of n] Suc.prems(2) by simp
    show "dest + 1 + of_nat i \<noteq> src + 1 + of_nat j" if "i \<le> n" "j \<le> n" for i j
      using Suc.prems(3) [of "Suc i" "Suc j"] that by (simp add: add.assoc)
  qed
  moreover have "m src \<noteq> 0" using Suc.prems(1) [of 0] by simp
  ultimately show ?case by (simp add: k_strcpy.simps [of dest src])
qed

section \<open>The state during start-up\<close>

definition boot_queues :: "(nat \<Rightarrow> nat) \<Rightarrow> list_id \<Rightarrow> pref list" where
  "boot_queues k l = (case l of Ready c \<Rightarrow> map (Pair c) [1..<Suc (k c)] | _ \<Rightarrow> [])"

definition idle_running :: "nat \<Rightarrow> pref" where
  "idle_running c = (c, 0)"

definition boot_inv :: "memory \<Rightarrow> (nat \<Rightarrow> nat) \<Rightarrow> nat \<Rightarrow> 'a sys_scheme \<Rightarrow> bool" where
  "boot_inv v k n s \<longleftrightarrow> sched_inv s (boot_queues k) idle_running \<and> files_inv s \<and> spaces_ok s \<and>
     \<not> locks s Pid_lock \<and> \<not> locks s Print_lock \<and> (\<forall>p. pr_file (process_table s p) = replicate 100 None) \<and>
     (\<forall>p. slot p \<longrightarrow> k (fst p) < snd p \<longrightarrow> state_of s p = PROC_UNUSED) \<and>
     same_volume v (mem s) \<and> pid_num s = of_nat (4 + n) \<and> 381 \<le> card (kavail s) + 5 * n"

lemma boot_invD:
  assumes "boot_inv v k n s"
  shows "sched_inv s (boot_queues k) idle_running" "files_inv s" "spaces_ok s" "\<not> locks s Pid_lock" "\<not> locks s Print_lock"
    "pr_file (process_table s p) = replicate 100 None" "same_volume v (mem s)" "pid_num s = of_nat (4 + n)"
    "381 \<le> card (kavail s) + 5 * n" "slot p \<Longrightarrow> k (fst p) < snd p \<Longrightarrow> state_of s p = PROC_UNUSED"
  using assms by (simp_all add: boot_inv_def)

lemma boot_queues_upd:
  "(boot_queues k)(Ready c := boot_queues k (Ready c) @ [(c, Suc (k c))]) = boot_queues (k(c := Suc (k c)))"
proof
  fix l
  show "((boot_queues k)(Ready c := boot_queues k (Ready c) @ [(c, Suc (k c))])) l = boot_queues (k(c := Suc (k c))) l"
    by (cases l) (simp_all add: boot_queues_def)
qed

lemma boot_pid: "n < 100 \<Longrightarrow> sint (of_nat (4 + n) :: i32) = 4 + int n"
  by (simp only: signed_of_nat) (simp add: signed_take_bit_int_eq_self)

lemma boot_slot:
  assumes "boot_inv v k n s" "c < MAXCORES" "Suc (k c) < NUM_PROC"
  shows "find_unused_process c s = Some (c, Suc (k c))"
proof -
  let ?P = "\<lambda>i. pr_state (process_table s (c, i)) = PROC_UNUSED"
  have "slot (c, Suc (k c))" using assms(2,3) by (simp add: slot_def)
  from boot_invD(10) [OF assms(1) this] have free: "?P (Suc (k c))" by simp
  have used: "\<not> ?P (Suc j)" if "j < k c" for j
  proof -
    have "(c, Suc j) \<in> set (boot_queues k (Ready c))" using that by (auto simp: boot_queues_def)
    from listed_state(1) [OF sched_invD(1) [OF boot_invD(1) [OF assms(1)]] this] show ?thesis by simp
  qed
  have "find ?P [1..<NUM_PROC] = Some (Suc (k c))"
    unfolding find_Some_iff using assms(3) free used by (intro exI [of _ "k c"]) (simp del: upt_rec_numeral)
  then show ?thesis by (simp add: find_unused_process_def)
qed

text \<open>With no handle open every descriptor is free.\<close>

lemma boot_desc:
  assumes "boot_inv v k n s"
  shows "free_desc (file_desc_table s) = Some 0"
proof -
  have "handle_at s h \<noteq> Some f" if "h \<in> handles" for h f
    using that boot_invD(6) [OF assms] by (auto simp: handles_def handle_at_def)
  then have "refs s f = 0" for f by (auto simp: refs_def intro: arg_cong [where f = card, of _ "{}", simplified])
  then have "fd_fcb (file_desc_table s 0) = None"
    using boot_invD(2) [OF assms] unfolding files_inv_def by (metis less_irrefl option.exhaust)
  moreover have "[0..<131072] = 0 # [Suc 0..<131072]" by (rule upt_conv_Cons) simp
  ultimately show ?thesis by (simp add: free_desc_def FILE_DESC_COUNT_eq del: upt_rec_numeral)
qed

section \<open>One more process\<close>

lemma program_on_volume:
  assumes "same_volume v m" "program_on v str i n"
  shows "program_on m str i n" "program_byte m i n = program_byte v i n"
proof -
  have "search_file v (lit_path str) = Inr i" "i \<noteq> 0xffffffff" using assms(2) by (simp_all add: program_on_def)
  note V = program_volume [OF assms(1) search_file_bound(1) [OF this]]
  show "program_on m str i n" using assms(2) search_file_volume [OF assms(1)] V(1,2) by (simp add: program_on_def)
  show "program_byte m i n = program_byte v i n"
    using assms(2) V by (simp add: fun_eq_iff program_byte_def program_on_def)
qed

lemma boot_step:
  fixes s :: "'a sys_scheme"
  assumes inv: "boot_inv v k n s" and c: "c < MAXCORES" "Suc (k c) < NUM_PROC" and n: "n < 75"
    and prog: "program_on v str i l"
  obtains t where "start_process c str nm line s = Inr t" "boot_inv v (k(c := Suc (k c))) (Suc n) t"
    "pid_of t (c, Suc (k c)) = of_nat (4 + n)"
    "\<And>j. j < 2 ^ 21 \<Longrightarrow> user_byte t (map_of_process t (c, Suc (k c))) (0x400000 + of_nat j) = Some (program_byte v i l j)"
    "\<And>q w. live s q \<Longrightarrow> user_byte t (map_of_process t q) w = user_byte s (map_of_process s q) w"
    "\<And>q. q \<noteq> (c, Suc (k c)) \<Longrightarrow> state_of t q = state_of s q \<and> pid_of t q = pid_of s q" "sys.more t = sys.more s"
proof -
  note I = boot_invD [OF inv]
  let ?p = "(c, Suc (k c))"
  note P = program_on_volume [OF I(7) prog]
  have av: "5 \<le> card (kavail s)" using I(9) n by simp
  have pid: "4 \<le> sint (pid_num s)" unfolding I(8) using boot_pid [of n] n by simp
  show ?thesis
  proof (rule start_process_run [OF I(1-5) av c(1) boot_slot [OF inv c] I(6) boot_desc [OF inv] P(1) pid])
    fix t
    assume t: "start_process c str nm line s = Inr t"
      "sched_inv t ((boot_queues k)(Ready c := boot_queues k (Ready c) @ [?p])) idle_running" "files_inv t" "spaces_ok t"
      "pid_of t ?p = pid_num s" "pr_file (process_table t ?p) = replicate 100 None"
      "\<And>j. j < 2 ^ 21 \<Longrightarrow> user_byte t (map_of_process t ?p) (0x400000 + of_nat j) = Some (program_byte (mem s) i l j)"
      "\<And>q w. live s q \<Longrightarrow> user_byte t (map_of_process t q) w = user_byte s (map_of_process s q) w"
      "\<And>q. q \<noteq> ?p \<Longrightarrow> state_of t q = state_of s q \<and> pid_of t q = pid_of s q \<and>
         pr_file (process_table t q) = pr_file (process_table s q)"
      "locks t = locks s" "pid_num t = pid_num s + 1" "same_volume (mem s) (mem t)"
      "card (kavail s) \<le> card (kavail t) + 5" "sys.more t = sys.more s"
    have files: "pr_file (process_table t q) = replicate 100 None" for q
      using t(6,9) I(6) by (cases "q = ?p") simp_all
    have unused: "state_of t q = PROC_UNUSED" if "slot q" "(k(c := Suc (k c))) (fst q) < snd q" for q
    proof -
      have "q \<noteq> ?p" "k (fst q) < snd q" using that(2) by (cases q, auto split: if_splits)
      then show ?thesis using t(9) I(10) [OF that(1)] by simp
    qed
    have "boot_inv v (k(c := Suc (k c))) (Suc n) t"
      unfolding boot_inv_def using t(2-4,10-13) I(4,5,7,8,9) files unused
      by (simp add: boot_queues_upd) (auto simp: same_volume_def)
    then show ?thesis using t(1,5,7-9,14) I(8) P(2) by (intro that [of t]) auto
  qed
qed

section \<open>The file tables\<close>

definition fs_signature :: "memory \<Rightarrow> bool" where
  "fs_signature m \<longleftrightarrow> m (get_fs_bpb m + 0x1fe) = 0x55 \<and> m (get_fs_bpb m + 0x1ff) = 0xaa"

text \<open>What \<open>init_fs\<close> leaves: two pages are taken for the tables, and the tables are zero.\<close>

definition with_fs :: "u64 \<Rightarrow> u64 \<Rightarrow> memory \<Rightarrow> 'a sys_scheme \<Rightarrow> 'a sys_scheme" where
  "with_fs a b m s = s\<lparr>mem := m, fcb_page := a, fcb_table := (\<lambda>_. zero_fcb), file_desc_page := b,
     file_desc_table := (\<lambda>_. zero_file_desc)\<rparr>"

lemma memset_fresh: "(\<And>x. in_range p (2 ^ 21) x \<Longrightarrow> m x = 0) \<Longrightarrow> memset m p 0 (unat PAGE_SIZE) = m"
  by (rule memset_zero_id) (simp_all add: PAGE_SIZE_def)

lemma init_fs_run:
  fixes s :: "'a sys_scheme"
  assumes inv: "kalloc_inv s" and av: "2 \<le> card (kavail s)" and sig: "fs_signature (mem s)"
  obtains a b m where "init_fs s = Inr (with_fs a b m s)" "keeps_pages {} s (s\<lparr>mem := m\<rparr>)"
    "card (kavail s) \<le> card (kavail (s\<lparr>mem := m\<rparr>)) + 2" "same_volume (mem s) m"
proof -
  have "0 < card (kavail s)" using av by simp
  then obtain a m1 where A: "kalloc s = Inr (a, s\<lparr>mem := m1\<rparr>)" "a \<noteq> 0" "keeps_pages {} s (s\<lparr>mem := m1\<rparr>)"
      "kowned (s\<lparr>mem := m1\<rparr>) a" "card (kavail s) \<le> card (kavail (s\<lparr>mem := m1\<rparr>)) + 1"
      "\<And>x. in_range a (2 ^ 21) x \<Longrightarrow> m1 x = 0"
    by (rule kalloc_run [OF inv]) (rule that)
  define u where "u = s\<lparr>mem := m1, fcb_page := a, fcb_table := (\<lambda>_. zero_fcb)\<rparr>"
  have su: "same_kernel (s\<lparr>mem := m1\<rparr>) u" "same_kernel u (s\<lparr>mem := m1\<rparr>)" by (simp_all add: same_kernel_def u_def)
  note e = same_kernel_eqs [OF su(1)]
  have "kalloc_inv u" "0 < card (kavail u)" using A(3,5) av unfolding e(1,2) keeps_pages_def by auto
  then obtain b m where B: "kalloc u = Inr (b, u\<lparr>mem := m\<rparr>)" "b \<noteq> 0" "keeps_pages {} u (u\<lparr>mem := m\<rparr>)"
      "card (kavail u) \<le> card (kavail (u\<lparr>mem := m\<rparr>)) + 1" "\<And>x. in_range b (2 ^ 21) x \<Longrightarrow> m x = 0"
    by (rule kalloc_run) (rule that)
  have K: "keeps_pages {} (s\<lparr>mem := m1\<rparr>) (s\<lparr>mem := m\<rparr>)" using keeps_same [OF B(3) su(2)] by simp
  have "same_kernel (u\<lparr>mem := m\<rparr>) (s\<lparr>mem := m\<rparr>)" by (simp add: same_kernel_def u_def)
  note f = same_kernel_eqs [OF this]
  have "init_fcb s = Inr (True, u)"
    using A(1,2) memset_fresh [of a m1, OF A(6)] by (cases s) (simp add: init_fcb_def u_def)
  moreover have "init_file_desc u = Inr (True, with_fs a b m s)"
    using B(1,2) memset_fresh [of b m, OF B(5)] by (cases s) (simp add: init_file_desc_def with_fs_def u_def)
  ultimately have run: "init_fs s = Inr (with_fs a b m s)"
    using sig by (simp add: init_fs_def fs_signature_def)
  show ?thesis
  proof (rule that [OF run])
    show "keeps_pages {} s (s\<lparr>mem := m\<rparr>)" by (rule keeps_trans [OF A(3) K]) simp_all
    show "card (kavail s) \<le> card (kavail (s\<lparr>mem := m\<rparr>)) + 2" using A(5) B(4) e(2) f(2) by simp
    show "same_volume (mem s) m"
      using keeps_volume [OF K A(4)] A(3) volume_above [OF A(4)] unfolding same_volume_def keeps_pages_def by simp
  qed
qed

section \<open>The idle processes\<close>

text \<open>The objects of the process code as the image contains them: \<open>bss\<close> is zero and \<open>pid_num\<close> is initialised to 4.\<close>

definition image_objects :: "'a sys_scheme \<Rightarrow> bool" where
  "image_objects s \<longleftrightarrow> process_table s = (\<lambda>_. zero_process) \<and> head_lists s = (\<lambda>_. \<lparr>h_next = None, h_tail = None\<rparr>) \<and>
     locks s = (\<lambda>_. False) \<and> pid_num s = 4"

lemma init_idle_process_eq:
  "init_idle_process s = s\<lparr>process_table := (\<lambda>p. if snd p = 0 \<and> fst p < MAXCORES
       then (process_table s p)\<lparr>pr_state := PROC_RUNNING, pr_pid := of_nat (fst p), pr_name := literal_bytes s ''idle'' 8,
         pr_page_map := V2P (sym_pgd_ttbr0 s)\<rparr>
       else process_table s p),
     current_process := (\<lambda>c. if c < MAXCORES then Some (c, 0) else current_process s c)\<rparr>"
proof -
  have l: "literal_bytes (process_table_update f t) str n = literal_bytes t str n"
    "literal_bytes (current_process_update g t) str n = literal_bytes t str n" for f g str n and t :: "'a sys_scheme"
    by (simp_all add: literal_bytes_def)
  define g where "g p = (process_table s p)\<lparr>pr_state := PROC_RUNNING, pr_pid := of_nat (fst p),
    pr_name := literal_bytes s ''idle'' 8, pr_page_map := V2P (sym_pgd_ttbr0 s)\<rparr>" for p
  have four: "c < MAXCORES \<longleftrightarrow> c = 0 \<or> c = 1 \<or> c = 2 \<or> c = 3" for c by (auto simp: MAXCORES_def)
  have "[0..<MAXCORES] = [0, 1, 2, 3]" by (simp add: MAXCORES_def upt_rec)
  then have run: "init_idle_process s = s\<lparr>process_table :=
      (process_table s)((0, 0) := g (0, 0), (1, 0) := g (1, 0), (2, 0) := g (2, 0), (3, 0) := g (3, 0)),
      current_process := (current_process s)(0 \<mapsto> (0, 0), 1 \<mapsto> (1, 0), 2 \<mapsto> (2, 0), 3 \<mapsto> (3, 0))\<rparr>"
    unfolding init_idle_process_def by (simp add: upd_process_def l g_def)
  have T: "(process_table s)((0, 0) := g (0, 0), (1, 0) := g (1, 0), (2, 0) := g (2, 0), (3, 0) := g (3, 0)) =
      (\<lambda>p. if snd p = 0 \<and> fst p < MAXCORES then g p else process_table s p)"
    by (rule ext, case_tac p) (auto simp: four)
  have C: "(current_process s)(0 \<mapsto> (0, 0), 1 \<mapsto> (1, 0), 2 \<mapsto> (2, 0), 3 \<mapsto> (3, 0)) =
      (\<lambda>c. if c < MAXCORES then Some (c, 0) else current_process s c)"
    by (rule ext) (auto simp: four)
  show ?thesis unfolding run T C unfolding g_def by (rule refl)
qed

text \<open>The idle processes on the machine the image starts with; \<open>v\<close> is the memory that holds the volume.\<close>

lemma boot_begin:
  fixes s :: "'a sys_scheme"
  assumes obj: "image_objects s" and fs: "fcb_table s = (\<lambda>_. zero_fcb)" "file_desc_table s = (\<lambda>_. zero_file_desc)"
    and k: "kalloc_inv s" "KERNEL_BASE \<le> start_of s" "381 \<le> card (kavail s)" and vol: "same_volume v (mem s)"
  shows "boot_inv v (\<lambda>_. 0) 0 (init_idle_process s)" "sys.more (init_idle_process s) = sys.more s"
proof -
  let ?t = "init_idle_process s"
  have same: "same_kernel s ?t" by (simp add: same_kernel_def init_idle_process_eq)
  note e = same_kernel_eqs [OF same]
  have st: "state_of ?t p = (if snd p = 0 \<and> fst p < MAXCORES then PROC_RUNNING else PROC_UNUSED)"
    "pid_of ?t p = (if snd p = 0 \<and> fst p < MAXCORES then of_nat (fst p) else 0)"
    "pr_file (process_table ?t p) = replicate 100 None" for p
    using obj by (simp_all add: init_idle_process_eq image_objects_def zero_process_def)
  have sl: "state_of ?t p = PROC_UNUSED" if "slot p" for p using that by (simp add: st slot_def)
  have Q: "boot_queues (\<lambda>_. 0) l = []" for l by (cases l) (simp_all add: boot_queues_def)
  have L: "lists_rep ?t (boot_queues (\<lambda>_. 0))"
    using obj by (simp add: lists_rep_def queue_rep_def Q init_idle_process_eq image_objects_def)
  have pid: "sint (pid_of ?t (c, 0)) < 4" if "c < MAXCORES" for c
  proof -
    have "c = 0 \<or> c = 1 \<or> c = 2 \<or> c = 3" using that by (auto simp: MAXCORES_def)
    then show ?thesis using that by (auto simp: st)
  qed
  have used: "PROC_UNUSED \<noteq> list_state l" for l by (cases l) simp_all
  have "placed ?t (boot_queues (\<lambda>_. 0)) idle_running p" if "slot p" for p
    using sl [OF that] used that by (auto simp: placed_def Q idle_running_def slot_def)
  then have "sched_inv ?t (boot_queues (\<lambda>_. 0)) idle_running"
    using L pid obj by (simp add: sched_inv_def sched_rep_def Q idle_running_def NUM_PROC_def)
      (simp add: init_idle_process_eq image_objects_def)
  moreover have "files_inv ?t"
  proof -
    have h: "h \<in> handles \<Longrightarrow> handle_at ?t h = None" for h by (auto simp: handles_def handle_at_def st)
    then have "fcb_refs ?t c = 0" for c by (auto simp: fcb_refs_def reaches_def)
    then show ?thesis
      using h fs by (auto simp: files_inv_def st) (simp_all add: init_idle_process_eq zero_file_desc_def zero_fcb_def)
  qed
  moreover have "spaces_ok ?t"
    using k sl by (auto simp: spaces_ok_def e live_def)
  ultimately show "boot_inv v (\<lambda>_. 0) 0 ?t"
    using sl st(3) vol k(3) obj by (simp add: boot_inv_def e) (simp add: init_idle_process_eq image_objects_def)
  show "sys.more ?t = sys.more s" by (simp add: init_idle_process_eq)
qed

end
