(* ===== verification/Machine_State.thy ===== *)
theory Machine_State
  imports Process_Life
begin

text \<open>
  The state beyond the process and file tables: the keyboard ring of src/src/keyboard.c, the clocks of
  src/src/handler.c, the start flag of src/src/main.c, and the device registers behind \<open>in_word\<close> and
  \<open>out_word\<close> of src/src/liba.s with the system registers handler.s writes.

  A device is not code: the value its register \<open>a\<close> yields at the \<open>n\<close>th read is a parameter \<open>dev a n\<close>
  of the model, and \<open>io_reads\<close> counts the reads.  What the kernel writes is kept in the order of the
  writes, and a byte written to the UART data register also goes to \<open>console\<close>, as it does in the
  components that print.
\<close>

section \<open>keyboard.h\<close>

record key_ring =
  kb_buffer :: "u8 list"
  kb_front :: i32
  kb_end :: i32
  kb_size :: i32

definition empty_ring :: key_ring where
  "empty_ring = \<lparr>kb_buffer = replicate 500 0, kb_front = 0, kb_end = 0, kb_size = 500\<rparr>"

section \<open>The state\<close>

type_synonym device = "u64 \<Rightarrow> nat \<Rightarrow> u32"

text \<open>
  \<open>timer_ctl\<close>, \<open>timer_tval\<close> and \<open>irq_on\<close> are the registers CNTP\_CTL\_EL0, CNTP\_TVAL\_EL0 and the
  interrupt mask of each core.
\<close>

record machine = sys +
  key_buffer :: key_ring
  timer_interval :: u32
  ticks :: u64
  core_ticks :: "nat \<Rightarrow> u64"
  main_core_ready :: i32
  io_reads :: "u64 \<Rightarrow> nat"
  io_writes :: "(u64 \<times> u32) list"
  timer_ctl :: "nat \<Rightarrow> u32"
  timer_tval :: "nat \<Rightarrow> u32"
  irq_on :: "nat \<Rightarrow> bool"

section \<open>Device registers\<close>

definition IO_BASE_ADDR :: u64 where "IO_BASE_ADDR = P2V 0x3f200000"
definition UART0_DR :: u64 where "UART0_DR = IO_BASE_ADDR + 0x1000"
definition UART0_FR :: u64 where "UART0_FR = IO_BASE_ADDR + 0x1018"
definition UART0_CR :: u64 where "UART0_CR = IO_BASE_ADDR + 0x1030"
definition UART0_LCRH :: u64 where "UART0_LCRH = IO_BASE_ADDR + 0x102c"
definition UART0_FBRD :: u64 where "UART0_FBRD = IO_BASE_ADDR + 0x1028"
definition UART0_IBRD :: u64 where "UART0_IBRD = IO_BASE_ADDR + 0x1024"
definition UART0_IMSC :: u64 where "UART0_IMSC = IO_BASE_ADDR + 0x1038"
definition UART0_MIS :: u64 where "UART0_MIS = IO_BASE_ADDR + 0x1040"
definition UART0_ICR :: u64 where "UART0_ICR = IO_BASE_ADDR + 0x1044"

lemmas uart_registers =
  UART0_DR_def UART0_FR_def UART0_CR_def UART0_LCRH_def UART0_FBRD_def UART0_IBRD_def UART0_IMSC_def
  UART0_MIS_def UART0_ICR_def IO_BASE_ADDR_def

definition char_of_byte :: "u8 \<Rightarrow> char" where
  "char_of_byte b = char_of (unat b)"

definition in_word :: "device \<Rightarrow> u64 \<Rightarrow> 'a machine_scheme \<Rightarrow> u32 \<times> 'a machine_scheme" where
  "in_word dev a s = (dev a (io_reads s a), s\<lparr>io_reads := (io_reads s)(a := io_reads s a + 1)\<rparr>)"

definition out_word :: "u64 \<Rightarrow> u32 \<Rightarrow> 'a machine_scheme \<Rightarrow> 'a machine_scheme" where
  "out_word a w s = s\<lparr>io_writes := io_writes s @ [(a, w)],
     console := console s @ (if a = UART0_DR then [char_of_byte (ucast w)] else [])\<rparr>"

lemma char_of_byte_of_char [simp]: "char_of_byte (byte_of_char c) = c"
proof -
  have "of_char c < (256 :: nat)" by simp
  then show ?thesis by (simp add: char_of_byte_def byte_of_char_def unat_of_nat take_bit_nat_eq_self)
qed

text \<open>A machine around given process and file tables: clocks at zero, an empty keyboard ring, no register accessed.\<close>

definition machine_of :: "sys \<Rightarrow> machine" where
  "machine_of s = sys.extend s
     \<lparr>key_buffer = empty_ring, timer_interval = 0, ticks = 0, core_ticks = (\<lambda>_. 0), main_core_ready = 0,
      io_reads = (\<lambda>_. 0), io_writes = [], timer_ctl = (\<lambda>_. 0), timer_tval = (\<lambda>_. 0), irq_on = (\<lambda>_. False)\<rparr>"

lemma machine_of_sel [simp]:
  "mem (machine_of s) = mem s" "console (machine_of s) = console s" "locks (machine_of s) = locks s"
  "process_table (machine_of s) = process_table s" "current_process (machine_of s) = current_process s"
  "head_lists (machine_of s) = head_lists s" "key_buffer (machine_of s) = empty_ring" "ticks (machine_of s) = 0"
  "core_ticks (machine_of s) = (\<lambda>_. 0)" "timer_interval (machine_of s) = 0" "io_reads (machine_of s) = (\<lambda>_. 0)"
  "io_writes (machine_of s) = []" "main_core_ready (machine_of s) = 0" "ttbr0 (machine_of s) = ttbr0 s"
  "timer_ctl (machine_of s) = (\<lambda>_. 0)" "irq_on (machine_of s) = (\<lambda>_. False)"
  by (simp_all add: machine_of_def sys.defs)

end
