(* ===== verification/Key_Ring.thy ===== *)
theory Key_Ring
  imports Machine_State "HOL-Library.Signed_Division"
begin

text \<open>
  The keyboard ring of src/src/keyboard.c as a data structure: inserting a key and taking the key at a
  given front position, with the C arithmetic on \<open>int\<close> and the array bounds written out.  The
  interface \<open>bounded_queue\<close> states what a ring of this kind promises, a first-in first-out queue that drops what
  arrives while it is full; it is interpreted on the ring.
\<close>

section \<open>The operations\<close>

text \<open>The C remainder on \<open>int\<close>.\<close>

definition c_mod :: "i32 \<Rightarrow> i32 \<Rightarrow> i32" where
  "c_mod a b = word_of_int (sint a smod sint b)"

text \<open>The body of \<open>write_key_buffer\<close>.\<close>

definition ring_put :: "u8 \<Rightarrow> key_ring \<Rightarrow> key_ring res" where
  "ring_put ch b =
     (let front = kb_front b; e = kb_end b; n = kb_size b
      in if n = 0 then Inl Div_by_zero
         else if c_mod (e + 1) n = front then Inr b
         else if sint e < 0 \<or> int (length (kb_buffer b)) \<le> sint e then Inl Out_of_bounds
         else Inr (b\<lparr>kb_buffer := (kb_buffer b)[nat (sint e) := ch], kb_end := c_mod (e + 1) n\<rparr>))"

text \<open>The end of \<open>read_key_buffer\<close>, with the local variable \<open>front\<close> it read at its start.\<close>

definition ring_take :: "i32 \<Rightarrow> key_ring \<Rightarrow> (u8 \<times> key_ring) res" where
  "ring_take front b =
     (if kb_size b = 0 then Inl Div_by_zero
      else let b = b\<lparr>kb_front := c_mod (kb_front b + 1) (kb_size b)\<rparr>
           in if sint front < 0 \<or> int (length (kb_buffer b)) \<le> sint front then Inl Out_of_bounds
              else Inr (kb_buffer b ! nat (sint front), b))"

section \<open>The interface\<close>

text \<open>What happens at a queue: an item arrives, or a reader that finds it non-empty takes one.\<close>

datatype 'a queue_op = Arrive 'a | Take

fun queue_run :: "('a \<Rightarrow> 'q \<Rightarrow> 'q res) \<Rightarrow> ('q \<Rightarrow> ('a \<times> 'q) res) \<Rightarrow> ('q \<Rightarrow> bool) \<Rightarrow> 'a queue_op list \<Rightarrow> 'q \<Rightarrow> ('a list \<times> 'q) res" where
  "queue_run put get ready [] q = Inr ([], q)"
| "queue_run put get ready (Arrive x # ops) q = rbind (put x q) (queue_run put get ready ops)"
| "queue_run put get ready (Take # ops) q =
     (if ready q
      then rbind (get q) (\<lambda>(x, q). rbind (queue_run put get ready ops q) (\<lambda>(xs, q). Inr (x # xs, q)))
      else queue_run put get ready ops q)"

text \<open>The reference: a list with a capacity.\<close>

fun list_run :: "nat \<Rightarrow> 'a queue_op list \<Rightarrow> 'a list \<Rightarrow> 'a list \<times> 'a list" where
  "list_run cap [] xs = ([], xs)"
| "list_run cap (Arrive x # ops) xs = list_run cap ops (if length xs < cap then xs @ [x] else xs)"
| "list_run cap (Take # ops) [] = list_run cap ops []"
| "list_run cap (Take # ops) (x # xs) = (let (ys, r) = list_run cap ops xs in (x # ys, r))"

text \<open>The items that arrive while there is room.\<close>

fun accepted :: "nat \<Rightarrow> 'a queue_op list \<Rightarrow> 'a list \<Rightarrow> 'a list" where
  "accepted cap [] xs = []"
| "accepted cap (Arrive x # ops) xs =
     (if length xs < cap then x # accepted cap ops (xs @ [x]) else accepted cap ops xs)"
| "accepted cap (Take # ops) xs = accepted cap ops (tl xs)"

lemma list_run_accepted: "list_run cap ops xs = (ys, r) \<Longrightarrow> xs @ accepted cap ops xs = ys @ r"
proof (induction cap ops xs arbitrary: ys r rule: list_run.induct)
  case (4 cap ops x xs)
  then show ?case by (auto split: prod.splits)
qed (auto split: if_splits)

lemma list_run_length: "list_run cap ops xs = (ys, r) \<Longrightarrow> length xs \<le> cap \<Longrightarrow> length r \<le> cap"
  by (induction cap ops xs arbitrary: ys r rule: list_run.induct) (auto split: if_splits prod.splits)

locale bounded_queue =
  fixes put :: "'a \<Rightarrow> 'q \<Rightarrow> 'q res"
    and get :: "'q \<Rightarrow> ('a \<times> 'q) res"
    and ready :: "'q \<Rightarrow> bool"
    and ok :: "'q \<Rightarrow> bool"
    and contents :: "'q \<Rightarrow> 'a list"
    and cap :: nat
  assumes put_law: "ok q \<Longrightarrow> \<exists>r. put x q = Inr r \<and> ok r \<and>
      contents r = (if length (contents q) < cap then contents q @ [x] else contents q)"
    and get_law: "ok q \<Longrightarrow> contents q = x # xs \<Longrightarrow> \<exists>r. get q = Inr (x, r) \<and> ok r \<and> contents r = xs"
    and ready_law: "ok q \<Longrightarrow> ready q \<longleftrightarrow> contents q \<noteq> []"
begin

lemma run_law:
  assumes "ok q"
  shows "\<exists>r. queue_run put get ready ops q = Inr (fst (list_run cap ops (contents q)), r) \<and> ok r \<and>
    contents r = snd (list_run cap ops (contents q))"
  using assms
proof (induction ops arbitrary: q)
  case (Cons a ops)
  show ?case
  proof (cases a)
    case (Arrive x)
    then show ?thesis using put_law [OF Cons.prems, of x] Cons.IH by fastforce
  next
    case Take
    show ?thesis
    proof (cases "contents q")
      case Nil
      then show ?thesis using Take Cons.IH [OF Cons.prems] ready_law [OF Cons.prems] by simp
    next
      case (Cons x xs)
      obtain r where r: "get q = Inr (x, r)" "ok r" "contents r = xs" using get_law [OF Cons.prems Cons] by blast
      obtain u where "queue_run put get ready ops r = Inr (fst (list_run cap ops xs), u)" "ok u" "contents u = snd (list_run cap ops xs)"
        using Cons.IH [OF r(2)] r(3) by auto
      then show ?thesis using Take r Cons ready_law [OF Cons.prems] by (simp add: case_prod_beta)
    qed
  qed
qed simp

end

section \<open>The ring is such a queue\<close>

definition ring_ok :: "key_ring \<Rightarrow> bool" where
  "ring_ok b \<longleftrightarrow> kb_size b = 500 \<and> length (kb_buffer b) = 500 \<and> unat (kb_front b) < 500 \<and> unat (kb_end b) < 500"

definition ring_count :: "key_ring \<Rightarrow> nat" where
  "ring_count b = (unat (kb_end b) + 500 - unat (kb_front b)) mod 500"

definition ring_keys :: "key_ring \<Rightarrow> u8 list" where
  "ring_keys b = map (\<lambda>i. kb_buffer b ! ((unat (kb_front b) + i) mod 500)) [0..<ring_count b]"

definition ring_ready :: "key_ring \<Rightarrow> bool" where
  "ring_ready b \<longleftrightarrow> kb_front b \<noteq> kb_end b"

lemma uint_less: "unat x < n \<Longrightarrow> uint (x :: i32) < int n"
proof -
  assume "unat x < n"
  then have "int (unat x) < int n" by (simp only: of_nat_less_iff)
  then show ?thesis by simp
qed

lemma sint_small:
  assumes "unat x < 2 ^ 31"
  shows "sint (x :: i32) = int (unat x)"
proof -
  have "signed_take_bit 31 (uint x) = uint x"
    using uint_less [OF assms] by (intro signed_take_bit_int_eq_self) (simp_all add: order_trans [OF _ uint_ge_0])
  then show ?thesis by (simp add: sint_uint)
qed

lemma ring_index:
  assumes "unat x < 500"
  shows "\<not> sint (x :: i32) < 0" "\<not> 500 \<le> sint x" "nat (sint x) = unat x"
proof -
  have "sint x = uint x" using sint_small [of x] assms by simp
  then show "\<not> sint x < 0" "\<not> 500 \<le> sint x" "nat (sint x) = unat x"
    using uint_less [OF assms] by simp_all
qed

lemma int_smod: "int n smod 500 = int (n mod 500)"
  by (simp add: smod_int_alt_def sgn_if zmod_int)

lemma c_mod_next:
  assumes "unat x < 500"
  shows "unat (c_mod (x + 1) 500) = (unat x + 1) mod 500"
proof -
  have u: "unat (x + 1) = unat x + 1" using unat_plus_of_nat [of x 1] assms by simp
  have "unat (x + 1) < 2 ^ 31" unfolding u using assms by simp
  then have "sint (x + 1) = int (unat x + 1)" using sint_small u by metis
  moreover have "sint (500 :: i32) = 500" by simp
  ultimately have "c_mod (x + 1) 500 = word_of_int (int ((unat x + 1) mod 500))"
    unfolding c_mod_def by (simp only: int_smod)
  then show ?thesis by (simp only: of_int_of_nat_eq unat_of_nat) (simp add: take_bit_nat_eq_self)
qed

text \<open>Positions modulo the size of the ring.\<close>

lemma mod_positions:
  fixes a c :: nat
  assumes "a < 500" "c < 500"
  shows "(a + 500 - c) mod 500 = (if c \<le> a then a - c else a + 500 - c)"
    "(a + 1) mod 500 = (if a = 499 then 0 else a + 1)" "(a + c) mod 500 = (if a + c < 500 then a + c else a + c - 500)"
proof -
  have "(a + 500 - c) mod 500 = a - c" if "c \<le> a"
  proof -
    have "a + 500 - c = (a - c) + 500" using that by simp
    then have "(a + 500 - c) mod 500 = (a - c) mod 500" by (simp only: mod_add_self2)
    then show ?thesis using assms by simp
  qed
  then show "(a + 500 - c) mod 500 = (if c \<le> a then a - c else a + 500 - c)" using assms by auto
  show "(a + 1) mod 500 = (if a = 499 then 0 else a + 1)" using assms by auto
  show "(a + c) mod 500 = (if a + c < 500 then a + c else a + c - 500)"
    using assms by (simp add: mod_if)
qed

lemma ring_count_less: "ring_count b < 500"
  by (simp add: ring_count_def)

lemma length_ring_keys [simp]: "length (ring_keys b) = ring_count b"
  by (simp add: ring_keys_def)

lemma ring_count_cases:
  assumes "ring_ok b"
  shows "ring_count b =
    (if unat (kb_front b) \<le> unat (kb_end b) then unat (kb_end b) - unat (kb_front b)
     else unat (kb_end b) + 500 - unat (kb_front b))"
  using mod_positions(1) assms by (simp add: ring_ok_def ring_count_def)

lemma ring_end:
  assumes "ring_ok b"
  shows "(unat (kb_front b) + ring_count b) mod 500 = unat (kb_end b)"
  using mod_positions(3) [of "unat (kb_front b)" "ring_count b"] ring_count_less [of b] ring_count_cases [OF assms] assms
  by (auto simp: ring_ok_def split: if_splits)

lemma ring_full:
  assumes "ring_ok b"
  shows "c_mod (kb_end b + 1) 500 = kb_front b \<longleftrightarrow> ring_count b = 499"
proof -
  have "c_mod (kb_end b + 1) 500 = kb_front b \<longleftrightarrow> (unat (kb_end b) + 1) mod 500 = unat (kb_front b)"
    using c_mod_next [of "kb_end b"] assms by (simp add: ring_ok_def word_unat_eq_iff)
  also have "\<dots> \<longleftrightarrow> ring_count b = 499"
    using mod_positions(2) [of "unat (kb_end b)"] ring_count_cases [OF assms] assms
    by (auto simp: ring_ok_def split: if_splits)
  finally show ?thesis .
qed

lemma ring_put_law:
  assumes ok: "ring_ok b"
  shows "\<exists>r. ring_put ch b = Inr r \<and> ring_ok r \<and>
    ring_keys r = (if length (ring_keys b) < 499 then ring_keys b @ [ch] else ring_keys b)"
proof (cases "ring_count b = 499")
  case True
  then show ?thesis using ring_full [OF ok] ok by (simp add: ring_put_def ring_ok_def)
next
  case False
  let ?f = "unat (kb_front b)" and ?e = "unat (kb_end b)" and ?n = "ring_count b"
  define r where "r = b\<lparr>kb_buffer := (kb_buffer b)[?e := ch], kb_end := c_mod (kb_end b + 1) 500\<rparr>"
  have D: "kb_size b = 500" "length (kb_buffer b) = 500" "?f < 500" "?e < 500" using ok by (simp_all add: ring_ok_def)
  have se: "sint (kb_end b) = int ?e" using sint_small D(4) by simp
  have run: "ring_put ch b = Inr r"
    using ring_full [OF ok] False D se by (simp add: ring_put_def r_def Let_def not_le uint_less [of _ 500, simplified])
  have e': "unat (kb_end r) = (?e + 1) mod 500" using c_mod_next D(4) by (simp add: r_def)
  have fr: "kb_front r = kb_front b" by (simp add: r_def)
  have okr: "ring_ok r" using D e' by (simp add: ring_ok_def r_def)
  have n: "?n < 499" using ring_count_less [of b] False by simp
  have c: "ring_count r = ?n + 1"
    using ring_count_cases [OF okr] ring_count_cases [OF ok] mod_positions(2) [OF D(4) D(4)] n D(3,4) fr
    by (auto simp: e' split: if_splits)
  have old: "kb_buffer r ! ((?f + i) mod 500) = kb_buffer b ! ((?f + i) mod 500)" if "i < ?n" for i
  proof -
    have "(?f + i) mod 500 \<noteq> ?e"
      using that n ring_end [OF ok] mod_positions(3) [OF D(3)] D(3,4) by (auto split: if_splits)
    then show ?thesis by (simp add: r_def)
  qed
  have "kb_buffer r ! ((?f + ?n) mod 500) = ch" using ring_end [OF ok] D by (simp add: r_def)
  then have "ring_keys r = ring_keys b @ [ch]"
    using old by (simp add: ring_keys_def c) (simp add: r_def)
  then show ?thesis using run okr n by simp
qed

lemma ring_take_law:
  assumes ok: "ring_ok b" and keys: "ring_keys b = x # xs"
  shows "\<exists>r. ring_take (kb_front b) b = Inr (x, r) \<and> ring_ok r \<and> ring_keys r = xs"
proof -
  let ?f = "unat (kb_front b)" and ?n = "ring_count b"
  define r where "r = b\<lparr>kb_front := c_mod (kb_front b + 1) 500\<rparr>"
  have D: "kb_size b = 500" "length (kb_buffer b) = 500" "?f < 500" "unat (kb_end b) < 500" using ok by (simp_all add: ring_ok_def)
  have "sint (kb_front b) = int ?f" using sint_small D(3) by simp
  then have run: "ring_take (kb_front b) b = Inr (kb_buffer b ! ?f, r)"
    using D by (simp add: ring_take_def r_def Let_def not_le uint_less [of _ 500, simplified])
  have f': "unat (kb_front r) = (?f + 1) mod 500" using c_mod_next D(3) by (simp add: r_def)
  have fr: "kb_end r = kb_end b" by (simp add: r_def)
  have okr: "ring_ok r" using D f' by (simp add: ring_ok_def r_def)
  have n: "0 < ?n" using arg_cong [OF keys, of length] by simp
  have c: "ring_count r = ?n - 1"
    using ring_count_cases [OF okr] ring_count_cases [OF ok] mod_positions(2) [OF D(3) D(3)] n D(3,4) fr
    by (auto simp: f' split: if_splits)
  have "[0..<?n] = 0 # map Suc [0..<?n - 1]" using n by (simp add: map_Suc_upt upt_conv_Cons)
  then have "ring_keys b = kb_buffer b ! ?f # map (\<lambda>i. kb_buffer b ! ((?f + Suc i) mod 500)) [0..<?n - 1]"
    using D(3) by (simp add: ring_keys_def comp_def)
  moreover have "ring_keys r = map (\<lambda>i. kb_buffer b ! ((?f + Suc i) mod 500)) [0..<?n - 1]"
    unfolding ring_keys_def c f' by (simp add: r_def mod_add_left_eq)
  ultimately show ?thesis using keys run okr by simp
qed

lemma ring_ready_law: "ring_ok b \<Longrightarrow> ring_ready b \<longleftrightarrow> ring_keys b \<noteq> []"
proof -
  assume ok: "ring_ok b"
  have "ring_count b = 0 \<longleftrightarrow> unat (kb_front b) = unat (kb_end b)"
    using ring_count_cases [OF ok] ok by (auto simp: ring_ok_def split: if_splits)
  moreover have "ring_keys b = [] \<longleftrightarrow> ring_count b = 0" using length_ring_keys [of b] by (metis length_0_conv)
  ultimately show ?thesis by (auto simp: ring_ready_def word_unat_eq_iff)
qed

interpretation ring: bounded_queue ring_put "\<lambda>b. ring_take (kb_front b) b" ring_ready ring_ok ring_keys 499
  by unfold_locales (use ring_put_law ring_take_law ring_ready_law in blast)+

lemma empty_ring_ok: "ring_ok empty_ring" "ring_keys empty_ring = []"
  by (simp_all add: ring_ok_def empty_ring_def ring_keys_def ring_count_def)

end
