(* ===== verification/Uart.thy ===== *)
theory Uart
  imports Machine_State
begin

text \<open>
  The UART driver (src/src/uart.c).  \<open>write_char\<close> polls the flag register while the transmit buffer is
  full; a poll that never ends is \<open>None\<close>.  The handler of its interrupt is in theory \<open>Keyboard\<close>.

  The lemmas show that with a transmitter that is ready infinitely often the driver sends exactly the
  given characters, which is what \<open>write_console\<close> of theory \<open>Console\<close> does to the log.
\<close>

section \<open>The driver\<close>

text \<open>The loop \<open>while (in_word(UART0_FR) & (1 << 3))\<close>.\<close>

partial_function (option) wait_transmit :: "device \<Rightarrow> 'a machine_scheme \<Rightarrow> 'a machine_scheme option" where
  [code]: "wait_transmit dev s =
     (let (w, s) = in_word dev UART0_FR s in if w AND push_bit 3 1 \<noteq> 0 then wait_transmit dev s else Some s)"

definition write_char :: "device \<Rightarrow> u8 \<Rightarrow> 'a machine_scheme \<Rightarrow> 'a machine_scheme option" where
  "write_char dev c s = Option.bind (wait_transmit dev s) (\<lambda>s. Some (out_word UART0_DR (ucast c) s))"

definition read_char :: "device \<Rightarrow> 'a machine_scheme \<Rightarrow> u8 \<times> 'a machine_scheme" where
  "read_char dev s = (let (w, s) = in_word dev UART0_DR s in (ucast w, s))"

text \<open>The bytes up to the terminating zero of the string.\<close>

fun write_string :: "device \<Rightarrow> u8 list \<Rightarrow> 'a machine_scheme \<Rightarrow> 'a machine_scheme option" where
  "write_string dev [] s = Some s"
| "write_string dev (c # cs) s =
     (if c = 0 then Some s else Option.bind (write_char dev c s) (write_string dev cs))"

definition init_uart :: "'a machine_scheme \<Rightarrow> 'a machine_scheme" where
  "init_uart s =
     (let s = out_word UART0_CR 0 s;
          s = out_word UART0_IBRD 26 s;
          s = out_word UART0_FBRD 0 s;
          s = out_word UART0_LCRH (push_bit 5 1 OR push_bit 6 1) s;
          s = out_word UART0_IMSC (push_bit 4 1) s
      in out_word UART0_CR (push_bit 0 1 OR push_bit 8 1 OR push_bit 9 1) s)"

section \<open>Transmission\<close>

text \<open>The transmitter is ready infinitely often: after any number of reads of the flags, some later one finds room.\<close>

definition transmits :: "device \<Rightarrow> bool" where
  "transmits dev \<longleftrightarrow> (\<forall>n. \<exists>m \<ge> n. dev UART0_FR m AND push_bit 3 1 = 0)"

lemma wait_transmit_run:
  assumes "transmits dev"
  shows "\<exists>n. wait_transmit dev s = Some (s\<lparr>io_reads := (io_reads s)(UART0_FR := n)\<rparr>)"
proof -
  obtain m where m: "io_reads s UART0_FR \<le> m" "dev UART0_FR m AND push_bit 3 1 = 0"
    using assms unfolding transmits_def by blast
  from m(1) show ?thesis
  proof (induction "m - io_reads s UART0_FR" arbitrary: s)
    case 0
    then have "io_reads s UART0_FR = m" by simp
    then show ?case using m(2) by (subst wait_transmit.simps) (auto simp: in_word_def)
  next
    case (Suc k)
    define u where "u = s\<lparr>io_reads := (io_reads s)(UART0_FR := io_reads s UART0_FR + 1)\<rparr>"
    have "k = m - io_reads u UART0_FR" "io_reads u UART0_FR \<le> m" using Suc.hyps(2) by (simp_all add: u_def)
    from Suc.hyps(1) [OF this] obtain n where
      n: "wait_transmit dev u = Some (u\<lparr>io_reads := (io_reads u)(UART0_FR := n)\<rparr>)" by blast
    show ?case
    proof (cases "dev UART0_FR (io_reads s UART0_FR) AND push_bit 3 1 = 0")
      case True
      then show ?thesis by (subst wait_transmit.simps) (auto simp: in_word_def)
    next
      case False
      then have "wait_transmit dev s = wait_transmit dev u"
        by (subst wait_transmit.simps) (simp add: in_word_def u_def)
      then show ?thesis using n by (auto simp: u_def)
    qed
  qed
qed

text \<open>The state after some bytes were sent and \<open>n\<close> reads of the flags.\<close>

definition sent :: "nat \<Rightarrow> u8 list \<Rightarrow> 'a machine_scheme \<Rightarrow> 'a machine_scheme" where
  "sent n cs s = s\<lparr>io_reads := (io_reads s)(UART0_FR := n),
     io_writes := io_writes s @ map (\<lambda>c. (UART0_DR, ucast c)) cs, console := console s @ map char_of_byte cs\<rparr>"

lemma sent_Nil: "sent (io_reads s UART0_FR) [] s = s"
  by (simp add: sent_def)

lemma sent_append [simp]: "sent n ds (sent k cs s) = sent n (cs @ ds) s"
  by (simp add: sent_def)

lemma write_char_run:
  assumes "transmits dev"
  shows "\<exists>n. write_char dev c s = Some (sent n [c] s)"
proof -
  have "ucast (ucast c :: u32) = c" by (auto intro!: bit_word_eqI simp: bit_simps)
  then show ?thesis
    using wait_transmit_run [OF assms, of s] by (auto simp: write_char_def out_word_def sent_def)
qed

lemma write_string_run:
  assumes "transmits dev"
  shows "\<exists>n. write_string dev cs s = Some (sent n (takeWhile (\<lambda>c. c \<noteq> 0) cs) s)"
proof (induction cs arbitrary: s)
  case Nil
  show ?case using sent_Nil [of s] by (auto intro!: exI [of _ "io_reads s UART0_FR"])
next
  case (Cons c cs)
  show ?case
  proof (cases "c = 0")
    case True
    then show ?thesis using sent_Nil [of s] by (auto intro!: exI [of _ "io_reads s UART0_FR"])
  next
    case False
    obtain k where "write_char dev c s = Some (sent k [c] s)" using write_char_run [OF assms] by blast
    moreover obtain n where "write_string dev cs (sent k [c] s) = Some (sent n (takeWhile (\<lambda>c. c \<noteq> 0) cs) (sent k [c] s))"
      using Cons.IH by blast
    ultimately show ?thesis using False by auto
  qed
qed

section \<open>Properties\<close>

text \<open>
  The polled driver sends what the log records.  With a transmitter that is ready again and again,
  \<open>write_string\<close> returns and writes to the data register exactly the bytes of the string up to its
  terminating zero, in order; apart from the count of flag reads and the log of register writes the
  state is the one \<open>write_console\<close> leaves.
\<close>

theorem uart_sends_string:
  assumes "transmits dev" "map byte_of_char str = takeWhile (\<lambda>c. c \<noteq> 0) cs"
  shows "\<exists>t. write_string dev cs s = Some t \<and>
    io_writes t = io_writes s @ map (\<lambda>c. (UART0_DR, ucast (byte_of_char c))) str \<and>
    t\<lparr>io_reads := io_reads s, io_writes := io_writes s\<rparr> = write_console str (length str) s"
proof -
  obtain n where n: "write_string dev cs s = Some (sent n (map byte_of_char str) s)"
    using write_string_run [OF assms(1), of cs s] assms(2) by auto
  have "(\<lambda>c. char_of_byte (byte_of_char c)) = id" by (simp add: fun_eq_iff)
  then show ?thesis
    using n by (intro exI [of _ "sent n (map byte_of_char str) s"]) (simp add: sent_def write_console_def comp_def)
qed

theorem uart_sends_string_witness:
  "\<exists>t. write_string (\<lambda>a n. if even n then 8 else 0) [0x48, 0x69, 0, 0x21] (machine_of two_ready) = Some t \<and>
    io_writes t = [(0xffff00003f201000, 0x48), (0xffff00003f201000, 0x69)] \<and> console t = ''Hi''"
proof -
  have "\<exists>m \<ge> n. \<not> even m" for n :: nat by (rule exI [of _ "2 * n + 1"]) simp
  then have tr: "transmits (\<lambda>a n. if even n then 8 else 0)" by (fastforce simp: transmits_def)
  have "map byte_of_char ''Hi'' = takeWhile (\<lambda>c. c \<noteq> 0) [0x48, 0x69, 0, 0x21]"
    by (simp add: byte_of_char_def)
  from uart_sends_string [OF tr this, of "machine_of two_ready"] obtain t where t:
    "write_string (\<lambda>a n. if even n then 8 else 0) [0x48, 0x69, 0, 0x21] (machine_of two_ready) = Some t"
    "io_writes t = io_writes (machine_of two_ready) @ map (\<lambda>c. (UART0_DR, ucast (byte_of_char c))) ''Hi''"
    "t\<lparr>io_reads := io_reads (machine_of two_ready), io_writes := io_writes (machine_of two_ready)\<rparr> =
      write_console ''Hi'' (length ''Hi'') (machine_of two_ready)"
    by blast
  have "console t = ''Hi''"
    using arg_cong [OF t(3), of console] by (simp add: write_console_def two_ready_def)
  moreover have "io_writes t = [(0xffff00003f201000, 0x48), (0xffff00003f201000, 0x69)]"
    unfolding t(2) by (simp add: uart_registers byte_of_char_def P2V_def KERNEL_BASE_def)
  ultimately show ?thesis using t(1) by blast
qed

end
