(* ===== verification/Keyboard.thy ===== *)
theory Keyboard
  imports Key_Ring Uart
begin

text \<open>
  The keyboard (src/src/keyboard.c) and the interrupt handler of the UART that feeds it
  (\<open>uart_handler\<close> of src/src/uart.c).  A reader that finds the ring empty sleeps on -2 inside
  \<open>read_key_buffer\<close>; the value of its local variable \<open>front\<close> is what it resumes with.  \<open>char\<close> is
  unsigned on AArch64.
\<close>

section \<open>The operations\<close>

definition write_key_buffer :: "u8 \<Rightarrow> 'a machine_scheme \<Rightarrow> 'a machine_scheme res" where
  "write_key_buffer ch s = rbind (ring_put ch (key_buffer s)) (\<lambda>b. Inr (s\<lparr>key_buffer := b\<rparr>))"

text \<open>\<open>Key_wait front f\<close>: the reader sleeps, and continues with \<open>read_key_rest front\<close>.\<close>

datatype 's key_read = Key u8 's | Key_wait i32 "'s flow"

definition read_key_rest :: "i32 \<Rightarrow> 'a machine_scheme \<Rightarrow> (u8 \<times> 'a machine_scheme) res" where
  "read_key_rest front s = rbind (ring_take front (key_buffer s)) (\<lambda>(c, b). Inr (c, s\<lparr>key_buffer := b\<rparr>))"

definition read_key_buffer :: "nat \<Rightarrow> 'a machine_scheme \<Rightarrow> 'a machine_scheme key_read res" where
  "read_key_buffer cpu s =
     (let front = kb_front (key_buffer s)
      in if front = kb_end (key_buffer s) then rbind (sleep cpu (- 2) s) (\<lambda>f. Inr (Key_wait front f))
         else rbind (read_key_rest front s) (\<lambda>(c, s). Inr (Key c s)))"

definition keyboard_read :: "device \<Rightarrow> 'a machine_scheme \<Rightarrow> u8 \<times> 'a machine_scheme" where
  "keyboard_read dev s = read_char dev s"

definition keyboard_handler :: "device \<Rightarrow> 'a machine_scheme \<Rightarrow> 'a machine_scheme res" where
  "keyboard_handler dev s =
     (let (ch, s) = keyboard_read dev s in rbind (write_key_buffer ch s) (\<lambda>s. wake_up (- 2) s))"

definition uart_handler :: "device \<Rightarrow> 'a machine_scheme \<Rightarrow> 'a machine_scheme res" where
  "uart_handler dev s =
     (let (status, s) = in_word dev UART0_MIS s
      in if status AND push_bit 4 1 \<noteq> 0
         then rbind (keyboard_handler dev s) (\<lambda>s. Inr (out_word UART0_ICR (push_bit 4 1) s))
         else Inr s)"

section \<open>The scheduler leaves the rest of the machine alone\<close>

named_theorems more_frame

lemma append_list_tail_more [more_frame]: "append_list_tail l p s = Inr t \<Longrightarrow> sys.more t = sys.more s"
  by (auto simp: append_list_tail_def rbind_elims set_link_def set_head_def upd_process_def spin_unlock_def Let_def
      split: if_splits option.splits)

lemma remove_list_more [more_frame]: "remove_list l w s = Inr (q, t) \<Longrightarrow> sys.more t = sys.more s"
  by (auto simp: remove_list_def set_link_def set_head_def upd_process_def Let_def split: if_splits option.splits)

lemma wake_core_more:
  assumes "wake_core i w s = Some (Inr t)"
  shows "sys.more t = sys.more s"
proof -
  have "\<forall>t. y = Inr t \<longrightarrow> sys.more t = sys.more s" if "wake_core i w s = Some y" for y
    by (rule wake_core.raw_induct [OF _ that, of "\<lambda>i w s y. \<forall>t. y = Inr t \<longrightarrow> sys.more t = sys.more s"])
      (auto split: sum.splits if_splits option.splits prod.splits dest!: append_list_tail_more remove_list_more simp: upd_process_def)
  then show ?thesis using assms by blast
qed

lemma wake_cores_more: "wake_cores is w s = Inr t \<Longrightarrow> sys.more t = sys.more s"
proof (induction "is" w s rule: wake_cores.induct)
  case (2 i "is" w s)
  then show ?case by (auto simp: rbind_elims split: option.splits dest: wake_core_more)
qed simp

lemma wake_up_more [more_frame]: "wake_up w s = Inr t \<Longrightarrow> sys.more t = sys.more s"
  by (auto simp: wake_up_def rbind_elims spin_unlock_def dest: wake_cores_more)

lemma machine_more:
  fixes s t :: "'a machine_scheme"
  assumes "sys.more t = sys.more s"
  shows "key_buffer t = key_buffer s" "ticks t = ticks s" "timer_interval t = timer_interval s" "core_ticks t = core_ticks s"
    "io_reads t = io_reads s" "io_writes t = io_writes s" "timer_ctl t = timer_ctl s" "timer_tval t = timer_tval s"
    "irq_on t = irq_on s" "main_core_ready t = main_core_ready s"
  using assms by (cases s; cases t; simp)+

section \<open>Interrupts\<close>

lemma write_key_buffer_run:
  assumes "ring_ok (key_buffer s)"
  shows "\<exists>b. write_key_buffer ch s = Inr (s\<lparr>key_buffer := b\<rparr>) \<and> ring_ok b \<and>
    ring_keys b = (if length (ring_keys (key_buffer s)) < 499 then ring_keys (key_buffer s) @ [ch] else ring_keys (key_buffer s))"
  using ring_put_law [OF assms, of ch] by (auto simp: write_key_buffer_def)

text \<open>The predicates of the scheduler look at the scheduler's state only.\<close>

lemma sched_rep_machine [simp]:
  "sched_rep (s\<lparr>key_buffer := b\<rparr>) Q R \<longleftrightarrow> sched_rep s Q R" "sched_rep (s\<lparr>io_reads := r\<rparr>) Q R \<longleftrightarrow> sched_rep s Q R"
  "sched_rep (s\<lparr>ticks := n\<rparr>) Q R \<longleftrightarrow> sched_rep s Q R" "sched_rep (s\<lparr>timer_tval := v\<rparr>) Q R \<longleftrightarrow> sched_rep s Q R"
  "sched_rep (s\<lparr>core_ticks := k\<rparr>) Q R \<longleftrightarrow> sched_rep s Q R" "sched_rep (out_word a w s) Q R \<longleftrightarrow> sched_rep s Q R"
  by (simp_all add: sched_rep_def placed_def lists_rep_def out_word_def)

lemma sched_inv_machine [simp]:
  "sched_inv (s\<lparr>key_buffer := b\<rparr>) Q R \<longleftrightarrow> sched_inv s Q R" "sched_inv (s\<lparr>io_reads := r\<rparr>) Q R \<longleftrightarrow> sched_inv s Q R"
  "sched_inv (s\<lparr>ticks := n\<rparr>) Q R \<longleftrightarrow> sched_inv s Q R" "sched_inv (s\<lparr>timer_tval := v\<rparr>) Q R \<longleftrightarrow> sched_inv s Q R"
  "sched_inv (s\<lparr>core_ticks := k\<rparr>) Q R \<longleftrightarrow> sched_inv s Q R" "sched_inv (out_word a w s) Q R \<longleftrightarrow> sched_inv s Q R"
  unfolding sched_inv_def by simp_all (simp add: out_word_def)

lemma keyboard_handler_run:
  assumes inv: "sched_inv s Q R" and ok: "ring_ok (key_buffer s)"
  shows "\<exists>t. keyboard_handler dev s = Inr t \<and> sched_inv t (woken {..<MAXCORES} (- 2) (wait_of s) Q) R \<and>
    ring_ok (key_buffer t) \<and> io_reads t = (io_reads s)(UART0_DR := io_reads s UART0_DR + 1) \<and> io_writes t = io_writes s \<and>
    ring_keys (key_buffer t) = (if length (ring_keys (key_buffer s)) < 499
      then ring_keys (key_buffer s) @ [ucast (dev UART0_DR (io_reads s UART0_DR))] else ring_keys (key_buffer s))"
proof -
  define u where "u = s\<lparr>io_reads := (io_reads s)(UART0_DR := io_reads s UART0_DR + 1)\<rparr>"
  define ch :: u8 where "ch = ucast (dev UART0_DR (io_reads s UART0_DR))"
  have r: "keyboard_read dev s = (ch, u)"
    by (simp add: keyboard_read_def read_char_def in_word_def u_def ch_def)
  obtain b where b: "write_key_buffer ch u = Inr (u\<lparr>key_buffer := b\<rparr>)" "ring_ok b"
      "ring_keys b = (if length (ring_keys (key_buffer s)) < 499 then ring_keys (key_buffer s) @ [ch] else ring_keys (key_buffer s))"
    using write_key_buffer_run [of u ch] ok by (auto simp: u_def)
  have iu: "sched_inv (u\<lparr>key_buffer := b\<rparr>) Q R" using inv by (simp add: u_def)
  obtain t where t: "wake_up (- 2) (u\<lparr>key_buffer := b\<rparr>) = Inr t"
      "sched_inv t (woken {..<MAXCORES} (- 2) (wait_of (u\<lparr>key_buffer := b\<rparr>)) Q) R"
    using wake_up_law [OF iu, of "- 2"] by blast
  note m = machine_more [OF wake_up_more [OF t(1)]]
  have "keyboard_handler dev s = Inr t" using b(1) t(1) by (simp add: keyboard_handler_def r)
  then show ?thesis
    using t(2) b(2,3) m by (intro exI [of _ t]) (simp add: u_def ch_def)
qed

lemma sched_inv_machine_of [simp]: "sched_inv (machine_of s) Q R \<longleftrightarrow> sched_inv s Q R"
  by (simp add: sched_inv_def sched_rep_def placed_def lists_rep_def)

text \<open>The parts of the insertion a stale position sees.\<close>

lemma ring_put_empty:
  assumes ok: "ring_ok b" and "ring_keys b = []" and put: "ring_put k b = Inr r"
  shows "kb_front r = kb_front b" "kb_end r = c_mod (kb_front b + 1) 500" "kb_size r = 500" "length (kb_buffer r) = 500"
    "kb_buffer r ! unat (kb_front b) = k"
proof -
  have c: "ring_count b = 0" using arg_cong [OF assms(2), of length] by simp
  then have e: "kb_end b = kb_front b" using ring_ready_law [OF ok] assms(2) by (auto simp: ring_ready_def)
  have D: "kb_size b = 500" "length (kb_buffer b) = 500" "unat (kb_front b) < 500" using ok by (simp_all add: ring_ok_def)
  have "r = b\<lparr>kb_buffer := (kb_buffer b)[unat (kb_front b) := k], kb_end := c_mod (kb_front b + 1) 500\<rparr>"
    using put ring_full [OF ok] c D ring_index [OF D(3)] by (simp add: ring_put_def e Let_def)
  then show "kb_front r = kb_front b" "kb_end r = c_mod (kb_front b + 1) 500" "kb_size r = 500" "length (kb_buffer r) = 500"
    "kb_buffer r ! unat (kb_front b) = k"
    using D by simp_all
qed

lemma ring_take_at:
  assumes "kb_size b = 500" "length (kb_buffer b) = 500" "unat front < 500"
  shows "ring_take front b = Inr (kb_buffer b ! unat front, b\<lparr>kb_front := c_mod (kb_front b + 1) 500\<rparr>)"
  using assms ring_index [OF assms(3)] by (simp add: ring_take_def Let_def)

section \<open>Properties\<close>

text \<open>
  C19: The keyboard ring is a queue.  Starting from a well-formed ring, every sequence of arriving keys and of
  reads that find the ring non-empty runs without an error exactly as on a list with room for 499
  keys: the keys read, followed by those still in the ring, are the keys that were there,
  followed by those that arrived while there was room, in order, each once.
\<close>

theorem key_ring_fifo:
  assumes "ring_ok b"
  shows "\<exists>out r. queue_run ring_put (\<lambda>b. ring_take (kb_front b) b) ring_ready ops b = Inr (out, r) \<and> ring_ok r \<and>
    (out, ring_keys r) = list_run 499 ops (ring_keys b) \<and> out @ ring_keys r = ring_keys b @ accepted 499 ops (ring_keys b)"
proof -
  obtain out xs where l: "list_run 499 ops (ring_keys b) = (out, xs)" by (cases "list_run 499 ops (ring_keys b)") auto
  then show ?thesis using ring.run_law [OF assms, of ops] list_run_accepted [OF l] by auto
qed

theorem key_ring_fifo_witness:
  "\<exists>r. queue_run ring_put (\<lambda>b. ring_take (kb_front b) b) ring_ready [Arrive 0x61, Arrive 0x62, Take, Take, Take] empty_ring =
    Inr ([0x61, 0x62], r)"
  using key_ring_fifo [OF empty_ring_ok(1), of "[Arrive 0x61, Arrive 0x62, Take, Take, Take]"] by (auto simp: empty_ring_ok)

text \<open>
  C28: A receive interrupt queues one key.  \<open>uart_handler\<close> returns; when the UART reports a received
  character it reads the data register once, appends the character to the ring if there is room,
  makes every process ready that waits for a key, and acknowledges the interrupt; otherwise it
  only reads the status.
\<close>

theorem uart_interrupt_correct:
  assumes "sched_inv s Q R" "ring_ok (key_buffer s)"
  shows "let status = dev UART0_MIS (io_reads s UART0_MIS); keys = ring_keys (key_buffer s) in
    \<exists>t. uart_handler dev s = Inr t \<and> ring_ok (key_buffer t) \<and>
      (if bit status 4
       then sched_inv t (woken {..<MAXCORES} (- 2) (wait_of s) Q) R \<and> io_writes t = io_writes s @ [(UART0_ICR, 16)] \<and>
         ring_keys (key_buffer t) =
           (if length keys < 499 then keys @ [ucast (dev UART0_DR (io_reads s UART0_DR))] else keys)
       else t = s\<lparr>io_reads := (io_reads s)(UART0_MIS := io_reads s UART0_MIS + 1)\<rparr>)"
proof -
  define u where "u = s\<lparr>io_reads := (io_reads s)(UART0_MIS := io_reads s UART0_MIS + 1)\<rparr>"
  have u: "in_word dev UART0_MIS s = (dev UART0_MIS (io_reads s UART0_MIS), u)" by (simp add: in_word_def u_def)
  have inv: "sched_inv u Q R" "ring_ok (key_buffer u)" "key_buffer u = key_buffer s" "io_writes u = io_writes s"
      "process_table u = process_table s" using assms by (simp_all add: u_def)
  have ne: "UART0_DR \<noteq> UART0_MIS" by (simp add: uart_registers)
  have rd: "io_reads u UART0_DR = io_reads s UART0_DR" using ne by (simp add: u_def)
  have b: "status AND 16 = 0 \<longleftrightarrow> \<not> bit status 4" for status :: u32
    using and_exp_eq_0_iff_not_bit [of status 4] by simp
  obtain t where t: "keyboard_handler dev u = Inr t" "sched_inv t (woken {..<MAXCORES} (- 2) (wait_of u) Q) R"
      "ring_ok (key_buffer t)" "io_writes t = io_writes u"
      "ring_keys (key_buffer t) = (if length (ring_keys (key_buffer u)) < 499
        then ring_keys (key_buffer u) @ [ucast (dev UART0_DR (io_reads u UART0_DR))] else ring_keys (key_buffer u))"
    using keyboard_handler_run [OF inv(1,2), of dev] by blast
  show ?thesis
  proof (cases "bit (dev UART0_MIS (io_reads s UART0_MIS)) 4")
    case True
    have "uart_handler dev s = Inr (out_word UART0_ICR (push_bit 4 1) t)"
      using True t(1) by (simp add: uart_handler_def u b)
    moreover have "key_buffer (out_word UART0_ICR (push_bit 4 1) t) = key_buffer t"
      "io_writes (out_word UART0_ICR (push_bit 4 1) t) = io_writes t @ [(UART0_ICR, 16)]" by (simp_all add: out_word_def)
    ultimately show ?thesis
      using True t(2-5) inv(3-5) rd unfolding Let_def by (intro exI [of _ "out_word UART0_ICR (push_bit 4 1) t"]) simp
  next
    case False
    then have "uart_handler dev s = Inr u" by (simp add: uart_handler_def u b)
    then show ?thesis using False inv(2) unfolding Let_def by (simp add: u_def)
  qed
qed

theorem uart_interrupt_correct_witness:
  "\<exists>t. uart_handler (\<lambda>a n. if a = UART0_MIS then 16 else 0x41) (machine_of two_ready) = Inr t \<and>
    ring_keys (key_buffer t) = [0x41]"
proof -
  let ?dev = "\<lambda>a n. if a = UART0_MIS then 16 else 0x41"
  have ne: "UART0_DR \<noteq> UART0_MIS" by (simp add: uart_registers)
  have "bit (16 :: u32) 4" by simp
  then show ?thesis
    using uart_interrupt_correct [of "machine_of two_ready" two_queue "\<lambda>c. (c, 0)" ?dev] two_ready_inv empty_ring_ok ne
    by (auto simp: Let_def)
qed

text \<open>
  C40: A key can be read twice.  When two processes read the empty ring, both remember the same front
  position before they sleep.  One key then wakes both: each returns that key, and the front moves
  past the end, so that the ring, which is empty, reads as holding 499 keys.
\<close>

theorem late_reader_repeats_key:
  assumes "ring_ok (key_buffer s)" "ring_keys (key_buffer s) = []"
  defines "front \<equiv> kb_front (key_buffer s)"
  shows "(\<forall>c x. read_key_buffer c s = Inr x \<longrightarrow> (\<exists>f. x = Key_wait front f)) \<and>
    (\<exists>t u v. write_key_buffer k s = Inr t \<and> read_key_rest front t = Inr (k, u) \<and> read_key_rest front u = Inr (k, v) \<and>
      length (ring_keys (key_buffer u)) = 0 \<and> length (ring_keys (key_buffer v)) = 499)"
proof -
  let ?b = "key_buffer s"
  have "kb_front ?b = kb_end ?b" using ring_ready_law [OF assms(1)] assms(2) by (simp add: ring_ready_def)
  then have wait: "\<forall>c x. read_key_buffer c s = Inr x \<longrightarrow> (\<exists>f. x = Key_wait front f)"
    by (auto simp: read_key_buffer_def front_def rbind_elims)
  obtain r where r: "ring_put k ?b = Inr r" using ring_put_law [OF assms(1)] by blast
  note P = ring_put_empty [OF assms(1,2) r]
  have f: "unat front < 500" using assms(1) by (simp add: ring_ok_def front_def)
  define r1 where "r1 = r\<lparr>kb_front := c_mod (kb_front r + 1) 500\<rparr>"
  define r2 where "r2 = r1\<lparr>kb_front := c_mod (kb_front r1 + 1) 500\<rparr>"
  have t1: "ring_take front r = Inr (k, r1)" using ring_take_at [OF P(3,4) f] P(5) by (simp add: front_def r1_def)
  have t2: "ring_take front r1 = Inr (k, r2)" using ring_take_at [of r1 front] P f by (simp add: front_def r1_def r2_def)
  define g where "g = c_mod (front + 1) 500"
  have g: "unat g = (unat front + 1) mod 500" unfolding g_def by (rule c_mod_next [OF f])
  then have "unat g < 500" by simp
  then have h: "unat (c_mod (g + 1) 500) = (unat g + 1) mod 500" by (rule c_mod_next)
  have ends: "kb_end r1 = g" "kb_front r1 = g" "kb_end r2 = g" "kb_front r2 = c_mod (g + 1) 500"
    using P by (simp_all add: r1_def r2_def g_def front_def)
  have "ring_count r1 = 0" by (simp add: ring_count_def ends)
  moreover have "ring_count r2 = 499"
    unfolding ring_count_def ends h using \<open>unat g < 500\<close> mod_positions(1) [of "unat g" "(unat g + 1) mod 500"]
      mod_positions(2) [of "unat g" 0] by (auto split: if_splits)
  ultimately show ?thesis
    using wait r t1 t2 by (simp add: write_key_buffer_def read_key_rest_def)
qed

theorem late_reader_repeats_key_witness:
  "\<exists>t u v. write_key_buffer 0x61 (machine_of two_ready) = Inr t \<and> read_key_rest 0 t = Inr (0x61, u) \<and>
    read_key_rest 0 u = Inr (0x61, v) \<and> length (ring_keys (key_buffer v)) = 499"
proof -
  have "kb_front (key_buffer (machine_of two_ready)) = 0" by (simp add: empty_ring_def)
  then show ?thesis
    using late_reader_repeats_key [of "machine_of two_ready" "0x61"] empty_ring_ok by auto
qed

end
