(* ===== verification/Syscall.thy ===== *)
theory Syscall
  imports Keyboard Process_Properties
begin

text \<open>
  The system calls (src/src/syscall.c, src/include/syscall.h): the functions behind the numbers, the
  dispatch on the trap frame, and how a call that sleeps goes on.

  A call that sleeps inside the kernel leaves its core to another process.  \<open>Paused k f\<close> is that
  point: \<open>f\<close> is what \<open>sleep\<close> did, and \<open>k\<close> holds the local variables with which \<open>resume_call\<close> continues
  when the process runs again.  \<open>Gone s\<close> is a call that never returns because the process ended.
  Arguments are read through the caller's page tables.
\<close>

section \<open>Results\<close>

datatype pending = After_sleep u64 u64 | After_wait i32 | After_key i32

datatype 's sysres = Finished i32 's | Gone 's | Paused pending "'s flow"

definition arg :: "nat \<Rightarrow> u64 \<Rightarrow> nat \<Rightarrow> 'a machine_scheme \<Rightarrow> u64 res" where
  "arg cpu argptr i s = vload64 cpu (argptr + 8 * of_nat i) s"

definition user_path :: "nat \<Rightarrow> u64 \<Rightarrow> 'a machine_scheme \<Rightarrow> path" where
  "user_path cpu p s = (\<lambda>i. vload cpu (p + of_nat i) s)"

text \<open>\<open>get_pc()->current_process\<close>, passed to a function that reads the process.\<close>

definition calling :: "nat \<Rightarrow> 'a machine_scheme \<Rightarrow> pref res" where
  "calling cpu s = (case current_process s cpu of None \<Rightarrow> Inl Null_deref | Some p \<Rightarrow> Inr p)"

section \<open>The calls\<close>

definition sys_nopfunc :: "nat \<Rightarrow> u64 \<Rightarrow> 'a machine_scheme \<Rightarrow> 'a machine_scheme sysres res" where
  "sys_nopfunc cpu argptr s = Inr (Finished 0 s)"

definition sys_write :: "nat \<Rightarrow> u64 \<Rightarrow> 'a machine_scheme \<Rightarrow> 'a machine_scheme sysres res" where
  "sys_write cpu argptr s =
     rbind (arg cpu argptr 0 s) (\<lambda>buffer.
     rbind (arg cpu argptr 1 s) (\<lambda>n.
     let n = ucast n :: i32 in
     rbind (vload_bytes cpu buffer (nat (sint n)) s) (\<lambda>bs.
     Inr (Finished n (write_console (map char_of_byte bs) (nat (sint n)) s)))))"

text \<open>The loop of \<open>sys_sleep\<close> from its test on.\<close>

definition sleep_loop :: "nat \<Rightarrow> u64 \<Rightarrow> u64 \<Rightarrow> 'a machine_scheme \<Rightarrow> 'a machine_scheme sysres res" where
  "sleep_loop cpu old_ticks sleep_ticks s =
     (if ticks s - old_ticks < sleep_ticks
      then rbind (sleep cpu (- 1) s) (\<lambda>f. Inr (Paused (After_sleep old_ticks sleep_ticks) f))
      else Inr (Finished 0 s))"

definition sys_sleep :: "nat \<Rightarrow> u64 \<Rightarrow> 'a machine_scheme \<Rightarrow> 'a machine_scheme sysres res" where
  "sys_sleep cpu argptr s = rbind (arg cpu argptr 0 s) (\<lambda>n. sleep_loop cpu (ticks s) n s)"

definition sys_exit :: "nat \<Rightarrow> u64 \<Rightarrow> 'a machine_scheme \<Rightarrow> 'a machine_scheme sysres res" where
  "sys_exit cpu argptr s =
     rbind (exit_process cpu s) (\<lambda>f. case f of Switch s \<Rightarrow> Inr (Gone s) | Stay s \<Rightarrow> Inr (Finished 0 s))"

definition wait_again :: "nat \<Rightarrow> i32 \<Rightarrow> 'a machine_scheme \<Rightarrow> 'a machine_scheme sysres res" where
  "wait_again cpu pid s =
     rbind (wait_round cpu pid s) (\<lambda>w. case w of
       Reaped s \<Rightarrow> Inr (Finished 0 s)
     | Blocked f \<Rightarrow> Inr (Paused (After_wait pid) f))"

definition sys_wait :: "nat \<Rightarrow> u64 \<Rightarrow> 'a machine_scheme \<Rightarrow> 'a machine_scheme sysres res" where
  "sys_wait cpu argptr s = rbind (arg cpu argptr 0 s) (\<lambda>pid. wait_again cpu (ucast pid) s)"

definition sys_open_file :: "nat \<Rightarrow> u64 \<Rightarrow> 'a machine_scheme \<Rightarrow> 'a machine_scheme sysres res" where
  "sys_open_file cpu argptr s =
     rbind (calling cpu s) (\<lambda>process.
     rbind (arg cpu argptr 0 s) (\<lambda>p.
     rbind (open_file process (user_path cpu p s) s) (\<lambda>(fd, s). Inr (Finished fd s))))"

definition sys_close_file :: "nat \<Rightarrow> u64 \<Rightarrow> 'a machine_scheme \<Rightarrow> 'a machine_scheme sysres res" where
  "sys_close_file cpu argptr s =
     rbind (calling cpu s) (\<lambda>process.
     rbind (arg cpu argptr 0 s) (\<lambda>fd.
     rbind (close_file process (ucast fd) s) (\<lambda>s. Inr (Finished 0 s))))"

definition sys_get_file_size :: "nat \<Rightarrow> u64 \<Rightarrow> 'a machine_scheme \<Rightarrow> 'a machine_scheme sysres res" where
  "sys_get_file_size cpu argptr s =
     rbind (calling cpu s) (\<lambda>process.
     rbind (arg cpu argptr 0 s) (\<lambda>fd.
     rbind (get_file_size process (ucast fd) s) (\<lambda>n. Inr (Finished n s))))"

definition sys_read_file :: "nat \<Rightarrow> u64 \<Rightarrow> 'a machine_scheme \<Rightarrow> 'a machine_scheme sysres res" where
  "sys_read_file cpu argptr s =
     rbind (calling cpu s) (\<lambda>process.
     rbind (arg cpu argptr 0 s) (\<lambda>fd.
     rbind (arg cpu argptr 1 s) (\<lambda>buffer.
     rbind (arg cpu argptr 2 s) (\<lambda>n.
     rbind (read_file cpu process (ucast fd) buffer (ucast n) s) (\<lambda>(r, s). Inr (Finished r s))))))"

definition sys_fork :: "nat \<Rightarrow> u64 \<Rightarrow> 'a machine_scheme \<Rightarrow> 'a machine_scheme sysres res" where
  "sys_fork cpu argptr s = rbind (fork cpu s) (\<lambda>(pid, s). Inr (Finished pid s))"

definition sys_exec :: "nat \<Rightarrow> u64 \<Rightarrow> 'a machine_scheme \<Rightarrow> 'a machine_scheme sysres res" where
  "sys_exec cpu argptr s =
     rbind (calling cpu s) (\<lambda>process.
     rbind (arg cpu argptr 0 s) (\<lambda>p.
     rbind (exec cpu process (user_path cpu p s) s) (\<lambda>r. case r of
       Returned v s \<Rightarrow> Inr (Finished v s)
     | Left s \<Rightarrow> Inr (Gone s))))"

definition sys_keyboard_read :: "nat \<Rightarrow> u64 \<Rightarrow> 'a machine_scheme \<Rightarrow> 'a machine_scheme sysres res" where
  "sys_keyboard_read cpu argptr s =
     rbind (read_key_buffer cpu s) (\<lambda>r. case r of
       Key c s \<Rightarrow> Inr (Finished (ucast c) s)
     | Key_wait front f \<Rightarrow> Inr (Paused (After_key front) f))"

definition sys_read_root_directory :: "nat \<Rightarrow> u64 \<Rightarrow> 'a machine_scheme \<Rightarrow> 'a machine_scheme sysres res" where
  "sys_read_root_directory cpu argptr s =
     rbind (arg cpu argptr 0 s) (\<lambda>buffer.
     rbind (read_root_directory cpu buffer s) (\<lambda>(n, s). Inr (Finished n s)))"

definition sys_get_processstate :: "nat \<Rightarrow> u64 \<Rightarrow> 'a machine_scheme \<Rightarrow> 'a machine_scheme sysres res" where
  "sys_get_processstate cpu argptr s =
     rbind (arg cpu argptr 0 s) (\<lambda>ps.
     rbind (getProcessState cpu ps s) (\<lambda>(n, s). Inr (Finished (of_nat n) s)))"

definition sys_getcpuid :: "nat \<Rightarrow> u64 \<Rightarrow> 'a machine_scheme \<Rightarrow> 'a machine_scheme sysres res" where
  "sys_getcpuid cpu argptr s = Inr (Finished (of_nat cpu) s)"

definition sys_getPID :: "nat \<Rightarrow> u64 \<Rightarrow> 'a machine_scheme \<Rightarrow> 'a machine_scheme sysres res" where
  "sys_getPID cpu argptr s =
     rbind (calling cpu s) (\<lambda>process. Inr (Finished (pr_pid (process_table s process)) s))"

section \<open>Dispatch\<close>

definition SYS_MAX :: int where "SYS_MAX = 15"

definition system_calls :: "(nat \<Rightarrow> u64 \<Rightarrow> 'a machine_scheme \<Rightarrow> 'a machine_scheme sysres res) list" where
  "system_calls =
     [sys_write, sys_sleep, sys_exit, sys_wait, sys_open_file, sys_close_file, sys_get_file_size, sys_read_file,
      sys_fork, sys_exec, sys_keyboard_read, sys_read_root_directory, sys_getcpuid, sys_getPID, sys_get_processstate]"

text \<open>Word \<open>i\<close> of the trap frame at \<open>tf\<close>: \<open>x0\<close> is word 0, and 32 to 35 are \<open>trapno\<close>, \<open>esr\<close>, \<open>elr\<close> and \<open>spsr\<close>.\<close>

definition tf_word :: "u64 \<Rightarrow> nat \<Rightarrow> 'a sys_scheme \<Rightarrow> u64" where
  "tf_word tf i s = load64 (mem s) (tf + 8 * of_nat i)"

definition set_x0 :: "u64 \<Rightarrow> u64 \<Rightarrow> 'a sys_scheme \<Rightarrow> 'a sys_scheme" where
  "set_x0 tf v s = s\<lparr>mem := store64 (mem s) tf v\<rparr>"

text \<open>The assignment of the result to \<open>tf->x0\<close>.\<close>

definition finish_call :: "u64 \<Rightarrow> 'a machine_scheme sysres \<Rightarrow> 'a machine_scheme sysres" where
  "finish_call tf r = (case r of
     Finished v s \<Rightarrow> Finished v (set_x0 tf (scast v) s)
   | Gone s \<Rightarrow> Gone s
   | Paused k f \<Rightarrow> Paused k f)"

definition system_call :: "nat \<Rightarrow> u64 \<Rightarrow> 'a machine_scheme \<Rightarrow> 'a machine_scheme sysres res" where
  "system_call cpu tf s =
     (let i = tf_word tf 33 s AND 0xFFFF;
          param_count = tf_word tf 0 s;
          argptr = tf_word tf 1 s
      in if sint param_count < 0 \<or> sint i < 0 \<or> SYS_MAX \<le> sint i
         then Inr (Finished (- 1) (set_x0 tf (- 1) s))
         else rbind ((system_calls ! nat (sint i)) cpu argptr s) (\<lambda>r. Inr (finish_call tf r)))"

text \<open>What a process does when the \<open>sleep\<close> in its system call returns.\<close>

definition resume_call :: "nat \<Rightarrow> u64 \<Rightarrow> pending \<Rightarrow> 'a machine_scheme \<Rightarrow> 'a machine_scheme sysres res" where
  "resume_call cpu tf k s =
     rbind
       (case k of
         After_sleep old_ticks sleep_ticks \<Rightarrow> sleep_loop cpu old_ticks sleep_ticks s
       | After_wait pid \<Rightarrow> wait_again cpu pid s
       | After_key front \<Rightarrow> rbind (read_key_rest front s) (\<lambda>(c, s). Inr (Finished (ucast c) s)))
       (\<lambda>r. Inr (finish_call tf r))"

text \<open>The body of this function is compiled out.\<close>

definition init_system_call :: "'a machine_scheme \<Rightarrow> 'a machine_scheme" where
  "init_system_call s = s"

end
