(* ===== verification/Trap_Handler.thy ===== *)
theory Trap_Handler
  imports Syscall
begin

text \<open>
  Exceptions and interrupts: the entry and exit sequences of src/src/handler.s, \<open>handler\<close> of
  src/src/handler.c with the timer and interrupt controller, and the clock.

  \<open>handler\<close> ends in one of four ways: it returns to the code that was interrupted, the core goes
  on with another process, the process has ended, or its system call sleeps.
\<close>

section \<open>Registers of irq.h\<close>

definition CNTP_EL0 :: u64 where "CNTP_EL0 = P2V 0x40000040"
definition CNTP_STATUS_EL0 :: u64 where "CNTP_STATUS_EL0 = P2V 0x40000060"
definition BASE_ADDR :: u64 where "BASE_ADDR = P2V 0x3f000000"
definition IRQ_BASIC_PENDING :: u64 where "IRQ_BASIC_PENDING = BASE_ADDR + 0xB200"
definition ENABLE_IRQS_2 :: u64 where "ENABLE_IRQS_2 = BASE_ADDR + 0xB214"
definition DISABLE_IRQS_1 :: u64 where "DISABLE_IRQS_1 = BASE_ADDR + 0xB21C"
definition DISABLE_IRQS_2 :: u64 where "DISABLE_IRQS_2 = BASE_ADDR + 0xB220"
definition DISABLE_BASIC_IRQS :: u64 where "DISABLE_BASIC_IRQS = BASE_ADDR + 0xB224"

section \<open>Entry and exit\<close>

text \<open>The registers of a core around an exception; \<open>gprs\<close> are \<open>x0\<close> to \<open>x30\<close>.\<close>

record cpu_state =
  gprs :: "u64 list"
  sp_el0 :: u64
  sp_el1 :: u64
  elr_el1 :: u64
  spsr_el1 :: u64
  esr_el1 :: u64

definition kernel_entry :: "cpu_state \<Rightarrow> memory \<Rightarrow> cpu_state \<times> memory" where
  "kernel_entry c m =
     (let sp = sp_el1 c - 36 * 8
      in (c\<lparr>sp_el1 := sp\<rparr>, store_words m sp (gprs c @ [sp_el0 c])))"

text \<open>\<open>handler_entry\<close> up to the call of \<open>handler\<close>, with the number of the exception in \<open>x0\<close>.\<close>

definition handler_entry :: "u64 \<Rightarrow> cpu_state \<Rightarrow> memory \<Rightarrow> memory" where
  "handler_entry trapno c m = store_words m (sp_el1 c + 16 * 16) [trapno, esr_el1 c, elr_el1 c, spsr_el1 c]"

definition sync_handler :: "cpu_state \<Rightarrow> memory \<Rightarrow> cpu_state \<times> memory" where
  "sync_handler c m =
     (let (c, m) = kernel_entry c m
      in (c, handler_entry (if drop_bit 26 (esr_el1 c) \<noteq> 0b010101 then 1 else 3) c m))"

definition irq_handler :: "cpu_state \<Rightarrow> memory \<Rightarrow> cpu_state \<times> memory" where
  "irq_handler c m = (let (c, m) = kernel_entry c m in (c, handler_entry 2 c m))"

definition error_handler :: "cpu_state \<Rightarrow> memory \<Rightarrow> cpu_state \<times> memory" where
  "error_handler c m = (let (c, m) = kernel_entry c m in (c, handler_entry 0 c m))"

text \<open>
  The vector table: four entries (synchronous, IRQ, FIQ, SError) for each of the sources EL1 with
  SP\_EL0, EL1 with SP\_ELx, a lower level in AArch64 and a lower level in AArch32.
\<close>

definition vector_table :: "(cpu_state \<Rightarrow> memory \<Rightarrow> cpu_state \<times> memory) list" where
  "vector_table =
     [error_handler, error_handler, error_handler, error_handler,
      sync_handler, irq_handler, error_handler, error_handler,
      sync_handler, irq_handler, error_handler, error_handler,
      error_handler, error_handler, error_handler, error_handler]"

definition trap_return :: "cpu_state \<Rightarrow> memory \<Rightarrow> cpu_state" where
  "trap_return c m =
     (let sp = sp_el1 c
      in c\<lparr>elr_el1 := load64 m (sp + 16 * 17), spsr_el1 := load64 m (sp + 16 * 17 + 8),
           gprs := load_words m sp 31, sp_el0 := load64 m (sp + 31 * 8), sp_el1 := sp + 36 * 8\<rparr>)"

section \<open>Timer and interrupt controller\<close>

definition read_timer_status :: "nat \<Rightarrow> 'a machine_scheme \<Rightarrow> u32" where
  "read_timer_status cpu s = timer_ctl s cpu"

definition set_timer_interval :: "nat \<Rightarrow> u32 \<Rightarrow> 'a machine_scheme \<Rightarrow> 'a machine_scheme" where
  "set_timer_interval cpu v s = s\<lparr>timer_tval := (timer_tval s)(cpu := v)\<rparr>"

text \<open>\<open>freq\<close> is the counter frequency CNTFRQ\_EL0 of the board.\<close>

definition enable_timer :: "u32 \<Rightarrow> nat \<Rightarrow> 'a machine_scheme \<Rightarrow> 'a machine_scheme" where
  "enable_timer freq cpu s =
     (let s = set_timer_interval cpu (freq div 100) s in s\<lparr>timer_ctl := (timer_ctl s)(cpu := 1)\<rparr>)"

definition enable_irq :: "nat \<Rightarrow> 'a machine_scheme \<Rightarrow> 'a machine_scheme" where
  "enable_irq cpu s = s\<lparr>irq_on := (irq_on s)(cpu := True)\<rparr>"

definition init_interrupt_controller :: "'a machine_scheme \<Rightarrow> 'a machine_scheme" where
  "init_interrupt_controller s =
     (let s = out_word DISABLE_BASIC_IRQS 0xffffffff s;
          s = out_word DISABLE_IRQS_1 0xffffffff s;
          s = out_word DISABLE_IRQS_2 0xffffffff s
      in out_word ENABLE_IRQS_2 (push_bit 25 1) s)"

definition init_timer :: "u32 \<Rightarrow> nat \<Rightarrow> 'a machine_scheme \<Rightarrow> 'a machine_scheme" where
  "init_timer freq cpu s =
     (let s = s\<lparr>timer_interval := freq div 100\<rparr>;
          s = enable_timer freq cpu s
      in out_word (CNTP_EL0 + of_nat cpu * 4) (push_bit 1 1) s)"

definition timer_interrupt_handler :: "nat \<Rightarrow> 'a machine_scheme \<Rightarrow> 'a machine_scheme res" where
  "timer_interrupt_handler cpu s =
     (let status = read_timer_status cpu s
      in if status AND push_bit 2 1 \<noteq> 0
         then rbind (wake_up (- 1) (s\<lparr>ticks := ticks s + 1\<rparr>)) (\<lambda>s. Inr (set_timer_interval cpu (timer_interval s) s))
         else Inr s)"

definition get_irq_number :: "device \<Rightarrow> 'a machine_scheme \<Rightarrow> u32 \<times> 'a machine_scheme" where
  "get_irq_number dev s = in_word dev IRQ_BASIC_PENDING s"

definition get_ticks :: "'a machine_scheme \<Rightarrow> u64" where
  "get_ticks s = ticks s"

section \<open>The handler\<close>

datatype 's trap = Back 's | Switched 's | Ended 's | In_call pending "'s flow"

text \<open>The end of \<open>handler\<close>, which yields when a timer interrupt asked for it.\<close>

definition handler_end :: "nat \<Rightarrow> bool \<Rightarrow> 'a machine_scheme \<Rightarrow> 'a machine_scheme trap res" where
  "handler_end cpu resched s =
     (if resched
      then rbind (yield cpu s) (\<lambda>f. case f of Stay s \<Rightarrow> Inr (Back s) | Switch s \<Rightarrow> Inr (Switched s))
      else Inr (Back s))"

definition trap_sync :: "nat \<Rightarrow> u64 \<Rightarrow> 'a machine_scheme \<Rightarrow> 'a machine_scheme trap res" where
  "trap_sync cpu tf s =
     (if tf_word tf 35 s AND 0xf = 0
      then case current_process s cpu of
          None \<Rightarrow> Inl Null_deref
        | Some p \<Rightarrow>
            rbind (printk (''sync error occurs in process %d'' @ crlf) [Int_arg (scast (pr_pid (process_table s p)))] s) (\<lambda>(n, s).
            rbind (exit_process cpu s) (\<lambda>f. case f of
              Switch s \<Rightarrow> Inr (Ended s)
            | Stay s \<Rightarrow> handler_end cpu False s))
      else
        rbind (printk (''curcore %d sync error at %x: %x'' @ crlf)
                 [Int_arg (of_nat cpu), Int_arg (tf_word tf 34 s), Int_arg (tf_word tf 33 s)] s) (\<lambda>_.
        Inl Diverge))"

definition trap_irq :: "device \<Rightarrow> nat \<Rightarrow> 'a machine_scheme \<Rightarrow> 'a machine_scheme trap res" where
  "trap_irq dev cpu s =
     (let (irq, s) = in_word dev (CNTP_STATUS_EL0 + of_nat cpu * 4) s
      in if irq AND push_bit 1 1 \<noteq> 0
         then rbind (timer_interrupt_handler cpu s) (\<lambda>s.
              handler_end cpu True (s\<lparr>core_ticks := (core_ticks s)(cpu := core_ticks s cpu + 1)\<rparr>))
         else
           (let (irq, s) = get_irq_number dev s
            in if irq AND push_bit 19 1 \<noteq> 0 then rbind (uart_handler dev s) (\<lambda>s. handler_end cpu False s)
               else rbind (printk (''unknown irq'' @ crlf) [] s) (\<lambda>_. Inl Diverge)))"

definition handler :: "device \<Rightarrow> nat \<Rightarrow> u64 \<Rightarrow> 'a machine_scheme \<Rightarrow> 'a machine_scheme trap res" where
  "handler dev cpu tf s =
     (if tf_word tf 32 s = 1 then trap_sync cpu tf s
      else if tf_word tf 32 s = 2 then trap_irq dev cpu s
      else if tf_word tf 32 s = 3
      then rbind (system_call cpu tf s) (\<lambda>r. case r of
             Finished v s \<Rightarrow> handler_end cpu False s
           | Gone s \<Rightarrow> Inr (Ended s)
           | Paused k f \<Rightarrow> Inr (In_call k f))
      else rbind (printk (''unknown exception'' @ crlf) [] s) (\<lambda>_. Inl Diverge))"

end
