(* ===== verification/Kernel_Main.thy ===== *)
theory Kernel_Main
  imports Trap_Handler Boot_Tables
begin

text \<open>
  Start-up (src/src/main.c): \<open>KMain\<close> on core 0, \<open>secondary_main\<close> on the other cores, the release of
  the cores through the spin table, and the two diagnostic routines.

  The loops \<open>while (1)\<close> at the end of the start-up code are where a core waits for its first timer
  interrupt; the definitions give the state in which it does.
\<close>

section \<open>Diagnostics\<close>

definition nl :: string where "nl = [CHR 0x0A]"

text \<open>\<open>sctlr\<close> is the value of the system register SCTLR\_EL1 of the core.\<close>

definition check_sctlr_el1 :: "u64 \<Rightarrow> nat \<Rightarrow> 'a machine_scheme \<Rightarrow> 'a machine_scheme res" where
  "check_sctlr_el1 sctlr core s =
     rbind (printk (''--- Core %d SCTLR_EL1: 0x%x ---'' @ nl) [Int_arg (of_nat core), Int_arg sctlr] s) (\<lambda>(_, s).
     rbind (printk (''  MMU: %s'' @ nl) [Str_arg (if sctlr AND push_bit 0 1 \<noteq> 0 then ''Enabled'' else ''Disabled'')] s) (\<lambda>(_, s).
     rbind (printk (''  Data Cache: %s'' @ nl) [Str_arg (if sctlr AND push_bit 2 1 \<noteq> 0 then ''Enabled'' else ''Disabled'')] s) (\<lambda>(_, s).
     rbind (printk (''  Instruction Cache: %s'' @ nl) [Str_arg (if sctlr AND push_bit 12 1 \<noteq> 0 then ''Enabled'' else ''Disabled'')] s) (\<lambda>(_, s).
     rbind (printk (''  Alignment Check: %s'' @ nl) [Str_arg (if sctlr AND push_bit 1 1 \<noteq> 0 then ''Enabled'' else ''Disabled'')] s) (\<lambda>(_, s).
     rbind (printk (''  Endianness: %s'' @ nl) [Str_arg (if sctlr AND push_bit 25 1 \<noteq> 0 then ''Big-endian'' else ''Little-endian'')] s) (\<lambda>(_, s).
     rbind (if sctlr AND push_bit 2 1 = 0
            then printk (''  [WARNING] Data Cache is OFF on Core %d!'' @ nl) [Int_arg (of_nat core)] s else Inr (0, s)) (\<lambda>(_, s).
     rbind (if sctlr AND push_bit 0 1 = 0
            then printk (''  [WARNING] MMU is OFF on Core %d! Physical addresses used.'' @ nl) [Int_arg (of_nat core)] s else Inr (0, s)) (\<lambda>(_, s).
     rbind (printk (''------------------------------'' @ nl) [] s) (\<lambda>(_, s). Inr s)))))))))"

text \<open>The loop over the 32 bytes from \<open>end\<close> on.\<close>

fun dump_bytes :: "nat list \<Rightarrow> 'a kernel_scheme \<Rightarrow> 'a kernel_scheme res" where
  "dump_bytes [] s = Inr s"
| "dump_bytes (i # is) s =
     rbind (printk ''%x '' [Int_arg (ucast (mem s (sym_end s + of_nat i)))] s) (\<lambda>(_, s).
     rbind (if (i + 1) mod 16 = 0 then printk nl [] s else Inr (0, s)) (\<lambda>(_, s). dump_bytes is s))"

definition dump_os_img_head :: "string \<Rightarrow> 'a kernel_scheme \<Rightarrow> 'a kernel_scheme res" where
  "dump_os_img_head msg s =
     rbind (printk (''--- Dump at %s (Addr: %x) ---'' @ nl) [Str_arg msg, Int_arg (sym_end s)] s) (\<lambda>(_, s).
     rbind (dump_bytes [0..<32] s) (\<lambda>s.
     rbind (printk (''----------------------------'' @ nl) [] s) (\<lambda>(_, s). Inr s)))"

section \<open>Start-up\<close>

text \<open>
  The spin table lies at physical address 0xD8; the boot tables map it one to one for user
  addresses.
\<close>

definition start_secondary_core :: "int \<Rightarrow> 'a machine_scheme \<Rightarrow> 'a machine_scheme" where
  "start_secondary_core core_id s =
     (if core_id < 1 \<or> 3 < core_id then s
      else s\<lparr>mem := phys_store (mem s) (0xD8 + word_of_int core_id * 8) 0x80000\<rparr>)"

definition KMain :: "u32 \<Rightarrow> 'a machine_scheme \<Rightarrow> 'a machine_scheme res" where
  "KMain freq s =
     (let s = init_uart s in
      rbind (printk (''Hello, Raspberry pi'' @ crlf) [] s) (\<lambda>(_, s).
      rbind (printk (''Core 0 started successfully!'' @ nl) [] s) (\<lambda>(_, s).
      let s = start_secondary_core 1 s;
          s = start_secondary_core 2 s;
          s = start_secondary_core 3 s in
      rbind (init_memory s) (\<lambda>s.
      rbind (init_fs s) (\<lambda>s.
      let s = init_system_call s in
      rbind (init_process 0 s) (\<lambda>s.
      let s = init_timer freq 0 s;
          s = init_interrupt_controller s;
          s = s\<lparr>main_core_ready := 1\<rparr>
      in Inr (enable_irq 0 s)))))))"

text \<open>\<open>None\<close>: the core is still in its loop on \<open>main_core_ready\<close>.\<close>

definition secondary_main :: "u32 \<Rightarrow> nat \<Rightarrow> 'a machine_scheme \<Rightarrow> 'a machine_scheme res option" where
  "secondary_main freq cpu s =
     (if main_core_ready s = 0 then None
      else Some
        (rbind (init_process cpu s) (\<lambda>s.
         rbind (printk (''Core %u started'' @ crlf) [Int_arg (of_nat cpu)] s) (\<lambda>(_, s).
         let s = init_timer freq cpu s
         in Inr (enable_irq cpu s)))))"

end
