(* ===== verification/Kernel_Boot.thy ===== *)
theory Kernel_Boot
  imports Process_Boot Kernel_Main
begin

text \<open>
  The start of the whole kernel: \<open>KMain\<close> (src/src/main.c) on core 0 takes the machine as the image leaves
  it to a state in which the invariants of all components hold, and \<open>secondary_main\<close> on the other cores
  keeps them, in whatever order these cores come up.
\<close>

declare split_paired_All [simp del] split_paired_Ex [simp del]

section \<open>Changes the invariants do not see\<close>

text \<open>The console and everything beyond the process and file tables.\<close>

definition same_sys :: "'a sys_scheme \<Rightarrow> 'a sys_scheme \<Rightarrow> bool" where
  "same_sys s t \<longleftrightarrow> same_kernel s t \<and> locks t = locks s \<and> process_table t = process_table s \<and> head_lists t = head_lists s \<and>
     current_process t = current_process s \<and> pid_num t = pid_num s \<and> fcb_table t = fcb_table s \<and>
     file_desc_table t = file_desc_table s"

lemma boot_inv_same:
  assumes "boot_inv v k n s" "same_sys s t"
  shows "boot_inv v k n t"
proof -
  note I = boot_invD [OF assms(1)]
  have S: "same_kernel s t" "locks t = locks s" "process_table t = process_table s" "head_lists t = head_lists s"
    "current_process t = current_process s" "pid_num t = pid_num s" "fcb_table t = fcb_table s"
    "file_desc_table t = file_desc_table s" using assms(2) by (simp_all add: same_sys_def)
  have m: "mem t = mem s" using S(1) by (simp add: same_kernel_def)
  have "sched_inv t (boot_queues k) idle_running"
    using I(1) by (simp add: sched_inv_def sched_rep_def placed_def lists_rep_def S)
  moreover have "files_inv t" by (rule files_inv_cong [OF I(2)]) (simp_all add: S m same_volume_def)
  moreover have "spaces_ok t" by (rule spaces_same(1) [OF I(3) S(1)]) (simp add: S)
  ultimately show ?thesis
    using I(4-10) same_kernel_eqs(2) [OF S(1)] by (simp add: boot_inv_def S m)
qed

lemma same_sys_view:
  assumes "same_sys s t"
  shows "user_byte t r w = user_byte s r w" "process_table t = process_table s" "live t q = live s q"
  using assms same_kernel_eqs(6) by (auto simp: same_sys_def live_def)

lemma start_messages:
  assumes "\<not> locks s Print_lock"
  shows "\<exists>n out. printk (''Hello, Raspberry pi'' @ crlf) [] s = Inr (n, s\<lparr>console := out\<rparr>)"
    "\<exists>n out. printk (''Core 0 started successfully!'' @ nl) [] s = Inr (n, s\<lparr>console := out\<rparr>)"
    "\<exists>n out. printk (''Core %d initialized process successfully!'' @ [CHR 0x0A]) [Int_arg i] s = Inr (n, s\<lparr>console := out\<rparr>)"
    "\<exists>n out. printk (''Core %u started'' @ crlf) [Int_arg i] s = Inr (n, s\<lparr>console := out\<rparr>)"
proof -
  have "\<exists>out. format_spec (''Hello, Raspberry pi'' @ crlf) [] = Some out \<and> length out \<le> 1024"
    "\<exists>out. format_spec (''Core 0 started successfully!'' @ nl) [] = Some out \<and> length out \<le> 1024"
    "\<exists>out. format_spec (''Core %d initialized process successfully!'' @ [CHR 0x0A]) [Int_arg i] = Some out \<and> length out \<le> 1024"
    "\<exists>out. format_spec (''Core %u started'' @ crlf) [Int_arg i] = Some out \<and> length out \<le> 1024"
    using decimal_length [of i] udecimal_length [of i] by (simp_all add: conv_spec_def crlf_def nl_def)
  then show "\<exists>n out. printk (''Hello, Raspberry pi'' @ crlf) [] s = Inr (n, s\<lparr>console := out\<rparr>)"
    "\<exists>n out. printk (''Core 0 started successfully!'' @ nl) [] s = Inr (n, s\<lparr>console := out\<rparr>)"
    "\<exists>n out. printk (''Core %d initialized process successfully!'' @ [CHR 0x0A]) [Int_arg i] s = Inr (n, s\<lparr>console := out\<rparr>)"
    "\<exists>n out. printk (''Core %u started'' @ crlf) [Int_arg i] s = Inr (n, s\<lparr>console := out\<rparr>)"
    using printk_fits [OF _ _ assms] by fastforce+
qed

lemma same_sys_console [simp]: "same_sys s (s\<lparr>console := out\<rparr>)"
  by (simp add: same_sys_def same_kernel_def)

lemma same_sys_timer: "same_sys s (enable_irq c (init_timer freq c s))"
  by (simp add: same_sys_def same_kernel_def enable_irq_def init_timer_def enable_timer_def set_timer_interval_def
      out_word_def Let_def)

lemma same_sys_trans: "same_sys s t \<Longrightarrow> same_sys t u \<Longrightarrow> same_sys s u"
  by (simp add: same_sys_def same_kernel_def)

lemma init_timer_sel:
  "irq_on (enable_irq c (init_timer freq c s)) = (irq_on s)(c := True)"
  "main_core_ready (enable_irq c (init_timer freq c s)) = main_core_ready s"
  "timer_ctl (enable_irq c (init_timer freq c s)) = (timer_ctl s)(c := 1)"
  by (simp_all add: enable_irq_def init_timer_def enable_timer_def set_timer_interval_def out_word_def Let_def)

section \<open>The other cores\<close>

text \<open>The cores of the list run \<open>secondary_main\<close> one after the other; \<open>None\<close>: one of them still waits.\<close>

fun start_cores :: "u32 \<Rightarrow> nat list \<Rightarrow> 'a machine_scheme \<Rightarrow> 'a machine_scheme res option" where
  "start_cores freq [] s = Some (Inr s)"
| "start_cores freq (c # cs) s =
     (case secondary_main freq c s of
       None \<Rightarrow> None
     | Some (Inl e) \<Rightarrow> Some (Inl e)
     | Some (Inr s) \<Rightarrow> start_cores freq cs s)"

lemma secondary_main_run:
  fixes s :: "'a machine_scheme"
  assumes inv: "boot_inv v k n s" and c: "c < MAXCORES" "c \<noteq> 0" "k c = 0" and n: "n < 75"
    and prog: "program_on v ''TEST4.BIN'' i l" and ready: "main_core_ready s \<noteq> 0"
  obtains t where "secondary_main freq c s = Some (Inr t)" "boot_inv v (k(c := 1)) (Suc n) t"
    "main_core_ready t \<noteq> 0" "irq_on t = (irq_on s)(c := True)" "timer_ctl t = (timer_ctl s)(c := 1)"
    "pid_of t (c, 1) = of_nat (4 + n)"
    "\<And>j. j < 2 ^ 21 \<Longrightarrow> user_byte t (map_of_process t (c, 1)) (0x400000 + of_nat j) = Some (program_byte v i l j)"
    "\<And>q. live s q \<Longrightarrow> live t q \<and> pid_of t q = pid_of s q"
    "\<And>q w. live s q \<Longrightarrow> user_byte t (map_of_process t q) w = user_byte s (map_of_process s q) w"
proof -
  have c2: "Suc (k c) < NUM_PROC" using c(3) by (simp add: NUM_PROC_def)
  obtain t where t: "start_process c ''TEST4.BIN'' ''test4'' 206 s = Inr t" "boot_inv v (k(c := Suc (k c))) (Suc n) t"
      "pid_of t (c, Suc (k c)) = of_nat (4 + n)"
      "\<And>j. j < 2 ^ 21 \<Longrightarrow> user_byte t (map_of_process t (c, Suc (k c))) (0x400000 + of_nat j) = Some (program_byte v i l j)"
      "\<And>q w. live s q \<Longrightarrow> user_byte t (map_of_process t q) w = user_byte s (map_of_process s q) w"
      "\<And>q. q \<noteq> (c, Suc (k c)) \<Longrightarrow> state_of t q = state_of s q \<and> pid_of t q = pid_of s q" "sys.more t = sys.more s"
    by (rule boot_step [OF inv c(1) c2 n prog]) (rule that)
  obtain m out where pr: "printk (''Core %u started'' @ crlf) [Int_arg (of_nat c)] t = Inr (m, t\<lparr>console := out\<rparr>)"
    using start_messages(4) [OF boot_invD(5) [OF t(2)]] by blast
  define u where "u = enable_irq c (init_timer freq c (t\<lparr>console := out\<rparr>))"
  have S: "same_sys t u" unfolding u_def by (rule same_sys_trans [OF same_sys_console same_sys_timer])
  note V = same_sys_view [OF S]
  have run: "secondary_main freq c s = Some (Inr u)"
    using ready c(2) t(1) pr by (simp add: secondary_main_def init_process_def init_test4_process_def u_def)
  have M: "main_core_ready t = main_core_ready s" "irq_on t = irq_on s" "timer_ctl t = timer_ctl s"
    using t(7) machine_more by blast+
  show ?thesis
  proof (rule that [OF run])
    show "boot_inv v (k(c := 1)) (Suc n) u" using boot_inv_same [OF t(2) S] c(3) by simp
    show "main_core_ready u \<noteq> 0" "irq_on u = (irq_on s)(c := True)" "timer_ctl u = (timer_ctl s)(c := 1)"
      using M ready by (simp_all add: u_def init_timer_sel)
    show "pid_of u (c, 1) = of_nat (4 + n)" using t(3) V(2) c(3) by simp
    show "user_byte u (map_of_process u (c, 1)) (0x400000 + of_nat j) = Some (program_byte v i l j)" if "j < 2 ^ 21" for j
      using t(4) [OF that] V(1,2) c(3) by simp
    show "live u q \<and> pid_of u q = pid_of s q" if "live s q" for q
    proof -
      have "slot (c, Suc (k c))" using c(1) c2 by (simp add: slot_def)
      from boot_invD(10) [OF inv this] have "q \<noteq> (c, Suc (k c))" using that by (auto simp: live_def)
      then show ?thesis using t(6) that V(2,3) by (simp add: live_def)
    qed
    show "user_byte u (map_of_process u q) w = user_byte s (map_of_process s q) w" if "live s q" for q w
      using t(5) [OF that] V(1,2) by simp
  qed
qed

lemma start_cores_run:
  fixes s :: "'a machine_scheme"
  assumes "boot_inv v k n s" "distinct cs" "\<forall>c \<in> set cs. c < MAXCORES \<and> c \<noteq> 0 \<and> k c = 0" "n + length cs < 75"
    and prog: "program_on v ''TEST4.BIN'' i l" and "main_core_ready s \<noteq> 0"
  shows "\<exists>t. start_cores freq cs s = Some (Inr t) \<and>
    boot_inv v (\<lambda>c. if c \<in> set cs then 1 else k c) (n + length cs) t \<and> main_core_ready t \<noteq> 0 \<and>
    (\<forall>c. irq_on t c \<longleftrightarrow> irq_on s c \<or> c \<in> set cs) \<and>
    (\<forall>x < length cs. pid_of t (cs ! x, 1) = of_nat (4 + n + x)) \<and>
    (\<forall>c \<in> set cs. live t (c, 1) \<and> (\<forall>j < 2 ^ 21.
       user_byte t (map_of_process t (c, 1)) (0x400000 + of_nat j) = Some (program_byte v i l j))) \<and>
    (\<forall>q. live s q \<longrightarrow> live t q \<and> pid_of t q = pid_of s q \<and>
       (\<forall>w. user_byte t (map_of_process t q) w = user_byte s (map_of_process s q) w))"
  using assms(1-4,6)
proof (induction cs arbitrary: k n s)
  case Nil
  then show ?case by simp
next
  case (Cons c cs)
  have c: "c < MAXCORES" "c \<noteq> 0" "k c = 0" "n < 75" "c \<notin> set cs" using Cons.prems(2-4) by simp_all
  obtain t where t: "secondary_main freq c s = Some (Inr t)" "boot_inv v (k(c := 1)) (Suc n) t"
      "main_core_ready t \<noteq> 0" "irq_on t = (irq_on s)(c := True)" "pid_of t (c, 1) = of_nat (4 + n)"
      "\<And>j. j < 2 ^ 21 \<Longrightarrow> user_byte t (map_of_process t (c, 1)) (0x400000 + of_nat j) = Some (program_byte v i l j)"
      "\<And>q. live s q \<Longrightarrow> live t q \<and> pid_of t q = pid_of s q"
      "\<And>q w. live s q \<Longrightarrow> user_byte t (map_of_process t q) w = user_byte s (map_of_process s q) w"
    by (rule secondary_main_run [OF Cons.prems(1) c(1-4) prog Cons.prems(5)]) (rule that)
  have "\<forall>d \<in> set cs. d < MAXCORES \<and> d \<noteq> 0 \<and> (k(c := 1)) d = 0" using Cons.prems(3) c(5) by auto
  then obtain u where u: "start_cores freq cs t = Some (Inr u)"
      "boot_inv v (\<lambda>d. if d \<in> set cs then 1 else (k(c := 1)) d) (Suc n + length cs) u" "main_core_ready u \<noteq> 0"
      "\<forall>d. irq_on u d \<longleftrightarrow> irq_on t d \<or> d \<in> set cs" "\<forall>x < length cs. pid_of u (cs ! x, 1) = of_nat (4 + Suc n + x)"
      "\<forall>d \<in> set cs. live u (d, 1) \<and> (\<forall>j < 2 ^ 21.
         user_byte u (map_of_process u (d, 1)) (0x400000 + of_nat j) = Some (program_byte v i l j))"
      "\<forall>q. live t q \<longrightarrow> live u q \<and> pid_of u q = pid_of t q \<and>
         (\<forall>w. user_byte u (map_of_process u q) w = user_byte t (map_of_process t q) w)"
    using Cons.IH [OF t(2) _ _ _ t(3)] Cons.prems(2,4) by auto
  have "(c, 1) \<in> set (boot_queues (k(c := 1)) (Ready c))" by (simp add: boot_queues_def)
  then have lc: "live t (c, 1)"
    using listed_state(1) [OF sched_invD(1) [OF boot_invD(1) [OF t(2)]], of "(c, 1)" "Ready c"] c(1)
    by (simp add: live_def slot_def NUM_PROC_def)
  have pids: "pid_of u ((c # cs) ! x, 1) = of_nat (4 + n + x)" if "x < length (c # cs)" for x
  proof (cases x)
    case 0
    then show ?thesis using u(7) lc t(5) by simp
  next
    case (Suc y)
    then show ?thesis using u(5) that by simp
  qed
  have ks: "(\<lambda>d. if d \<in> set cs then 1 else (k(c := 1)) d) = (\<lambda>d. if d \<in> set (c # cs) then 1 else k d)" by auto
  show ?case
  proof (intro exI [of _ u] conjI)
    show "start_cores freq (c # cs) s = Some (Inr u)" using t(1) u(1) by simp
    show "boot_inv v (\<lambda>d. if d \<in> set (c # cs) then 1 else k d) (n + length (c # cs)) u"
      using u(2) unfolding ks by simp
    show "\<forall>d. irq_on u d \<longleftrightarrow> irq_on s d \<or> d \<in> set (c # cs)" using u(4) t(4) by auto
    show "\<forall>x < length (c # cs). pid_of u ((c # cs) ! x, 1) = of_nat (4 + n + x)" using pids by blast
    show "\<forall>d \<in> set (c # cs). live u (d, 1) \<and> (\<forall>j < 2 ^ 21.
       user_byte u (map_of_process u (d, 1)) (0x400000 + of_nat j) = Some (program_byte v i l j))"
      using u(6,7) lc t(6) by simp
    show "\<forall>q. live s q \<longrightarrow> live u q \<and> pid_of u q = pid_of s q \<and>
       (\<forall>w. user_byte u (map_of_process u q) w = user_byte s (map_of_process s q) w)"
      using u(7) t(7,8) by simp
  qed (rule u(3))
qed

section \<open>Core 0\<close>

lemma PA_UP_image:
  assumes "KERNEL_BASE < v" "v \<le> KERNEL_BASE + PAGE_SIZE"
  shows "PA_UP v = 0xffff000000200000"
proof -
  have b: "unat KERNEL_BASE < unat v" "unat v \<le> 0xffff000000200000"
    using assms by (simp_all add: word_less_nat_alt word_le_nat_alt KERNEL_BASE_def PAGE_SIZE_def)
  then have "v \<le> MEMORY_END" unfolding word_le_nat_alt unat_MEMORY_END by simp
  note P = PA_UP_spec [OF this]
  have "unat (PA_UP v) = pn (PA_UP v) * 2 ^ 21" by (rule unat_aligned [OF P(1)])
  moreover have "unat v \<le> unat (PA_UP v)" using P(2) by (simp add: word_le_nat_alt)
  ultimately have "pn (PA_UP v) * 2097152 < 0xffff000000400000" "0xffff000000000000 < pn (PA_UP v) * 2097152"
    using P(4) b unfolding KERNEL_BASE_unat by simp_all
  then have "pn (PA_UP v) < 0x7fff8000002" "0x7fff8000000 < pn (PA_UP v)" by linarith+
  then have "pn (PA_UP v) = 0x7fff8000001" by linarith
  then have "unat (PA_UP v) = unat (0xffff000000200000 :: u64)"
    using unat_aligned [OF P(1)] by simp
  then show ?thesis by (simp only: word_unat_eq_iff)
qed

text \<open>The memory allocator after \<open>init_memory\<close> on an image of at most 2 MiB: 383 pages are free.\<close>

lemma init_memory_image:
  fixes s :: "'a kernel_scheme"
  assumes "unat (sym_allocator s) + 160 \<le> unat (sym_end s)" "KERNEL_BASE < sym_end s" "sym_end s \<le> KERNEL_BASE + PAGE_SIZE"
    and "\<not> locks s Print_lock" "\<not> locks s Allocator_lock"
  obtains m out where "init_memory s = Inr (s\<lparr>mem := m, console := out\<rparr>)" "kalloc_inv (s\<lparr>mem := m, console := out\<rparr>)"
    "start_of (s\<lparr>mem := m, console := out\<rparr>) = 0xffff000000200000" "card (kavail (s\<lparr>mem := m, console := out\<rparr>)) = 383"
    "same_volume (mem s) m"
proof -
  have e: "sym_end s \<le> MEMORY_END"
    using assms(3) by (rule order_trans) (simp add: MEMORY_END_def P2V_def KERNEL_BASE_def PAGE_SIZE_def)
  note up = PA_UP_image [OF assms(2,3)]
  obtain m out L where I: "init_memory s = Inr (s\<lparr>mem := m, console := out\<rparr>)" "kmem_inv (s\<lparr>mem := m, console := out\<rparr>) L"
      "start_addr (sym_allocator s) m = 0xffff000000200000"
      "free_pages L = mset [pn 0xffff000000200000 ..< pn MEMORY_END]"
      "same_outside (sym_allocator s) {pn 0xffff000000200000 ..< pn MEMORY_END} (mem s) m"
    using init_memory_inv [OF assms(1) e assms(4,5)] unfolding up by blast
  have st: "start_of (s\<lparr>mem := m, console := out\<rparr>) = 0xffff000000200000" using I(3) by simp
  have av: "kavail (s\<lparr>mem := m, console := out\<rparr>) = {0x7fff8000001 ..< 0x7fff8000180}"
    using kavail_eq [OF I(2)] unfolding I(4) pn_boot set_mset_mset set_upt .
  have "m x = mem s x" if x: "FS_BASE \<le> x" for x
  proof -
    have "unat (sym_allocator s) + 160 \<le> 2 ^ 64" using assms(1) unsigned_less [of "sym_end s", where ?'a = nat] by simp
    moreover have "unat (sym_allocator s) + 160 \<le> unat x"
      using assms(1) e x FS_BASE_unat by (simp add: word_le_nat_alt)
    ultimately have "\<not> in_range (sym_allocator s) 160 x" by (simp add: in_range_bounds)
    moreover have "pn MEMORY_END \<le> pn x"
      unfolding pn_def using x FS_BASE_unat by (intro div_le_mono) (simp add: word_le_nat_alt)
    ultimately show ?thesis using I(5) by (simp add: same_outside_def)
  qed
  then have vol: "same_volume (mem s) m" by (simp add: same_volume_def)
  have "kalloc_inv (s\<lparr>mem := m, console := out\<rparr>)" unfolding kalloc_inv_def st pn_boot(1) using I(2) by auto
  then show ?thesis by (rule that [OF I(1) _ st _ vol]) (simp add: av)
qed

text \<open>The words of the spin table at 0xE0, 0xE8 and 0xF0 lie below the volume.\<close>

lemma release_volume: "same_volume (mem s) (mem (start_secondary_core c s))"
proof (cases "c < 1 \<or> 3 < c")
  case False
  then have "c = 1 \<or> c = 2 \<or> c = 3" by auto
  moreover have "store64 (mem s) a w x = mem s x" if "unat a + 8 \<le> unat FS_BASE" "FS_BASE \<le> x" for a w x
    using that FS_BASE_unat by (intro store64_outside) (simp add: in_range_bounds word_le_nat_alt)
  ultimately show ?thesis
    by (auto simp: same_volume_def start_secondary_core_def phys_store_def FS_BASE_unat P2V_def KERNEL_BASE_def)
qed (simp add: same_volume_def start_secondary_core_def)

text \<open>The state \<open>KMain\<close> calls \<open>init_memory\<close> in.\<close>

lemma release_sel:
  "image_objects (start_secondary_core c s) = image_objects s" "locks (start_secondary_core c s) = locks s"
  "sym_allocator (start_secondary_core c s) = sym_allocator s" "sym_end (start_secondary_core c s) = sym_end s"
  "fcb_table (start_secondary_core c s) = fcb_table s" "sys.more (start_secondary_core c s) = sys.more s"
  by (simp_all add: start_secondary_core_def image_objects_def)

lemma KMain_begin:
  fixes s :: "'a machine_scheme"
  assumes obj: "image_objects s" and img: "unat (sym_allocator s) + 160 \<le> unat (sym_end s)" "KERNEL_BASE < sym_end s"
      "sym_end s \<le> KERNEL_BASE + PAGE_SIZE" and sig: "fs_signature (mem s)"
  obtains t where "boot_inv (mem s) (\<lambda>_. 0) 0 (init_idle_process t)"
    "KMain freq s = rbind (init_process 0 t) (\<lambda>s. Inr (enable_irq 0 (init_interrupt_controller (init_timer freq 0 s)
       \<lparr>main_core_ready := 1\<rparr>)))"
    "sys.more t = sys.more (init_uart s)"
proof -
  have lk: "\<not> locks s l" for l using obj by (simp add: image_objects_def)
  define u where "u = init_uart s"
  have u: "image_objects u" "mem u = mem s" "locks u = locks s" "sym_allocator u = sym_allocator s" "sym_end u = sym_end s"
    using obj by (simp_all add: u_def init_uart_def out_word_def Let_def image_objects_def)
  obtain n1 o1 where p1: "printk (''Hello, Raspberry pi'' @ crlf) [] u = Inr (n1, u\<lparr>console := o1\<rparr>)"
    using start_messages(1) [of u] lk u(3) by auto
  obtain n2 o2 where p2: "printk (''Core 0 started successfully!'' @ nl) [] (u\<lparr>console := o1\<rparr>) = Inr (n2, u\<lparr>console := o2\<rparr>)"
    using start_messages(2) [of "u\<lparr>console := o1\<rparr>"] lk u(3) by auto
  define r where "r = start_secondary_core 3 (start_secondary_core 2 (start_secondary_core 1 (u\<lparr>console := o2\<rparr>)))"
  have r: "image_objects r" "locks r = locks s" "sym_allocator r = sym_allocator s" "sym_end r = sym_end s" "sys.more r = sys.more u"
    using u by (simp_all add: r_def release_sel) (simp add: image_objects_def)
  have rv: "same_volume (mem s) (mem r)"
    using release_volume [of "u\<lparr>console := o2\<rparr>" 1] release_volume [of "start_secondary_core 1 (u\<lparr>console := o2\<rparr>)" 2]
      release_volume [of "start_secondary_core 2 (start_secondary_core 1 (u\<lparr>console := o2\<rparr>))" 3] u(2)
    by (simp add: same_volume_def r_def)
  obtain m o3 where M: "init_memory r = Inr (r\<lparr>mem := m, console := o3\<rparr>)" "kalloc_inv (r\<lparr>mem := m, console := o3\<rparr>)"
    "start_of (r\<lparr>mem := m, console := o3\<rparr>) = 0xffff000000200000" "card (kavail (r\<lparr>mem := m, console := o3\<rparr>)) = 383"
    "same_volume (mem r) m"
    by (rule init_memory_image [of r]) (use img lk r(2-4) in simp_all)
  let ?w = "r\<lparr>mem := m, console := o3\<rparr>"
  have wv: "same_volume (mem s) (mem ?w)" using rv M(5) by (simp add: same_volume_def)
  have "get_fs_bpb m = get_fs_bpb (mem s)" using same_volume_header(1) [OF wv] by simp
  moreover have "m (volume (mem s) + of_nat k) = mem s (volume (mem s) + of_nat k)" if "k < 2 ^ 40" for k
    using wv in_volume(2) [OF that] by (simp add: same_volume_def)
  from this [of "0x1fe"] this [of "0x1ff"] have "m (volume (mem s) + 0x1fe) = mem s (volume (mem s) + 0x1fe)"
    "m (volume (mem s) + 0x1ff) = mem s (volume (mem s) + 0x1ff)" by simp_all
  ultimately have sw: "fs_signature (mem ?w)" using sig by (simp add: fs_signature_def)
  have "2 \<le> card (kavail ?w)" using M(4) by simp
  then obtain a b m2 where F: "init_fs ?w = Inr (with_fs a b m2 ?w)" "keeps_pages {} ?w (?w\<lparr>mem := m2\<rparr>)"
    "card (kavail ?w) \<le> card (kavail (?w\<lparr>mem := m2\<rparr>)) + 2" "same_volume (mem ?w) m2"
    by (rule init_fs_run [OF M(2) _ sw]) (rule that)
  let ?t = "with_fs a b m2 ?w"
  have "same_kernel (?w\<lparr>mem := m2\<rparr>) ?t" by (simp add: same_kernel_def with_fs_def)
  note e = same_kernel_eqs [OF this]
  have t: "image_objects ?t" "fcb_table ?t = (\<lambda>_. zero_fcb)" "file_desc_table ?t = (\<lambda>_. zero_file_desc)" "sys.more ?t = sys.more u"
    using r(1,5) by (simp_all add: with_fs_def image_objects_def)
  have k: "kalloc_inv ?t" "KERNEL_BASE \<le> start_of ?t" "381 \<le> card (kavail ?t)"
    using F(2,3) M(3,4) unfolding e keeps_pages_def by (simp_all add: KERNEL_BASE_def)
  have v: "same_volume (mem s) (mem ?t)" using wv F(4) by (simp add: same_volume_def with_fs_def)
  show ?thesis
  proof (rule that [of ?t])
    show "boot_inv (mem s) (\<lambda>_. 0) 0 (init_idle_process ?t)" by (rule boot_begin [OF t(1-3) k v])
    show "sys.more ?t = sys.more (init_uart s)" using t(4) by (simp add: u_def)
    show "KMain freq s = rbind (init_process 0 ?t) (\<lambda>s. Inr (enable_irq 0 (init_interrupt_controller (init_timer freq 0 s)
       \<lparr>main_core_ready := 1\<rparr>)))"
      unfolding KMain_def u_def [symmetric] Let_def using p1 p2 M(1) F(1)
      by (simp add: r_def [symmetric] init_system_call_def)
  qed
qed

lemma same_sys_finish:
  "same_sys s (enable_irq 0 (init_interrupt_controller (init_timer freq 0 s)\<lparr>main_core_ready := 1\<rparr>))"
  by (simp add: same_sys_def same_kernel_def enable_irq_def init_interrupt_controller_def init_timer_def enable_timer_def
      set_timer_interval_def out_word_def Let_def)

lemma finish_sel:
  fixes s :: "'a machine_scheme" and freq :: u32
  defines "t \<equiv> enable_irq 0 (init_interrupt_controller (init_timer freq 0 s)\<lparr>main_core_ready := 1\<rparr>)"
  shows "main_core_ready t = 1" "irq_on t = (irq_on s)(0 := True)"
  by (simp_all add: t_def enable_irq_def init_interrupt_controller_def init_timer_def enable_timer_def
      set_timer_interval_def out_word_def Let_def)

lemma KMain_run:
  fixes s :: "'a machine_scheme"
  assumes obj: "image_objects s" and img: "unat (sym_allocator s) + 160 \<le> unat (sym_end s)" "KERNEL_BASE < sym_end s"
      "sym_end s \<le> KERNEL_BASE + PAGE_SIZE" and sig: "fs_signature (mem s)"
    and prog: "program_on (mem s) ''TEST4.BIN'' i a" "program_on (mem s) ''INIT.BIN'' j b"
  obtains t where "KMain freq s = Inr t" "boot_inv (mem s) ((\<lambda>_. 0)(0 := 2)) 2 t" "main_core_ready t = 1"
    "irq_on t = (irq_on s)(0 := True)" "live t (0, 1)" "live t (0, 2)" "pid_of t (0, 1) = 4" "pid_of t (0, 2) = 5"
    "\<And>x. x < 2 ^ 21 \<Longrightarrow> user_byte t (map_of_process t (0, 1)) (0x400000 + of_nat x) = Some (program_byte (mem s) i a x)"
    "\<And>x. x < 2 ^ 21 \<Longrightarrow> user_byte t (map_of_process t (0, 2)) (0x400000 + of_nat x) = Some (program_byte (mem s) j b x)"
proof -
  have c: "(0 :: nat) < MAXCORES" "Suc 0 < NUM_PROC" "Suc 1 < NUM_PROC" "(0 :: nat) < 75" "Suc 0 < 75"
    by (simp_all add: MAXCORES_def NUM_PROC_def)
  obtain z where Z: "boot_inv (mem s) (\<lambda>_. 0) 0 (init_idle_process z)"
    "KMain freq s = rbind (init_process 0 z) (\<lambda>s. Inr (enable_irq 0 (init_interrupt_controller (init_timer freq 0 s)
       \<lparr>main_core_ready := 1\<rparr>)))" "sys.more z = sys.more (init_uart s)"
    by (rule KMain_begin [OF obj img sig]) (rule that)
  have more: "sys.more (init_idle_process z) = sys.more (init_uart s)" using Z(3) by (simp add: init_idle_process_eq)
  have "irq_on (init_idle_process z) = irq_on s"
    using machine_more(9) [OF more] by (simp add: init_uart_def out_word_def Let_def)
  note irq = this
  define k1 :: "nat \<Rightarrow> nat" where "k1 = (\<lambda>_. 0)(0 := Suc 0)"
  obtain t where t: "start_process 0 ''TEST4.BIN'' ''test4'' 206 (init_idle_process z) = Inr t"
      "boot_inv (mem s) k1 (Suc 0) t" "pid_of t (0, Suc 0) = of_nat (4 + 0)"
      "\<And>x. x < 2 ^ 21 \<Longrightarrow> user_byte t (map_of_process t (0, Suc 0)) (0x400000 + of_nat x) = Some (program_byte (mem s) i a x)"
      "sys.more t = sys.more (init_idle_process z)"
    by (rule boot_step [OF Z(1) c(1,2,4) prog(1), folded k1_def]) (rule that)
  have k: "Suc (k1 0) < NUM_PROC" using c(3) by (simp add: k1_def)
  obtain u where u: "start_process 0 ''INIT.BIN'' ''init'' 155 t = Inr u"
      "boot_inv (mem s) (k1(0 := Suc (k1 0))) (Suc (Suc 0)) u"
      "pid_of u (0, Suc (k1 0)) = of_nat (4 + Suc 0)"
      "\<And>x. x < 2 ^ 21 \<Longrightarrow> user_byte u (map_of_process u (0, Suc (k1 0))) (0x400000 + of_nat x) =
         Some (program_byte (mem s) j b x)"
      "\<And>q w. live t q \<Longrightarrow> user_byte u (map_of_process u q) w = user_byte t (map_of_process t q) w"
      "\<And>q. q \<noteq> (0, Suc (k1 0)) \<Longrightarrow> state_of u q = state_of t q \<and> pid_of u q = pid_of t q"
      "sys.more u = sys.more t"
    by (rule boot_step [OF t(2) c(1) k c(5) prog(2)]) (rule that)
  obtain n out where pr: "printk (''Core %d initialized process successfully!'' @ [CHR 0x0A]) [Int_arg (of_nat 0)] u =
      Inr (n, u\<lparr>console := out\<rparr>)" using start_messages(3) [OF boot_invD(5) [OF u(2)]] by blast
  define v where "v = enable_irq 0 (init_interrupt_controller (init_timer freq 0 (u\<lparr>console := out\<rparr>))\<lparr>main_core_ready := 1\<rparr>)"
  have S: "same_sys u v" unfolding v_def by (rule same_sys_trans [OF same_sys_console same_sys_finish])
  note V = same_sys_view [OF S] and K = boot_inv_same [OF u(2) S]
  have run: "KMain freq s = Inr v"
    using Z(2) t(1) u(1) pr by (simp add: init_process_def init_test4_process_def init_user_process_def v_def)
  have two: "k1(0 := Suc (k1 0)) = (\<lambda>_. 0)(0 := 2)" "Suc (k1 0) = 2" by (simp_all add: k1_def numeral_2_eq_2)
  have lv: "live w (0, x)" if "boot_inv (mem s) k m w" "0 < x" "x \<le> k 0" "x < NUM_PROC"
    for k m x and w :: "'a machine_scheme"
  proof -
    have "(0, x) \<in> set (boot_queues k (Ready 0))" using that(2,3) by (auto simp: boot_queues_def)
    from listed_state(1) [OF sched_invD(1) [OF boot_invD(1) [OF that(1)]] this] show ?thesis
      using that(2,4) c(1) by (simp add: live_def slot_def)
  qed
  have l1: "live t (0, Suc 0)" by (rule lv [OF t(2)]) (simp_all add: NUM_PROC_def k1_def)
  show ?thesis
  proof (rule that [OF run])
    show "boot_inv (mem s) ((\<lambda>_. 0)(0 := 2)) 2 v" using K [unfolded two(1)] by (simp add: numeral_2_eq_2)
    show "live v (0, 1)" "live v (0, 2)" by (rule lv [OF K]; simp add: NUM_PROC_def two)+
    show "main_core_ready v = 1" unfolding v_def by (rule finish_sel)
    show "irq_on v = (irq_on s)(0 := True)"
      unfolding v_def finish_sel using machine_more(9) [OF u(7)] machine_more(9) [OF t(5)] irq by simp
    show "pid_of v (0, 1) = 4" "pid_of v (0, 2) = 5" using t(3) u(3,6) V(2) unfolding two by simp_all
    show "user_byte v (map_of_process v (0, 1)) (0x400000 + of_nat x) = Some (program_byte (mem s) i a x)" if "x < 2 ^ 21" for x
      using t(4) [OF that] u(5) [OF l1] V(1,2) by simp
    show "user_byte v (map_of_process v (0, 2)) (0x400000 + of_nat x) = Some (program_byte (mem s) j b x)" if "x < 2 ^ 21" for x
      using u(4) [OF that] V(1,2) unfolding two by simp
  qed
qed

section \<open>A machine to start\<close>

text \<open>
  A volume of sixteen-byte sectors, one per cluster, with \<open>TEST4.BIN\<close> in cluster 2 and \<open>INIT.BIN\<close> in
  cluster 3, each of 16 bytes, and the machine the loader leaves with it.
\<close>

definition disk_header :: "(nat \<times> u8) list" where
  "disk_header = [(11, 16), (13, 1), (14, 2), (16, 1), (17, 2), (22, 1), (36, 255), (37, 255), (38, 255), (39, 255),
     (48, 0x54), (49, 0x45), (50, 0x53), (51, 0x54), (52, 0x34), (53, 0x20),
     (54, 0x20), (55, 0x20), (56, 0x42), (57, 0x49), (58, 0x4e), (74, 2), (76, 16),
     (80, 0x49), (81, 0x4e), (82, 0x49), (83, 0x54), (84, 0x20), (85, 0x20),
     (86, 0x20), (87, 0x20), (88, 0x42), (89, 0x49), (90, 0x4e), (106, 3), (108, 16), (510, 0x55), (511, 0xaa)]"

definition boot_disk :: memory where
  "boot_disk x =
     (let k = unat (x - FS_BASE) in
      case map_of disk_header k of Some b \<Rightarrow> b | None \<Rightarrow> if 112 \<le> k \<and> k < 144 then of_nat k else 0)"

definition boot_machine :: machine where
  "boot_machine = machine_of
     \<lparr>mem = boot_disk, console = [], locks = (\<lambda>_. False), sym_end = 0xffff0000000a0000,
      sym_allocator = 0xffff000000098000, process_table = (\<lambda>_. zero_process), pid_num = 4,
      current_process = (\<lambda>_. None), head_lists = (\<lambda>_. \<lparr>h_next = None, h_tail = None\<rparr>),
      fcb_page = 0, fcb_table = (\<lambda>_. zero_fcb), file_desc_page = 0, file_desc_table = (\<lambda>_. zero_file_desc),
      ttbr0 = (\<lambda>_. 0), core_sp = (\<lambda>_. 0), core_regs = (\<lambda>_. []), sym_pstart = 0, sym_pgd_ttbr0 = 0,
      sym_after = (\<lambda>_ _. 0)\<rparr>"

lemma disk_at:
  "boot_disk (FS_BASE + w) =
     (case map_of disk_header (unat w) of Some b \<Rightarrow> b | None \<Rightarrow> if 112 \<le> unat w \<and> unat w < 144 then of_nat (unat w) else 0)"
  "boot_disk (w + FS_BASE) =
     (case map_of disk_header (unat w) of Some b \<Rightarrow> b | None \<Rightarrow> if 112 \<le> unat w \<and> unat w < 144 then of_nat (unat w) else 0)"
  by (simp_all add: boot_disk_def Let_def)

lemmas disk_loads = disk_at disk_header_def load_bytes_numeral load16_def load32_def de_name_def de_ext_def de_attributes_def
  de_file_size_def de_cluster_index_def

lemma disk_base: "volume boot_disk = FS_BASE"
  by (simp add: get_fs_bpb_def Let_def disk_loads)

lemma disk_geometry:
  "bytes_per_sector boot_disk FS_BASE = 16" "sectors_per_cluster boot_disk FS_BASE = 1" "reserved_sector_count boot_disk FS_BASE = 2"
  "fat_count boot_disk FS_BASE = 1" "root_entry_count boot_disk FS_BASE = 2" "sectors_per_fat boot_disk FS_BASE = 1"
  by (simp_all add: disk_loads bytes_per_sector_def sectors_per_cluster_def reserved_sector_count_def fat_count_def
     root_entry_count_def sectors_per_fat_def)

lemma disk_names:
  "de_name boot_disk (FS_BASE + 48) = [84, 69, 83, 84, 52, 32, 32, 32]"
  "de_name boot_disk (FS_BASE + 80) = [73, 78, 73, 84, 32, 32, 32, 32]"
  "de_ext boot_disk (FS_BASE + 48) = [66, 73, 78]" "de_ext boot_disk (FS_BASE + 80) = [66, 73, 78]"
  "boot_disk (FS_BASE + 48) = 84" "boot_disk (FS_BASE + 80) = 73"
  "de_attributes boot_disk (FS_BASE + 48) = 0" "de_attributes boot_disk (FS_BASE + 80) = 0"
  "de_file_size boot_disk (FS_BASE + 48) = 16" "de_cluster_index boot_disk (FS_BASE + 48) = 2"
  "de_file_size boot_disk (FS_BASE + 80) = 16" "de_cluster_index boot_disk (FS_BASE + 80) = 3"
  by (simp_all add: disk_loads)

lemma disk_layout:
  "cluster_bytes boot_disk = 16" "fat_start boot_disk = 32" "data_start boot_disk = 112" "unat (get_root_directory_count boot_disk) = 2"
  "dir_entry boot_disk 0 = FS_BASE + 48" "dir_entry boot_disk (Suc 0) = FS_BASE + 80"
  by (simp_all add: cluster_bytes_def fat_start_def data_start_def sector_bytes_def get_root_directory_count_def disk_base disk_geometry
     dir_entry_def get_root_directory_def Let_def)

lemma disk_clusters:
  "next_cluster boot_disk 2 = 65535" "next_cluster boot_disk 3 = 65535" "cluster_pos boot_disk 2 = 112" "cluster_pos boot_disk 3 = 128"
  by (simp_all add: next_cluster_def cluster_pos_def disk_base disk_layout disk_loads)

lemma disk_signature: "fs_signature boot_disk"
  by (simp add: fs_signature_def disk_base disk_loads)

lemma disk_search:
  "search_file boot_disk (lit_path ''TEST4.BIN'') = Inr 0" "search_file boot_disk (lit_path ''INIT.BIN'') = Inr 1"
proof -
  have "map byte_of_char ''TEST4.BIN'' = [84, 69, 83, 84, 52, 46, 66, 73, 78]" "map byte_of_char ''INIT.BIN'' = [73, 78, 73, 84, 46, 66, 73, 78]"
    by (simp_all add: byte_of_char_def)
  then have "lit_path ''TEST4.BIN'' = bytes_path [84, 69, 83, 84, 52, 46, 66, 73, 78]"
    "lit_path ''INIT.BIN'' = bytes_path [73, 78, 73, 84, 46, 66, 73, 78]" by (simp_all only: lit_path_bytes)
  moreover have "replicate 3 x = [x, x, x]" "replicate 4 x = [x, x, x, x]" for x :: u8 by (simp_all add: numeral_eq_Suc)
  ultimately have sp: "split_path (lit_path ''TEST4.BIN'') (replicate 8 0x20) (replicate 3 0x20) =
      Inr (Some ([84, 69, 83, 84, 52, 32, 32, 32], [66, 73, 78]))"
    "split_path (lit_path ''INIT.BIN'') (replicate 8 0x20) (replicate 3 0x20) =
      Inr (Some ([73, 78, 73, 84, 32, 32, 32, 32], [66, 73, 78]))"
    using split_path_run [of "[84, 69, 83, 84, 52, 46, 66, 73, 78]"] split_path_run [of "[73, 78, 73, 84, 46, 66, 73, 78]"]
    by (simp_all add: split_spec_def base_name_def extension_def pad_def)
  have "[0..<2] = [0, 1]" by (simp add: upt_rec)
  then show "search_file boot_disk (lit_path ''TEST4.BIN'') = Inr 0" "search_file boot_disk (lit_path ''INIT.BIN'') = Inr 1"
    by (simp_all add: search_file_def sp disk_names disk_layout is_file_name_equal_def
      ENTRY_EMPTY_def ENTRY_DELETED_def)
qed

lemma disk_programs:
  "program_on boot_disk ''TEST4.BIN'' 0 1" "program_on boot_disk ''INIT.BIN'' 1 1" "program_byte boot_disk 0 1 5 = 117"
proof -
  have z: "program_size boot_disk 0 = 16" "program_size boot_disk (Suc 0) = 16"
    by (simp_all add: program_size_def disk_layout disk_names)
  have "data_cluster boot_disk 2" "data_cluster boot_disk 3" by (simp_all add: data_cluster_def disk_clusters disk_layout)
  then have "program_stored boot_disk 0 1" "program_stored boot_disk 1 1"
    by (simp_all add: program_stored_def z disk_layout disk_names)
  then show "program_on boot_disk ''TEST4.BIN'' 0 1" "program_on boot_disk ''INIT.BIN'' 1 1"
    using disk_search z by (simp_all add: program_on_def)
  have "chain_data boot_disk 2 1 = load_bytes boot_disk (FS_BASE + 112) 16"
    by (simp add: chain_data_def cluster_data_def disk_base disk_layout disk_clusters)
  then show "program_byte boot_disk 0 1 5 = 117"
    by (simp add: program_byte_def program_bytes_def z disk_layout disk_names) (simp add: disk_loads)
qed

section \<open>Property\<close>

text \<open>
  C4: The kernel boots.  On an image of at most 2 MiB with zeroed objects and a FAT16 volume that has the
  signature and the two programs, \<open>KMain\<close> returns without failing an assertion, and so does
  \<open>secondary_main\<close> on the other cores, in whatever order they come up.  Then every process is on the ready
  list of its core, \<open>TEST4\<close> and \<open>INIT\<close> on core 0 and \<open>TEST4\<close> on the others, the idle processes are running,
  the pids are given out in that order from 4 on, every process sees its program at 0x400000, interrupts are
  enabled on the cores that came up, and the invariants of the scheduler, the open files and the address
  spaces hold.
\<close>

theorem kernel_boots:
  fixes s :: "'a machine_scheme"
  assumes "image_objects s" "unat (sym_allocator s) + 160 \<le> unat (sym_end s)" "KERNEL_BASE < sym_end s"
    and "sym_end s \<le> KERNEL_BASE + PAGE_SIZE" "fs_signature (mem s)" "program_on (mem s) ''TEST4.BIN'' i a"
    and "program_on (mem s) ''INIT.BIN'' j b" "distinct cs" "set cs \<subseteq> {1, 2, 3}"
  shows "\<exists>t u. KMain freq s = Inr t \<and> start_cores freq cs t = Some (Inr u) \<and>
    sched_inv u (boot_queues (\<lambda>c. if c = 0 then 2 else if c \<in> set cs then 1 else 0)) idle_running \<and>
    files_inv u \<and> spaces_ok u \<and> (\<forall>c \<in> insert 0 (set cs). irq_on u c) \<and>
    pid_of u (0, 1) = 4 \<and> pid_of u (0, 2) = 5 \<and> (\<forall>x < length cs. pid_of u (cs ! x, 1) = of_nat (6 + x)) \<and>
    (\<forall>k < 2 ^ 21. user_byte u (map_of_process u (0, 2)) (0x400000 + of_nat k) = Some (program_byte (mem s) j b k) \<and>
       (\<forall>c \<in> insert 0 (set cs).
          user_byte u (map_of_process u (c, 1)) (0x400000 + of_nat k) = Some (program_byte (mem s) i a k)))"
proof -
  obtain t where t: "KMain freq s = Inr t" "boot_inv (mem s) ((\<lambda>_. 0)(0 := 2)) 2 t" "main_core_ready t = 1"
    "irq_on t = (irq_on s)(0 := True)" "live t (0, 1)" "live t (0, 2)" "pid_of t (0, 1) = 4" "pid_of t (0, 2) = 5"
    "\<And>x. x < 2 ^ 21 \<Longrightarrow> user_byte t (map_of_process t (0, 1)) (0x400000 + of_nat x) = Some (program_byte (mem s) i a x)"
    "\<And>x. x < 2 ^ 21 \<Longrightarrow> user_byte t (map_of_process t (0, 2)) (0x400000 + of_nat x) = Some (program_byte (mem s) j b x)"
    by (rule KMain_run [OF assms(1-7)]) (rule that)
  have "length cs = card (set cs)" using assms(8) distinct_card by metis
  also have "\<dots> \<le> 3" using card_mono [OF _ assms(9)] by simp
  finally have n: "2 + length cs < 75" by simp
  have cs: "\<forall>c \<in> set cs. c < MAXCORES \<and> c \<noteq> 0 \<and> ((\<lambda>_. 0)(0 := 2)) c = (0 :: nat)"
    using assms(9) by (auto simp: MAXCORES_def)
  have ready: "main_core_ready t \<noteq> 0" using t(3) by simp
  obtain u where u: "start_cores freq cs t = Some (Inr u)"
    "boot_inv (mem s) (\<lambda>c. if c \<in> set cs then 1 else ((\<lambda>_. 0)(0 := 2)) c) (2 + length cs) u"
    "\<forall>c. irq_on u c \<longleftrightarrow> irq_on t c \<or> c \<in> set cs" "\<forall>x < length cs. pid_of u (cs ! x, 1) = of_nat (4 + 2 + x)"
    "\<forall>c \<in> set cs. live u (c, 1) \<and> (\<forall>x < 2 ^ 21.
       user_byte u (map_of_process u (c, 1)) (0x400000 + of_nat x) = Some (program_byte (mem s) i a x))"
    "\<forall>q. live t q \<longrightarrow> live u q \<and> pid_of u q = pid_of t q \<and>
       (\<forall>w. user_byte u (map_of_process u q) w = user_byte t (map_of_process t q) w)"
    using start_cores_run [OF t(2) assms(8) cs n assms(6) ready] by blast
  have "(\<lambda>c. if c \<in> set cs then 1 else ((\<lambda>_. 0)(0 := 2)) c) = (\<lambda>c. if c = 0 then 2 else if c \<in> set cs then 1 else (0 :: nat))"
    using cs by (auto simp: fun_eq_iff)
  then have inv: "sched_inv u (boot_queues (\<lambda>c. if c = 0 then 2 else if c \<in> set cs then 1 else 0)) idle_running"
    using boot_invD(1) [OF u(2)] by simp
  show ?thesis
  proof (rule exI [of _ t], rule exI [of _ u], intro conjI allI impI ballI)
    show "irq_on u c" if "c \<in> insert 0 (set cs)" for c using u(3) t(4) that by auto
    show "pid_of u (0, 1) = 4" "pid_of u (0, 2) = 5" using u(6) t(5-8) by simp_all
    show "pid_of u (cs ! x, 1) = of_nat (6 + x)" if "x < length cs" for x using u(4) that by simp
    fix k :: nat assume k: "k < 2 ^ 21"
    show "user_byte u (map_of_process u (0, 2)) (0x400000 + of_nat k) = Some (program_byte (mem s) j b k)"
      using u(6) t(6) t(10) [OF k] by simp
    show "user_byte u (map_of_process u (c, 1)) (0x400000 + of_nat k) = Some (program_byte (mem s) i a k)"
      if "c \<in> insert 0 (set cs)" for c using u(5,6) t(5) t(9) [OF k] k that by auto
  qed (use t(1) u(1) inv boot_invD(2,3) [OF u(2)] in simp_all)
qed

theorem kernel_boots_witness:
  "\<exists>t u. KMain 1000000 boot_machine = Inr t \<and> start_cores 1000000 [2, 3, 1] t = Some (Inr u) \<and>
    pid_of u (3, 1) = 7 \<and> user_byte u (map_of_process u (3, 1)) (0x400000 + of_nat 5) = Some 117"
proof -
  have m: "mem boot_machine = boot_disk" by (simp add: boot_machine_def)
  have a: "image_objects boot_machine" "unat (sym_allocator boot_machine) + 160 \<le> unat (sym_end boot_machine)"
    "KERNEL_BASE < sym_end boot_machine" "sym_end boot_machine \<le> KERNEL_BASE + PAGE_SIZE"
    by (simp_all add: image_objects_def boot_machine_def machine_of_def sys.defs KERNEL_BASE_def PAGE_SIZE_def)
  have cs: "distinct [2, 3, 1 :: nat]" "set [2, 3, 1 :: nat] \<subseteq> {1, 2, 3}" by auto
  obtain t u where t: "KMain 1000000 boot_machine = Inr t" "start_cores 1000000 [2, 3, 1] t = Some (Inr u)"
    "\<forall>x < length [2, 3, 1 :: nat]. pid_of u ([2, 3, 1] ! x, 1) = of_nat (6 + x)"
    "\<forall>k < 2 ^ 21. \<forall>c \<in> insert 0 (set [2, 3, 1]).
       user_byte u (map_of_process u (c, 1)) (0x400000 + of_nat k) = Some (program_byte boot_disk 0 1 k)"
    using kernel_boots [OF a, unfolded m, OF disk_signature disk_programs(1,2) cs, of 1000000] by blast
  have "pid_of u (3, 1) = 7" using t(3) [THEN spec, of 1] by simp
  moreover have "user_byte u (map_of_process u (3, 1)) (0x400000 + of_nat 5) = Some 117"
    using t(4) [THEN spec, of 5] disk_programs(3) by simp
  ultimately show ?thesis using t(1,2) by blast
qed

end
