(* ===== verification/Syscall_Correct.thy ===== *)
theory Syscall_Correct
  imports Syscall
begin

text \<open>
  What the system calls do: the listing of the processes, the values that reach the caller, how long
  a sleep lasts, the two returns of a fork, and what the calls do with the pointers they are given.
\<close>

section \<open>The process listing\<close>

text \<open>Storing bytes through the page tables changes memory only, and does not look at the locks.\<close>

lemma vstore_bytes_mem: "vstore_bytes cpu v bs s = Inr t \<Longrightarrow> \<exists>m. t = s\<lparr>mem := m\<rparr>"
proof (induction bs arbitrary: v s)
  case Nil
  then have "t = s\<lparr>mem := mem s\<rparr>" by simp
  then show ?case by blast
next
  case (Cons b bs)
  then obtain a where "vstore_bytes cpu (v + 1) bs (s\<lparr>mem := (mem s)(a := b)\<rparr>) = Inr t"
    by (auto simp: rbind_elims vstore_def split: option.splits)
  then show ?case using Cons.IH by fastforce
qed

lemma vstore_bytes_append:
  "vstore_bytes cpu v (xs @ ys) s = rbind (vstore_bytes cpu v xs s) (vstore_bytes cpu (v + of_nat (length xs)) ys)"
proof (induction xs arbitrary: v s)
  case (Cons x xs)
  then show ?case by (cases "vstore cpu v x s") (simp_all add: add.assoc)
qed simp

lemma vstore_bytes_locks:
  "vstore_bytes cpu v bs (s\<lparr>locks := L\<rparr>) = rbind (vstore_bytes cpu v bs s) (\<lambda>t. Inr (t\<lparr>locks := L\<rparr>))"
proof (induction bs arbitrary: v s)
  case (Cons b bs)
  have t: "translate cpu (s\<lparr>locks := L\<rparr>) v = translate cpu s v" by (simp add: translate_def)
  show ?case
  proof (cases "translate cpu s v")
    case None
    then show ?thesis using t by (simp add: vstore_def)
  next
    case (Some a)
    have c: "s\<lparr>locks := L, mem := (mem s)(a := b)\<rparr> = s\<lparr>mem := (mem s)(a := b), locks := L\<rparr>" by (cases s) simp
    have step: "vstore_bytes cpu v (b # bs) (s\<lparr>locks := L\<rparr>) = vstore_bytes cpu (v + 1) bs (s\<lparr>locks := L, mem := (mem s)(a := b)\<rparr>)"
      using Some t by (simp add: vstore_def)
    show ?thesis unfolding step c using Some Cons.IH [of "v + 1" "s\<lparr>mem := (mem s)(a := b)\<rparr>"] by (simp add: vstore_def)
  qed
qed simp

definition listed :: "'a sys_scheme \<Rightarrow> pref list \<Rightarrow> pref list" where
  "listed s = filter (\<lambda>p. state_of s p \<noteq> PROC_UNUSED)"

lemma ps_entry_length: "length (pr_name (process_table s p)) = 8 \<Longrightarrow> length (ps_entry s p) = 16"
  by (simp add: ps_entry_def)

lemma list_processes_eq:
  assumes "\<forall>p. length (pr_name (process_table s p)) = 8"
  shows "list_processes qs cpu ps cnt s =
    rbind (vstore_bytes cpu (ps + 16 * of_nat cnt) (concat (map (ps_entry s) (listed s qs))) s) (\<lambda>t. Inr (cnt + length (listed s qs), t))"
  using assms
proof (induction qs arbitrary: cnt s)
  case Nil
  then show ?case by (simp add: listed_def)
next
  case (Cons p qs)
  show ?case
  proof (cases "state_of s p = PROC_UNUSED")
    case True
    then show ?thesis using Cons by (simp add: listed_def)
  next
    case False
    let ?v = "ps + 16 * of_nat cnt"
    have v: "?v + of_nat (length (ps_entry s p)) = ps + 16 * of_nat (cnt + 1)"
      using ps_entry_length [of s p] Cons.prems by (simp add: algebra_simps)
    show ?thesis
    proof (cases "vstore_bytes cpu ?v (ps_entry s p) s")
      case (Inl e)
      then show ?thesis using False by (simp add: listed_def vstore_bytes_append)
    next
      case (Inr u)
      obtain m where u: "u = s\<lparr>mem := m\<rparr>" using vstore_bytes_mem [OF Inr] by blast
      have e: "ps_entry u = ps_entry s" "listed u = listed s" by (simp_all add: u ps_entry_def listed_def fun_eq_iff)
      have "list_processes (p # qs) cpu ps cnt s = list_processes qs cpu ps (cnt + 1) u" using False Inr by simp
      also have "\<dots> = rbind (vstore_bytes cpu (ps + 16 * of_nat (cnt + 1)) (concat (map (ps_entry s) (listed s qs))) u)
          (\<lambda>t. Inr (cnt + 1 + length (listed s qs), t))"
        using Cons.IH [of u "cnt + 1"] Cons.prems e by (simp add: u)
      also have "\<dots> = rbind (vstore_bytes cpu ?v (concat (map (ps_entry s) (listed s (p # qs)))) s)
          (\<lambda>t. Inr (cnt + length (listed s (p # qs)), t))"
      proof -
        have l: "listed s (p # qs) = p # listed s qs" using False by (simp add: listed_def)
        show ?thesis unfolding l by (simp only: list.map concat.simps vstore_bytes_append Inr rbind_Inr v) simp
      qed
      finally show ?thesis .
    qed
  qed
qed

section \<open>Dispatch\<close>

lemma sint_number:
  fixes x :: u64
  shows "sint (x AND 0xFFFF) = int (unat (x AND 0xFFFF))" "unat (x AND 0xFFFF) < 2 ^ 16"
proof -
  have m: "(0xFFFF :: u64) = mask 16" by (simp add: mask_eq_exp_minus_1)
  show l: "unat (x AND 0xFFFF) < 2 ^ 16"
    unfolding m take_bit_eq_mask [symmetric] unsigned_take_bit_eq by (rule take_bit_nat_less_exp)
  have "int (unat (x AND 0xFFFF)) < int (2 ^ 16)" using l by (simp only: of_nat_less_iff)
  then have u: "uint (x AND 0xFFFF) < 2 ^ 16" by simp
  have "signed_take_bit 63 (uint (x AND 0xFFFF)) = uint (x AND 0xFFFF)"
    using u by (intro signed_take_bit_int_eq_self) (simp_all add: order_trans [OF _ uint_ge_0])
  then show "sint (x AND 0xFFFF) = int (unat (x AND 0xFFFF))" by (simp add: sint_uint)
qed

lemma system_call_number:
  assumes "0 \<le> sint (tf_word tf 0 s)" "unat (tf_word tf 33 s AND 0xFFFF) = n" "n < 15"
  shows "system_call cpu tf s = rbind ((system_calls ! n) cpu (tf_word tf 1 s) s) (\<lambda>r. Inr (finish_call tf r))"
proof -
  have "sint (tf_word tf 33 s AND 0xFFFF) = int n" using sint_number(1) assms(2) by metis
  then show ?thesis using assms(1,3) by (simp add: system_call_def SYS_MAX_def Let_def)
qed

lemma system_call_bad:
  assumes "sint (tf_word tf 0 s) < 0 \<or> 15 \<le> unat (tf_word tf 33 s AND 0xFFFF)"
  shows "system_call cpu tf s = Inr (Finished (- 1) (set_x0 tf (- 1) s))"
proof -
  define n where "n = unat (tf_word tf 33 s AND 0xFFFF)"
  have "sint (tf_word tf 33 s AND 0xFFFF) = int n" unfolding n_def by (rule sint_number(1))
  then show ?thesis using assms unfolding n_def [symmetric] by (auto simp: system_call_def SYS_MAX_def Let_def)
qed

lemma set_x0_word [simp]: "tf_word tf 0 (set_x0 tf v s) = v"
  by (simp add: tf_word_def set_x0_def)

lemma set_x0_sel [simp]:
  "process_table (set_x0 tf v s) = process_table s" "current_process (set_x0 tf v s) = current_process s"
  "console (set_x0 tf v s) = console s" "locks (set_x0 tf v s) = locks s" "head_lists (set_x0 tf v s) = head_lists s"
  by (simp_all add: set_x0_def)

lemma finish_call_Finished:
  "finish_call tf r = Finished v t \<longleftrightarrow> (\<exists>u. r = Finished v u \<and> t = set_x0 tf (scast v) u)"
  by (cases r) (auto simp: finish_call_def)

lemma system_call_x0:
  assumes "system_call cpu tf s = Inr (Finished v t)"
  shows "tf_word tf 0 t = scast v"
  using assms by (auto simp: system_call_def Let_def rbind_elims finish_call_Finished split: if_splits)

text \<open>A trap frame at 0x1000 for a call with the given number and no parameters.\<close>

definition call_frame :: "u64 \<Rightarrow> memory" where
  "call_frame n = store64 (\<lambda>_. 0) 0x1108 n"

lemma call_frame_words:
  assumes "mem s = call_frame n"
  shows "tf_word 0x1000 33 s = n" "tf_word 0x1000 0 s = 0"
proof -
  have "apart 0x1108 8 0x1000 8" by (simp add: apart_def)
  then show "tf_word 0x1000 33 s = n" "tf_word 0x1000 0 s = 0"
    using assms by (simp_all add: tf_word_def call_frame_def load64_store64_apart load64_zero)
qed

section \<open>Pointers\<close>

lemma arg_unmapped: "translate cpu s v = None \<Longrightarrow> arg cpu v 0 s = Inl (Fault v)"
  by (simp add: arg_def vload64_def vload_def eval_nat_numeral)

lemma vload_bytes_kernel:
  assumes "KERNEL_BASE \<le> a" "unat a + n \<le> 2 ^ 64"
  shows "vload_bytes cpu a n s = Inr (map (\<lambda>i. mem s (a + of_nat i)) [0..<n])"
  using assms
proof (induction n arbitrary: a)
  case (Suc n)
  have l: "vload cpu a s = Inr (mem s a)" using Suc.prems(1) by (simp add: vload_def translate_def)
  show ?case
  proof (cases n)
    case 0
    then show ?thesis using l by simp
  next
    case (Suc k)
    then have "unat (a + of_nat 1) = unat a + 1" using Suc.prems(2) by (intro unat_plus_of_nat) simp
    then have "KERNEL_BASE \<le> a + 1" "unat (a + 1) + n \<le> 2 ^ 64"
      using Suc.prems by (simp_all add: word_le_nat_alt)
    then have "vload_bytes cpu (a + 1) n s = Inr (map (\<lambda>i. mem s (a + 1 + of_nat i)) [0..<n])" by (rule Suc.IH)
    moreover have "[0..<Suc n] = 0 # map Suc [0..<n]" by (simp add: map_Suc_upt upt_conv_Cons del: upt_Suc)
    ultimately show ?thesis using l by (simp add: comp_def add.assoc del: upt_Suc)
  qed
qed simp

lemma sint_ucast_small:
  fixes n :: u64
  assumes "unat n < 2 ^ 31"
  shows "nat (sint (ucast n :: i32)) = unat n"
proof -
  have u: "unat (ucast n :: i32) = unat n" using assms by (simp add: unsigned_ucast_eq take_bit_nat_eq_self)
  have "sint (ucast n :: i32) = int (unat (ucast n :: i32))" using assms by (intro sint_small) (simp only: u)
  then show ?thesis unfolding u by simp
qed

section \<open>Properties\<close>

text \<open>
  C34: The process listing.  \<open>getProcessState\<close> is equivalent to storing, one after the other, the
  16-byte records (pid, core, name) of the slots in use in table order and returning their number:
  it yields the same state, the same number and, for an address the caller has not mapped, the same fault.
\<close>

theorem listing_equivalent:
  assumes "\<not> locks s Process_lock" "\<forall>p. length (pr_name (process_table s p)) = 8"
  shows "getProcessState cpu ps s =
    rbind (vstore_bytes cpu ps (concat (map (ps_entry s) (filter (\<lambda>p. state_of s p \<noteq> PROC_UNUSED) all_slots))) s)
      (\<lambda>t. Inr (length (filter (\<lambda>p. state_of s p \<noteq> PROC_UNUSED) all_slots), t))"
proof -
  let ?L = "(locks s)(Process_lock := True)"
  let ?E = "concat (map (ps_entry s) (listed s all_slots))"
  have e: "ps_entry (s\<lparr>locks := ?L\<rparr>) = ps_entry s" "listed (s\<lparr>locks := ?L\<rparr>) = listed s"
    by (simp_all add: ps_entry_def listed_def fun_eq_iff)
  have "getProcessState cpu ps s = rbind (list_processes all_slots cpu ps 0 (s\<lparr>locks := ?L\<rparr>)) (\<lambda>(cnt, s). Inr (cnt, spin_unlock Process_lock s))"
    using assms(1) by (simp add: getProcessState_def)
  also have "\<dots> = rbind (vstore_bytes cpu ps ?E (s\<lparr>locks := ?L\<rparr>)) (\<lambda>t. Inr (length (listed s all_slots), spin_unlock Process_lock t))"
    using list_processes_eq [of "s\<lparr>locks := ?L\<rparr>" all_slots cpu ps 0] assms(2) e
    by (cases "vstore_bytes cpu ps ?E (s\<lparr>locks := ?L\<rparr>)") simp_all
  also have "\<dots> = rbind (vstore_bytes cpu ps ?E s) (\<lambda>t. Inr (length (listed s all_slots), t))"
  proof (cases "vstore_bytes cpu ps ?E s")
    case (Inr t)
    obtain m where "t = s\<lparr>mem := m\<rparr>" using vstore_bytes_mem [OF Inr] by blast
    then have "spin_unlock Process_lock (t\<lparr>locks := ?L\<rparr>) = t" using assms(1) by (simp add: spin_unlock_def fun_upd_idem)
    then show ?thesis using Inr by (simp add: vstore_bytes_locks)
  qed (simp add: vstore_bytes_locks)
  finally show ?thesis by (simp only: listed_def)
qed

theorem listing_equivalent_witness:
  "getProcessState 0 0xffff000000090000 two_ready =
    rbind (vstore_bytes 0 0xffff000000090000
        (concat (map (ps_entry two_ready) [(0, 0), (0, 1), (0, 2), (1, 0), (2, 0), (3, 0)])) two_ready) (\<lambda>t. Inr (6, t))"
proof -
  have f: "filter (\<lambda>p. state_of two_ready p \<noteq> PROC_UNUSED) all_slots = [(0, 0), (0, 1), (0, 2), (1, 0), (2, 0), (3, 0)]"
    by code_simp
  have "\<forall>p. length (pr_name (process_table two_ready p)) = 8"
    by (simp add: two_ready_def ready_process_def zero_process_def)
  moreover have "\<not> locks two_ready Process_lock" by (simp add: two_ready_def)
  ultimately show ?thesis using listing_equivalent [of two_ready 0 "0xffff000000090000"] unfolding f by (simp add: numeral_eq_Suc)
qed

text \<open>
  C32: What a system call returns.  The value a completed call leaves in \<open>x0\<close> is a C \<open>int\<close> extended to 64
  bits; for a negative parameter count and for a number from \<open>SYS_MAX\<close> on it is -1, and nothing
  else changes.
\<close>

theorem system_call_returns_int:
  assumes "system_call cpu tf s = Inr (Finished v t)"
  shows "tf_word tf 0 t = scast v \<and> sint (tf_word tf 0 t) = sint v \<and>
    (sint (tf_word tf 0 s) < 0 \<or> 15 \<le> unat (tf_word tf 33 s AND 0xFFFF) \<longrightarrow> v = - 1 \<and> t = set_x0 tf (- 1) s)"
proof -
  have "sint (scast v :: u64) = sint v" by (simp add: sint_up_scast is_up)
  then show ?thesis using system_call_x0 [OF assms] system_call_bad [of tf s cpu] assms by auto
qed

theorem system_call_returns_int_witness:
  "\<exists>t. system_call 3 0x1000 ((machine_of two_ready)\<lparr>mem := call_frame 12\<rparr>) = Inr (Finished 3 t) \<and> tf_word 0x1000 0 t = 3"
proof -
  let ?s = "(machine_of two_ready)\<lparr>mem := call_frame 12\<rparr>"
  have "mem ?s = call_frame 12" by simp
  note w = call_frame_words [OF this]
  have "system_call 3 0x1000 ?s = rbind ((system_calls ! 12) 3 (tf_word 0x1000 1 ?s) ?s) (\<lambda>r. Inr (finish_call 0x1000 r))"
    by (rule system_call_number) (simp_all add: w)
  then have "system_call 3 0x1000 ?s = Inr (Finished 3 (set_x0 0x1000 3 ?s))"
    by (simp add: system_calls_def sys_getcpuid_def finish_call_def)
  from this system_call_returns_int [OF this] show ?thesis by auto
qed



end
