(* ===== verification/Syscall_Process.thy ===== *)
theory Syscall_Process
  imports Syscall_Correct
begin

text \<open>
  System calls that deal with the calling process: how long a sleep lasts, and the two returns of
  a fork.
\<close>

section \<open>Sleeping\<close>

lemma sleep_loop_waits:
  assumes "sched_inv s Q R" "c < MAXCORES" "slot (R c)" "ticks s - old < n"
  shows "\<exists>f. sleep_loop c old n s = Inr (Paused (After_sleep old n) f) \<and>
    state_of (settle f) (R c) = PROC_SLEEP \<and> wait_of (settle f) (R c) = - 1"
proof -
  obtain f where f: "sleep c (- 1) s = Inr f" "\<forall>x. wait_of (settle f) x = (if x = R c then - 1 else wait_of s x)"
      "sched_inv (settle f) (Q(Waiting c := Q (Waiting c) @ [R c], Ready c := tl (Q (Ready c)))) (R(c := pick_next c Q))"
    using sleep_law [OF assms(1-3), of "- 1"] by blast
  have "wait_of (settle f) (R c) = - 1" using f(2) [THEN spec, of "R c"] by simp
  moreover have "state_of (settle f) (R c) = PROC_SLEEP"
    using listed_state [OF sched_invD(1) [OF f(3)], of "R c" "Waiting c"] by simp
  ultimately show ?thesis using f(1) assms(4) by (intro exI [of _ f]) (simp add: sleep_loop_def)
qed

section \<open>Frames on different stacks\<close>

lemma frame_words_apart:
  assumes "a \<in> region start" "b \<in> region start" "a \<noteq> b" "i < 36" "j < 36"
  shows "apart (a + PAGE_SIZE - TRAP_FRAME_SIZE + 8 * of_nat i) 8 (b + PAGE_SIZE - TRAP_FRAME_SIZE + 8 * of_nat j) 8"
proof -
  have w: "c + PAGE_SIZE - TRAP_FRAME_SIZE + 8 * of_nat k = c + of_nat (8 * (2 ^ 18 - 36 + k))" for c :: u64 and k
    unfolding frame_words(5) page_word_def by simp
  show ?thesis
    unfolding w by (rule apart_sub [OF page_apart [OF assms(1-3)]]) (use assms(4,5) in simp_all)
qed

section \<open>A machine with one process\<close>

lemma arg_kernel:
  assumes "KERNEL_BASE \<le> a" "unat a + 8 \<le> 2 ^ 64"
  shows "arg cpu a 0 s = Inr (load64 (mem s) a)"
proof -
  have "load_bytes (mem s) a 8 = map (\<lambda>i. mem s (a + of_nat i)) [0..<8]"
    by (rule nth_equalityI) simp_all
  then show ?thesis using vload_bytes_kernel [OF assms, of cpu s] by (simp add: arg_def vload64_def load64_def)
qed

lemma machine_of_kernel: "same_kernel s (machine_of s)"
  by (simp add: same_kernel_def machine_of_def sys.defs)

lemma machine_of_invariants:
  "files_inv (machine_of s) \<longleftrightarrow> files_inv s" "spaces_ok (machine_of s) \<longleftrightarrow> spaces_ok s"
  "find_unused_process c (machine_of s) = find_unused_process c s"
proof -
  note e = same_kernel_eqs [OF machine_of_kernel [of s]]
  show "spaces_ok (machine_of s) \<longleftrightarrow> spaces_ok s"
    unfolding spaces_ok_def live_def space_ok_def proc_pages_def e by simp
  show "find_unused_process c (machine_of s) = find_unused_process c s" by (simp add: find_unused_process_def)
  have f: "fcb_table (machine_of s) = fcb_table s" "file_desc_table (machine_of s) = file_desc_table s"
    by (simp_all add: machine_of_def sys.defs)
  show "files_inv (machine_of s) \<longleftrightarrow> files_inv s"
    using files_inv_cong [of s "machine_of s"] files_inv_cong [of "machine_of s" s] f by (auto simp: same_volume_def)
qed

text \<open>The stack page of the process holds a trap frame for system call 8.\<close>

lemma framed_state:
  obtains r q p and k :: kernel where "vm_full r k" "data_page (mem k) r = [vm_index 0x400000 \<mapsto> p]" "kowned k q"
    "q \<notin> vm_pages (mem k) r" "370 \<le> card (kavail k)" "load64 (mem k) (page_word q (2 ^ 18 - 36)) = 0"
    "load64 (mem k) (page_word q (2 ^ 18 - 3)) = 8"
proof (rule mapped_state)
  fix r q p and k :: kernel
  assume a: "vm_full r k" "data_page (mem k) r = [vm_index 0x400000 \<mapsto> p]" "vm_full q k" "data_page (mem k) q = Map.empty"
    "tables (mem k) q = {q}" "q \<notin> vm_pages (mem k) r" "370 \<le> card (kavail k)"
  let ?m = "store64 (store64 (mem k) (page_word q (2 ^ 18 - 36)) 0) (page_word q (2 ^ 18 - 3)) 8"
  have own: "kowned k q" using vm_okD(3) [OF vm_fullD(1) [OF a(3)], of Pgd] by simp
  have al: "page_aligned q" by (rule region_bound(3) [OF kowned_region [OF own]])
  have out: "?m x = mem k x" if "\<not> in_range q (2 ^ 21) x" for x
  proof -
    have "\<not> in_range (page_word q i) 8 x" if "i < 2 ^ 18" for i
      using page_word_in [OF al that] \<open>\<not> in_range q (2 ^ 21) x\<close> by blast
    then show ?thesis by (simp add: store64_outside)
  qed
  note w = write_keeps [OF vm_okD(1) [OF vm_fullD(1) [OF a(1)]] own, of ?m, OF out]
  have "{q} \<inter> tables (mem k) r = {}" using a(6) by (auto simp: vm_pages_eq)
  note v = vm_full_keeps [OF a(1) w(1) this]
  show thesis
    by (rule that [of r "k\<lparr>mem := ?m\<rparr>" p q]) (use v a(2,6,7) w(2) keeps_owned [OF w(1)] own in \<open>simp_all add: load64_store64_apart page_words_apart vm_pages_eq\<close>)
qed

section \<open>Properties\<close>

text \<open>
  C29: How long a sleep lasts.  \<open>sys_sleep\<close> with 0 returns at once; with \<open>n > 0\<close> the caller sleeps on the
  clock.  Whenever it runs again the call returns 0 if at least \<open>n\<close> ticks, counted modulo \<open>2^64\<close>, have passed since the
  call, and the caller sleeps again otherwise.
\<close>

theorem sleep_lasts:
  fixes s :: "'a machine_scheme"
  assumes "sched_inv s Q R" "c < MAXCORES" "slot (R c)" "arg c argptr 0 s = Inr n"
  shows "(n = 0 \<longrightarrow> sys_sleep c argptr s = Inr (Finished 0 s)) \<and>
    (n \<noteq> 0 \<longrightarrow> (\<exists>f. sys_sleep c argptr s = Inr (Paused (After_sleep (ticks s) n) f) \<and>
       state_of (settle f) (R c) = PROC_SLEEP \<and> wait_of (settle f) (R c) = - 1)) \<and>
    (\<forall>tf (u :: 'a machine_scheme) Q' R'. sched_inv u Q' R' \<and> slot (R' c) \<longrightarrow>
       (if n \<le> ticks u - ticks s then resume_call c tf (After_sleep (ticks s) n) u = Inr (Finished 0 (set_x0 tf 0 u))
        else \<exists>g. resume_call c tf (After_sleep (ticks s) n) u = Inr (Paused (After_sleep (ticks s) n) g) \<and>
          state_of (settle g) (R' c) = PROC_SLEEP))"
proof (intro conjI impI allI)
  show "sys_sleep c argptr s = Inr (Finished 0 s)" if "n = 0"
    using assms(4) that by (simp add: sys_sleep_def sleep_loop_def)
  show "\<exists>f. sys_sleep c argptr s = Inr (Paused (After_sleep (ticks s) n) f) \<and>
       state_of (settle f) (R c) = PROC_SLEEP \<and> wait_of (settle f) (R c) = - 1" if "n \<noteq> 0"
    using sleep_loop_waits [OF assms(1-3), of "ticks s" n] assms(4) that
    by (simp add: sys_sleep_def word_gt_0)
next
  fix tf and u :: "'a machine_scheme" and Q' R'
  assume u: "sched_inv u Q' R' \<and> slot (R' c)"
  show "if n \<le> ticks u - ticks s then resume_call c tf (After_sleep (ticks s) n) u = Inr (Finished 0 (set_x0 tf 0 u))
        else \<exists>g. resume_call c tf (After_sleep (ticks s) n) u = Inr (Paused (After_sleep (ticks s) n) g) \<and>
          state_of (settle g) (R' c) = PROC_SLEEP"
  proof (cases "n \<le> ticks u - ticks s")
    case True
    then show ?thesis by (simp add: resume_call_def sleep_loop_def finish_call_def not_less [symmetric])
  next
    case False
    then obtain g where "sleep_loop c (ticks s) n u = Inr (Paused (After_sleep (ticks s) n) g)" "state_of (settle g) (R' c) = PROC_SLEEP"
      using sleep_loop_waits [of u Q' R' c "ticks s" n] u assms(2) by (auto simp: not_le)
    then show ?thesis using False by (simp add: resume_call_def finish_call_def)
  qed
qed

theorem sleep_lasts_witness:
  "\<exists>(s :: machine) f. sys_sleep 0 KERNEL_BASE s = Inr (Paused (After_sleep 0 5) f) \<and> state_of (settle f) (0, 1) = PROC_SLEEP"
proof -
  define k :: kernel where "k = \<lparr>mem = store64 (\<lambda>_. 0) KERNEL_BASE 5, console = [], locks = (\<lambda>_. False), sym_end = 0, sym_allocator = 0\<rparr>"
  let ?s = "machine_of (solo k True (solo_process True 0 0))"
  have "mem ?s = store64 (\<lambda>_. 0) KERNEL_BASE 5" by (simp add: solo_def k_def)
  then have a: "arg 0 KERNEL_BASE 0 ?s = Inr 5" using arg_kernel [of KERNEL_BASE 0 ?s] by (simp add: KERNEL_BASE_def)
  have "solo_running True 0 = (0, 1)" by (simp add: solo_running_def)
  then have sl: "slot (solo_running True 0)" by simp
  have inv: "sched_inv ?s (solo_queue True) (solo_running True)" using solo_inv by simp
  show ?thesis
    using sleep_lasts [OF inv _ sl a] \<open>solo_running True 0 = (0, 1)\<close> by (intro exI [of _ ?s]) (auto simp: MAXCORES_def)
qed

text \<open>
  C17: A fork returns twice.  When the process that runs on core 0 makes the system call, and core 0 has a free
  slot and there are five free pages, the call returns the pid of the child in the caller's \<open>x0\<close>;
  the child is ready, and its frame, from which it will return to user mode, holds 0 in \<open>x0\<close> and
  the caller's registers in the other 35 words.
\<close>

theorem fork_returns_twice:
  fixes s :: "'a machine_scheme"
  assumes "sched_inv s Q R" "files_inv s" "spaces_ok s" "\<not> locks s Pid_lock" "\<not> locks s Print_lock"
    and "5 \<le> card (kavail s)" "find_unused_process 0 s = Some p" "pr_file (process_table s p) = replicate 100 None"
    and "slot (R 0)" "data_page (mem s) (map_of_process s (R 0)) (vm_index 0x400000) = Some d" "4 \<le> sint (pid_num s)"
    and tf: "tf = pr_tf (process_table s (R 0))" and call: "0 \<le> sint (tf_word tf 0 s)" "unat (tf_word tf 33 s AND 0xFFFF) = 8"
  shows "\<exists>t. system_call 0 tf s = Inr (Finished (pid_num s) t) \<and> tf_word tf 0 t = scast (pid_num s) \<and>
    current_process t 0 = Some (R 0) \<and> state_of t p = PROC_READY \<and> pid_of t p = pid_num s \<and>
    tf_word (pr_tf (process_table t p)) 0 t = 0 \<and>
    (\<forall>i. 0 < i \<and> i < 36 \<longrightarrow> tf_word (pr_tf (process_table t p)) i t = tf_word tf i s)"
proof -
  have c0: "(0 :: nat) < MAXCORES" by (simp add: MAXCORES_def)
  obtain u where u: "fork 0 s = Inr (pid_num s, u)" "sched_inv u (Q(Ready 0 := Q (Ready 0) @ [p])) R" "spaces_ok u"
      "forked s u (R 0) p" "\<forall>q. live s q \<longrightarrow> undisturbed s u q"
    using fork_law [OF assms(1-11)] by blast
  note run = running_state [OF sched_invD(1) [OF assms(1)] assms(9) c0] running_state [OF sched_invD(1) [OF u(2)] assms(9) c0]
  have rdy: "state_of u p = PROC_READY" using listed_state [OF sched_invD(1) [OF u(2)], of p "Ready 0"] by simp
  have sp: "slot p" using sched_repD(2) [OF sched_invD(1) [OF u(2)], of p "Ready 0"] by simp
  have L: "live s (R 0)" "live u (R 0)" "live u p" using run rdy sp assms(9) by (simp_all add: live_def)
  have ne: "R 0 \<noteq> p" using run(2) rdy by auto
  have "stack_of u (R 0) \<noteq> stack_of u p"
    using spaces_okD(4) [OF u(3) L(2,3) ne] by (auto simp: proc_pages_def)
  moreover have "stack_of u (R 0) = stack_of s (R 0)" using u(5) L(1) unfolding undisturbed_def by blast
  moreover note so = spaces_okD(3) [OF assms(3) L(1)] spaces_okD(3) [OF u(3) L(2)] spaces_okD(3) [OF u(3) L(3)]
  ultimately have ap: "apart tf 8 (pr_tf (process_table u p) + 8 * of_nat i) 8" if "i < 36" for i
    using frame_words_apart [OF kowned_region [OF space_okD(1) [OF so(2)]] kowned_region [OF space_okD(1) [OF so(3)]] _ _ that, of 0]
      space_okD(4) [OF so(1)] space_okD(4) [OF so(3)] tf by simp
  let ?t = "set_x0 tf (scast (pid_num s)) u"
  have w: "tf_word (pr_tf (process_table ?t p)) i ?t = (if i = 0 then 0 else tf_word tf i s)" if "i < 36" for i
    using u(4) that ap [OF that] tf by (simp add: tf_word_def set_x0_def load64_store64_apart forked_def)
  have "system_call 0 tf s = Inr (Finished (pid_num s) ?t)"
    using system_call_number [OF call, of 0] u(1) by (simp add: system_calls_def sys_fork_def finish_call_def)
  moreover have "current_process ?t 0 = Some (R 0)" using sched_invD(2) [OF u(2) c0] by simp
  moreover have "pid_of ?t p = pid_num s" using u(4) by (simp add: forked_def)
  ultimately show ?thesis using rdy w by (intro exI [of _ ?t]) simp
qed

theorem fork_returns_twice_witness:
  "\<exists>(s :: machine) tf t. tf_word tf 33 s = 8 \<and> system_call 0 tf s = Inr (Finished 5 t) \<and> tf_word tf 0 t = 5 \<and>
    current_process t 0 = Some (0, 1) \<and> state_of t (0, 2) = PROC_READY \<and> tf_word (pr_tf (process_table t (0, 2))) 0 t = 0"
proof (rule framed_state)
  fix r q p and k :: kernel
  assume a: "vm_full r k" "data_page (mem k) r = [vm_index 0x400000 \<mapsto> p]" "kowned k q" "q \<notin> vm_pages (mem k) r"
    "370 \<le> card (kavail k)" "load64 (mem k) (page_word q (2 ^ 18 - 36)) = 0" "load64 (mem k) (page_word q (2 ^ 18 - 3)) = 8"
  let ?u = "solo k True (solo_process True q r)"
  let ?s = "machine_of ?u"
  let ?tf = "q + PAGE_SIZE - TRAP_FRAME_SIZE"
  have inv: "sched_inv ?s (solo_queue True) (solo_running True)" "files_inv ?s" "spaces_ok ?s"
    using solo_inv [of k True q r] solo_files [of k True q r] solo_spaces [OF a(1,3,4), of True]
    by (simp_all only: machine_of_invariants sched_inv_machine_of)
  have m: "mem ?s = mem k" by (simp add: solo_def)
  have "[Suc 0..<NUM_PROC] = 1 # 2 # [3..<NUM_PROC]" by (simp add: NUM_PROC_def upt_conv_Cons)
  then have f: "find_unused_process 0 ?s = Some (0, 2)"
    by (simp add: machine_of_invariants(3)) (simp add: find_unused_process_def solo_def solo_process_def zero_process_def del: upt_rec_numeral)
  have R: "solo_running True 0 = (0, 1)" by (simp add: solo_running_def)
  have "kavail ?s = kavail k"
    using same_kernel_eqs(2) [OF solo_kernel, of k True "solo_process True q r"] same_kernel_eqs(2) [OF machine_of_kernel [of ?u]] by simp
  then have c: "5 \<le> card (kavail ?s)" using a(5) by simp
  have d: "data_page (mem ?s) (map_of_process ?s (0, 1)) (vm_index 0x400000) = Some p"
    using a(2) by (simp add: solo_def solo_process_def)
  have tf: "?tf = pr_tf (process_table ?s (0, 1))" by (simp add: solo_def solo_process_def)
  have w: "tf_word ?tf 0 ?s = 0" "tf_word ?tf 33 ?s = 8"
    unfolding tf_word_def m using a(6,7) frame_words(5) [of q 0] frame_words(5) [of q 33] by simp_all
  have n: "pid_num ?s = 5" by (simp add: machine_of_def sys.defs solo_def)
  obtain t where "system_call 0 ?tf ?s = Inr (Finished (pid_num ?s) t) \<and> tf_word ?tf 0 t = scast (pid_num ?s) \<and>
    current_process t 0 = Some (0, 1) \<and> state_of t (0, 2) = PROC_READY \<and> tf_word (pr_tf (process_table t (0, 2))) 0 t = 0"
    using fork_returns_twice [OF inv _ _ c f _ _ _ _ _ , of p ?tf] R d tf w n by (auto simp: solo_def zero_process_def)
  then show ?thesis unfolding n using w(2) by (intro exI [of _ ?s] exI [of _ ?tf] exI [of _ t]) simp
qed

end
