(* ===== verification/Trap_Correct.thy ===== *)
theory Trap_Correct
  imports Trap_Handler Syscall_Process
begin

text \<open>
  Properties of exceptions and interrupts: what a trap frame saves and restores, the timer tick, and
  what a fault in user mode does.
\<close>

section \<open>Trap frames\<close>

lemma store_words_append:
  "store_words m a (xs @ ys) = store_words (store_words m a xs) (a + 8 * of_nat (length xs)) ys"
  by (induction xs arbitrary: m a) (simp_all add: algebra_simps)

lemma load_words_nth: "i < n \<Longrightarrow> load_words m a n ! i = load64 m (a + 8 * of_nat i)"
  by (induction n arbitrary: a i) (auto simp: nth_Cons algebra_simps split: nat.splits)

lemma length_load_words [simp]: "length (load_words m a n) = n"
  by (induction n arbitrary: a) simp_all

text \<open>The 36 words of the frame an exception with number \<open>n\<close> leaves on the stack.\<close>

definition frame_of :: "u64 \<Rightarrow> cpu_state \<Rightarrow> u64 list" where
  "frame_of n c = gprs c @ [sp_el0 c, n, esr_el1 c, elr_el1 c, spsr_el1 c]"

lemma handler_entry_frame:
  assumes "length (gprs c) = 31"
  shows "(let (d, m) = kernel_entry c m in (d, handler_entry n d m)) =
    (c\<lparr>sp_el1 := sp_el1 c - 288\<rparr>, store_words m (sp_el1 c - 288) (frame_of n c))"
proof -
  have f: "frame_of n c = (gprs c @ [sp_el0 c]) @ [n, esr_el1 c, elr_el1 c, spsr_el1 c]" by (simp add: frame_of_def)
  show ?thesis
    unfolding f store_words_append using assms by (simp add: kernel_entry_def handler_entry_def Let_def store_words_append)
qed

lemma entry_frames:
  assumes "length (gprs c) = 31"
  shows "sync_handler c m = (c\<lparr>sp_el1 := sp_el1 c - 288\<rparr>,
      store_words m (sp_el1 c - 288) (frame_of (if drop_bit 26 (esr_el1 c) = 0b010101 then 3 else 1) c))"
    "irq_handler c m = (c\<lparr>sp_el1 := sp_el1 c - 288\<rparr>, store_words m (sp_el1 c - 288) (frame_of 2 c))"
    "error_handler c m = (c\<lparr>sp_el1 := sp_el1 c - 288\<rparr>, store_words m (sp_el1 c - 288) (frame_of 0 c))"
proof -
  have e: "esr_el1 (fst (kernel_entry c m)) = esr_el1 c" by (simp add: kernel_entry_def Let_def)
  have "sync_handler c m = (let (d, m) = kernel_entry c m in
      (d, handler_entry (if drop_bit 26 (esr_el1 c) = 0b010101 then 3 else 1) d m))"
    by (simp add: sync_handler_def kernel_entry_def Let_def)
  then show "sync_handler c m = (c\<lparr>sp_el1 := sp_el1 c - 288\<rparr>,
      store_words m (sp_el1 c - 288) (frame_of (if drop_bit 26 (esr_el1 c) = 0b010101 then 3 else 1) c))"
    unfolding handler_entry_frame [OF assms] .
qed (simp_all only: irq_handler_def error_handler_def handler_entry_frame [OF assms])

lemma frame_loads:
  assumes "length ws = n" "8 * n < 2 ^ 64" "\<forall>x. in_range a (8 * n) x \<longrightarrow> m x = store_words m0 a ws x"
  shows "load_words m a n = ws" "i < n \<Longrightarrow> load64 m (a + 8 * of_nat i) = ws ! i"
proof -
  have "load_words m a n = load_words (store_words m0 a ws) a n"
    using assms(2,3) by (intro load_words_cong) auto
  then show l: "load_words m a n = ws" using load_store_words [of ws m0 a] assms(1,2) by simp
  show "load64 m (a + 8 * of_nat i) = ws ! i" if "i < n" using load_words_nth [OF that, of m a] l by simp
qed

lemma load_words_take: "k \<le> n \<Longrightarrow> load_words m a k = take k (load_words m a n)"
  by (rule nth_equalityI) (simp_all add: load_words_nth)

text \<open>What \<open>trap_return\<close> makes of a frame with any 36 words.\<close>

lemma trap_return_frame:
  assumes "sp_el1 d = a" "load_words m a 36 = ws"
  shows "trap_return d m = d\<lparr>gprs := take 31 ws, sp_el0 := ws ! 31, elr_el1 := ws ! 34, spsr_el1 := ws ! 35, sp_el1 := a + 288\<rparr>"
proof -
  have w: "load64 m (a + 8 * of_nat i) = ws ! i" if "i < 36" for i using load_words_nth [OF that, of m a] assms(2) by simp
  have "load_words m a 31 = take 31 ws" using load_words_take [of 31 36 m a] assms(2) by simp
  moreover have "load64 m (a + 16 * 17 + 8) = ws ! 35" using w [of 35] by (simp add: add.commute)
  ultimately show ?thesis
    using w [of 31] w [of 34] assms(1) unfolding trap_return_def Let_def by simp
qed

lemma load_words_first: "0 < n \<Longrightarrow> 8 * n < 2 ^ 64 \<Longrightarrow> load_words (store64 m a v) a n = v # tl (load_words m a n)"
proof (rule nth_equalityI)
  fix i assume n: "0 < n" "8 * n < 2 ^ 64" and "i < length (load_words (store64 m a v) a n)"
  then have i: "i < n" by simp
  show "load_words (store64 m a v) a n ! i = (v # tl (load_words m a n)) ! i"
  proof (cases i)
    case 0
    then show ?thesis using load_words_nth [OF i, of "store64 m a v" a] by simp
  next
    case (Suc j)
    then have "apart a 8 (a + 8 * of_nat i) 8" using i n(2) by (subst apart_of_nat [where x = "8 * i"]) auto
    then show ?thesis
      using i Suc load_words_nth [OF i] by (simp add: nth_tl load64_store64_apart)
  qed
qed simp

text \<open>The number the frame records for an exception through entry \<open>i\<close> of the vector table.\<close>

definition trap_number :: "nat \<Rightarrow> cpu_state \<Rightarrow> u64" where
  "trap_number i c = (if i \<in> {4, 8} then (if drop_bit 26 (esr_el1 c) = 0b010101 then 3 else 1) else if i \<in> {5, 9} then 2 else 0)"

lemma vector_frames:
  assumes "i < 16" "length (gprs c) = 31"
  shows "(vector_table ! i) c m = (c\<lparr>sp_el1 := sp_el1 c - 288\<rparr>, store_words m (sp_el1 c - 288) (frame_of (trap_number i c) c))"
proof -
  have "i \<in> set [0..<16]" using assms(1) by simp
  moreover have "[0..<16] = [0, 1, 2, 3, 4, 5, 6, 7, 8, 9, 10, 11, 12, 13, 14, 15]" by (simp add: upt_conv_Cons)
  ultimately have "i \<in> {0, 1, 2, 3, 4, 5, 6, 7, 8, 9, 10, 11, 12, 13, 14, 15}" by simp
  then show ?thesis
    using entry_frames [OF assms(2), of m]
    by (elim insertE) (simp_all only: vector_table_def trap_number_def nth_Cons_0 nth_Cons_numeral, simp_all add: vector_table_def)
qed

section \<open>Properties of the frame\<close>

text \<open>
  C0: A trap frame holds the interrupted context.  Whatever entry of the vector table an exception
  takes, and whatever the handler does to the registers and to memory outside of the frame, \<open>trap_return\<close>
  restores the 31 general registers, the two stack pointers, the return address and the saved status that the
  entry found; a value stored in word 0 of the frame, as \<open>system_call\<close> does, is what the interrupted code
  finds in \<open>x0\<close> with all else unchanged.  The frame records the number of the exception: 2 for an interrupt, 3 for
  an SVC, 1 for another synchronous exception of an AArch64 source, and 0 for the rest.
\<close>

theorem trap_frame_round_trip:
  assumes "length (gprs c) = 31" "i < 16" "(vector_table ! i) c m = (e, m1)"
    and "sp_el1 d = sp_el1 e" "\<forall>x. in_range (sp_el1 e) 288 x \<longrightarrow> m2 x = m1 x"
  shows "trap_return d m2 =
      d\<lparr>gprs := gprs c, sp_el0 := sp_el0 c, elr_el1 := elr_el1 c, spsr_el1 := spsr_el1 c, sp_el1 := sp_el1 c\<rparr> \<and>
    trap_return d (store64 m2 (sp_el1 e) v) = (trap_return d m2)\<lparr>gprs := v # tl (gprs c)\<rparr> \<and>
    load64 m2 (sp_el1 e + 8 * 32) =
      (if i \<in> {4, 8} then (if drop_bit 26 (esr_el1 c) = 0b010101 then 3 else 1) else if i \<in> {5, 9} then 2 else 0) \<and>
    load64 m2 (sp_el1 e + 8 * 33) = esr_el1 c"
proof -
  let ?a = "sp_el1 c - 288"
  define n where "n = trap_number i c"
  have e: "e = c\<lparr>sp_el1 := ?a\<rparr>" "m1 = store_words m ?a (frame_of n c)"
    using vector_frames [OF assms(2,1), of m] assms(3) by (simp_all add: n_def)
  have l: "length (frame_of n c) = 36" using assms(1) by (simp add: frame_of_def)
  have m2: "\<forall>x. in_range ?a (8 * 36) x \<longrightarrow> m2 x = store_words m ?a (frame_of n c) x" using assms(5) e by simp
  note L = frame_loads [OF l _ m2, simplified]
  have nth: "frame_of n c ! 31 = sp_el0 c" "frame_of n c ! 32 = n" "frame_of n c ! 33 = esr_el1 c" "frame_of n c ! 34 = elr_el1 c"
      "frame_of n c ! 35 = spsr_el1 c" "take 31 (frame_of n c) = gprs c"
    using assms(1) by (simp_all add: frame_of_def nth_append)
  have r: "trap_return d m2 =
      d\<lparr>gprs := gprs c, sp_el0 := sp_el0 c, elr_el1 := elr_el1 c, spsr_el1 := spsr_el1 c, sp_el1 := sp_el1 c\<rparr>"
    using trap_return_frame [OF _ L(1)] assms(4) e(1) by (simp add: nth)
  moreover have "trap_return d (store64 m2 ?a v) = (trap_return d m2)\<lparr>gprs := v # tl (gprs c)\<rparr>"
  proof -
    have w: "load_words (store64 m2 ?a v) ?a 36 = v # tl (frame_of n c)" using load_words_first [of 36 m2 ?a v] L(1) by simp
    obtain g gs where g: "gprs c = g # gs" using assms(1) by (cases "gprs c") auto
    have "take 31 (v # tl (frame_of n c)) = v # tl (gprs c)" "(v # tl (frame_of n c)) ! 31 = sp_el0 c"
      "(v # tl (frame_of n c)) ! 34 = elr_el1 c" "(v # tl (frame_of n c)) ! 35 = spsr_el1 c"
      using assms(1) by (simp_all add: frame_of_def g nth_append nth_Cons')
    then show ?thesis unfolding r using trap_return_frame [OF _ w] assms(4) e(1) by simp
  qed
  moreover have "load64 m2 (?a + 8 * 32) = trap_number i c" using L(2) [of 32] nth(2) by (simp add: n_def)
  ultimately show ?thesis using e(1) L(2) [of 33] nth(3) by (simp add: trap_number_def)
qed

theorem trap_frame_round_trip_witness:
  "\<exists>e m1. (vector_table ! 9) \<lparr>gprs = replicate 31 7, sp_el0 = 0x600000, sp_el1 = 0xffff000000200000, elr_el1 = 0x400010, spsr_el1 = 0, esr_el1 = 0\<rparr>
      (\<lambda>_. 0) = (e, m1) \<and> load64 m1 (sp_el1 e + 256) = 2 \<and>
    trap_return \<lparr>gprs = [], sp_el0 = 0, sp_el1 = sp_el1 e, elr_el1 = 1, spsr_el1 = 5, esr_el1 = 0\<rparr> m1 =
      \<lparr>gprs = replicate 31 7, sp_el0 = 0x600000, sp_el1 = 0xffff000000200000, elr_el1 = 0x400010, spsr_el1 = 0, esr_el1 = 0\<rparr>"
proof -
  let ?c = "\<lparr>gprs = replicate 31 7, sp_el0 = 0x600000, sp_el1 = 0xffff000000200000, elr_el1 = 0x400010, spsr_el1 = 0, esr_el1 = 0\<rparr>"
  obtain e m1 where e: "(vector_table ! 9) ?c (\<lambda>_. 0) = (e, m1)" by (cases "(vector_table ! 9) ?c (\<lambda>_. 0)")
  from trap_frame_round_trip [OF _ _ this, of "\<lparr>gprs = [], sp_el0 = 0, sp_el1 = sp_el1 e, elr_el1 = 1, spsr_el1 = 5, esr_el1 = 0\<rparr>" m1]
  show ?thesis using e by simp
qed

section \<open>The scheduler under an interrupt\<close>

lemma schedule_more:
  fixes s :: "'a sys_scheme"
  shows "schedule c s = Inr f \<Longrightarrow> sys.more (settle f) = sys.more s"
  by (auto simp: schedule_def rbind_elims remove_list_head_def set_link_def set_head_def upd_process_def switch_process_def swap_def
      switch_vm_def resume_def spin_unlock_def Let_def split: if_splits option.splits)

lemma schedule_unlock_more:
  fixes s :: "'a sys_scheme"
  assumes "schedule_unlock c s = Inr f"
  shows "sys.more (settle f) = sys.more s"
proof -
  obtain g where g: "schedule c s = Inr g"
    using assms by (auto simp: schedule_unlock_def rbind_elims)
  then show ?thesis
    using assms schedule_more [OF g] by (cases g) (auto simp: schedule_unlock_def spin_unlock_def)
qed

lemma yield_more:
  fixes s :: "'a sys_scheme"
  assumes "yield c s = Inr f"
  shows "sys.more (settle f) = sys.more s"
  using assms
  by (auto simp: yield_def rbind_elims spin_lock_def upd_process_def spin_unlock_def Let_def
      split: if_splits option.splits dest!: append_list_tail_more schedule_unlock_more)

lemma wait_of_machine [simp]:
  "wait_of (s\<lparr>io_reads := r\<rparr>) p = wait_of s p" "wait_of (s\<lparr>ticks := n\<rparr>) p = wait_of s p"
  by simp_all

lemma timer_interrupt_run:
  fixes c :: nat
  assumes "sched_inv s Q R"
  defines "Q' \<equiv> (if timer_ctl s c AND 4 \<noteq> 0 then woken {..<MAXCORES} (- 1) (wait_of s) Q else Q)"
  shows "\<exists>t. timer_interrupt_handler c s = Inr t \<and> sched_inv t Q' R \<and>
    ticks t = (if timer_ctl s c AND 4 \<noteq> 0 then ticks s + 1 else ticks s) \<and> core_ticks t = core_ticks s"
proof (cases "timer_ctl s c AND 4 = 0")
  case True
  then show ?thesis using assms(1) by (simp add: timer_interrupt_handler_def read_timer_status_def Q'_def)
next
  case False
  have i: "sched_inv (s\<lparr>ticks := ticks s + 1\<rparr>) Q R" using assms(1) by simp
  obtain t where t: "wake_up (- 1) (s\<lparr>ticks := ticks s + 1\<rparr>) = Inr t"
      "sched_inv t (woken {..<MAXCORES} (- 1) (wait_of (s\<lparr>ticks := ticks s + 1\<rparr>)) Q) R"
    using wake_up_law [OF i, of "- 1"] by blast
  note m = machine_more [OF wake_up_more [OF t(1)]]
  show ?thesis
    using t False m by (simp add: timer_interrupt_handler_def read_timer_status_def Q'_def set_timer_interval_def)
qed

lemma resched_run:
  fixes s :: "'a machine_scheme"
  assumes "sched_inv s Q R" "c < MAXCORES"
  shows "\<exists>r t. handler_end c True s = Inr r \<and> ticks t = ticks s \<and> core_ticks t = core_ticks s \<and>
    (case Q (Ready c) of
       [] \<Rightarrow> r = Back t \<and> sched_inv t Q R
     | x # xs \<Rightarrow> (\<exists>u. r = Switched u \<and> t = resume u) \<and>
         sched_inv t (Q(Ready c := (if R c = (c, 0) then xs else xs @ [R c]))) (R(c := x)))"
proof -
  obtain f where f: "yield c s = Inr f" and
      y: "case Q (Ready c) of [] \<Rightarrow> f = Stay s
        | x # xs \<Rightarrow> f \<noteq> Stay (settle f) \<and>
            sched_inv (settle f) (Q(Ready c := (if R c = (c, 0) then xs else xs @ [R c]))) (R(c := x))"
    using yield_law [OF assms] by blast
  note m = machine_more [OF yield_more [OF f]]
  show ?thesis
  proof (cases "Q (Ready c)")
    case Nil
    then have "handler_end c True s = Inr (Back s)" using f y by (simp add: handler_end_def)
    then show ?thesis using Nil assms(1) by auto
  next
    case (Cons x xs)
    then obtain u where u: "f = Switch u" using y by (cases f) auto
    then have "handler_end c True s = Inr (Switched u)" using f by (simp add: handler_end_def)
    then show ?thesis using Cons u y m by (intro exI [of _ "Switched u"] exI [of _ "resume u"]) simp
  qed
qed

section \<open>Properties of interrupts\<close>

text \<open>
  C18: A timer interrupt.  The core counts its tick; if its timer has expired the clock advances by
  one (so every core advances it) and the processes that sleep on the clock, on every core, move to the ready
  lists in order; then the core goes on with the first ready process, the interrupted one going to
  the back of the ready list unless it is the idle process, or returns to it when none is ready.
\<close>

theorem timer_tick:
  assumes "sched_inv s Q R" "c < MAXCORES" "tf_word tf 32 s = 2"
    and "dev (CNTP_STATUS_EL0 + of_nat c * 4) (io_reads s (CNTP_STATUS_EL0 + of_nat c * 4)) AND 2 \<noteq> 0"
  shows "\<exists>r t. handler dev c tf s = Inr r \<and> core_ticks t = (core_ticks s)(c := core_ticks s c + 1) \<and>
    ticks t = (if timer_ctl s c AND 4 \<noteq> 0 then ticks s + 1 else ticks s) \<and>
    (let Q' = (if timer_ctl s c AND 4 \<noteq> 0 then woken {..<MAXCORES} (- 1) (wait_of s) Q else Q)
     in case Q' (Ready c) of
          [] \<Rightarrow> r = Back t \<and> sched_inv t Q' R
        | x # xs \<Rightarrow> (\<exists>u. r = Switched u \<and> t = resume u) \<and>
            sched_inv t (Q'(Ready c := (if R c = (c, 0) then xs else xs @ [R c]))) (R(c := x)))"
proof -
  let ?a = "CNTP_STATUS_EL0 + of_nat c * 4"
  define s1 where "s1 = s\<lparr>io_reads := (io_reads s)(?a := io_reads s ?a + 1)\<rparr>"
  define Q' where "Q' = (if timer_ctl s c AND 4 \<noteq> 0 then woken {..<MAXCORES} (- 1) (wait_of s) Q else Q)"
  have i1: "sched_inv s1 Q R" and e: "timer_ctl s1 = timer_ctl s" "wait_of s1 = wait_of s" "ticks s1 = ticks s"
      "core_ticks s1 = core_ticks s"
    using assms(1) by (simp_all add: s1_def)
  obtain s2 where s2: "timer_interrupt_handler c s1 = Inr s2" "sched_inv s2 Q' R"
      "ticks s2 = (if timer_ctl s c AND 4 \<noteq> 0 then ticks s + 1 else ticks s)" "core_ticks s2 = core_ticks s"
    using timer_interrupt_run [OF i1, of c] unfolding e Q'_def [symmetric] by blast
  define s3 where "s3 = s2\<lparr>core_ticks := (core_ticks s2)(c := core_ticks s2 c + 1)\<rparr>"
  have i3: "sched_inv s3 Q' R" using s2(2) by (simp add: s3_def)
  have "handler dev c tf s = handler_end c True s3"
    using assms(3,4) s2(1) by (simp add: handler_def trap_irq_def in_word_def s1_def s3_def)
  moreover have "ticks s3 = ticks s2" "core_ticks s3 = (core_ticks s)(c := core_ticks s c + 1)"
    by (simp_all add: s3_def s2(4))
  moreover obtain r t where t: "handler_end c True s3 = Inr r" "ticks t = ticks s3" "core_ticks t = core_ticks s3"
      "case Q' (Ready c) of
         [] \<Rightarrow> r = Back t \<and> sched_inv t Q' R
       | x # xs \<Rightarrow> (\<exists>u. r = Switched u \<and> t = resume u) \<and>
           sched_inv t (Q'(Ready c := (if R c = (c, 0) then xs else xs @ [R c]))) (R(c := x))"
    using resched_run [OF i3 assms(2)] by blast
  ultimately show ?thesis
    unfolding Q'_def [symmetric] Let_def
    by (intro exI [of _ r] exI [of _ t] conjI t(4)) (simp_all only: t(1-3) s2(3))
qed

lemma sched_inv_control [simp]:
  "sched_inv (s\<lparr>timer_ctl := k\<rparr>) Q R \<longleftrightarrow> sched_inv s Q R" "sched_inv (s\<lparr>mem := m\<rparr>) Q R \<longleftrightarrow> sched_inv s Q R"
  "sched_inv (s\<lparr>console := out\<rparr>) Q R \<longleftrightarrow> sched_inv s Q R"
  by (simp_all add: sched_inv_def sched_rep_def placed_def lists_rep_def)

theorem timer_tick_witness:
  "\<exists>t. handler (\<lambda>_ _. 2) 0 0x1000 ((machine_of two_ready)\<lparr>mem := store64 (\<lambda>_. 0) 0x1100 2, timer_ctl := (\<lambda>_. 4)\<rparr>) = Inr (Switched t) \<and>
    ticks (resume t) = 1 \<and> current_process (resume t) 0 = Some (0, 1)"
proof -
  let ?s = "(machine_of two_ready)\<lparr>mem := store64 (\<lambda>_. 0) 0x1100 2, timer_ctl := (\<lambda>_. 4)\<rparr>"
  have inv: "sched_inv ?s two_queue (\<lambda>c. (c, 0))" using two_ready_inv by simp
  have q: "(if timer_ctl ?s 0 AND 4 \<noteq> 0 then woken {..<MAXCORES} (- 1) (wait_of ?s) two_queue else two_queue) (Ready 0) = [(0, 1), (0, 2)]"
    by (simp add: woken_def two_queue_def)
  have w: "tf_word 0x1000 32 ?s = 2" by (simp add: tf_word_def)
  have c: "(0 :: nat) < MAXCORES" by (simp add: MAXCORES_def)
  obtain r t where r: "handler (\<lambda>_ _. 2) 0 0x1000 ?s = Inr r" "ticks t = 1" "\<exists>u. r = Switched u \<and> t = resume u"
      "\<exists>Q'. sched_inv t Q' ((\<lambda>c. (c, 0))(0 := (0, 1)))"
    using timer_tick [OF inv c w, of "\<lambda>_ _. 2", unfolded Let_def q list.case] by auto
  then show ?thesis using sched_invD(2) [OF _ c] by fastforce
qed

section \<open>Faults\<close>

lemma fault_messages:
  assumes "\<not> locks s Print_lock"
  shows "\<exists>n out. printk (''sync error occurs in process %d'' @ crlf) [Int_arg i] s = Inr (n, s\<lparr>console := out\<rparr>)"
    "\<exists>n out. printk (''curcore %d sync error at %x: %x'' @ crlf) [Int_arg i, Int_arg j, Int_arg k] s = Inr (n, s\<lparr>console := out\<rparr>)"
    "\<exists>n out. printk (''unknown exception'' @ crlf) [] s = Inr (n, s\<lparr>console := out\<rparr>)"
proof -
  have "\<exists>out. format_spec (''sync error occurs in process %d'' @ crlf) [Int_arg i] = Some out \<and> length out \<le> 1024"
    "\<exists>out. format_spec (''curcore %d sync error at %x: %x'' @ crlf) [Int_arg i, Int_arg j, Int_arg k] = Some out \<and> length out \<le> 1024"
    "\<exists>out. format_spec (''unknown exception'' @ crlf) [] = Some out \<and> length out \<le> 1024"
    using decimal_length [of i] hex_length [of j] hex_length [of k] by (simp_all add: conv_spec_def crlf_def)
  then show "\<exists>n out. printk (''sync error occurs in process %d'' @ crlf) [Int_arg i] s = Inr (n, s\<lparr>console := out\<rparr>)"
    "\<exists>n out. printk (''curcore %d sync error at %x: %x'' @ crlf) [Int_arg i, Int_arg j, Int_arg k] s = Inr (n, s\<lparr>console := out\<rparr>)"
    "\<exists>n out. printk (''unknown exception'' @ crlf) [] s = Inr (n, s\<lparr>console := out\<rparr>)"
    using printk_fits [OF _ _ assms] by fastforce+
qed

text \<open>
  C30: A fault in user mode ends the process and nothing else.  When a synchronous exception
  other than a system call interrupts process \<open>R c\<close> in user mode, the process moves to
  the killed list, its waiters on every core wake, and the core goes on with the next ready process; the
  same exception in the kernel, and an exception of an unexpected kind, stop the core.
\<close>

theorem fault_ends_process:
  assumes "sched_inv s Q R" "c < MAXCORES" "slot (R c)" "\<not> locks s Print_lock" "tf_word tf 32 s \<noteq> 2" "tf_word tf 32 s \<noteq> 3"
  shows "if tf_word tf 32 s = 1 \<and> tf_word tf 35 s AND 0xf = 0
    then \<exists>t. handler dev c tf s = Inr (Ended t) \<and> state_of t (R c) = PROC_KILLED \<and>
      (let Q' = woken {..<MAXCORES} (- 3) (wait_of s) (Q(Killed c := Q (Killed c) @ [R c]))
       in sched_inv (resume t) (Q'(Ready c := tl (Q' (Ready c)))) (R(c := pick_next c Q')))
    else handler dev c tf s = Inl Diverge"
proof (cases "tf_word tf 32 s = 1 \<and> tf_word tf 35 s AND 0xf = 0")
  case False
  obtain n1 o1 where m1: "printk (''curcore %d sync error at %x: %x'' @ crlf)
      [Int_arg (of_nat c), Int_arg (tf_word tf 34 s), Int_arg (tf_word tf 33 s)] s = Inr (n1, s\<lparr>console := o1\<rparr>)"
    using fault_messages(2) [OF assms(4)] by blast
  obtain n2 o2 where "printk (''unknown exception'' @ crlf) [] s = Inr (n2, s\<lparr>console := o2\<rparr>)"
    using fault_messages(3) [OF assms(4)] by blast
  then show ?thesis
    using False m1 assms(5,6) by (auto simp: handler_def trap_sync_def)
next
  case True
  let ?Q = "woken {..<MAXCORES} (- 3) (wait_of s) (Q(Killed c := Q (Killed c) @ [R c]))"
  obtain n out where p: "printk (''sync error occurs in process %d'' @ crlf) [Int_arg (scast (pid_of s (R c)))] s = Inr (n, s\<lparr>console := out\<rparr>)"
    using fault_messages(1) [OF assms(4)] by blast
  have i: "sched_inv (s\<lparr>console := out\<rparr>) Q R" using assms(1) by simp
  obtain t where t: "exit_process c (s\<lparr>console := out\<rparr>) = Inr (Switch t)"
      "sched_inv (resume t) (?Q(Ready c := tl (?Q (Ready c)))) (R(c := pick_next c ?Q))"
    using exit_law [OF i assms(2,3)] by (auto simp del: woken_def)
  have "R c \<in> set ((?Q(Ready c := tl (?Q (Ready c)))) (Killed c))" by (simp add: woken_def)
  from listed_state [OF sched_invD(1) [OF t(2)] this] have "state_of t (R c) = PROC_KILLED" by (simp add: resume_def spin_unlock_def)
  moreover have "handler dev c tf s = Inr (Ended t)"
    using True p t(1) sched_invD(2) [OF assms(1,2)] by (simp add: handler_def trap_sync_def)
  ultimately show ?thesis using True t(2) by (simp add: Let_def)
qed

theorem fault_ends_process_witness:
  "\<exists>(s :: machine) t. current_process s 0 = Some (0, 1) \<and> handler (\<lambda>_ _. 0) 0 0x1000 s = Inr (Ended t) \<and> state_of t (0, 1) = PROC_KILLED"
proof -
  define k :: kernel where "k = \<lparr>mem = store64 (\<lambda>_. 0) 0x1100 1, console = [], locks = (\<lambda>_. False), sym_end = 0, sym_allocator = 0\<rparr>"
  let ?s = "machine_of (solo k True (solo_process True 0 0))"
  have m: "mem ?s = store64 (\<lambda>_. 0) 0x1100 1" by (simp add: solo_def k_def)
  have "apart 0x1100 8 0x1118 8" by (simp add: apart_def)
  then have w: "tf_word 0x1000 32 ?s = 1" "tf_word 0x1000 35 ?s = 0"
    unfolding tf_word_def m by (simp_all add: load64_store64_apart load64_zero)
  have R: "solo_running True 0 = (0, 1)" by (simp add: solo_running_def)
  have inv: "sched_inv ?s (solo_queue True) (solo_running True)" using solo_inv by simp
  have l: "\<not> locks ?s Print_lock" by (simp add: solo_def)
  have c: "(0 :: nat) < MAXCORES" by (simp add: MAXCORES_def)
  obtain t where "handler (\<lambda>_ _. 0) 0 0x1000 ?s = Inr (Ended t)" "state_of t (0, 1) = PROC_KILLED"
    using fault_ends_process [OF inv c _ l, of "0x1000" "\<lambda>_ _. 0"] w R by auto
  then show ?thesis using R sched_invD(2) [OF inv c] by (intro exI [of _ ?s] exI [of _ t]) simp
qed

end
