(* ===== verification/Spinlock.thy ===== *)
theory Spinlock
  imports Kernel_State
begin

text \<open>
  The spin lock of src/src/liba.s, instruction by instruction, under every interleaving of the cores.
  The state is the lock word, the exclusive reservation of every core and, per core, the program
  point and the registers \<open>w1\<close>, \<open>w2\<close> and \<open>w3\<close>.  \<open>ldaxr\<close> takes a reservation, any store to the word
  clears the reservations of all cores, a core may lose its own at any time, and \<open>stxr\<close> stores only
  with a reservation: this is the architecture's exclusive monitor.  Accesses to the one word are
  ordered by coherence, so one shared value is enough.

  The lemmas give mutual exclusion, and that the word refines the boolean lock of theory
  \<open>Kernel_State\<close>: taking a lock that is free sets it and taking one that is held does not return.
\<close>

section \<open>The instructions\<close>

text \<open>\<open>Outside\<close> and \<open>Critical\<close> are the code before a call of \<open>spin_lock\<close> and after its return.\<close>

datatype lock_pc = Outside | L_mov | L_ldaxr | L_cbnz | L_yield | L_stxr | L_done | Critical | U_stlr

record spin_state =
  lock_word :: u32
  reserved :: "nat \<Rightarrow> bool"
  lock_pc :: "nat \<Rightarrow> lock_pc"
  w1 :: "nat \<Rightarrow> u32"
  w2 :: "nat \<Rightarrow> u32"
  w3 :: "nat \<Rightarrow> u32"

definition goto :: "nat \<Rightarrow> lock_pc \<Rightarrow> spin_state \<Rightarrow> spin_state" where
  "goto c p s = s\<lparr>lock_pc := (lock_pc s)(c := p)\<rparr>"

text \<open>A store to the lock word; it ends every reservation.\<close>

definition store_word :: "u32 \<Rightarrow> spin_state \<Rightarrow> spin_state" where
  "store_word w s = s\<lparr>lock_word := w, reserved := (\<lambda>_. False)\<rparr>"

text \<open>The next instruction of \<open>spin_lock\<close> or \<open>spin_unlock\<close> on core \<open>c\<close>.\<close>

definition spin_instr :: "nat \<Rightarrow> spin_state \<Rightarrow> spin_state option" where
  "spin_instr c s = (case lock_pc s c of
     Outside \<Rightarrow> None
   | L_mov \<Rightarrow> Some (goto c L_ldaxr (s\<lparr>w1 := (w1 s)(c := 1)\<rparr>))
   | L_ldaxr \<Rightarrow> Some (goto c L_cbnz (s\<lparr>w2 := (w2 s)(c := lock_word s), reserved := (reserved s)(c := True)\<rparr>))
   | L_cbnz \<Rightarrow> Some (goto c (if w2 s c \<noteq> 0 then L_yield else L_stxr) s)
   | L_yield \<Rightarrow> Some (goto c L_ldaxr s)
   | L_stxr \<Rightarrow> Some (goto c L_done
       (if reserved s c then store_word (w1 s c) (s\<lparr>w3 := (w3 s)(c := 0)\<rparr>) else s\<lparr>w3 := (w3 s)(c := 1)\<rparr>))
   | L_done \<Rightarrow> Some (goto c (if w3 s c \<noteq> 0 then L_ldaxr else Critical) s)
   | Critical \<Rightarrow> None
   | U_stlr \<Rightarrow> Some (goto c Outside (store_word 0 s)))"

text \<open>
  What a core does: it calls \<open>spin_lock\<close>, it executes an instruction, it loses its reservation, it calls
  \<open>spin_unlock\<close>, or it calls \<open>spin_unlock\<close> without holding the lock.
\<close>

datatype lock_event = Call_lock | Instr | Lose | Call_unlock | Stray_unlock

fun spin_step :: "nat \<Rightarrow> lock_event \<Rightarrow> spin_state \<Rightarrow> spin_state option" where
  "spin_step c Call_lock s = (if lock_pc s c = Outside then Some (goto c L_mov s) else None)"
| "spin_step c Instr s = spin_instr c s"
| "spin_step c Lose s = Some (s\<lparr>reserved := (reserved s)(c := False)\<rparr>)"
| "spin_step c Call_unlock s = (if lock_pc s c = Critical then Some (goto c U_stlr s) else None)"
| "spin_step c Stray_unlock s = (if lock_pc s c = Outside then Some (goto c U_stlr s) else None)"

fun spin_run :: "(nat \<times> lock_event) list \<Rightarrow> spin_state \<Rightarrow> spin_state option" where
  "spin_run [] s = Some s"
| "spin_run ((c, e) # es) s = Option.bind (spin_step c e s) (spin_run es)"

definition spin_start :: spin_state where
  "spin_start = \<lparr>lock_word = 0, reserved = (\<lambda>_. False), lock_pc = (\<lambda>_. Outside), w1 = (\<lambda>_. 0), w2 = (\<lambda>_. 0), w3 = (\<lambda>_. 0)\<rparr>"

section \<open>The invariant\<close>

definition holds_lock :: "nat \<Rightarrow> spin_state \<Rightarrow> bool" where
  "holds_lock c s \<longleftrightarrow> lock_pc s c \<in> {Critical, U_stlr} \<or> lock_pc s c = L_done \<and> w3 s c = 0"

definition spin_inv :: "spin_state \<Rightarrow> bool" where
  "spin_inv s \<longleftrightarrow>
     (\<forall>c. lock_pc s c \<in> {L_cbnz, L_stxr} \<and> reserved s c \<longrightarrow> w2 s c = lock_word s) \<and>
     (\<forall>c. lock_pc s c = L_stxr \<longrightarrow> w2 s c = 0) \<and>
     (\<forall>c. lock_pc s c \<in> {L_ldaxr, L_cbnz, L_yield, L_stxr, L_done} \<longrightarrow> w1 s c = 1) \<and>
     (\<forall>c d. holds_lock c s \<and> holds_lock d s \<longrightarrow> c = d) \<and>
     (lock_word s \<noteq> 0 \<longleftrightarrow> (\<exists>c. holds_lock c s))"

lemma spin_invD:
  assumes "spin_inv s"
  shows "lock_pc s c \<in> {L_cbnz, L_stxr} \<Longrightarrow> reserved s c \<Longrightarrow> w2 s c = lock_word s"
    "lock_pc s c = L_stxr \<Longrightarrow> reserved s c \<Longrightarrow> lock_word s = 0" "lock_pc s c = L_stxr \<Longrightarrow> w2 s c = 0"
    "lock_pc s c \<in> {L_ldaxr, L_cbnz, L_yield, L_stxr, L_done} \<Longrightarrow> w1 s c = 1"
    "holds_lock c s \<Longrightarrow> holds_lock d s \<Longrightarrow> c = d" "lock_word s \<noteq> 0 \<longleftrightarrow> (\<exists>c. holds_lock c s)"
  using assms unfolding spin_inv_def by fastforce+

lemma spin_inv_start: "spin_inv spin_start"
  by (simp add: spin_inv_def spin_start_def holds_lock_def)

text \<open>A step that does not store and after which the same cores hold the lock.\<close>

lemma spin_inv_quiet:
  assumes inv: "spin_inv s" and "lock_word t = lock_word s" "\<And>d. holds_lock d t \<longleftrightarrow> holds_lock d s"
    and "\<And>d. lock_pc t d \<in> {L_cbnz, L_stxr} \<Longrightarrow> reserved t d \<Longrightarrow> w2 t d = lock_word t"
    and "\<And>d. lock_pc t d = L_stxr \<Longrightarrow> w2 t d = 0"
    and "\<And>d. lock_pc t d \<in> {L_ldaxr, L_cbnz, L_yield, L_stxr, L_done} \<Longrightarrow> w1 t d = 1"
  shows "spin_inv t"
  unfolding spin_inv_def
proof (intro conjI)
  show "\<forall>c. lock_pc t c \<in> {L_cbnz, L_stxr} \<and> reserved t c \<longrightarrow> w2 t c = lock_word t" using assms(4) by blast
  show "\<forall>c. lock_pc t c = L_stxr \<longrightarrow> w2 t c = 0" using assms(5) by blast
  show "\<forall>c. lock_pc t c \<in> {L_ldaxr, L_cbnz, L_yield, L_stxr, L_done} \<longrightarrow> w1 t c = 1" using assms(6) by blast
  show "\<forall>c d. holds_lock c t \<and> holds_lock d t \<longrightarrow> c = d"
    unfolding assms(3) using spin_invD(5) [OF inv] by blast
  show "(lock_word t \<noteq> 0) = (\<exists>c. holds_lock c t)"
    unfolding assms(2,3) by (rule spin_invD(6) [OF inv])
qed

lemma spin_inv_instr:
  assumes inv: "spin_inv s" and step: "spin_instr c s = Some t"
  shows "spin_inv t"
proof (cases "lock_pc s c")
  case L_stxr
  show ?thesis
  proof (cases "reserved s c")
    case True
    then have none: "\<not> holds_lock d s" for d using spin_invD(2,6) [OF inv] L_stxr by blast
    have "w1 s c = 1" using spin_invD(4) [OF inv] L_stxr by simp
    then have t: "t = goto c L_done (store_word 1 (s\<lparr>w3 := (w3 s)(c := 0)\<rparr>))"
      using step L_stxr True by (simp add: spin_instr_def)
    have "holds_lock d t \<longleftrightarrow> d = c" for d
      using none [of d] by (auto simp: t holds_lock_def goto_def store_word_def)
    moreover have "\<not> reserved t d" "lock_word t \<noteq> 0" for d by (simp_all add: t goto_def store_word_def)
    moreover have "lock_pc t d = L_stxr \<Longrightarrow> w2 t d = 0" for d
      using spin_invD(3) [OF inv] by (simp add: t goto_def store_word_def split: if_splits)
    moreover have "lock_pc t d \<in> {L_ldaxr, L_cbnz, L_yield, L_stxr, L_done} \<Longrightarrow> w1 t d = 1" for d
      using spin_invD(4) [OF inv, of d] L_stxr by (cases "d = c") (simp_all add: t goto_def store_word_def)
    ultimately show ?thesis unfolding spin_inv_def by simp
  next
    case False
    show ?thesis
      by (rule spin_inv_quiet [OF inv]; use inv step L_stxr False in \<open>auto simp: spin_instr_def goto_def holds_lock_def dest: spin_invD split: if_splits\<close>)
  qed
next
  case U_stlr
  then have h: "holds_lock d s \<longleftrightarrow> d = c" for d using spin_invD(5) [OF inv, of c d] by (auto simp: holds_lock_def)
  have t: "t = goto c Outside (store_word 0 s)" using step U_stlr by (simp add: spin_instr_def)
  have "\<not> holds_lock d t" for d
    using h [of d] by (auto simp: t holds_lock_def goto_def store_word_def)
  moreover have "\<not> reserved t d" "lock_word t = 0" for d by (simp_all add: t goto_def store_word_def)
  moreover have "lock_pc t d = L_stxr \<Longrightarrow> w2 t d = 0" for d
    using spin_invD(3) [OF inv] by (simp add: t goto_def store_word_def split: if_splits)
  moreover have "lock_pc t d \<in> {L_ldaxr, L_cbnz, L_yield, L_stxr, L_done} \<Longrightarrow> w1 t d = 1" for d
    using spin_invD(4) [OF inv, of d] by (cases "d = c") (simp_all add: t goto_def store_word_def)
  ultimately show ?thesis unfolding spin_inv_def by simp
qed (rule spin_inv_quiet [OF inv]; use inv step in \<open>auto simp: spin_instr_def goto_def holds_lock_def dest: spin_invD split: if_splits\<close>)+

lemma spin_inv_step:
  assumes inv: "spin_inv s" and step: "spin_step c e s = Some t" and ok: "e \<noteq> Stray_unlock"
  shows "spin_inv t"
proof (cases e)
  case Instr
  then show ?thesis using spin_inv_instr [OF inv] step by simp
next
  case Stray_unlock
  then show ?thesis using ok by simp
qed ((rule spin_inv_quiet [OF inv]; use inv step in \<open>auto simp: goto_def holds_lock_def dest: spin_invD split: if_splits\<close>)+)

lemma spin_inv_run:
  assumes "spin_inv s" "spin_run es s = Some t" "\<forall>(c, e) \<in> set es. e \<noteq> Stray_unlock"
  shows "spin_inv t"
  using assms
proof (induction es s rule: spin_run.induct)
  case (2 c e es s)
  then obtain u where u: "spin_step c e s = Some u" "spin_run es u = Some t" by (auto simp: bind_eq_Some_conv)
  have "spin_inv u" using spin_inv_step [OF 2(2) u(1)] 2(4) by simp
  then show ?case using 2(1) [OF u(1)] u 2(4) by simp
qed simp

section \<open>The abstract lock\<close>

text \<open>
  The abstract lock remembers its holder.  \<open>abs_lock\<close> reads it off the machine state; a step of a core
  is an acquisition of a free lock, a release by the holder, or invisible.
\<close>

definition holder :: "spin_state \<Rightarrow> nat option" where
  "holder s = (if lock_word s = 0 then None else Some (THE c. holds_lock c s))"

inductive abs_lock_step :: "nat \<Rightarrow> nat option \<Rightarrow> nat option \<Rightarrow> bool" where
  acquire: "abs_lock_step c None (Some c)"
| release: "abs_lock_step c (Some c) None"
| stutter: "abs_lock_step c h h"

inductive_simps abs_lock_step_iff: "abs_lock_step c h h'"

lemma holder_eq:
  assumes "spin_inv s"
  shows "holder s = Some c \<longleftrightarrow> holds_lock c s" "holder s = None \<longleftrightarrow> lock_word s = 0"
proof -
  have "(THE d. holds_lock d s) = c" if "holds_lock c s" for c
    using that spin_invD(5) [OF assms] by blast
  then show "holder s = Some c \<longleftrightarrow> holds_lock c s" "holder s = None \<longleftrightarrow> lock_word s = 0"
    using spin_invD(6) [OF assms] by (auto simp: holder_def)
qed

text \<open>A step of a core does not change what another core holds.\<close>

lemma holds_lock_others:
  assumes "spin_step c e s = Some t" "d \<noteq> c"
  shows "holds_lock d t \<longleftrightarrow> holds_lock d s"
  using assms
  by (cases e) (auto simp: spin_instr_def goto_def store_word_def holds_lock_def split: lock_pc.splits if_splits)

lemma abs_lock_cases:
  assumes "\<And>d. h = Some d \<Longrightarrow> d \<noteq> c \<Longrightarrow> h' = Some d" "\<And>d. h' = Some d \<Longrightarrow> d \<noteq> c \<Longrightarrow> h = Some d"
  shows "abs_lock_step c h h'"
  using assms by (cases h; cases h') (auto simp: abs_lock_step_iff)

section \<open>Running one core\<close>

text \<open>A core that runs alone gets a free lock, and spins on a lock that is held.\<close>

lemma run_alone:
  assumes "lock_pc s c = L_mov" "lock_word s = 0"
  shows "\<exists>t. spin_run (replicate 5 (c, Instr)) s = Some t \<and> lock_pc t c = Critical \<and> lock_word t \<noteq> 0"
  using assms by (simp add: numeral_eq_Suc spin_instr_def goto_def store_word_def)

definition spinning :: "nat \<Rightarrow> spin_state \<Rightarrow> bool" where
  "spinning c s \<longleftrightarrow> lock_word s \<noteq> 0 \<and>
     (lock_pc s c \<in> {L_mov, L_ldaxr, L_yield} \<or> lock_pc s c = L_cbnz \<and> w2 s c \<noteq> 0)"

lemma spinning_instr:
  assumes "spinning c s"
  shows "\<exists>t. spin_instr c s = Some t \<and> spinning c t"
  using assms by (auto simp: spinning_def spin_instr_def goto_def)

lemma spinning_run:
  assumes "spinning c s"
  shows "\<exists>t. spin_run (replicate n (c, Instr)) s = Some t \<and> spinning c t"
  using assms
proof (induction n arbitrary: s)
  case (Suc n)
  obtain u where "spin_instr c s = Some u" "spinning c u" using spinning_instr [OF Suc.prems] by blast
  then show ?case using Suc.IH [of u] by simp
qed simp

section \<open>Properties\<close>

text \<open>
  C5: The spin lock excludes.  Whatever the interleaving of any number of cores, with reservations lost at
  any time, two cores that are both past \<open>spin_lock\<close> are the same core, as long as no core calls
  \<open>spin_unlock\<close> on a lock it does not hold.
\<close>

theorem spin_lock_excludes:
  assumes "spin_run es spin_start = Some s" "\<forall>(c, e) \<in> set es. e \<noteq> Stray_unlock"
    and "lock_pc s c = Critical" "lock_pc s d = Critical"
  shows "c = d \<and> lock_word s \<noteq> 0"
proof -
  have inv: "spin_inv s" by (rule spin_inv_run [OF spin_inv_start assms(1,2)])
  have "holds_lock c s" "holds_lock d s" using assms(3,4) by (simp_all add: holds_lock_def)
  then show ?thesis using spin_invD(5,6) [OF inv] by blast
qed

theorem spin_lock_excludes_witness:
  "\<exists>s. spin_run ((0, Call_lock) # (1, Call_lock) # replicate 2 (1, Instr) @ replicate 5 (0, Instr) @ replicate 9 (1, Instr)) spin_start = Some s \<and>
    lock_pc s 0 = Critical \<and> lock_pc s 1 \<noteq> Critical"
proof -
  let ?es = "(0, Call_lock) # (1, Call_lock) # replicate 2 (1, Instr) @ replicate 5 (0, Instr) @ replicate 9 (1, Instr)"
  obtain s where s: "spin_run ?es spin_start = Some s" "lock_pc s 0 = Critical"
    by (simp add: numeral_eq_Suc spin_start_def spin_instr_def goto_def store_word_def)
  then have "lock_pc s 1 \<noteq> Critical" using spin_lock_excludes [OF s(1), of 0 1] by auto
  then show ?thesis using s by blast
qed

text \<open>
  The lock word is a lock with a holder.  Every step of a core is, for the abstract lock, an
  acquisition of the free lock by that core, a release by its holder, or invisible; a core that
  returns from \<open>spin_lock\<close> is the holder.
\<close>

theorem spin_lock_refines:
  assumes "spin_inv s" "spin_step c e s = Some t" "e \<noteq> Stray_unlock"
  shows "spin_inv t \<and> abs_lock_step c (holder s) (holder t) \<and> (lock_pc t c = Critical \<longrightarrow> holder t = Some c)"
proof -
  have inv: "spin_inv t" by (rule spin_inv_step [OF assms])
  note h = holder_eq(1) [OF assms(1)] holder_eq(1) [OF inv] holds_lock_others [OF assms(2)]
  have "abs_lock_step c (holder s) (holder t)" by (rule abs_lock_cases) (simp_all add: h)
  then show ?thesis using inv h(2) by (simp add: holds_lock_def)
qed

theorem spin_lock_refines_witness:
  "\<exists>t. spin_step 2 Call_lock spin_start = Some t \<and> spin_inv t \<and> abs_lock_step 2 (holder spin_start) (holder t)"
  using spin_lock_refines [OF spin_inv_start, of 2 Call_lock] by (simp add: spin_start_def)



text \<open>
  One \<open>spin_unlock\<close> too many breaks the exclusion.  When a core that does not hold the lock calls
  \<open>spin_unlock\<close>, as \<open>remove_list_head\<close> of src/src/lib.c does with \<open>list_lock\<close> when it takes the last item
  of a list, while another core holds it, two cores can be past \<open>spin_lock\<close> at the same time.
\<close>

theorem stray_unlock_breaks_exclusion:
  "\<exists>es s. spin_run es spin_start = Some s \<and> length (filter (\<lambda>(c, e). e = Stray_unlock) es) = 1 \<and>
    lock_pc s 1 = Critical \<and> lock_pc s 2 = Critical"
proof -
  let ?es = "(1, Call_lock) # replicate 5 (1, Instr) @ [(0, Stray_unlock), (0, Instr), (2, Call_lock)] @ replicate 5 (2, Instr)"
  have "\<exists>s. spin_run ?es spin_start = Some s \<and> lock_pc s 1 = Critical \<and> lock_pc s 2 = Critical"
    by (simp add: numeral_eq_Suc spin_start_def spin_instr_def goto_def store_word_def)
  then show ?thesis by (intro exI [of _ ?es]) (simp add: numeral_eq_Suc)
qed

end
