(* ===== verification/Page_List.thy ===== *)
theory Page_List
  imports Page_Store Buddy_Init
begin

text \<open>
  The allocator of src/src/memory.c in its other configuration, \<open>LinkListMode\<close>: the free pages form one
  singly linked list that starts in the static object \<open>free_memory\<close>, a \<open>struct Page\<close> at address \<open>fm\<close> whose
  \<open>next\<close> lies at offset 8, as in every free page.  \<open>free_region\<close> fills the list and \<open>checkmm\<close> prints it.
  The build of the repository selects \<open>BuddyMode\<close>.

  The theory interprets the contract \<open>page_store\<close> of the page-table and process code on this allocator as
  well, and shows what the buddy allocator lacks: no page is ever lost.
\<close>

section \<open>The code\<close>

text \<open>The lock in \<open>free_memory\<close> is the allocator's lock of this configuration.\<close>

definition kfree_list :: "u64 \<Rightarrow> u64 \<Rightarrow> 'a kernel_scheme \<Rightarrow> 'a kernel_scheme res" where
  "kfree_list fm v s =
     kassert (v mod PAGE_SIZE = 0) ''src/memory.c'' 234
     (kassert (sym_end s \<le> v) ''src/memory.c'' 235
     (kassert (v + PAGE_SIZE \<le> MEMORY_END) ''src/memory.c'' 236
     (rbind (spin_lock Allocator_lock s) (\<lambda>s.
      let m = set_next (mem s) v (next_of (mem s) fm);
          m = set_next m fm v
      in Inr (spin_unlock Allocator_lock (s\<lparr>mem := m\<rparr>))))))"

definition kalloc_list :: "u64 \<Rightarrow> 'a kernel_scheme \<Rightarrow> (u64 \<times> 'a kernel_scheme) res" where
  "kalloc_list fm s =
     rbind (spin_lock Allocator_lock s) (\<lambda>s.
     let p = next_of (mem s) fm;
         s = (if p \<noteq> 0 then s\<lparr>mem := set_next (mem s) fm (next_of (mem s) p)\<rparr> else s);
         s = spin_unlock Allocator_lock s
     in Inr (p, if p \<noteq> 0 then s\<lparr>mem := memset (mem s) p 0 (unat PAGE_SIZE)\<rparr> else s))"

text \<open>The loop of \<open>free_region\<close>; its bound is computed in 64 bits.\<close>

partial_function (option) free_pages_from :: "u64 \<Rightarrow> u64 \<Rightarrow> u64 \<Rightarrow> 'a kernel_scheme \<Rightarrow> 'a kernel_scheme res option" where
  "free_pages_from fm p e s =
     (if p + PAGE_SIZE \<le> e
      then (case (if p + PAGE_SIZE \<le> MEMORY_END then kfree_list fm p s else Inr s) of
              Inl err \<Rightarrow> Some (Inl err)
            | Inr s \<Rightarrow> free_pages_from fm (p + PAGE_SIZE) e s)
      else Some (Inr s))"

definition free_region :: "u64 \<Rightarrow> u64 \<Rightarrow> u64 \<Rightarrow> 'a kernel_scheme \<Rightarrow> 'a kernel_scheme res option" where
  "free_region fm v e s = free_pages_from fm (PA_UP v) e s"

definition init_memory_list :: "u64 \<Rightarrow> 'a kernel_scheme \<Rightarrow> 'a kernel_scheme res option" where
  "init_memory_list fm s = free_region fm (sym_end s) MEMORY_END s"

partial_function (option) print_pages :: "u64 \<Rightarrow> u64 \<Rightarrow> u64 \<Rightarrow> 'a kernel_scheme \<Rightarrow> (u64 \<times> 'a kernel_scheme) res option" where
  "print_pages v n i s =
     (if v \<noteq> 0
      then (case printk (''%d base is %x '' @ crlf) [Int_arg i, Int_arg v] s of
              Inl err \<Rightarrow> Some (Inl err)
            | Inr (_, s) \<Rightarrow> print_pages (next_of (mem s) v) (n + PAGE_SIZE) (i + 1) s)
      else Some (Inr (n, s)))"

definition checkmm :: "u64 \<Rightarrow> 'a kernel_scheme \<Rightarrow> 'a kernel_scheme res option" where
  "checkmm fm s =
     map_option (\<lambda>r. rbind r (\<lambda>(n, s).
       rbind (printk (''memory size is %u '' @ crlf) [Int_arg (n div 1024 div 1024)] s) (\<lambda>(_, s). Inr s)))
       (print_pages (next_of (mem s) fm) 0 0 s)"

section \<open>The list\<close>

fun page_chain :: "memory \<Rightarrow> u64 \<Rightarrow> u64 list \<Rightarrow> bool" where
  "page_chain m p [] \<longleftrightarrow> p = 0"
| "page_chain m p (q # qs) \<longleftrightarrow> p = q \<and> q \<noteq> 0 \<and> page_chain m (next_of m q) qs"

abbreviation first_page :: "'a kernel_scheme \<Rightarrow> u64" where
  "first_page s \<equiv> PA_UP (sym_end s)"

text \<open>\<open>free_memory\<close> is part of the image, and the list holds distinct pages behind the image.\<close>

definition list_inv :: "u64 \<Rightarrow> 'a kernel_scheme \<Rightarrow> u64 list \<Rightarrow> bool" where
  "list_inv fm s ps \<longleftrightarrow> page_chain (mem s) (next_of (mem s) fm) ps \<and> distinct ps \<and> set ps \<subseteq> region (first_page s) \<and>
     unat fm + 16 \<le> unat (sym_end s) \<and> sym_end s \<le> MEMORY_END \<and> \<not> locks s Allocator_lock"

lemma page_chain_unique: "page_chain m p ps \<Longrightarrow> page_chain m p qs \<Longrightarrow> ps = qs"
  by (induction ps arbitrary: p qs) (case_tac qs; auto)+

lemma page_chain_cong: "(\<And>q. q \<in> set ps \<Longrightarrow> next_of m' q = next_of m q) \<Longrightarrow> page_chain m' p ps = page_chain m p ps"
  by (induction ps arbitrary: p) auto

lemma next_of_cong:
  assumes "\<And>x. in_range a 16 x \<Longrightarrow> m' x = m x"
  shows "next_of m' a = next_of m a"
  unfolding next_of_def
proof (rule load64_cong)
  fix x assume "in_range (a + 8) 8 x"
  then show "m' x = m x" using in_range_split [of a 8 8 x 16] assms by simp
qed

lemma in_page: "p \<in> region start \<Longrightarrow> in_range p k x \<Longrightarrow> k \<le> 2 ^ 21 \<Longrightarrow> pn x = pn p"
  using in_range_page region_bound(3) by blast

lemma same_page: "p \<in> region start \<Longrightarrow> q \<in> region start \<Longrightarrow> pn p = pn q \<Longrightarrow> p = q"
  using pn_inj region_bound(3) by blast

text \<open>The object \<open>free_memory\<close> is on no managed page.\<close>

lemma object_apart:
  assumes "unat fm + 16 \<le> unat (sym_end s)" "sym_end s \<le> MEMORY_END" "p \<in> region (first_page s)" "in_range p (2 ^ 21) x"
  shows "\<not> in_range fm 16 x"
proof -
  have "sym_end s \<le> p" using PA_UP_spec(2) [OF assms(2)] region_bound(2) [OF assms(3)] by (rule order_trans)
  then have "apart fm 16 p (2 ^ 21)"
    using assms(1) region_bound(1) [OF assms(3)] by (intro apart_before) (simp_all add: word_le_nat_alt)
  then show ?thesis using apart_disjoint assms(4) by blast
qed

text \<open>Writing a managed page that is not on the list, and \<open>free_memory\<close> itself, keeps the rest of the list.\<close>

lemma list_keeps:
  assumes inv: "list_inv fm s ps" and qs: "set qs \<subseteq> set ps" and p: "p \<in> region (first_page s)" "p \<notin> set qs"
    and same: "\<And>x. \<not> in_range p (2 ^ 21) x \<Longrightarrow> \<not> in_range fm 16 x \<Longrightarrow> m x = mem s x"
  shows "page_chain m a qs = page_chain (mem s) a qs"
proof (rule page_chain_cong, rule next_of_cong)
  fix q x
  assume q: "q \<in> set qs" "in_range q 16 x"
  then have qr: "q \<in> region (first_page s)" using inv qs by (auto simp: list_inv_def)
  have "in_range q (2 ^ 21) x" using q(2) by (simp add: in_range_def)
  then have "\<not> in_range fm 16 x" using object_apart [OF _ _ qr] inv by (auto simp: list_inv_def)
  moreover have "\<not> in_range p (2 ^ 21) x"
    using in_page [OF qr q(2)] in_page [OF p(1), of "2 ^ 21" x] same_page [OF qr p(1)] q(1) p(2) by auto
  ultimately show "m x = mem s x" using same by blast
qed

section \<open>The operations\<close>

lemma region_not_null:
  assumes "list_inv fm s ps" "p \<in> region (first_page s)"
  shows "p \<noteq> 0" "sym_end s \<le> p"
proof -
  show e: "sym_end s \<le> p"
    using PA_UP_spec(2) region_bound(2) [OF assms(2)] assms(1) by (auto simp: list_inv_def intro: order_trans)
  show "p \<noteq> 0" using e assms(1) by (auto simp: list_inv_def word_le_nat_alt)
qed

lemma kalloc_list_run:
  assumes inv: "list_inv fm s ps"
  obtains (none) "ps = []" "kalloc_list fm s = Inr (0, s)"
  | (page) p qs m where "ps = p # qs" "kalloc_list fm s = Inr (p, s\<lparr>mem := m\<rparr>)" "p \<noteq> 0" "list_inv fm (s\<lparr>mem := m\<rparr>) qs"
      "\<And>x. in_range p (2 ^ 21) x \<Longrightarrow> m x = 0"
      "\<And>x. \<not> in_range p (2 ^ 21) x \<Longrightarrow> \<not> in_range fm 16 x \<Longrightarrow> m x = mem s x"
proof (cases ps)
  case Nil
  then show ?thesis using inv none by (simp add: list_inv_def kalloc_list_def Let_def)
next
  case (Cons p qs)
  have n: "next_of (mem s) fm = p" "p \<noteq> 0" "page_chain (mem s) (next_of (mem s) p) qs" "p \<in> region (first_page s)" "p \<notin> set qs"
    "distinct qs" "set qs \<subseteq> region (first_page s)" and L: "unat fm + 16 \<le> unat (sym_end s)" "sym_end s \<le> MEMORY_END" "\<not> locks s Allocator_lock"
    using inv Cons by (auto simp: list_inv_def)
  define m where "m = memset (set_next (mem s) fm (next_of (mem s) p)) p 0 (unat PAGE_SIZE)"
  have m: "m x = (if in_range p (2 ^ 21) x then 0 else set_next (mem s) fm (next_of (mem s) p) x)" for x
    by (simp add: m_def memset_apply PAGE_SIZE_def)
  have fr: "m x = mem s x" if "\<not> in_range p (2 ^ 21) x" "\<not> in_range fm 16 x" for x
    using that by (simp add: m set_node_outside)
  have "next_of m fm = next_of (set_next (mem s) fm (next_of (mem s) p)) fm"
    by (rule next_of_cong) (use object_apart [OF L(1,2) n(4)] in \<open>auto simp: m\<close>)
  then have "list_inv fm (s\<lparr>mem := m\<rparr>) qs"
    using list_keeps [OF inv _ n(4,5) fr] n(3,6,7) L Cons by (auto simp: list_inv_def)
  moreover have "kalloc_list fm s = Inr (p, s\<lparr>mem := m\<rparr>)"
    using n(1,2) L(3) by (simp add: kalloc_list_def Let_def m_def spin_unlock_def fun_upd_idem)
  ultimately show ?thesis using page Cons n(2) m fr by simp
qed

lemma kfree_list_run:
  assumes inv: "list_inv fm s ps" and p: "p \<in> region (first_page s)" "p \<notin> set ps"
  obtains m where "kfree_list fm p s = Inr (s\<lparr>mem := m\<rparr>)" "list_inv fm (s\<lparr>mem := m\<rparr>) (p # ps)"
    "\<And>x. \<not> in_range p (2 ^ 21) x \<Longrightarrow> \<not> in_range fm 16 x \<Longrightarrow> m x = mem s x"
proof -
  note r = region_bound [OF p(1)] and nz = region_not_null [OF inv p(1)]
  have L: "unat fm + 16 \<le> unat (sym_end s)" "sym_end s \<le> MEMORY_END" "\<not> locks s Allocator_lock"
    "page_chain (mem s) (next_of (mem s) fm) ps" using inv by (simp_all add: list_inv_def)
  define m where "m = set_next (set_next (mem s) p (next_of (mem s) fm)) fm p"
  have "unat (p + of_nat (2 ^ 21)) = unat p + 2 ^ 21" using r(1) by (intro unat_plus_of_nat) simp
  then have "p + PAGE_SIZE \<le> MEMORY_END" using r(1) by (simp add: word_le_nat_alt PAGE_SIZE_def)
  moreover have "p mod PAGE_SIZE = 0" using r(3) by (simp add: page_aligned_def PAGE_SIZE_def word_unat_eq_iff unat_mod)
  ultimately have run: "kfree_list fm p s = Inr (s\<lparr>mem := m\<rparr>)"
    using nz(2) L(3) by (simp add: kfree_list_def Let_def m_def spin_unlock_def fun_upd_idem)
  have fr: "m x = mem s x" if "\<not> in_range p (2 ^ 21) x" "\<not> in_range fm 16 x" for x
  proof -
    have "\<not> in_range p 16 x" using that(1) by (simp add: in_range_def)
    then show ?thesis using that(2) by (simp add: m_def set_node_outside)
  qed
  have "next_of m p = next_of (set_next (mem s) p (next_of (mem s) fm)) p"
    unfolding m_def
  proof (rule next_of_cong, rule set_node_outside(1))
    fix x assume "in_range p 16 x"
    then have "in_range p (2 ^ 21) x" by (simp add: in_range_def)
    then show "\<not> in_range fm 16 x" by (rule object_apart [OF L(1,2) p(1)])
  qed
  moreover have "next_of m fm = p" by (simp add: m_def)
  moreover have "page_chain m (next_of (mem s) fm) ps" using list_keeps [OF inv subset_refl p fr] L(4) by simp
  ultimately have "list_inv fm (s\<lparr>mem := m\<rparr>) (p # ps)"
    using inv p nz(1) by (simp add: list_inv_def)
  then show ?thesis using that run fr by blast
qed

section \<open>The contract\<close>

definition linked_pages :: "u64 \<Rightarrow> 'a kernel_scheme \<Rightarrow> nat set" where
  "linked_pages fm s = {a. \<exists>ps. list_inv fm s ps \<and> a \<in> pn ` set ps}"

definition list_ok :: "u64 \<Rightarrow> 'a kernel_scheme \<Rightarrow> bool" where
  "list_ok fm s \<longleftrightarrow> (\<exists>ps. list_inv fm s ps)"

lemma linked_eq:
  assumes "list_inv fm s ps"
  shows "linked_pages fm s = pn ` set ps"
proof -
  have "qs = ps" if "list_inv fm s qs" for qs
    using that assms page_chain_unique [of "mem s" "next_of (mem s) fm" qs ps] by (simp add: list_inv_def)
  then show ?thesis unfolding linked_pages_def using assms by blast
qed

lemma linked_mem:
  assumes "list_inv fm s ps" "p \<in> region (first_page s)"
  shows "pn p \<in> linked_pages fm s \<longleftrightarrow> p \<in> set ps"
proof -
  have "set ps \<subseteq> region (first_page s)" using assms(1) by (simp add: list_inv_def)
  then show ?thesis unfolding linked_eq [OF assms(1)] using same_page [OF assms(2)] by blast
qed

interpretation plist: page_store "kalloc_list fm" "kfree_list fm" "list_ok fm" "linked_pages fm" "\<lambda>s. region (first_page s)"
    mem "\<lambda>s m. s\<lparr>mem := m\<rparr>" "\<lambda>s. {x. in_range fm 16 x}" for fm
proof unfold_locales
  fix s :: "'a kernel_scheme"
  assume "list_ok fm s"
  then obtain ps where inv: "list_inv fm s ps" by (auto simp: list_ok_def)
  note av = linked_eq [OF inv]
  show "\<exists>p t. kalloc_list fm s = Inr (p, t) \<and> list_ok fm t \<and> region (first_page t) = region (first_page s) \<and>
      (if linked_pages fm s = {} then p = 0 \<and> linked_pages fm t = {}
       else p \<noteq> 0 \<and> p \<in> region (first_page s) \<and> pn p \<in> linked_pages fm s \<and> linked_pages fm t = linked_pages fm s - {pn p})"
  proof (cases rule: kalloc_list_run [OF inv])
    case 1
    then show ?thesis using inv av by (auto simp: list_ok_def)
  next
    case (2 p qs m)
    have sub: "set (p # qs) \<subseteq> region (first_page s)" "distinct (p # qs)" using inv 2(1) by (simp_all add: list_inv_def)
    have "pn p \<notin> pn ` set qs" using same_page [of p "first_page s"] sub by auto
    then have e: "linked_pages fm (s\<lparr>mem := m\<rparr>) = linked_pages fm s - {pn p}" "pn p \<in> linked_pages fm s"
      using linked_eq [OF 2(4)] av 2(1) by auto
    moreover have "list_ok fm (s\<lparr>mem := m\<rparr>)" using 2(4) by (auto simp: list_ok_def)
    ultimately show ?thesis using 2(2,3) sub(1) by (intro exI [of _ p] exI [of _ "s\<lparr>mem := m\<rparr>"]) auto
  qed
  {
    fix p t
    assume al: "kalloc_list fm s = Inr (p, t)"
    show "in_range p (2 ^ 21) x \<Longrightarrow> mem t x = 0" if "p \<noteq> 0" for x
      using al that by (cases rule: kalloc_list_run [OF inv]) auto
    show "mem t x = mem s x" if "x \<notin> {x. in_range fm 16 x}" "pn x \<notin> linked_pages fm s" for x
    proof (cases rule: kalloc_list_run [OF inv])
      case 1
      then show ?thesis using al by simp
    next
      case (2 q qs m)
      have "q \<in> region (first_page s)" using inv 2(1) by (simp add: list_inv_def)
      then have "\<not> in_range q (2 ^ 21) x" using in_page that(2) av 2(1) by fastforce
      then show ?thesis using 2 al that(1) by simp
    qed
    show "t = s\<lparr>mem := mem t\<rparr>" using al by (cases rule: kalloc_list_run [OF inv]) auto
  }
  show "t = s" if "kalloc_list fm s = Inr (0, t)" for t
    using that by (cases rule: kalloc_list_run [OF inv]) auto
  fix p
  assume p: "p \<in> region (first_page s)"
  show "x \<notin> {x. in_range fm 16 x}" if "in_range p (2 ^ 21) x" for x
    using object_apart [OF _ _ p that] inv by (simp add: list_inv_def)
  assume np: "pn p \<notin> linked_pages fm s"
  then have pp: "p \<notin> set ps" using linked_mem [OF inv p] by simp
  obtain m where f: "kfree_list fm p s = Inr (s\<lparr>mem := m\<rparr>)" "list_inv fm (s\<lparr>mem := m\<rparr>) (p # ps)"
    "\<And>x. \<not> in_range p (2 ^ 21) x \<Longrightarrow> \<not> in_range fm 16 x \<Longrightarrow> m x = mem s x"
    by (rule kfree_list_run [OF inv p pp]) (rule that)
  show "\<exists>t. kfree_list fm p s = Inr t \<and> list_ok fm t \<and> region (first_page t) = region (first_page s) \<and>
      linked_pages fm t \<subseteq> insert (pn p) (linked_pages fm s)"
    using f(1,2) linked_eq [OF f(2)] av by (intro exI [of _ "s\<lparr>mem := m\<rparr>"]) (auto simp: list_ok_def)
  {
    fix t
    assume t: "kfree_list fm p s = Inr t"
    show "mem t x = mem s x" if "x \<notin> {x. in_range fm 16 x}" "pn x \<notin> linked_pages fm s" "pn x \<noteq> pn p" for x
    proof -
      have "\<not> in_range p (2 ^ 21) x" using that(3) in_page [OF p, of "2 ^ 21" x] by blast
      then show ?thesis using t f(1) f(3) [of x] that(1) by auto
    qed
    show "t = s\<lparr>mem := mem t\<rparr>" using t f(1) by auto
  }
  fix m
  assume m: "\<And>x. \<not> in_range p (2 ^ 21) x \<Longrightarrow> m x = mem s x"
  have "page_chain m (next_of (mem s) fm) ps" "next_of m fm = next_of (mem s) fm"
  proof -
    show "page_chain m (next_of (mem s) fm) ps"
      using list_keeps [OF inv subset_refl p pp m] inv by (simp add: list_inv_def)
    show "next_of m fm = next_of (mem s) fm"
      by (rule next_of_cong, rule m) (use object_apart [OF _ _ p] inv in \<open>auto simp: list_inv_def\<close>)
  qed
  then have L: "list_inv fm (s\<lparr>mem := m\<rparr>) ps" using inv by (simp add: list_inv_def)
  then show "list_ok fm (s\<lparr>mem := m\<rparr>) \<and> linked_pages fm (s\<lparr>mem := m\<rparr>) = linked_pages fm s \<and>
      region (first_page (s\<lparr>mem := m\<rparr>)) = region (first_page s)"
    using linked_eq [OF L] av by (auto simp: list_ok_def)
qed (auto intro: region_bound(3))

section \<open>An allocator that loses nothing\<close>

locale conserving_allocator = page_allocator +
  assumes avail_finite: "inv s \<Longrightarrow> finite (avail s)"
    and free_exact: "inv s \<Longrightarrow> p \<in> managed s \<Longrightarrow> pn p \<notin> avail s \<Longrightarrow> free p s = Inr t \<Longrightarrow> avail t = insert (pn p) (avail s)"
begin

lemma client_conserves:
  assumes "holds s held" "client_run alloc free ops (s, held, n) = Inr (t, held', n')"
  shows "length held' + card (avail t) = length held + card (avail s)"
  using assms
proof (induction ops arbitrary: s held n)
  case Nil
  then show ?case by simp
next
  case (Cons a ops)
  have inv: "inv s" using Cons.prems(1) by (simp add: holds_def)
  show ?case
  proof (cases a)
    case Alloc
    obtain p u where u: "alloc s = Inr (p, u)" "holds u (if p = 0 then held else p # held)"
      using holds_alloc [OF Cons.prems(1)] by blast
    have law: "if avail s = {} then p = 0 \<and> avail u = {}
        else p \<noteq> 0 \<and> p \<in> managed s \<and> pn p \<in> avail s \<and> avail u = avail s - {pn p}"
      using alloc_law [OF inv] u(1) by auto
    have "length held' + card (avail t) = length (if p = 0 then held else p # held) + card (avail u)"
      by (rule Cons.IH [OF u(2)]) (use Cons.prems(2) Alloc u(1) in simp)
    moreover have "card (avail u) + (if p = 0 then 0 else 1) = card (avail s)"
      using law avail_finite [OF inv] card_Suc_Diff1 [of "avail s" "pn p"] by (auto split: if_splits)
    ultimately show ?thesis by (auto split: if_splits)
  next
    case (Free i)
    show ?thesis
    proof (cases "i < length held")
      case True
      then have h: "held ! i \<in> set held" by simp
      obtain u where u: "free (held ! i) s = Inr u" "holds u (remove1 (held ! i) held)"
        using holds_free [OF Cons.prems(1) h] by blast
      have p: "held ! i \<in> managed s" "pn (held ! i) \<notin> avail s" using Cons.prems(1) h by (auto simp: holds_def)
      have "length held' + card (avail t) = length (remove1 (held ! i) held) + card (avail u)"
        by (rule Cons.IH [OF u(2)]) (use Cons.prems(2) Free True u(1) in simp)
      moreover have "card (avail u) = Suc (card (avail s))"
        using free_exact [OF inv p u(1)] p(2) avail_finite [OF inv] by simp
      ultimately show ?thesis using h True by (simp add: length_remove1)
    qed (use Free Cons in simp)
  qed
qed

end

interpretation plist_all: conserving_allocator "kalloc_list fm" "kfree_list fm" "list_ok fm" "linked_pages fm"
    "\<lambda>s. region (first_page s)" for fm
proof unfold_locales
  fix s :: "'a kernel_scheme"
  assume "list_ok fm s"
  then obtain ps where inv: "list_inv fm s ps" by (auto simp: list_ok_def)
  show "finite (linked_pages fm s)" using linked_eq [OF inv] by simp
  fix p t
  assume p: "p \<in> region (first_page s)" and np: "pn p \<notin> linked_pages fm s" and t: "kfree_list fm p s = Inr t"
  have pp: "p \<notin> set ps" using np linked_mem [OF inv p] by simp
  show "linked_pages fm t = insert (pn p) (linked_pages fm s)"
  proof (rule kfree_list_run [OF inv p pp])
    fix m assume "kfree_list fm p s = Inr (s\<lparr>mem := m\<rparr>)" and L: "list_inv fm (s\<lparr>mem := m\<rparr>) (p # ps)"
    then show ?thesis using t linked_eq [OF L] linked_eq [OF inv] by simp
  qed
qed

section \<open>Initialisation\<close>

lemma free_pages_from_run:
  assumes inv: "list_inv fm s ps" and p: "page_aligned p" "first_page s \<le> p" "p \<le> MEMORY_END"
    and listed: "pn ` set ps = {pn (first_page s) ..< pn p}"
  shows "\<exists>m qs. free_pages_from fm p MEMORY_END s = Some (Inr (s\<lparr>mem := m\<rparr>)) \<and> list_inv fm (s\<lparr>mem := m\<rparr>) qs \<and>
    pn ` set qs = {pn (first_page s) ..< pn MEMORY_END}"
  using assms
proof (induction "pn MEMORY_END - pn p" arbitrary: p s ps)
  case 0
  have al: "page_aligned MEMORY_END" by (simp add: page_aligned_def)
  have e: "p = MEMORY_END"
    using 0(1) pn_less [OF 0(3) al] 0(5) by (metis antisym_conv1 diff_is_0_eq leD)
  have "\<not> MEMORY_END + PAGE_SIZE \<le> MEMORY_END" by (simp add: MEMORY_END_def P2V_def KERNEL_BASE_def PAGE_SIZE_def)
  then have "free_pages_from fm p MEMORY_END s = Some (Inr (s\<lparr>mem := mem s\<rparr>))"
    by (subst free_pages_from.simps) (simp add: e)
  then show ?case using 0(2,6) e by (intro exI [of _ "mem s"] exI [of _ ps]) simp
next
  case (Suc k)
  have al: "page_aligned MEMORY_END" by (simp add: page_aligned_def)
  have lt: "p < MEMORY_END" using Suc(2) pn_less [OF Suc(4) al] by simp
  have r: "p \<in> region (first_page s)" using Suc(4,5) lt by (simp add: region_def)
  note b = region_bound [OF r]
  have u: "unat (p + of_nat (2 ^ 21)) = unat p + 2 ^ 21" using b(1) by (intro unat_plus_of_nat) simp
  then have u': "unat (p + PAGE_SIZE) = unat p + 2 ^ 21" by (simp add: PAGE_SIZE_def)
  have n: "page_aligned (p + PAGE_SIZE)" "first_page s \<le> p + PAGE_SIZE" "p + PAGE_SIZE \<le> MEMORY_END" "pn (p + PAGE_SIZE) = pn p + 1"
    using Suc(4,5) b(1) u' by (simp_all add: page_aligned_def word_le_nat_alt pn_def)
  have np: "p \<notin> set ps" using Suc(7) by auto
  obtain m where f: "kfree_list fm p s = Inr (s\<lparr>mem := m\<rparr>)" "list_inv fm (s\<lparr>mem := m\<rparr>) (p # ps)"
    by (rule kfree_list_run [OF Suc(3) r np]) (rule that)
  have le: "pn (first_page s) \<le> pn p" using Suc(5) by (simp add: pn_def div_le_mono word_le_nat_alt)
  have "pn ` set (p # ps) = {pn (first_page s) ..< pn (p + PAGE_SIZE)}" using Suc(7) le n(4) by auto
  moreover have k: "k = pn MEMORY_END - Suc (pn p)" using Suc(2) by simp
  ultimately obtain m' qs where q: "free_pages_from fm (p + PAGE_SIZE) MEMORY_END (s\<lparr>mem := m\<rparr>) = Some (Inr (s\<lparr>mem := m'\<rparr>))"
      "list_inv fm (s\<lparr>mem := m'\<rparr>) qs" "pn ` set qs = {pn (first_page s) ..< pn MEMORY_END}"
    using Suc(1) [OF _ f(2) n(1)] n(2-4) k by auto
  have "free_pages_from fm p MEMORY_END s = Some (Inr (s\<lparr>mem := m'\<rparr>))"
    by (subst free_pages_from.simps) (use f(1) q(1) n(3) in simp)
  then show ?case using q(2,3) by blast
qed

lemma init_memory_list_run:
  assumes "unat fm + 16 \<le> unat (sym_end s)" "sym_end s \<le> MEMORY_END" "\<not> locks s Allocator_lock" "next_of (mem s) fm = 0"
  obtains m where "init_memory_list fm s = Some (Inr (s\<lparr>mem := m\<rparr>))" "list_ok fm (s\<lparr>mem := m\<rparr>)"
    "linked_pages fm (s\<lparr>mem := m\<rparr>) = {pn (first_page s) ..< pn MEMORY_END}"
proof -
  have "list_inv fm s []" using assms by (simp add: list_inv_def)
  from free_pages_from_run [OF this PA_UP_spec(1) [OF assms(2)] order_refl PA_UP_spec(3) [OF assms(2)]]
  obtain m qs where I: "init_memory_list fm s = Some (Inr (s\<lparr>mem := m\<rparr>))" "list_inv fm (s\<lparr>mem := m\<rparr>) qs"
      "pn ` set qs = {pn (first_page s) ..< pn MEMORY_END}"
    by (auto simp: init_memory_list_def free_region_def)
  then show ?thesis using linked_eq [OF I(2)] by (intro that [of m]) (auto simp: list_ok_def)
qed

text \<open>
  C24: No page is lost in \<open>LinkListMode\<close>.  \<open>init_memory\<close> returns, its loop ends, and after every sequence of
  \<open>kalloc\<close> and \<open>kfree\<close> calls that follows, none of which fails, the pages the callers hold are distinct pages
  behind the image, and together with the pages still on the list they are as many as there are between the
  image and the end of memory: what \<open>kfree\<close> takes, \<open>kalloc\<close> can hand out again.
\<close>

theorem linked_mode_conserves:
  assumes "unat fm + 16 \<le> unat (sym_end s)" "sym_end s \<le> MEMORY_END" "\<not> locks s Allocator_lock" "next_of (mem s) fm = 0"
  shows "\<exists>t u held n. init_memory_list fm s = Some (Inr t) \<and>
    client_run (kalloc_list fm) (kfree_list fm) ops (t, [], 0) = Inr (u, held, n) \<and> distinct held \<and>
    set held \<subseteq> region (PA_UP (sym_end u)) \<and> pn ` set held \<inter> linked_pages fm u = {} \<and>
    length held + card (linked_pages fm u) = pn MEMORY_END - pn (PA_UP (sym_end s))"
proof -
  obtain m where I: "init_memory_list fm s = Some (Inr (s\<lparr>mem := m\<rparr>))" "list_ok fm (s\<lparr>mem := m\<rparr>)"
    "linked_pages fm (s\<lparr>mem := m\<rparr>) = {pn (first_page s) ..< pn MEMORY_END}"
    by (rule init_memory_list_run [OF assms]) (rule that)
  have h: "plist.holds fm (s\<lparr>mem := m\<rparr>) []" using I(2) by (simp add: plist.holds_def)
  obtain u held n where u: "client_run (kalloc_list fm) (kfree_list fm) ops (s\<lparr>mem := m\<rparr>, [], 0) = Inr (u, held, n)"
      "plist.holds fm u held"
    using plist.client_safe [OF h] by blast
  have "length held + card (linked_pages fm u) = card {pn (first_page s) ..< pn MEMORY_END}"
    using plist_all.client_conserves [OF h u(1)] I(3) by simp
  then show ?thesis using I(1) u by (auto simp: plist.holds_def)
qed

theorem linked_mode_conserves_witness:
  "\<exists>t u held n. init_memory_list 0xffff000000098000 boot_kernel = Some (Inr t) \<and>
    client_run (kalloc_list 0xffff000000098000) (kfree_list 0xffff000000098000) [Alloc, Alloc, Free 0] (t, [], 0) = Inr (u, held, n) \<and>
    length held + card (linked_pages 0xffff000000098000 u) = 383"
proof -
  have f: "unat (0xffff000000098000 :: u64) + 16 \<le> unat (sym_end boot_kernel)" "next_of (mem boot_kernel) 0xffff000000098000 = 0"
    by (simp_all add: boot_kernel_def next_of_def load64_def load_bytes_numeral)
  obtain t u held n where "init_memory_list 0xffff000000098000 boot_kernel = Some (Inr t)"
    "client_run (kalloc_list 0xffff000000098000) (kfree_list 0xffff000000098000) [Alloc, Alloc, Free 0] (t, [], 0) = Inr (u, held, n)"
    "length held + card (linked_pages 0xffff000000098000 u) = pn MEMORY_END - pn (PA_UP (sym_end boot_kernel))"
    using linked_mode_conserves [OF f(1) boot_kernel_ok(2,3) f(2), of "[Alloc, Alloc, Free 0]"] by blast
  moreover have "pn MEMORY_END - pn (PA_UP (sym_end boot_kernel)) = 383" unfolding PA_UP_boot pn_boot by simp
  ultimately show ?thesis by (intro exI conjI) simp_all
qed

end
