(* ===== verification/Vm_Staged.thy ===== *)
theory Vm_Staged
  imports Vm_Release
begin

text \<open>
  The older release of an address space in src/src/memory.c, which \<open>free_vm\<close> keeps in its \<open>#else\<close> branch:
  \<open>free_pmd\<close> frees the lowest tables, \<open>free_pud\<close> the tables above them, \<open>free_pgd\<close> the page map.  It clears
  every entry it follows.  Unlike \<open>free_vm\<close> it frees no user page other than the one at 0x400000: the lemmas
  show that it gives back that page and the tables, each once and without a failed assertion.
\<close>

section \<open>The code\<close>

text \<open>The loop over one table that frees what its entries point to and clears them.\<close>

fun clear_entries :: "u64 \<Rightarrow> nat list \<Rightarrow> 'a kernel_scheme \<Rightarrow> 'a kernel_scheme res" where
  "clear_entries table [] s = Inr s"
| "clear_entries table (i # is) s =
     rbind
       (if entry_at (mem s) table (of_nat i) AND ENTRY_V \<noteq> 0
        then rbind (kfree (P2V (PDE_ADDR (entry_at (mem s) table (of_nat i)))) s) (\<lambda>s.
             Inr (set_entry table (of_nat i) 0 s))
        else Inr s)
       (clear_entries table is)"

text \<open>The outer loop of \<open>free_pmd\<close>.\<close>

fun clear_tables :: "u64 \<Rightarrow> nat list \<Rightarrow> 'a kernel_scheme \<Rightarrow> 'a kernel_scheme res" where
  "clear_tables pgd [] s = Inr s"
| "clear_tables pgd (i # is) s =
     rbind
       (if entry_at (mem s) pgd (of_nat i) AND ENTRY_V \<noteq> 0
        then clear_entries (P2V (PDE_ADDR (entry_at (mem s) pgd (of_nat i)))) indices s
        else Inr s)
       (clear_tables pgd is)"

definition free_pmd :: "u64 \<Rightarrow> 'a kernel_scheme \<Rightarrow> 'a kernel_scheme res" where
  "free_pmd pgmap s = clear_tables pgmap indices s"

definition free_pud :: "u64 \<Rightarrow> 'a kernel_scheme \<Rightarrow> 'a kernel_scheme res" where
  "free_pud pgmap s = clear_entries pgmap indices s"

definition free_pgd :: "u64 \<Rightarrow> 'a kernel_scheme \<Rightarrow> 'a kernel_scheme res" where
  "free_pgd pgmap s = kfree pgmap s"

definition free_vm_staged :: "u64 \<Rightarrow> 'a kernel_scheme \<Rightarrow> 'a kernel_scheme res" where
  "free_vm_staged pgmap s =
     rbind (free_page pgmap 0x400000 s) (\<lambda>s.
     rbind (free_pmd pgmap s) (\<lambda>s.
     rbind (free_pud pgmap s) (\<lambda>s.
     free_pgd pgmap s)))"

section \<open>One table\<close>

definition children :: "memory \<Rightarrow> u64 \<Rightarrow> nat set \<Rightarrow> u64 set" where
  "children m a I = {c. \<exists>i \<in> I. child m a i = Some c}"

lemma children_insert: "children m a (insert i I) = set_option (child m a i) \<union> children m a I"
  by (auto simp: children_def)

lemma child_entry:
  assumes "i < 512"
  shows "child m a i = None \<longleftrightarrow> entry_at m a (of_nat i) AND ENTRY_V = 0"
    "child m a i = Some c \<Longrightarrow> P2V (PDE_ADDR (entry_at m a (of_nat i))) = c"
  using assms by (auto simp: child_def split: if_splits)

lemma children_same:
  assumes "released F W s t" "kowned s a" "a \<notin> F \<union> W"
  shows "child (mem t) a i = child (mem s) a i"
  by (rule child_eq) (rule released_entry [OF assms])

lemma clear_entries_released:
  assumes "kalloc_inv s" "kowned s a" "distinct is" "set is \<subseteq> {..<512}"
    and "\<And>i c. i \<in> set is \<Longrightarrow> child (mem s) a i = Some c \<Longrightarrow> kowned s c \<and> c \<noteq> a"
    and "\<And>i j c. i \<in> set is \<Longrightarrow> j \<in> set is \<Longrightarrow> child (mem s) a i = Some c \<Longrightarrow> child (mem s) a j = Some c \<Longrightarrow> i = j"
  shows "\<exists>t. clear_entries a is s = Inr t \<and> released (children (mem s) a (set is)) {a} s t"
  using assms
proof (induction "is" arbitrary: s)
  case Nil
  then show ?case by (simp add: released_refl)
next
  case (Cons i "is")
  have i: "i < 512" "i \<notin> set is" "set is \<subseteq> {..<512}" "distinct is" using Cons.prems(3,4) by auto
  show ?case
  proof (cases "child (mem s) a i")
    case None
    have "\<exists>t. clear_entries a is s = Inr t \<and> released (children (mem s) a (set is)) {a} s t"
      by (rule Cons.IH [OF Cons.prems(1,2) i(4,3)]) (use Cons.prems(5,6) in auto)
    moreover have "entry_at (mem s) a (of_nat i) AND ENTRY_V = 0" using None child_entry(1) [OF i(1)] by blast
    ultimately show ?thesis by (simp add: children_insert None)
  next
    case (Some c)
    have c: "kowned s c" "c \<noteq> a" using Cons.prems(5) [of i c] Some by simp_all
    obtain u where u: "kfree c s = Inr u" "released {c} {} s u" using kfree_released [OF Cons.prems(1) c(1)] by blast
    have ua: "kalloc_inv u" "kowned u a"
      using u(2) released_owned [OF u(2) Cons.prems(2)] c by (auto simp: released_def)
    let ?w = "set_entry a (of_nat i) 0 u"
    note K = set_entry_keeps [OF ua i(1), of 0]
    have r1: "released ({c} \<union> {}) ({} \<union> {a}) s ?w"
      by (rule released_trans [OF u(2) keeps_released [OF K]]) (use c(1) in simp)
    have wa: "kalloc_inv ?w" "kowned ?w a" using K(1) keeps_owned [OF K(1) ua(2)] by (simp_all add: keeps_pages_def)
    have ch: "child (mem ?w) a j = child (mem s) a j" if "j \<in> set is" for j
    proof -
      have "j < 512" "j \<noteq> i" using that i by auto
      then have "child (mem ?w) a j = child (mem u) a j"
        using i(1) entry_store [OF kowned_region [OF ua(2)] kowned_region [OF ua(2)] i(1)]
        by (intro child_eq) (simp add: set_entry_def)
      then show ?thesis using children_same [OF u(2) Cons.prems(2)] c(2) by simp
    qed
    have own: "kowned ?w d \<and> d \<noteq> a" if "j \<in> set is" "child (mem s) a j = Some d" for j d
    proof -
      have d: "kowned s d" "d \<noteq> a" "d \<noteq> c"
        using Cons.prems(5) [of j d] Cons.prems(6) [of i j c] that Some i(2) by auto
      have "kowned u d" by (rule released_owned [OF u(2) d(1)]) (use d(3) c(1) in auto)
      then show ?thesis using keeps_owned [OF K(1)] d(2) by simp
    qed
    have "\<exists>t. clear_entries a is ?w = Inr t \<and> released (children (mem ?w) a (set is)) {a} ?w t"
      by (rule Cons.IH [OF wa i(4,3)]) (use own ch Cons.prems(6) in auto)
    then obtain t where t: "clear_entries a is ?w = Inr t" "released (children (mem s) a (set is)) {a} ?w t"
      using ch by (auto simp: children_def cong: bex_cong)
    have "released ({c} \<union> {} \<union> children (mem s) a (set is)) ({} \<union> {a} \<union> {a}) s t"
      by (rule released_trans [OF r1 t(2)]) (use c(1) in simp)
    moreover have "clear_entries a (i # is) s = Inr t"
      using Some child_entry [OF i(1), of "mem s" a] u(1) t(1) by simp
    ultimately show ?thesis using Some by (auto simp: children_insert)
  qed
qed

section \<open>The tables below the page map\<close>

lemma clear_tables_released:
  assumes "kalloc_inv s" "kowned s a" "distinct is" "set is \<subseteq> {..<512}"
    and own: "\<And>i q. i \<in> set is \<Longrightarrow> child (mem s) a i = Some q \<Longrightarrow> kowned s q \<and> q \<noteq> a"
    and own2: "\<And>i q j c. i \<in> set is \<Longrightarrow> child (mem s) a i = Some q \<Longrightarrow> child (mem s) q j = Some c \<Longrightarrow> kowned s c \<and> c \<noteq> a"
    and sep: "\<And>i q i' q' j c. i \<in> set is \<Longrightarrow> i' \<in> set is \<Longrightarrow> child (mem s) a i = Some q \<Longrightarrow> child (mem s) a i' = Some q' \<Longrightarrow>
      child (mem s) q' j = Some c \<Longrightarrow> c \<noteq> q"
    and inj: "\<And>i i' q. i \<in> set is \<Longrightarrow> i' \<in> set is \<Longrightarrow> child (mem s) a i = Some q \<Longrightarrow> child (mem s) a i' = Some q \<Longrightarrow> i = i'"
    and inj2: "\<And>i q j i' q' j' c. i \<in> set is \<Longrightarrow> i' \<in> set is \<Longrightarrow> child (mem s) a i = Some q \<Longrightarrow> child (mem s) a i' = Some q' \<Longrightarrow>
      child (mem s) q j = Some c \<Longrightarrow> child (mem s) q' j' = Some c \<Longrightarrow> i = i' \<and> j = j'"
  shows "\<exists>t. clear_tables a is s = Inr t \<and>
    released (\<Union>q \<in> children (mem s) a (set is). children (mem s) q {..<512}) (children (mem s) a (set is)) s t"
  using assms
proof (induction "is" arbitrary: s)
  case Nil
  then show ?case by (simp add: released_refl)
next
  case (Cons i "is")
  have i: "i < 512" "i \<notin> set is" "set is \<subseteq> {..<512}" "distinct is" using Cons.prems(3,4) by auto
  show ?case
  proof (cases "child (mem s) a i")
    case None
    have "\<exists>t. clear_tables a is s = Inr t \<and>
        released (\<Union>q \<in> children (mem s) a (set is). children (mem s) q {..<512}) (children (mem s) a (set is)) s t"
      by (rule Cons.IH [OF Cons.prems(1,2) i(4,3)]; rule Cons.prems; (assumption | simp))
    moreover have "entry_at (mem s) a (of_nat i) AND ENTRY_V = 0" using None child_entry(1) [OF i(1)] by blast
    ultimately show ?thesis by (simp add: children_insert None)
  next
    case (Some q)
    let ?F = "children (mem s) q {..<512}"
    have q: "kowned s q" "q \<noteq> a" using Cons.prems(5) [of i q] Some by simp_all
    have kid: "kowned s c" "c \<noteq> a" "c \<noteq> p" if "child (mem s) q j = Some c" "i' \<in> set (i # is)" "child (mem s) a i' = Some p"
      for j c i' p
      using Cons.prems(6) [of i q j c] Cons.prems(7) [of i' i p q j c] that Some by simp_all
    have Fk: "kowned s c \<and> c \<noteq> a" if cF: "c \<in> ?F" for c
    proof -
      obtain j where "child (mem s) q j = Some c" using cF by (auto simp: children_def)
      then show ?thesis using kid(1,2) [of j c i q] Some by simp
    qed
    obtain u where u: "clear_entries q indices s = Inr u" "released ?F {q} s u"
    proof -
      have "\<exists>u. clear_entries q indices s = Inr u \<and> released (children (mem s) q (set indices)) {q} s u"
      proof (rule clear_entries_released [OF Cons.prems(1) q(1) distinct_indices])
        show "kowned s c \<and> c \<noteq> q" if "child (mem s) q j = Some c" for j c using kid(1,3) [OF that, of i q] Some by simp
        show "j = k" if "child (mem s) q j = Some c" "child (mem s) q k = Some c" for j k c
          using Cons.prems(9) [of i i q q j c k] that Some by simp
      qed simp
      then show ?thesis using that by auto
    qed
    have ua: "kalloc_inv u" "kowned u a" using u(2) released_owned [OF u(2) Cons.prems(2)] Fk by (auto simp: released_def)
    have aF: "a \<notin> ?F \<union> {q}" using Fk q(2) by blast
    have cha: "child (mem u) a j = child (mem s) a j" for j by (rule children_same [OF u(2) Cons.prems(2) aF])
    have chp: "child (mem u) p j = child (mem s) p j" and ownp: "kowned u p"
      if "i' \<in> set is" "child (mem s) a i' = Some p" for i' p j
    proof -
      have p: "kowned s p" using Cons.prems(5) [of i' p] that by simp
      have "p \<noteq> q" using Cons.prems(8) [of i i' q] Some that i(2) by auto
      moreover have "p \<notin> ?F" using kid(3) that by (auto simp: children_def)
      ultimately show "child (mem u) p j = child (mem s) p j" "kowned u p"
        using children_same [OF u(2) p] released_owned [OF u(2) p] Fk by auto
    qed
    have ownc: "kowned u c \<and> c \<noteq> a" if "i' \<in> set is" "child (mem s) a i' = Some p" "child (mem s) p j = Some c" for i' p j c
    proof -
      have c: "kowned s c" "c \<noteq> a" using Cons.prems(6) [of i' p j c] that by simp_all
      have "c \<notin> ?F" using Cons.prems(9) [of i i' q p _ c j] Some that i(2) by (auto simp: children_def)
      then show ?thesis using released_owned [OF u(2) c(1)] Fk c(2) by blast
    qed
    have "\<exists>t. clear_tables a is u = Inr t \<and>
        released (\<Union>q \<in> children (mem u) a (set is). children (mem u) q {..<512}) (children (mem u) a (set is)) u t"
    proof (rule Cons.IH [OF ua i(4,3)])
      fix j p assume j: "j \<in> set is" "child (mem u) a j = Some p"
      show "kowned u p \<and> p \<noteq> a" using ownp Cons.prems(5) [of j p] j by (auto simp: cha)
      show "kowned u c \<and> c \<noteq> a" if "child (mem u) p k = Some c" for k c
        using ownc [OF j(1)] chp [OF j(1)] j(2) that by (simp add: cha)
      fix j' p' assume j': "j' \<in> set is" "child (mem u) a j' = Some p'"
      show "c \<noteq> p" if "child (mem u) p' k = Some c" for k c
        using Cons.prems(7) [of j j' p p' k c] chp [OF j'(1)] j j' that by (simp add: cha)
      show "j = j' \<and> k = k'" if "child (mem u) p k = Some c" "child (mem u) p' k' = Some c" for k k' c
        using Cons.prems(9) [of j j' p p' k c k'] chp [OF j(1)] chp [OF j'(1)] j j' that by (simp add: cha)
    next
      show "j = j'" if "j \<in> set is" "j' \<in> set is" "child (mem u) a j = Some p" "child (mem u) a j' = Some p" for j j' p
        using Cons.prems(8) [of j j' p] that by (simp add: cha)
    qed
    moreover have kids: "children (mem u) a (set is) = children (mem s) a (set is)" by (simp add: children_def cha)
    moreover have "children (mem u) p {..<512} = children (mem s) p {..<512}" if "p \<in> children (mem s) a (set is)" for p
      using that chp by (auto simp: children_def)
    ultimately obtain t where t: "clear_tables a is u = Inr t"
        "released (\<Union>q \<in> children (mem s) a (set is). children (mem s) q {..<512}) (children (mem s) a (set is)) u t"
      by auto
    have "released (?F \<union> (\<Union>q \<in> children (mem s) a (set is). children (mem s) q {..<512})) ({q} \<union> children (mem s) a (set is)) s t"
      by (rule released_trans [OF u(2) t(2)]) (use Fk in blast)
    moreover have "clear_tables a (i # is) s = Inr t"
      using Some child_entry [OF i(1), of "mem s" a] u(1) t(1) by simp
    ultimately show ?thesis using Some by (simp add: children_insert)
  qed
qed

section \<open>The whole release\<close>

text \<open>
  The staged release gives back the tables of the address space and its page at 0x400000, and leaves the
  contents of every other page alone, those of the other user pages included.
\<close>

lemma free_vm_staged_released:
  assumes full: "vm_full r s"
  shows "\<exists>t. free_vm_staged r s = Inr t \<and>
    released (tables (mem s) r \<union> set_option (data_page (mem s) r (vm_index 0x400000))) {} s t"
proof -
  let ?V = "tables (mem s) r \<union> set_option (data_page (mem s) r (vm_index 0x400000))"
  obtain t where t: "free_page r 0x400000 s = Inr t" "vm_full r t" "tables (mem t) r = tables (mem s) r"
      "released (set_option (data_page (mem s) r (vm_index 0x400000))) (tables (mem s) r) s t"
    using free_page_full [OF full] by blast
  have d: "set_option (data_page (mem s) r (vm_index 0x400000)) \<subseteq> ?V" by blast
  note ok = vm_fullD(1) [OF t(2)] and inj = walk_inj [OF t(2)] and own = walk_owned [OF t(2)]
  let ?Q = "children (mem t) r {..<512}"
  let ?C = "\<Union>q \<in> ?Q. children (mem t) q {..<512}"
  have k: "kalloc_inv t" "kowned t r" using vm_okD(1) [OF ok] vm_okD(3) [OF ok, of Pgd] by simp_all
  have w1: "walk (mem t) r [i] = Some q" if "child (mem t) r i = Some q" for i q using that by simp
  have w2: "walk (mem t) r [i, j] = Some c" if "child (mem t) r i = Some q" "child (mem t) q j = Some c" for i j q c
    using that by simp
  have q: "kowned t q \<and> q \<noteq> r" if "child (mem t) r i = Some q" for i q
    using own [OF _ w1 [OF that]] inj [where p = "[i]" and q = "[]" and a = q, OF _ _ w1 [OF that]] by auto
  have c: "kowned t c \<and> c \<noteq> r" if "child (mem t) r i = Some q" "child (mem t) q j = Some c" for i q j c
    using own [OF _ w2 [OF that]] inj [where p = "[i, j]" and q = "[]" and a = c, OF _ _ w2 [OF that]] by auto
  have sep: "c \<noteq> q" if "child (mem t) r i = Some q" "child (mem t) r i' = Some q'" "child (mem t) q' j = Some c" for i q i' q' j c
    using inj [where p = "[i', j]" and q = "[i]" and a = c, OF _ _ w2 [OF that(2,3)]] w1 [OF that(1)] by auto
  have i1: "i = i'" if "child (mem t) r i = Some q" "child (mem t) r i' = Some q" for i i' q
    using inj [where p = "[i]" and q = "[i']" and a = q, OF _ _ w1 [OF that(1)] w1 [OF that(2)]] by simp
  have i2: "i = i' \<and> j = j'" if "child (mem t) r i = Some q" "child (mem t) r i' = Some q'" "child (mem t) q j = Some c"
    "child (mem t) q' j' = Some c" for i q j i' q' j' c
    using inj [where p = "[i, j]" and q = "[i', j']" and a = c, OF _ _ w2 [OF that(1,3)] w2 [OF that(2,4)]] by simp
  have "\<exists>u. clear_tables r indices t = Inr u \<and> released (\<Union>q \<in> children (mem t) r (set indices). children (mem t) q {..<512})
      (children (mem t) r (set indices)) t u"
    by (rule clear_tables_released [OF k distinct_indices]; (rule q c sep i1 i2 | simp); assumption)
  then obtain u where u: "clear_tables r indices t = Inr u" "released ?C ?Q t u" by auto
  have C: "kowned t x \<and> x \<noteq> r" if "x \<in> ?C" for x using that c by (auto simp: children_def)
  have Q: "kowned t x \<and> x \<noteq> r \<and> x \<notin> ?C" if "x \<in> ?Q" for x using that q sep unfolding children_def by blast
  have ku: "kalloc_inv u" "kowned u r" using u(2) released_owned [OF u(2) k(2)] C by (auto simp: released_def)
  have ch: "child (mem u) r i = child (mem t) r i" for i by (rule children_same [OF u(2) k(2)]) (use C Q in blast)
  have "\<exists>v. clear_entries r indices u = Inr v \<and> released (children (mem u) r (set indices)) {r} u v"
  proof (rule clear_entries_released [OF ku distinct_indices])
    show "kowned u p \<and> p \<noteq> r" if "i \<in> set indices" "child (mem u) r i = Some p" for i p
      using released_owned [OF u(2), of p] C Q [of p] that by (auto simp: children_def ch)
    show "i = j" if "child (mem u) r i = Some p" "child (mem u) r j = Some p" for i j p using that i1 by (simp add: ch)
  qed simp
  then obtain v where v: "clear_entries r indices u = Inr v" "released ?Q {r} u v" by (auto simp: children_def ch)
  have Qu: "kowned u x" if "x \<in> ?Q" for x using released_owned [OF u(2)] Q [OF that] C by blast
  have "kalloc_inv v" "kowned v r" using v(2) released_owned [OF v(2) ku(2)] Q Qu by (auto simp: released_def)
  then obtain w where w: "kfree r v = Inr w" "released {r} {} v w" using kfree_released by blast
  have run: "free_vm_staged r s = Inr w"
    using t(1) u(1) v(1) w(1) by (simp add: free_vm_staged_def free_pmd_def free_pud_def free_pgd_def)
  have tabs: "tables (mem t) r \<subseteq> ?V" unfolding t(3) by blast
  have "?Q \<subseteq> ?V" using tabs tab_tables [of "mem t" r "Pud _"] by (auto simp: children_def)
  moreover have "?C \<subseteq> ?V"
  proof
    fix x assume "x \<in> ?C"
    then obtain i q j where "child (mem t) r i = Some q" "child (mem t) q j = Some x" by (auto simp: children_def)
    then show "x \<in> ?V" using tabs tab_tables [of "mem t" r "Pmd i j"] by auto
  qed
  moreover have "r \<in> ?V" by simp
  moreover have sown: "kowned s x" if "x \<in> ?V" for x using vm_pages_owned [OF full] tables_pages data_pages that by fastforce
  ultimately have sub: "?C \<subseteq> ?V" "?Q \<subseteq> ?V" "{r} \<subseteq> ?V" by simp_all
  have "released ?V ?V s t" using released_mono [OF t(4) d, of ?V] by blast
  then have "released ?V ?V s u"
    using released_mono [OF released_trans [OF _ u(2) sown], of ?V ?V ?V ?V] sub by auto
  then have "released ?V ?V s v"
    using released_mono [OF released_trans [OF _ v(2) sown], of ?V ?V ?V ?V] sub by auto
  then have "released ?V ?V s w"
    using released_mono [OF released_trans [OF _ w(2) sown], of ?V ?V ?V ?V] sub by auto
  then have "released ?V {} s w" by (simp add: released_def)
  then show ?thesis using run by blast
qed

end
