(* ===== verification/Spec2Isabelle.thy ===== *)
theory Spec2Isabelle
  imports Boot_Code Kernel_Boot Trap_Correct Spinlock Page_List Vm_Staged
begin

text \<open>
  \<^bold>\<open>Verification of the TinyMultiCoreOSDI kernel\<close>

  The program is a small AArch64 kernel for the Raspberry Pi 3 with four cores.  The boot code
  (src/src/boot.s, mmu.s) brings every core to EL1 with the MMU on and calls \<open>KMain\<close> or \<open>secondary_main\<close>
  (main.c).  The kernel hands out 2 MiB pages (memory.c: buddy allocator, page tables), schedules
  processes on one ready list per core (process.c, with the lists of lib.c and the register switch of
  handler.s), reads a FAT16 volume that lies in memory (file.c), serves the system calls of user
  programs (syscall.c) on the exceptions of handler.s and handler.c, and drives a UART whose receive
  interrupt fills the keyboard ring (uart.c, keyboard.c).  All of them print through print.c, report a
  failed \<open>ASSERT\<close> through debug.c and take the spin locks of liba.s.

  \<^bold>\<open>How the model is built\<close>

  \<^item> Memory is one byte per 64-bit kernel virtual address (\<open>memory\<close>, theory \<open>Kernel_Memory\<close>) with the
    little-endian loads and stores of the compiled code.  Physical address \<open>p\<close> is address \<open>P2V p\<close> of it.
    Page tables, free-list nodes, trap frames, register blocks, the volume and user pages are bytes of
    this memory; the process table, the list heads, the file tables and the keyboard ring are typed
    fields, because the code only reaches them by name or by pointers it never converts.
  \<^item> The state grows with the components: \<open>kernel\<close> (memory, console output, locks, two linker symbols)
    is extended by \<open>sys\<close> (process and file tables, the registers of the cores a switch saves) and that by
    \<open>machine\<close> (keyboard, clocks, device registers).  An operation of a lower component is polymorphic in
    the extension and is applied as it is in the higher one.  Beside it stand \<open>boot_cpu\<close> (the system
    registers before the C code runs), \<open>cpu_state\<close> (the registers around an exception), \<open>key_ring\<close> and
    \<open>spin_state\<close> (the lock word and the instruction counters of all cores).
  \<^item> A function returns \<open>kerror + value\<close>.  \<open>Assert_failed f n\<close> is the endless loop of \<open>error_check\<close> at
    that line, \<open>Diverge\<close> a lock that is taken twice or a loop that is shown not to end; \<open>Null_deref\<close>,
    \<open>Out_of_bounds\<close>, \<open>Fault a\<close>, \<open>Bad_vararg\<close> and \<open>Div_by_zero\<close> are accesses and operations the C code
    performs unchecked.  \<open>Inl\<close> therefore means that the call does not return normally.
  \<^item> Integers have the width of the source (\<open>u8\<close>, \<open>u16\<close>, \<open>u32\<close>, \<open>u64\<close>, \<open>i32\<close>) and wrap; comparisons of
    \<open>int\<close> values are signed.
  \<^item> Loops over data whose shape the code trusts are \<open>partial_function (option)\<close> and \<open>None\<close> is a loop that
    does not end: \<open>list_search\<close>, \<open>count_from\<close>, \<open>scan_list\<close>, \<open>wake_core\<close>, \<open>read_clusters\<close>, \<open>map_blocks\<close>,
    \<open>block_loop\<close>, \<open>delay\<close>, \<open>wait_transmit\<close>, \<open>free_pages_from\<close>, \<open>print_pages\<close>, \<open>k_strcpy\<close>.  Every theorem about them
    states that a value is returned.
    \<open>buddy_fill\<close>, \<open>buddy_alloc_from\<close>, \<open>buddy_free_from\<close> and \<open>digits_loop\<close> are \<open>function\<close>s with a
    termination proof; loops over fixed index ranges recurse over the list of indices.  No fuel is used.
  \<^item> What is not code is a parameter: the value a device register yields at its n-th read (\<open>dev\<close>), the
    counter frequency (\<open>freq\<close>), SCTLR\_EL1 as read by the diagnostics (\<open>sctlr\<close>), the addresses the linker
    assigns (\<open>boot_image\<close>, \<open>sym_end\<close>, \<open>sym_allocator\<close>, \<open>sym_pstart\<close>, \<open>sym_pgd_ttbr0\<close>) and the bytes
    that follow a string literal (\<open>sym_after\<close>).
  \<^item> The cores run one kernel call at a time: a scheduling event or a system call is one step, and the
    theorems hold for every interleaving of such steps.  Code that sleeps in the middle of a call is split
    there (\<open>read_key_rest\<close>, \<open>resume_call\<close>).  Interleaving inside a call is modelled for the locks alone.

  \<^bold>\<open>The theories, from the bottom up\<close>

  \<^item> \<open>Kernel_Prelude\<close>, \<open>Kernel_Memory\<close>, \<open>Kernel_State\<close>: words, results, the bytes of memory with
    \<open>memset\<close>, \<open>memcpy\<close>, \<open>memcmp\<close> (liba.s), frame and disjointness lemmas, the boolean view of the locks.
  \<^item> \<open>Spinlock\<close>: \<open>spin_lock\<close> and \<open>spin_unlock\<close> instruction by instruction under all interleavings; mutual
    exclusion, and agreement with the boolean view.
  \<^item> \<open>Console\<close>: \<open>printk\<close> with its 1024-byte buffer (print.c), \<open>error_check\<close> (debug.c); it expands the
    format, and numerals read back.
  \<^item> \<open>List_Node\<close>, \<open>Buddy\<close>, \<open>Buddy_Correct\<close>, \<open>Buddy_Init\<close>: the allocator over its linked free lists; the
    abstraction to one list of blocks per order, the pages of the blocks as a multiset, initialisation.
  \<^item> \<open>Page_Allocator\<close>, \<open>Page_Store\<close>: the allocator's contract towards its clients, as locales.
  \<^item> \<open>Page_List\<close>: the allocator of the other configuration of memory.h (\<open>LinkListMode\<close>, one linked list of free
    pages), which meets the same contract and loses no page.
  \<^item> \<open>Page_Table\<close>, \<open>Page_Table_Correct\<close>, \<open>Vm_Release\<close>, \<open>Vm_Copy\<close>: the table walks of memory.c against
    the walk of the MMU; an address space is a tree of distinct pages (\<open>vm_ok\<close>, \<open>vm_full\<close>) that
    \<open>map_page\<close> extends, \<open>free_vm\<close> releases and \<open>copy_uvm\<close> duplicates.
  \<^item> \<open>Vm_Staged\<close>: the older release by \<open>free_pmd\<close>, \<open>free_pud\<close> and \<open>free_pgd\<close>, kept in the \<open>#else\<close> of \<open>free_vm\<close>.
  \<^item> \<open>Boot_Tables\<close>, \<open>Boot_Code\<close>: \<open>setup_vm2\<close>, \<open>setup_vm\<close>, boot.s, mmu.s; what the first tables map and
    how every core arrives in the C code.
  \<^item> \<open>Kernel_Objects\<close>, \<open>Head_List\<close>: the process, list and file structures; the lists of lib.c as sequences.
  \<^item> \<open>Scheduler\<close>, \<open>Scheduler_Correct\<close>, \<open>Scheduler_Traces\<close>: \<open>yield\<close>, \<open>sleep\<close>, \<open>wake_up\<close>, \<open>exit\<close>, \<open>schedule\<close>
    and the context switch; the invariant \<open>sched_inv s Q R\<close> (list contents \<open>Q\<close>, running processes \<open>R\<close>),
    the transition system \<open>sched_step\<close>, its traces, and an abstract scheduler that says when a process runs.
  \<^item> \<open>User_Access\<close>: kernel accesses through user pointers, translated by the tables in TTBR0.
  \<^item> \<open>File_System\<close>, \<open>File_Names\<close>, \<open>File_Read\<close>, \<open>Open_Files\<close>: the FAT16 reader of file.c; 8.3 names, reading
    against a specification in unbounded arithmetic, and exact reference counts (\<open>files_inv\<close>).
  \<^item> \<open>Process_Life\<close>, \<open>Process_Files\<close>, \<open>Process_Memory\<close>, \<open>Process_Birth\<close>, \<open>Process_Correct\<close>,
    \<open>Process_Fork\<close>, \<open>Process_Properties\<close>, \<open>Process_Exec\<close>, \<open>Process_Start\<close>: creation, \<open>fork\<close>, \<open>exec\<close> and
    \<open>wait\<close>; the pages of different processes are disjoint (\<open>spaces_ok\<close>), and each operation keeps the
    three invariants \<open>sched_inv\<close>, \<open>files_inv\<close>, \<open>spaces_ok\<close> together.
  \<^item> \<open>Process_Boot\<close>: \<open>init_fs\<close> and \<open>init_idle_process\<close> establish the three invariants from the zeroed objects of
    the kernel image (\<open>boot_inv\<close>).
  \<^item> \<open>Machine_State\<close>, \<open>Uart\<close>, \<open>Key_Ring\<close>, \<open>Keyboard\<close>: device registers, the UART driver, the ring and
    its interrupt and reader.
  \<^item> \<open>Syscall\<close>, \<open>Syscall_Correct\<close>, \<open>Syscall_Process\<close>: the fifteen calls, their dispatch on the trap frame
    and their resumption.
  \<^item> \<open>Trap_Handler\<close>, \<open>Trap_Correct\<close>: vector table, entry and exit sequences, \<open>handler\<close>, timer and interrupt
    controller.
  \<^item> \<open>Kernel_Main\<close>, \<open>Kernel_Boot\<close>: \<open>KMain\<close> and \<open>secondary_main\<close>; from the entry of \<open>KMain\<close> on a volume with the two
    first programs, the four cores reach the state in which the theorems about the running kernel begin.

  \<^bold>\<open>Interfaces\<close>

  \<open>page_allocator\<close> (distinct pages) is extended by \<open>leaky_allocator\<close> (nothing comes back from \<open>kfree\<close>) and
  by \<open>page_store\<close> (the bytes behind the pages); \<open>kpages\<close> and \<open>kstore\<close> interpret them on \<open>kalloc\<close> and
  \<open>kfree\<close>, and the page-table and process theories rest on \<open>kstore\<close>.  \<open>plist\<close> interprets
  \<open>page_store\<close> on the list of \<open>LinkListMode\<close>, and \<open>conserving_allocator\<close> (what is freed is free again), where
  \<open>leaky_allocator\<close> describes the buddy allocator, is interpreted there by \<open>plist_all\<close>.  \<open>fifo\<close> states what the scheduler needs
  of a list and is interpreted by \<open>proc_list\<close> on lib.c.  \<open>bounded_queue\<close> is interpreted by \<open>ring\<close> on the
  keyboard ring.

  \<^bold>\<open>Not modelled\<close>

  \<^item> Code under \<open>#if 0\<close> or in comments, and the disabled \<open>#else\<close> branches of \<open>buddy_init\<close>, \<open>free_page\<close>,
    \<open>copy_uvm\<close>, \<open>init_idle_process\<close> and \<open>wake_up\<close>, earlier versions of the code before them.
  \<^item> Caches and barriers (\<open>invalidate_dcache\<close> of boot.s, uncalled; \<open>dsb\<close>, \<open>isb\<close>, \<open>tlbi\<close>): memory is
    coherent and translations follow the tables at once.  The stores the boot code makes to its own stack.
  \<^item> Execution in user mode: a user program may write its own pages and its registers; the theorems about
    system calls and traps take the frame it leaves as given.
\<close>

end
